(* ===== verification/Prelude.thy ===== *)
theory Prelude
  imports Main "HOL-Library.Word" "HOL-Library.Signed_Division"
begin

text \<open>
  Shared vocabulary of the development: C integers, results of operations that may panic,
  and the table scans the kernel writes as \<open>for\<close> loops over fixed arrays.

  C's \<open>int\<close> is a value of type \<^typ>\<open>int\<close> kept in the 32-bit range by \<open>s32\<close>, which is
  applied to the result of every arithmetic operation of the source; \<open>uint\<close> is a
  \<open>32 word\<close> and \<open>addr_t\<close>/\<open>uint64\<close> a \<open>64 word\<close>, whose operations wrap around by
  themselves. C's \<open>/\<close> on \<open>int\<close> truncates, which is \<open>sdiv\<close> of HOL-Library.
\<close>

section \<open>Types and collections\<close>

type_synonym u8 = "8 word"
type_synonym u16 = "16 word"
type_synonym u32 = "32 word"
type_synonym u64 = "64 word"

named_theorems ksimps \<open>unfolding rules of the kernel operations\<close>
named_theorems kinv \<open>preservation lemmas of component invariants\<close>

section \<open>Signed 32-bit arithmetic\<close>

definition s32 :: "int \<Rightarrow> int" where
  "s32 x = (x + 2147483648) mod 4294967296 - 2147483648"

definition in_s32 :: "int \<Rightarrow> bool" where
  "in_s32 x \<longleftrightarrow> -2147483648 \<le> x \<and> x < 2147483648"

lemma s32_id [simp]: "in_s32 x \<Longrightarrow> s32 x = x"
  by (simp add: s32_def in_s32_def)

lemma s32_eq: "-2147483648 \<le> x \<Longrightarrow> x < 2147483648 \<Longrightarrow> s32 x = x"
  by (simp add: s32_def)

lemma in_s32_s32 [simp, intro]: "in_s32 (s32 x)"
  by (simp add: s32_def in_s32_def add.commute)

lemma s32_nonneg_eq: "0 \<le> x \<Longrightarrow> x < 2147483648 \<Longrightarrow> s32 x = x"
  by (rule s32_eq) auto

text \<open>Reading a \<open>uint\<close> as an \<open>int\<close>, as C's conversion does.\<close>

definition int_of_uint :: "u32 \<Rightarrow> int" where
  "int_of_uint w = sint w"

definition uint_of_int :: "int \<Rightarrow> u32" where
  "uint_of_int i = word_of_int i"

lemma in_s32_int_of_uint [simp, intro]: "in_s32 (int_of_uint w)"
  using sint_range_size [of w] by (simp add: int_of_uint_def in_s32_def size_word_def)

section \<open>Truncating division\<close>

lemma sdiv_nonneg: "0 \<le> a \<Longrightarrow> 0 \<le> b \<Longrightarrow> (a::int) sdiv b = a div b"
  by (cases "a = 0"; cases "b = 0") (auto simp: signed_divide_int_def)

lemma sdiv_neg_num: "a \<le> 0 \<Longrightarrow> 0 < b \<Longrightarrow> (a::int) sdiv b = - ((- a) div b)"
  by (cases "a = 0") (auto simp: signed_divide_int_def)

lemma sdiv_bounds:
  assumes "0 < b"
  shows "0 \<le> a \<Longrightarrow> 0 \<le> (a::int) sdiv b \<and> a sdiv b \<le> a"
    and "a \<le> 0 \<Longrightarrow> a \<le> (a::int) sdiv b \<and> a sdiv b \<le> 0"
proof -
  show "0 \<le> a \<Longrightarrow> 0 \<le> a sdiv b \<and> a sdiv b \<le> a"
    using assms zdiv_mono2 [of a 1 b] by (simp add: sdiv_nonneg pos_imp_zdiv_nonneg_iff)
  assume a: "a \<le> 0"
  have "0 \<le> (- a) div b" "(- a) div b \<le> - a"
    using assms a zdiv_mono2 [of "- a" 1 b] by (simp_all add: pos_imp_zdiv_nonneg_iff)
  then show "a \<le> a sdiv b \<and> a sdiv b \<le> 0"
    using assms a by (simp add: sdiv_neg_num)
qed


section \<open>Operations that may fail\<close>

text \<open>
  Addresses a process can sleep on (\<open>void *chan\<close>). Each constructor is the address of one
  kernel object, so distinct constructors are distinct addresses.
\<close>

datatype chan =
    Ch_ticks
  | Ch_proc nat
  | Ch_log
  | Ch_buf nat
  | Ch_buflock nat
  | Ch_inodelock nat
  | Ch_pipe_nread nat
  | Ch_pipe_nwrite nat
  | Ch_input

text \<open>
  A kernel operation either returns or ends in a failure: \<open>panic(msg)\<close>, a divide error, an
  access outside an array, a null pointer dereference, a call of \<open>sleep\<close> on a channel
  from an operation that is modelled as one uninterrupted run, or a loop that does not end.
\<close>

datatype failure =
    Panic string
  | DivideError
  | OutOfBounds
  | NullPointer
  | Sleeps chan
  | Diverges

type_synonym 'a res = "failure + 'a"

definition rbind :: "'a res \<Rightarrow> ('a \<Rightarrow> 'b res) \<Rightarrow> 'b res" where
  "rbind m f = (case m of Inl e \<Rightarrow> Inl e | Inr x \<Rightarrow> f x)"

lemma rbind_simps [simp]:
  "rbind (Inr x) f = f x"
  "rbind (Inl e) f = Inl e"
  by (simp_all add: rbind_def)

lemma rbind_eq_Inr [simp]: "rbind m f = Inr y \<longleftrightarrow> (\<exists>x. m = Inr x \<and> f x = Inr y)"
  by (cases m) auto

lemma rbind_assoc: "rbind (rbind m f) g = rbind m (\<lambda>x. rbind (f x) g)"
  by (cases m) auto

lemma rbind_cong [fundef_cong]:
  "m = m' \<Longrightarrow> (\<And>x. m' = Inr x \<Longrightarrow> f x = g x) \<Longrightarrow> rbind m f = rbind m' g"
  by (cases m') auto

section \<open>Scans of fixed tables\<close>

text \<open>\<open>for(i = 0; i < N; i++) if(P(a[i])) goto found;\<close>\<close>

fun first_index :: "('a \<Rightarrow> bool) \<Rightarrow> 'a list \<Rightarrow> nat option" where
  "first_index P [] = None"
| "first_index P (x # xs) = (if P x then Some 0 else map_option Suc (first_index P xs))"

lemma first_index_None [simp]: "first_index P xs = None \<longleftrightarrow> (\<forall>x\<in>set xs. \<not> P x)"
  by (induction xs) auto

lemma first_index_Some:
  "first_index P xs = Some i \<longleftrightarrow> i < length xs \<and> P (xs ! i) \<and> (\<forall>j<i. \<not> P (xs ! j))"
proof (induction xs arbitrary: i)
  case Nil
  then show ?case by simp
next
  case (Cons x xs)
  show ?case
  proof (cases i)
    case 0
    then show ?thesis by auto
  next
    case (Suc k)
    with Cons.IH [of k] show ?thesis by (auto simp: less_Suc_eq_0_disj)
  qed
qed

lemma first_index_less: "first_index P xs = Some i \<Longrightarrow> i < length xs"
  by (simp add: first_index_Some)

lemma first_index_holds: "first_index P xs = Some i \<Longrightarrow> P (xs ! i)"
  by (simp add: first_index_Some)

text \<open>\<open>a[i] = f(a[i])\<close>, for an index the code has already bounded.\<close>

definition upd_at :: "nat \<Rightarrow> ('a \<Rightarrow> 'a) \<Rightarrow> 'a list \<Rightarrow> 'a list" where
  "upd_at i f xs = xs[i := f (xs ! i)]"

lemma length_upd_at [simp]: "length (upd_at i f xs) = length xs"
  by (simp add: upd_at_def)

lemma nth_upd_at: "j < length xs \<Longrightarrow> upd_at i f xs ! j = (if i = j then f (xs ! j) else xs ! j)"
  by (simp add: upd_at_def nth_list_update)

lemma nth_upd_at_same [simp]: "i < length xs \<Longrightarrow> upd_at i f xs ! i = f (xs ! i)"
  by (simp add: nth_upd_at)

lemma nth_upd_at_other [simp]: "i \<noteq> j \<Longrightarrow> upd_at i f xs ! j = xs ! j"
  by (simp add: upd_at_def)

lemma upd_at_out [simp]: "length xs \<le> i \<Longrightarrow> upd_at i f xs = xs"
  by (simp add: upd_at_def list_update_beyond)

text \<open>Lifting a property of elements through the two table updates the kernel uses.\<close>

lemma list_all_upd_at:
  "list_all P xs \<Longrightarrow> (i < length xs \<Longrightarrow> P (xs ! i) \<Longrightarrow> P (f (xs ! i))) \<Longrightarrow> list_all P (upd_at i f xs)"
  by (auto simp: list_all_length nth_upd_at)

lemma list_all_mapI: "list_all P xs \<Longrightarrow> (\<And>x. P x \<Longrightarrow> P (f x)) \<Longrightarrow> list_all P (map f xs)"
  by (auto simp: list_all_iff)

lemma list_all_nthD: "list_all P xs \<Longrightarrow> i < length xs \<Longrightarrow> P (xs ! i)"
  by (simp add: list_all_length)

lemma find_upt_Some: "find P [0..<n] = Some i \<longleftrightarrow> i < n \<and> P i \<and> (\<forall>j<i. \<not> P j)"
  by (auto simp: find_Some_iff)

section \<open>Counted loops\<close>

text \<open>\<open>for(i = a; i < a + n; i++) body\<close>, where the body may fail.\<close>

fun for_range :: "nat \<Rightarrow> nat \<Rightarrow> (nat \<Rightarrow> 's \<Rightarrow> 's res) \<Rightarrow> 's \<Rightarrow> 's res" where
  "for_range i 0 body s = Inr s"
| "for_range i (Suc n) body s = rbind (body i s) (for_range (Suc i) n body)"

lemma for_range_cong [fundef_cong]:
  assumes "i = i'" and "n = n'" and "\<And>j t. i' \<le> j \<Longrightarrow> j < i' + n' \<Longrightarrow> f j t = g j t" and "s = s'"
  shows "for_range i n f s = for_range i' n' g s'"
  unfolding assms(1,2,4) using assms(3)
proof (induction n' arbitrary: i' s')
  case (Suc n)
  have "for_range (Suc i') n f t = for_range (Suc i') n g t" for t
    using Suc.prems by (intro Suc.IH) auto
  then show ?case using Suc.prems [of i'] by (cases "g i' s'") simp_all
qed simp

text \<open>A loop invariant that the body establishes for the next index.\<close>

lemma for_range_inv:
  assumes "P i s" and "\<And>j t. i \<le> j \<Longrightarrow> j < i + n \<Longrightarrow> P j t \<Longrightarrow> \<exists>t'. f j t = Inr t' \<and> P (Suc j) t'"
  shows "\<exists>t. for_range i n f s = Inr t \<and> P (i + n) t"
  using assms
proof (induction n arbitrary: i s)
  case (Suc n)
  obtain t where t: "f i s = Inr t" "P (Suc i) t" using Suc.prems(1) Suc.prems(2) [of i s] by auto
  have "\<exists>u. for_range (Suc i) n f t = Inr u \<and> P (Suc i + n) u"
    by (rule Suc.IH [OF t(2)]) (use Suc.prems(2) in simp)
  with t(1) show ?case by auto
qed simp

end
