(* ===== verification/Params.thy ===== *)
theory Params
  imports Prelude
begin

text \<open>
  The tunable scheduler parameters (\<open>proc.h\<close>, \<open>schedstat.h\<close>), their initial values
  (\<open>pinit\<close> in \<open>proc.c\<close>) and the validation and commit that \<open>sys_setschedparam\<close> of
  \<open>sysproc.c\<close> performs on a \<open>struct sched_update\<close>. Spinlocks are left out of the record:
  the fields are read and written inside critical sections.
\<close>

section \<open>Data\<close>

record sched_params =
  q0_quantum :: int
  q1_quantum :: int
  q2_quantum :: int
  boost_interval :: int
  ema_alpha_fast :: int
  ema_alpha_slow :: int
  aging_factor :: int
  agent_pid :: int
  sched_alert :: int
  rr_mode :: int

record sched_update =
  u_q0_quantum :: int
  u_q1_quantum :: int
  u_q2_quantum :: int
  u_boost_interval :: int
  u_ema_alpha_fast :: int
  u_ema_alpha_slow :: int
  u_aging_factor :: int
  u_rr_mode :: int

definition schedp_init :: sched_params where
  "schedp_init = \<lparr>
     q0_quantum = 4, q1_quantum = 6, q2_quantum = 8, boost_interval = 500,
     ema_alpha_fast = 50, ema_alpha_slow = 10, aging_factor = 50,
     agent_pid = 0, sched_alert = 0, rr_mode = 0\<rparr>"

section \<open>Validation and commit\<close>

text \<open>The early returns of \<open>sys_setschedparam\<close>, in the order of the source.\<close>

definition upd_rejected :: "sched_update \<Rightarrow> bool" where
  "upd_rejected u \<longleftrightarrow>
     (u_q0_quantum u < 1 \<or> u_q0_quantum u > 10) \<or>
     (u_q1_quantum u < 1 \<or> u_q1_quantum u > 20) \<or>
     (u_q2_quantum u < 1 \<or> u_q2_quantum u > 40) \<or>
     (u_boost_interval u < 10 \<or> u_boost_interval u > 500) \<or>
     (u_ema_alpha_fast u < 1 \<or> u_ema_alpha_fast u > 90) \<or>
     (u_ema_alpha_slow u < 1 \<or> u_ema_alpha_slow u > 50) \<or>
     (u_aging_factor u < 1 \<or> u_aging_factor u > 100) \<or>
     u_ema_alpha_slow u \<ge> u_ema_alpha_fast u \<or>
     (u_q1_quantum u < u_q0_quantum u \<or> u_q2_quantum u < u_q1_quantum u) \<or>
     (u_rr_mode u \<noteq> 0 \<and> u_rr_mode u \<noteq> 1)"

text \<open>The stores made under \<open>schedp.lock\<close>; the alert is cleared by the same commit.\<close>

definition commit_update :: "sched_update \<Rightarrow> sched_params \<Rightarrow> sched_params" where
  "commit_update u sp = sp\<lparr>
     q0_quantum := u_q0_quantum u, q1_quantum := u_q1_quantum u, q2_quantum := u_q2_quantum u,
     boost_interval := u_boost_interval u, ema_alpha_fast := u_ema_alpha_fast u,
     ema_alpha_slow := u_ema_alpha_slow u, aging_factor := u_aging_factor u,
     sched_alert := 0, rr_mode := u_rr_mode u\<rparr>"

text \<open>
  \<open>struct sched_update\<close> is eight consecutive \<open>int\<close>s at the user address; \<open>mem\<close> is the
  memory the kernel sees there, one 32-bit load per address.
\<close>

definition sizeof_sched_update :: u64 where
  "sizeof_sched_update = 32"

definition load_sched_update :: "(u64 \<Rightarrow> u32) \<Rightarrow> u64 \<Rightarrow> sched_update" where
  "load_sched_update mem a = \<lparr>
     u_q0_quantum = int_of_uint (mem a), u_q1_quantum = int_of_uint (mem (a + 4)),
     u_q2_quantum = int_of_uint (mem (a + 8)), u_boost_interval = int_of_uint (mem (a + 12)),
     u_ema_alpha_fast = int_of_uint (mem (a + 16)), u_ema_alpha_slow = int_of_uint (mem (a + 20)),
     u_aging_factor = int_of_uint (mem (a + 24)), u_rr_mode = int_of_uint (mem (a + 28))\<rparr>"

section \<open>The well-formedness invariant of the parameters\<close>

definition params_ok :: "sched_params \<Rightarrow> bool" where
  "params_ok sp \<longleftrightarrow>
     1 \<le> q0_quantum sp \<and> q0_quantum sp \<le> q1_quantum sp \<and> q1_quantum sp \<le> q2_quantum sp \<and>
     q0_quantum sp \<le> 10 \<and> q1_quantum sp \<le> 20 \<and> q2_quantum sp \<le> 40 \<and>
     10 \<le> boost_interval sp \<and> boost_interval sp \<le> 500 \<and>
     1 \<le> ema_alpha_slow sp \<and> ema_alpha_slow sp < ema_alpha_fast sp \<and>
     ema_alpha_fast sp \<le> 90 \<and> ema_alpha_slow sp \<le> 50 \<and>
     1 \<le> aging_factor sp \<and> aging_factor sp \<le> 100 \<and>
     (rr_mode sp = 0 \<or> rr_mode sp = 1)"

lemma params_ok_init [simp]: "params_ok schedp_init"
  by (simp add: params_ok_def schedp_init_def)

lemma params_ok_commit [kinv]: "\<not> upd_rejected u \<Longrightarrow> params_ok (commit_update u sp)"
  by (auto simp: params_ok_def upd_rejected_def commit_update_def)

text \<open>The validation accepts exactly the well-formed parameter sets: it refuses nothing it could take.\<close>

lemma params_ok_commit_iff: "params_ok (commit_update u sp) \<longleftrightarrow> \<not> upd_rejected u"
  by (auto simp: params_ok_def upd_rejected_def commit_update_def)

lemma params_ok_agent_pid [simp]: "params_ok (sp\<lparr>agent_pid := a\<rparr>) = params_ok sp"
  by (simp add: params_ok_def)

lemma params_ok_alert [simp]: "params_ok (sp\<lparr>sched_alert := a\<rparr>) = params_ok sp"
  by (simp add: params_ok_def)

lemma commit_update_agent [simp]: "agent_pid (commit_update u sp) = agent_pid sp"
  by (simp add: commit_update_def)

lemma commit_update_alert [simp]: "sched_alert (commit_update u sp) = 0"
  by (simp add: commit_update_def)

end
