(* ===== verification/Spinlock.thy ===== *)
theory Spinlock
  imports Prelude
begin

text \<open>
  \<open>struct cpu\<close> of \<open>proc.h\<close> and the spin locks of \<open>spinlock.c\<close>: \<open>pushcli\<close>/\<open>popcli\<close>,
  \<open>holding\<close>, and \<open>acquire\<close>/\<open>release\<close> cut at the points where another CPU can interleave.
  The debugging call stack (\<open>pcs\<close>, \<open>getcallerpcs\<close>) is not kept.
  The second half runs the protocol on any number of CPUs as a step relation and proves
  mutual exclusion by rule induction.
\<close>

section \<open>CPUs and locks\<close>

text \<open>
  \<open>intr\<close> is the interrupt flag of EFLAGS, \<open>cpu_proc\<close> the per-CPU variable \<open>proc\<close>
  (an index of the process table, \<open>None\<close> for the null pointer), \<open>cr3\<close> the page-table
  register and \<open>tss_rsp0\<close> the kernel stack top that \<open>switchuvm\<close> stores in the TSS.
\<close>

record cpu =
  apicid :: u8
  started :: u32
  ncli :: int
  intena :: bool
  intr :: bool
  cpu_proc :: "nat option"
  cr3 :: u64
  tss_rsp0 :: u64

record spinlock =
  locked :: u32
  lk_cpu :: "nat option"

definition initlock :: spinlock where
  "initlock = \<lparr>locked = 0, lk_cpu = None\<rparr>"

definition holding :: "nat \<Rightarrow> spinlock \<Rightarrow> bool" where
  "holding c lk \<longleftrightarrow> locked lk \<noteq> 0 \<and> lk_cpu lk = Some c"

section \<open>Matched interrupt disabling\<close>

definition pushcli :: "'z cpu_scheme \<Rightarrow> 'z cpu_scheme" where
  "pushcli c =
     (let eflags = intr c;
          c = c\<lparr>intr := False\<rparr>;
          c = (if ncli c = 0 then c\<lparr>intena := eflags\<rparr> else c)
      in c\<lparr>ncli := s32 (ncli c + 1)\<rparr>)"

definition popcli :: "'z cpu_scheme \<Rightarrow> 'z cpu_scheme res" where
  "popcli c =
     (if intr c then Inl (Panic ''popcli - interruptible'')
      else let c = c\<lparr>ncli := s32 (ncli c - 1)\<rparr>
           in if ncli c < 0 then Inl (Panic ''popcli'')
              else if ncli c = 0 \<and> intena c then Inr (c\<lparr>intr := True\<rparr>)
              else Inr c)"

text \<open>
  The nesting depth a CPU can reach is the number of locks it holds; one below the largest
  \<open>int\<close> is enough for the counter not to wrap.
\<close>

definition cli_ok :: "'z cpu_scheme \<Rightarrow> bool" where
  "cli_ok c \<longleftrightarrow> 0 \<le> ncli c \<and> ncli c < 2147483647 \<and> (0 < ncli c \<longrightarrow> \<not> intr c)"

lemma pushcli_fields [simp]:
  "cpu_proc (pushcli c) = cpu_proc c" "cr3 (pushcli c) = cr3 c" "tss_rsp0 (pushcli c) = tss_rsp0 c"
  "intr (pushcli c) = False"
  by (simp_all add: pushcli_def Let_def)

lemma ncli_pushcli: "cli_ok c \<Longrightarrow> ncli (pushcli c) = ncli c + 1"
  by (simp add: pushcli_def Let_def cli_ok_def s32_eq)

text \<open>
  \<open>popcli\<close> undoes \<open>pushcli\<close> whatever the interrupt state was, and never panics after one;
  only the dead value of \<open>intena\<close> at depth 0 may differ.
\<close>

lemma popcli_pushcli:
  assumes "cli_ok c"
  shows "popcli (pushcli c) = Inr (if ncli c = 0 then c\<lparr>intena := intr c\<rparr> else c)"
proof (cases "ncli c = 0")
  case True
  then show ?thesis
    by (cases c) (simp add: popcli_def pushcli_def Let_def s32_eq)
next
  case False
  with assms have "\<not> intr c" "0 < ncli c" "s32 (ncli c + 1) = ncli c + 1" "s32 (ncli c) = ncli c"
    by (auto simp: cli_ok_def s32_eq)
  with False show ?thesis
    by (cases c) (simp add: popcli_def pushcli_def Let_def)
qed

section \<open>The locking protocol on several CPUs\<close>

text \<open>
  \<open>xchg\<close> of \<open>x86.h\<close>: an atomic exchange. One turn of the spin loop of \<open>acquire\<close> succeeds
  when the old value was 0.
\<close>

definition xchg :: "u32 \<Rightarrow> u32 \<Rightarrow> u32 \<times> u32" where
  "xchg old new = (old, new)"

text \<open>
  Where a CPU is inside \<open>acquire\<close> and \<open>release\<close>: before the call, spinning on \<open>xchg\<close>,
  after a successful \<open>xchg\<close> and before \<open>lk->cpu = cpu\<close>, inside the critical section,
  and after \<open>lk->cpu = 0\<close> and before the final store of 0.
\<close>

datatype lockpc = Outside | Spinning | Locked | Critical | Unlocking

record lockstate =
  lock :: spinlock
  pcs :: "nat \<Rightarrow> lockpc"

definition lock_start :: lockstate where
  "lock_start = \<lparr>lock = initlock, pcs = (\<lambda>_. Outside)\<rparr>"

inductive lockstep :: "lockstate \<Rightarrow> lockstate \<Rightarrow> bool" where
  enter: "pcs s c = Outside \<Longrightarrow> \<not> holding c (lock s) \<Longrightarrow>
    lockstep s (s\<lparr>pcs := (pcs s)(c := Spinning)\<rparr>)"
| spin: "pcs s c = Spinning \<Longrightarrow> xchg (locked (lock s)) 1 = (old, new) \<Longrightarrow> old \<noteq> 0 \<Longrightarrow>
    lockstep s (s\<lparr>lock := (lock s)\<lparr>locked := new\<rparr>\<rparr>)"
| win: "pcs s c = Spinning \<Longrightarrow> xchg (locked (lock s)) 1 = (old, new) \<Longrightarrow> old = 0 \<Longrightarrow>
    lockstep s (s\<lparr>lock := (lock s)\<lparr>locked := new\<rparr>, pcs := (pcs s)(c := Locked)\<rparr>)"
| record_owner: "pcs s c = Locked \<Longrightarrow>
    lockstep s (s\<lparr>lock := (lock s)\<lparr>lk_cpu := Some c\<rparr>, pcs := (pcs s)(c := Critical)\<rparr>)"
| clear_owner: "pcs s c = Critical \<Longrightarrow> holding c (lock s) \<Longrightarrow>
    lockstep s (s\<lparr>lock := (lock s)\<lparr>lk_cpu := None\<rparr>, pcs := (pcs s)(c := Unlocking)\<rparr>)"
| store_zero: "pcs s c = Unlocking \<Longrightarrow>
    lockstep s (s\<lparr>lock := (lock s)\<lparr>locked := 0\<rparr>, pcs := (pcs s)(c := Outside)\<rparr>)"

inductive lock_reachable :: "lockstate \<Rightarrow> bool" where
  start: "lock_reachable lock_start"
| step: "lock_reachable s \<Longrightarrow> lockstep s t \<Longrightarrow> lock_reachable t"

definition inside :: "lockpc \<Rightarrow> bool" where
  "inside p \<longleftrightarrow> p = Locked \<or> p = Critical \<or> p = Unlocking"

lemma inside_simps [simp]:
  "\<not> inside Outside" "\<not> inside Spinning" "inside Locked" "inside Critical" "inside Unlocking"
  by (simp_all add: inside_def)

text \<open>
  The invariant names the CPU that is inside (if any) and ties the two fields of the lock to it.
\<close>

definition lock_owner :: "lockstate \<Rightarrow> nat option \<Rightarrow> bool" where
  "lock_owner s w \<longleftrightarrow>
     (\<forall>c. inside (pcs s c) \<longleftrightarrow> w = Some c) \<and>
     (locked (lock s) \<noteq> 0 \<longleftrightarrow> w \<noteq> None) \<and>
     (\<forall>c. lk_cpu (lock s) = Some c \<longleftrightarrow> pcs s c = Critical)"

definition lock_inv :: "lockstate \<Rightarrow> bool" where
  "lock_inv s \<longleftrightarrow> (\<exists>w. lock_owner s w)"

lemma lock_owner_start: "lock_owner lock_start None"
  by (simp add: lock_owner_def lock_start_def initlock_def)

lemma lock_owner_keep:
  assumes "lock_owner s w" and "pcs s c = p" and "inside p = inside q"
    and "q \<noteq> Critical" and "p \<noteq> Critical"
  shows "lock_owner (s\<lparr>pcs := (pcs s)(c := q)\<rparr>) w"
  using assms by (auto simp: lock_owner_def)

lemma lockstep_owner:
  assumes "lockstep s t" and "lock_owner s w"
  shows "\<exists>w'. lock_owner t w'"
  using assms
proof (induction rule: lockstep.induct)
  case (enter s c)
  then show ?case using lock_owner_keep [of s w c Outside Spinning] by auto
next
  case (spin s c old new)
  then have "lock_owner (s\<lparr>lock := (lock s)\<lparr>locked := new\<rparr>\<rparr>) w"
    by (auto simp: lock_owner_def xchg_def)
  then show ?case ..
next
  case (win s c old new)
  then have "lock_owner (s\<lparr>lock := (lock s)\<lparr>locked := new\<rparr>, pcs := (pcs s)(c := Locked)\<rparr>) (Some c)"
    by (auto simp: lock_owner_def xchg_def)
  then show ?case ..
next
  case (record_owner s c)
  then have "lock_owner (s\<lparr>lock := (lock s)\<lparr>lk_cpu := Some c\<rparr>, pcs := (pcs s)(c := Critical)\<rparr>) w"
    unfolding lock_owner_def by simp (metis inside_simps(3,4) option.inject)
  then show ?case ..
next
  case (clear_owner s c)
  then have "lock_owner (s\<lparr>lock := (lock s)\<lparr>lk_cpu := None\<rparr>, pcs := (pcs s)(c := Unlocking)\<rparr>) w"
    unfolding lock_owner_def by simp (metis inside_simps(4) option.inject)
  then show ?case ..
next
  case (store_zero s c)
  then have "lock_owner (s\<lparr>lock := (lock s)\<lparr>locked := 0\<rparr>, pcs := (pcs s)(c := Outside)\<rparr>) None"
    unfolding lock_owner_def
    by simp (metis inside_simps(5) lockpc.distinct(19) option.inject)
  then show ?case ..
qed

lemma lock_inv_start: "lock_inv lock_start"
  using lock_owner_start by (auto simp: lock_inv_def)

lemma lockstep_inv [kinv]: "lockstep s t \<Longrightarrow> lock_inv s \<Longrightarrow> lock_inv t"
  by (auto simp: lock_inv_def dest: lockstep_owner)

lemma lock_reachable_inv: "lock_reachable s \<Longrightarrow> lock_inv s"
  by (induction rule: lock_reachable.induct) (auto intro: lock_inv_start lockstep_inv)

text \<open>
  The holder's \<open>release\<close> never panics: a CPU in its critical section satisfies the test of
  \<open>holding\<close>, and a CPU that is spinning or outside does not.
\<close>

lemma critical_iff_holding: "lock_reachable s \<Longrightarrow> pcs s c = Critical \<longleftrightarrow> holding c (lock s)"
  using lock_reachable_inv [of s] unfolding lock_inv_def lock_owner_def holding_def
  by (metis inside_simps(4) option.discI)

lemma inside_unique: "lock_reachable s \<Longrightarrow> inside (pcs s c) \<Longrightarrow> inside (pcs s d) \<Longrightarrow> c = d"
  using lock_reachable_inv [of s] by (auto simp: lock_inv_def lock_owner_def)

end
