(* ===== verification/Strings.thy ===== *)
theory Strings
  imports Prelude
begin

text \<open>
  The byte operations of \<open>string.c\<close> and little-endian loads and stores.

  Memory is a function from addresses to bytes. \<open>memset\<close> and \<open>memmove\<close> work on one memory,
  where source and destination may overlap. The string functions read their arguments through
  a pointer \<open>p\<close>, whose \<open>i\<close>-th byte is \<open>p i\<close>, and the copying ones return the new contents
  of the destination.
\<close>

section \<open>Loads and stores\<close>

unbundle bit_operations_syntax

type_synonym 'a bytes = "'a \<Rightarrow> u8"
type_synonym mem = "u64 \<Rightarrow> u8"

definition ld16 :: "'a::numeral bytes \<Rightarrow> 'a \<Rightarrow> u16" where
  "ld16 m a = ucast (m a) OR push_bit 8 (ucast (m (a + 1)))"

definition st16 :: "'a::numeral \<Rightarrow> u16 \<Rightarrow> 'a bytes \<Rightarrow> 'a bytes" where
  "st16 a v m = m(a := ucast v, a + 1 := ucast (drop_bit 8 v))"

definition ld32 :: "'a::numeral bytes \<Rightarrow> 'a \<Rightarrow> u32" where
  "ld32 m a = ucast (m a) OR push_bit 8 (ucast (m (a + 1))) OR push_bit 16 (ucast (m (a + 2)))
              OR push_bit 24 (ucast (m (a + 3)))"

definition st32 :: "'a::numeral \<Rightarrow> u32 \<Rightarrow> 'a bytes \<Rightarrow> 'a bytes" where
  "st32 a v m = m(a := ucast v, a + 1 := ucast (drop_bit 8 v), a + 2 := ucast (drop_bit 16 v),
                  a + 3 := ucast (drop_bit 24 v))"

definition ld64 :: "'a::numeral bytes \<Rightarrow> 'a \<Rightarrow> u64" where
  "ld64 m a = ucast (ld32 m a) OR push_bit 32 (ucast (ld32 m (a + 4)))"

definition st64 :: "'a::numeral \<Rightarrow> u64 \<Rightarrow> 'a bytes \<Rightarrow> 'a bytes" where
  "st64 a v m = st32 (a + 4) (ucast (drop_bit 32 v)) (st32 a (ucast v) m)"

section \<open>\<open>memset\<close>, \<open>memcmp\<close>, \<open>memmove\<close>\<close>

fun stosb :: "u64 \<Rightarrow> u8 \<Rightarrow> nat \<Rightarrow> mem \<Rightarrow> mem" where
  "stosb a b 0 m = m"
| "stosb a b (Suc k) m = stosb (a + 1) b k (m(a := b))"

fun stosl :: "u64 \<Rightarrow> u32 \<Rightarrow> nat \<Rightarrow> mem \<Rightarrow> mem" where
  "stosl a w 0 m = m"
| "stosl a w (Suc k) m = stosl (a + 4) w k (st32 a w m)"

definition memset :: "u64 \<Rightarrow> u32 \<Rightarrow> u64 \<Rightarrow> mem \<Rightarrow> mem" where
  "memset dst c n m =
     (if dst mod 4 = 0 \<and> n mod 4 = 0
      then let c = c AND 0xFF
           in stosl dst (push_bit 24 c OR push_bit 16 c OR push_bit 8 c OR c) (unat (n div 4)) m
      else stosb dst (ucast c) (unat n) m)"

fun memcmp_loop :: "(nat \<Rightarrow> u8) \<Rightarrow> (nat \<Rightarrow> u8) \<Rightarrow> nat \<Rightarrow> nat \<Rightarrow> int" where
  "memcmp_loop s1 s2 i 0 = 0"
| "memcmp_loop s1 s2 i (Suc n) =
     (if s1 i \<noteq> s2 i then uint (s1 i) - uint (s2 i) else memcmp_loop s1 s2 (Suc i) n)"

definition memcmp :: "(nat \<Rightarrow> u8) \<Rightarrow> (nat \<Rightarrow> u8) \<Rightarrow> u32 \<Rightarrow> int" where
  "memcmp v1 v2 n = memcmp_loop v1 v2 0 (unat n)"

fun move_up :: "u64 \<Rightarrow> u64 \<Rightarrow> nat \<Rightarrow> mem \<Rightarrow> mem" where
  "move_up d s 0 m = m"
| "move_up d s (Suc n) m = move_up (d + 1) (s + 1) n (m(d := m s))"

fun move_down :: "u64 \<Rightarrow> u64 \<Rightarrow> nat \<Rightarrow> mem \<Rightarrow> mem" where
  "move_down d s 0 m = m"
| "move_down d s (Suc n) m = move_down (d - 1) (s - 1) n (m(d - 1 := m (s - 1)))"

definition memmove :: "u64 \<Rightarrow> u64 \<Rightarrow> u32 \<Rightarrow> mem \<Rightarrow> mem" where
  "memmove dst src n m =
     (if src < dst \<and> src + ucast n > dst
      then move_down (dst + ucast n) (src + ucast n) (unat n) m
      else move_up dst src (unat n) m)"

definition memcpy :: "u64 \<Rightarrow> u64 \<Rightarrow> u32 \<Rightarrow> mem \<Rightarrow> mem" where
  "memcpy dst src n m = memmove dst src n m"

section \<open>Strings\<close>

fun strncmp_loop :: "(nat \<Rightarrow> u8) \<Rightarrow> (nat \<Rightarrow> u8) \<Rightarrow> nat \<Rightarrow> nat \<Rightarrow> int" where
  "strncmp_loop p q i 0 = 0"
| "strncmp_loop p q i (Suc n) =
     (if p i \<noteq> 0 \<and> p i = q i then strncmp_loop p q (Suc i) n else uint (p i) - uint (q i))"

definition strncmp :: "(nat \<Rightarrow> u8) \<Rightarrow> (nat \<Rightarrow> u8) \<Rightarrow> u32 \<Rightarrow> int" where
  "strncmp p q n = strncmp_loop p q 0 (unat n)"

fun pad_zero :: "nat \<Rightarrow> nat \<Rightarrow> (nat \<Rightarrow> u8) \<Rightarrow> (nat \<Rightarrow> u8)" where
  "pad_zero i 0 s = s"
| "pad_zero i (Suc n) s = pad_zero (Suc i) n (s(i := 0))"

fun strncpy_loop :: "(nat \<Rightarrow> u8) \<Rightarrow> nat \<Rightarrow> nat \<Rightarrow> (nat \<Rightarrow> u8) \<Rightarrow> (nat \<Rightarrow> u8)" where
  "strncpy_loop t i 0 s = s"
| "strncpy_loop t i (Suc n) s =
     (let s = s(i := t i) in if t i \<noteq> 0 then strncpy_loop t (Suc i) n s else pad_zero (Suc i) n s)"

definition strncpy :: "(nat \<Rightarrow> u8) \<Rightarrow> int \<Rightarrow> (nat \<Rightarrow> u8) \<Rightarrow> (nat \<Rightarrow> u8)" where
  "strncpy t n s = strncpy_loop t 0 (nat n) s"

fun safestrcpy_loop :: "(nat \<Rightarrow> u8) \<Rightarrow> nat \<Rightarrow> nat \<Rightarrow> (nat \<Rightarrow> u8) \<Rightarrow> (nat \<Rightarrow> u8)" where
  "safestrcpy_loop t i 0 s = s(i := 0)"
| "safestrcpy_loop t i (Suc n) s =
     (let s = s(i := t i) in if t i \<noteq> 0 then safestrcpy_loop t (Suc i) n s else s(Suc i := 0))"

definition safestrcpy :: "(nat \<Rightarrow> u8) \<Rightarrow> int \<Rightarrow> (nat \<Rightarrow> u8) \<Rightarrow> (nat \<Rightarrow> u8)" where
  "safestrcpy t n s = (if n \<le> 0 then s else safestrcpy_loop t 0 (nat n - 1) s)"

partial_function (option) strlen_from :: "(nat \<Rightarrow> u8) \<Rightarrow> nat \<Rightarrow> nat option" where
  "strlen_from s n = (if s n \<noteq> 0 then strlen_from s (Suc n) else Some n)"

definition strlen :: "(nat \<Rightarrow> u8) \<Rightarrow> nat option" where
  "strlen s = strlen_from s 0"

section \<open>Loads read what stores wrote\<close>

lemma bit_ucast_byte: "bit (ucast (b :: u8) :: 'b::len word) n \<longleftrightarrow> bit b n \<and> n < LENGTH('b) \<and> n < 8"
  using bit_imp_le_length [of b n] by (auto simp: bit_ucast_iff)

lemma word32_of_bytes:
  "(ucast (ucast v :: u8) OR push_bit 8 (ucast (ucast (drop_bit 8 v) :: u8)) OR
    push_bit 16 (ucast (ucast (drop_bit 16 v) :: u8)) OR push_bit 24 (ucast (ucast (drop_bit 24 v) :: u8)))
   = (v :: u32)"
proof (rule bit_word_eqI)
  fix n assume "n < LENGTH(32)"
  then consider "n < 8" | "8 \<le> n" "n < 16" | "16 \<le> n" "n < 24" | "24 \<le> n" "n < 32"
    by fastforce
  then show "bit (ucast (ucast v :: u8) OR push_bit 8 (ucast (ucast (drop_bit 8 v) :: u8)) OR
    push_bit 16 (ucast (ucast (drop_bit 16 v) :: u8)) OR push_bit 24 (ucast (ucast (drop_bit 24 v) :: u8)) :: u32) n
    = bit v n"
    by cases (auto simp: bit_simps)
qed

lemma word16_of_bytes:
  "(ucast (ucast v :: u8) OR push_bit 8 (ucast (ucast (drop_bit 8 v) :: u8))) = (v :: u16)"
  by (rule bit_word_eqI) (auto simp: bit_simps)

lemma word64_of_halves:
  "(ucast (ucast v :: u32) OR push_bit 32 (ucast (ucast (drop_bit 32 v) :: u32))) = (v :: u64)"
  by (rule bit_word_eqI) (auto simp: bit_simps)

lemma unat_minus_one_u64 [simp]: "unat (- 1 :: u64) = 18446744073709551615"
  by (simp add: unsigned_minus_1_eq_mask mask_eq_exp_minus_1)

lemma ld16_st16 [simp]:
  "ld16 (st16 a v m) (a :: u64) = v" "ld16 (st16 b v n) (b :: nat) = v"
  by (simp_all add: ld16_def st16_def word16_of_bytes)

lemma ld32_st32 [simp]:
  "ld32 (st32 a v m) (a :: u64) = v" "ld32 (st32 b v n) (b :: nat) = v"
  by (simp_all add: ld32_def st32_def word32_of_bytes)

lemma st32_other: "unat (x - a) \<ge> 4 \<Longrightarrow> st32 a v m x = m (x :: u64)"
  by (auto simp: st32_def)

lemma st32_other_nat: "x < a \<or> a + 4 \<le> x \<Longrightarrow> st32 a v m x = m (x :: nat)"
  by (auto simp: st32_def)

lemma ld32_cong: "m a = m' a \<Longrightarrow> m (a + 1) = m' (a + 1) \<Longrightarrow> m (a + 2) = m' (a + 2) \<Longrightarrow>
    m (a + 3) = m' (a + 3) \<Longrightarrow> ld32 m a = ld32 m' a"
  by (simp add: ld32_def)

lemma ld32_st32_other_nat: "b + 4 \<le> a \<or> a + 4 \<le> b \<Longrightarrow> ld32 (st32 a v m) b = ld32 m (b :: nat)"
  by (rule ld32_cong) (auto intro!: st32_other_nat)

lemma ld64_st64 [simp]:
  "ld64 (st64 a v m) (a :: u64) = v" "ld64 (st64 b v n) (b :: nat) = v"
proof -
  have "ld32 (st64 a v m) a = ucast v"
    unfolding st64_def by (subst ld32_cong [of _ _ "st32 a (ucast v) m"]) (auto intro!: st32_other)
  moreover have "ld32 (st64 a v m) (a + 4) = ucast (drop_bit 32 v)" by (simp add: st64_def)
  ultimately show "ld64 (st64 a v m) a = v" by (simp add: ld64_def word64_of_halves)
  have "ld32 (st64 b v n) b = ucast v" by (simp add: st64_def ld32_st32_other_nat)
  moreover have "ld32 (st64 b v n) (b + 4) = ucast (drop_bit 32 v)" by (simp add: st64_def)
  ultimately show "ld64 (st64 b v n) b = v" by (simp add: ld64_def word64_of_halves)
qed

section \<open>\<open>memset\<close> and \<open>memmove\<close> as updates of an address range\<close>

text \<open>\<open>x\<close> lies in the \<open>n\<close> bytes from \<open>a\<close> when its offset from \<open>a\<close> is below \<open>n\<close>.\<close>

lemma unat_minus_Suc: "(x :: u64) \<noteq> a \<Longrightarrow> unat (x - a) = Suc (unat (x - (a + 1)))"
proof -
  assume "x \<noteq> a"
  then have "x - a \<noteq> 0" by simp
  then have "unat (x - a - 1) = unat (x - a) - 1" "unat (x - a) \<noteq> 0"
    by (simp_all add: unat_minus_one unat_eq_0)
  moreover have "x - (a + 1) = x - a - 1" by simp
  ultimately show ?thesis by (metis Suc_diff_1 One_nat_def neq0_conv)
qed

lemma stosb_eq: "k < 2 ^ 64 \<Longrightarrow> stosb a b k m x = (if unat (x - a) < k then b else m x)"
proof (induction k arbitrary: a m)
  case (Suc k)
  then have *: "stosb a b (Suc k) m x = (if unat (x - (a + 1)) < k then b else (m(a := b)) x)"
    by simp
  show ?case
  proof (cases "x = a")
    case True
    then show ?thesis using * Suc.prems by simp
  next
    case False
    then show ?thesis using * by (simp add: unat_minus_Suc)
  qed
qed simp

lemma unat_4_u64: "unat (4 :: u64) = 4"
  by simp

lemma st32_rep:
  fixes b :: u8
  defines "c \<equiv> ucast b :: u32"
  shows "st32 a (push_bit 24 c OR push_bit 16 c OR push_bit 8 c OR c) m = stosb a b 4 m"
proof -
  have bytes: "ucast (push_bit 24 c OR push_bit 16 c OR push_bit 8 c OR c) = b"
    "ucast (drop_bit 8 (push_bit 24 c OR push_bit 16 c OR push_bit 8 c OR c)) = b"
    "ucast (drop_bit 16 (push_bit 24 c OR push_bit 16 c OR push_bit 8 c OR c)) = b"
    "ucast (drop_bit 24 (push_bit 24 c OR push_bit 16 c OR push_bit 8 c OR c)) = b"
    unfolding c_def by (rule bit_word_eqI, auto simp: bit_simps dest: bit_imp_le_length)+
  have "stosb a b 4 m = m(a := b, a + 1 := b, a + 2 := b, a + 3 := b)"
    by (simp add: numeral_eq_Suc add.assoc)
  with bytes show ?thesis by (simp add: st32_def)
qed

lemma stosb_add: "stosb a b (j + k) m = stosb (a + of_nat j) b k (stosb a b j m)"
  by (induction j arbitrary: a m) (simp_all add: algebra_simps)

lemma stosl_rep:
  fixes b :: u8
  defines "c \<equiv> ucast b :: u32"
  shows "stosl a (push_bit 24 c OR push_bit 16 c OR push_bit 8 c OR c) k m = stosb a b (4 * k) m"
proof (induction k arbitrary: a m)
  case (Suc k)
  then show ?case
    using stosb_add [of a b 4 "4 * k" m] by (simp add: st32_rep c_def)
qed simp

lemma memset_eq: "memset dst c n m x = (if x - dst < n then ucast c else m x)"
proof -
  let ?b = "ucast c :: u8"
  have c: "c AND 0xFF = ucast ?b"
  proof -
    have "c AND mask 8 = ucast ?b" by (rule bit_word_eqI) (auto simp: bit_simps)
    then show ?thesis by (simp add: mask_eq_exp_minus_1)
  qed
  have n: "4 * unat (n div 4) = unat n" if "n mod 4 = 0"
  proof -
    have "unat n mod 4 = 0" using that by (metis unat_mod_distrib unat_4_u64 unat_0)
    then show ?thesis by (simp add: unat_div_distrib) presburger
  qed
  have "unat n < 2 ^ 64" using unsigned_less [of n, where ?'a = nat] by simp
  then show ?thesis
    by (simp add: memset_def Let_def c stosl_rep n stosb_eq word_less_nat_alt)
qed

text \<open>
  Copying upwards is right when no byte is read after it was overwritten: the destination does
  not start inside the source behind its first byte.
\<close>

lemma move_up_eq:
  assumes "k < 2 ^ 64"
    and "\<And>i j. i < j \<Longrightarrow> j < k \<Longrightarrow> d + of_nat i \<noteq> s + (of_nat j :: u64)"
  shows "move_up d s k m x = (if unat (x - d) < k then m (s + (x - d)) else m x)"
  using assms
proof (induction k arbitrary: d s m)
  case (Suc k)
  have ne: "d + 1 + of_nat i \<noteq> s + 1 + (of_nat j :: u64)" if "i < j" "j < k" for i j
    using Suc.prems(2) [of "Suc i" "Suc j"] that by (simp add: algebra_simps)
  have *: "move_up d s (Suc k) m x = (if unat (x - (d + 1)) < k
             then (m(d := m s)) (s + 1 + (x - (d + 1))) else (m(d := m s)) x)"
    using Suc.IH [OF _ ne] Suc.prems(1) by simp
  show ?case
  proof (cases "x = d")
    case True
    then show ?thesis using * Suc.prems(1) by simp
  next
    case False
    have "d \<noteq> s + (x - d)" if "unat (x - d) < Suc k"
      using Suc.prems(2) [of 0 "unat (x - d)"] that False by (simp add: unat_gt_0)
    moreover have "s + 1 + (x - (d + 1)) = s + (x - d)" by simp
    ultimately show ?thesis using False * unat_minus_Suc [OF False] by auto
  qed
qed simp

lemma move_down_eq:
  assumes "k < 2 ^ 64"
    and "\<And>i j. i < j \<Longrightarrow> j < k \<Longrightarrow> d + of_nat j \<noteq> s + (of_nat i :: u64)"
  shows "move_down (d + of_nat k) (s + of_nat k) k m x
         = (if unat (x - d) < k then m (s + (x - d)) else m x)"
  using assms
proof (induction k arbitrary: m)
  case (Suc k)
  have *: "move_down (d + of_nat (Suc k)) (s + of_nat (Suc k)) (Suc k) m x
     = (if unat (x - d) < k then (m(d + of_nat k := m (s + of_nat k))) (s + (x - d))
        else (m(d + of_nat k := m (s + of_nat k))) x)"
    using Suc.IH Suc.prems by (simp add: algebra_simps)
  have k: "unat (x - d) = k \<longleftrightarrow> x = d + of_nat k"
  proof -
    have "unat (of_nat k :: u64) = k" using Suc.prems(1) by (simp add: unat_of_nat)
    then have "unat (x - d) = k \<longleftrightarrow> x - d = of_nat k" by (simp add: word_unat_eq_iff)
    then show ?thesis by (simp add: algebra_simps)
  qed
  have "d + of_nat k \<noteq> s + (x - d)" if "unat (x - d) < k"
    using Suc.prems(2) [of "unat (x - d)" k] that by simp
  with * k show ?case by (auto simp: less_Suc_eq)
qed simp

text \<open>\<open>memmove\<close> copies the old contents of the source, however the two ranges overlap.\<close>

lemma memmove_eq:
  assumes src: "unat src + unat n < 2 ^ 64" and dst: "unat dst + unat n < 2 ^ 64"
  shows "memmove dst src n m x = (if unat (x - dst) < unat n then m (src + (x - dst)) else m x)"
proof -
  have n: "ucast n = (of_nat (unat n) :: u64)" "unat n < 2 ^ 64"
    using unsigned_less [of n, where ?'a = nat] by simp_all
  have at: "unat (a + of_nat i) = unat a + i" if "unat a + unat n < 2 ^ 64" "i < unat n" for a :: u64 and i
    using that by (simp add: unat_word_ariths unat_of_nat)
  have "unat (ucast n :: u64) = unat n"
    using n(2) by (subst n(1), subst unat_of_nat) simp
  then have e: "unat (src + ucast n) = unat src + unat n"
    using src by (simp add: unat_word_ariths)
  show ?thesis
  proof (cases "src < dst \<and> src + ucast n > dst")
    case True
    have "dst + of_nat j \<noteq> src + of_nat i" if "i < j" "j < unat n" for i j
      using that True at [OF src, of i] at [OF dst, of j] by (auto simp: word_less_nat_alt)
    then show ?thesis
      using True move_down_eq [of "unat n" dst src m x] n(2) by (simp add: memmove_def)
  next
    case False
    have "dst + of_nat i \<noteq> src + of_nat j" if "i < j" "j < unat n" for i j
    proof
      assume "dst + of_nat i = src + of_nat j"
      then have "unat dst + i = unat src + j" using that at [OF src, of j] at [OF dst, of i] by simp
      with that have "src < dst" "unat dst < unat src + unat n" by (simp_all add: word_less_nat_alt)
      with e False show False by (simp add: word_less_nat_alt)
    qed
    then show ?thesis
      using False move_up_eq [of "unat n" dst src m x] n(2) by (auto simp: memmove_def)
  qed
qed

section \<open>String functions on C strings\<close>

text \<open>\<open>p\<close> points to the NUL-terminated string \<open>s\<close>.\<close>

definition str_at :: "(nat \<Rightarrow> u8) \<Rightarrow> u8 list \<Rightarrow> bool" where
  "str_at p s \<longleftrightarrow> (\<forall>i<length s. p i = s ! i \<and> s ! i \<noteq> 0) \<and> p (length s) = 0"

lemma str_at_nz: "str_at p s \<Longrightarrow> i < length s \<Longrightarrow> p i = s ! i \<and> p i \<noteq> 0"
  by (simp add: str_at_def)

lemma strlen_from_str: "str_at p s \<Longrightarrow> n \<le> length s \<Longrightarrow> strlen_from p n = Some (length s)"
proof (induction "length s - n" arbitrary: n)
  case 0
  then show ?case by (subst strlen_from.simps) (simp add: str_at_def)
next
  case (Suc k)
  then show ?case using Suc.hyps(1) [of "Suc n"]
    by (subst strlen_from.simps) (simp add: str_at_def)
qed

lemma strlen_str: "str_at p s \<Longrightarrow> strlen p = Some (length s)"
  by (simp add: strlen_def strlen_from_str)

lemma str_at_Nil [simp]: "str_at p [] \<longleftrightarrow> p 0 = 0"
  by (simp add: str_at_def)

lemma str_at_Cons [simp]:
  "str_at p (c # s) \<longleftrightarrow> p 0 = c \<and> c \<noteq> 0 \<and> str_at (\<lambda>i. p (Suc i)) s"
  by (auto simp: str_at_def nth_Cons split: nat.splits)

lemma strncmp_loop_shift:
  "strncmp_loop p q (Suc i) n = strncmp_loop (\<lambda>j. p (Suc j)) (\<lambda>j. q (Suc j)) i n"
  by (induction n arbitrary: i) simp_all

lemma strncmp_loop_str:
  "str_at p s \<Longrightarrow> str_at q t \<Longrightarrow> strncmp_loop p q 0 n = 0 \<longleftrightarrow> take n s = take n t"
proof (induction n arbitrary: p q s t)
  case (Suc n)
  show ?case
  proof (cases s; cases t)
    fix c s' d t' assume *: "s = c # s'" "t = d # t'"
    have "strncmp_loop (\<lambda>j. p (Suc j)) (\<lambda>j. q (Suc j)) 0 n = 0 \<longleftrightarrow> take n s' = take n t'"
      using Suc.prems * by (intro Suc.IH) simp_all
    with Suc.prems * show ?thesis by (auto simp: strncmp_loop_shift word_uint_eq_iff)
  qed (use Suc.prems in \<open>auto simp: uint_0_iff\<close>)
qed simp

lemma strncmp_str:
  "str_at p s \<Longrightarrow> str_at q t \<Longrightarrow> strncmp p q n = 0 \<longleftrightarrow> take (unat n) s = take (unat n) t"
  by (simp add: strncmp_def strncmp_loop_str)

lemma memcmp_zero: "memcmp v1 v2 n = 0 \<longleftrightarrow> (\<forall>i<unat n. v1 i = v2 i)"
proof -
  have "memcmp_loop v1 v2 i k = 0 \<longleftrightarrow> (\<forall>j<k. v1 (i + j) = v2 (i + j))" for i k
    by (induction k arbitrary: i) (auto simp: less_Suc_eq_0_disj word_uint_eq_iff)
  then show ?thesis by (simp add: memcmp_def)
qed

lemma pad_zero_eq: "pad_zero i n s j = (if i \<le> j \<and> j < i + n then 0 else s j)"
  by (induction n arbitrary: i s) auto

lemma strncpy_loop_eq:
  "str_at t u \<Longrightarrow> i \<le> length u \<Longrightarrow> strncpy_loop t i n s j =
     (if i \<le> j \<and> j < i + n then (if j < length u then u ! j else 0) else s j)"
proof (induction n arbitrary: i s)
  case (Suc n)
  show ?case
  proof (cases "i < length u")
    case True
    then show ?thesis using Suc.prems str_at_nz [of t u i] by (auto simp: Let_def Suc.IH)
  next
    case False
    then have "i = length u" "t i = 0" using Suc.prems by (auto simp: str_at_def)
    then show ?thesis by (auto simp: Let_def pad_zero_eq)
  qed
qed auto

lemma strncpy_str:
  "str_at t u \<Longrightarrow> strncpy t n s j =
     (if j < nat n then (if j < length u then u ! j else 0) else s j)"
  by (simp add: strncpy_def strncpy_loop_eq)

lemma safestrcpy_loop_str:
  "str_at t u \<Longrightarrow> i \<le> length u \<Longrightarrow> (\<And>j. j < i \<Longrightarrow> s j = u ! j) \<Longrightarrow>
     str_at (safestrcpy_loop t i n s) (take (i + n) u)"
proof (induction n arbitrary: i s)
  case 0
  then show ?case using str_at_nz [OF 0(1)] by (simp add: str_at_def)
next
  case (Suc n)
  show ?case
  proof (cases "i < length u")
    case True
    then have "str_at (safestrcpy_loop t (Suc i) n (s(i := t i))) (take (Suc i + n) u)"
      using Suc.prems str_at_nz [of t u i] by (intro Suc.IH) (auto simp: less_Suc_eq)
    then show ?thesis using True Suc.prems str_at_nz [of t u i] by (auto simp: Let_def)
  next
    case False
    then have "i = length u" "t i = 0" using Suc.prems by (auto simp: str_at_def)
    then show ?thesis using Suc.prems str_at_nz [OF Suc.prems(1)] by (auto simp: Let_def str_at_def)
  qed
qed

lemma safestrcpy_str:
  "str_at t u \<Longrightarrow> 0 < n \<Longrightarrow> str_at (safestrcpy t n s) (take (nat n - 1) u)"
  using safestrcpy_loop_str [of t u 0 s "nat n - 1"] by (simp add: safestrcpy_def)

text \<open>The copy stays inside the \<open>n\<close> bytes of the destination.\<close>

lemma safestrcpy_loop_frame: "i + n < j \<Longrightarrow> safestrcpy_loop t i n s j = s j"
  by (induction n arbitrary: i s) (auto simp: Let_def)

lemma safestrcpy_frame: "nat n \<le> j \<Longrightarrow> safestrcpy t n s j = s j"
  by (auto simp: safestrcpy_def intro: safestrcpy_loop_frame)

end
