(* ===== verification/Proc.thy ===== *)
theory Proc
  imports Params Spinlock Strings
begin

text \<open>
  The process table of \<open>proc.c\<close>: \<open>struct proc\<close>, the globals of \<open>proc.c\<close> and \<open>trap.c\<close>
  that the scheduler works on, and the operations on them: slot allocation, \<open>sched\<close>,
  \<open>yield\<close>, \<open>sleep\<close>, \<open>wakeup\<close>, the table parts of \<open>exit\<close> and \<open>wait\<close>, \<open>kill\<close>, alarms,
  signal dispositions and the telemetry snapshot.

  Pointers to processes are indices of the table. A critical section of \<open>ptable.lock\<close> is one
  function; the depth counters of \<open>pushcli\<close> are kept because \<open>sched\<close> tests them. A process
  that has called \<open>swtch\<close> is resumed at the point recorded in \<open>kctx\<close>. Console output of
  \<open>cprintf\<close> is not part of the state.
\<close>

section \<open>Data\<close>

definition NPROC :: nat where "NPROC = 64"
definition NOFILE :: nat where "NOFILE = 16"
definition KSTACKSIZE :: u64 where "KSTACKSIZE = 4096"
definition PGSIZE :: u64 where "PGSIZE = 4096"
definition KERNBASE :: u64 where "KERNBASE = 0xFFFF800000000000"

definition v2p :: "u64 \<Rightarrow> u64" where "v2p a = a - KERNBASE"
definition p2v :: "u64 \<Rightarrow> u64" where "p2v a = a + KERNBASE"

lemma v2p_p2v [simp]: "v2p (p2v a) = a" and p2v_v2p [simp]: "p2v (v2p a) = a"
  by (simp_all add: v2p_def p2v_def)

datatype procstate = UNUSED | EMBRYO | SLEEPING | RUNNABLE | RUNNING | ZOMBIE

text \<open>The values of the enumeration, as \<open>(int)p->state\<close> reports them.\<close>

fun state_code :: "procstate \<Rightarrow> int" where
  "state_code UNUSED = 0"
| "state_code EMBRYO = 1"
| "state_code SLEEPING = 2"
| "state_code RUNNABLE = 3"
| "state_code RUNNING = 4"
| "state_code ZOMBIE = 5"

definition SIGINT :: int where "SIGINT = 2"
definition SIGKILL :: int where "SIGKILL = 9"
definition SIGALRM :: int where "SIGALRM = 14"

record trapframe =
  rax :: u64
  rbx :: u64
  rcx :: u64
  rdx :: u64
  rbp :: u64
  rsi :: u64
  rdi :: u64
  r8 :: u64
  r9 :: u64
  r10 :: u64
  r11 :: u64
  r12 :: u64
  r13 :: u64
  r14 :: u64
  r15 :: u64
  trapno :: u64
  err :: u64
  rip :: u64
  cs :: u64
  rflags :: u64
  rsp :: u64
  ss :: u64

definition tf_zero :: trapframe where
  "tf_zero = \<lparr>rax = 0, rbx = 0, rcx = 0, rdx = 0, rbp = 0, rsi = 0, rdi = 0, r8 = 0, r9 = 0,
     r10 = 0, r11 = 0, r12 = 0, r13 = 0, r14 = 0, r15 = 0, trapno = 0, err = 0, rip = 0, cs = 0,
     rflags = 0, rsp = 0, ss = 0\<rparr>"

text \<open>
  The saved kernel context (\<open>p->context\<close>): where the process continues when \<open>swtch\<close> returns
  to it.
\<close>

datatype kcode = At_forkret | At_yield | At_sleep | At_exit

record proc =
  sz :: u64
  pgdir :: u64
  kstack :: u64
  state :: procstate
  pid :: int
  parent :: "nat option"
  tf :: trapframe
  kctx :: kcode
  saved_intena :: bool
  chan :: "chan option"
  killed :: int
  ofile :: "nat option list"
  cwd :: "nat option"
  pname :: "u8 list"
  tf_backup :: trapframe
  signal_pending :: int
  alarm_ticks :: int
  alarm_countdown :: int
  sig_disp :: "u64 list"
  queue_level :: int
  ticks_remaining :: int
  wait_ticks :: int
  burst_ema_fast :: int
  burst_ema_slow :: int
  burst_start_tick :: int
  yield_count :: int
  preempt_count :: int
  burst_variance :: int
  page_fault_count :: int
  effective_score :: int
  first_run_tick :: int
  create_tick :: int

text \<open>A slot of the zero-initialised table.\<close>

definition proc_zero :: proc where
  "proc_zero = \<lparr>sz = 0, pgdir = 0, kstack = 0, state = UNUSED, pid = 0, parent = None,
     tf = tf_zero, kctx = At_forkret, saved_intena = False, chan = None, killed = 0,
     ofile = replicate NOFILE None, cwd = None, pname = replicate 16 0, tf_backup = tf_zero,
     signal_pending = 0, alarm_ticks = 0, alarm_countdown = 0, sig_disp = replicate 32 0,
     queue_level = 0, ticks_remaining = 0, wait_ticks = 0, burst_ema_fast = 0,
     burst_ema_slow = 0, burst_start_tick = 0, yield_count = 0, preempt_count = 0,
     burst_variance = 0, page_fault_count = 0, effective_score = 0, first_run_tick = 0,
     create_tick = 0\<rparr>"

text \<open>
  The globals: \<open>ptable.proc\<close>, \<open>nextpid\<close>, \<open>initproc\<close>, \<open>schedp\<close>, \<open>fgpid\<close>, \<open>ticks\<close>, the
  two statics of \<open>scheduler\<close>, the per-CPU array and the physical address of the kernel page
  table that \<open>switchkvm\<close> loads.
\<close>

record pstate =
  ptable :: "proc list"
  nextpid :: int
  initproc :: "nat option"
  schedp :: sched_params
  fgpid :: int
  ticks :: u32
  last_boost_tick :: u32
  rr_next :: nat
  cpus :: "cpu list"
  kpml4_pa :: u64

definition pinit :: "'z pstate_scheme \<Rightarrow> 'z pstate_scheme" where
  "pinit s = s\<lparr>schedp := schedp_init\<rparr>"

abbreviation upd_proc :: "nat \<Rightarrow> (proc \<Rightarrow> proc) \<Rightarrow> 'z pstate_scheme \<Rightarrow> 'z pstate_scheme" where
  "upd_proc i f s \<equiv> s\<lparr>ptable := upd_at i f (ptable s)\<rparr>"

abbreviation upd_cpu :: "nat \<Rightarrow> (cpu \<Rightarrow> cpu) \<Rightarrow> 'z pstate_scheme \<Rightarrow> 'z pstate_scheme" where
  "upd_cpu c f s \<equiv> s\<lparr>cpus := upd_at c f (cpus s)\<rparr>"

abbreviation curproc :: "nat \<Rightarrow> 'z pstate_scheme \<Rightarrow> nat option" where
  "curproc c s \<equiv> cpu_proc (cpus s ! c)"

definition cpu_popcli :: "nat \<Rightarrow> 'z pstate_scheme \<Rightarrow> 'z pstate_scheme res" where
  "cpu_popcli c s = rbind (popcli (cpus s ! c)) (\<lambda>k. Inr (s\<lparr>cpus := (cpus s)[c := k]\<rparr>))"

section \<open>Slot allocation\<close>

text \<open>The fields \<open>allocproc\<close> sets while it holds the lock.\<close>

definition init_slot :: "int \<Rightarrow> u32 \<Rightarrow> proc \<Rightarrow> proc" where
  "init_slot npid now p = p\<lparr>
     state := EMBRYO, signal_pending := 0, alarm_ticks := 0, alarm_countdown := 0,
     sig_disp := replicate 32 0, pid := npid,
     queue_level := 0, ticks_remaining := 1, wait_ticks := 0,
     burst_ema_fast := 100, burst_ema_slow := 100, burst_start_tick := 0,
     yield_count := 0, preempt_count := 0, burst_variance := 0, page_fault_count := 0,
     effective_score := 0, first_run_tick := 0, create_tick := int_of_uint now\<rparr>"

definition alloc_slot :: "'z pstate_scheme \<Rightarrow> nat option \<times> 'z pstate_scheme" where
  "alloc_slot s =
     (case first_index (\<lambda>p. state p = UNUSED) (ptable s) of
        None \<Rightarrow> (None, s)
      | Some i \<Rightarrow> (Some i, (upd_proc i (init_slot (nextpid s) (ticks s)) s)
                            \<lparr>nextpid := s32 (nextpid s + 1)\<rparr>))"

text \<open>
  The rest of \<open>allocproc\<close>, given the page \<open>kst\<close> that \<open>kalloc\<close> returned for the kernel
  stack: the new context starts at \<open>forkret\<close>.
\<close>

definition alloc_context :: "u64 \<Rightarrow> proc \<Rightarrow> proc" where
  "alloc_context kst p =
     (if kst = 0 then p\<lparr>kstack := 0, state := UNUSED\<rparr> else p\<lparr>kstack := kst, kctx := At_forkret\<rparr>)"

definition safestrcpy_name :: "u8 list \<Rightarrow> u8 list \<Rightarrow> u8 list" where
  "safestrcpy_name src dst = map (safestrcpy (\<lambda>i. src ! i) 16 (\<lambda>i. dst ! i)) [0..<length dst]"

text \<open>
  What \<open>fork\<close> stores in the child \<open>np\<close> of process \<open>i\<close> (record \<open>p\<close>), given the page table
  \<open>pg\<close> that \<open>copyuvm\<close> returned.
\<close>

definition fork_child :: "nat \<Rightarrow> proc \<Rightarrow> u64 \<Rightarrow> proc \<Rightarrow> proc" where
  "fork_child i p pg np =
     (if pg = 0 then np\<lparr>pgdir := 0, kstack := 0, state := UNUSED\<rparr>
      else np\<lparr>pgdir := pg, sz := sz p, parent := Some i, tf := (tf p)\<lparr>rax := 0\<rparr>,
             ofile := map (\<lambda>k. if ofile p ! k \<noteq> None then ofile p ! k else ofile np ! k) [0..<NOFILE],
             cwd := cwd p, pname := safestrcpy_name (pname p) (pname np), state := RUNNABLE\<rparr>)"

section \<open>Giving up the CPU\<close>

text \<open>
  The scheduler's side of a switch back from a process: \<open>switchkvm\<close>, \<open>proc = 0\<close> and the
  release of \<open>ptable.lock\<close>.
\<close>

definition scheduler_back :: "nat \<Rightarrow> 'z pstate_scheme \<Rightarrow> 'z pstate_scheme res" where
  "scheduler_back c s =
     cpu_popcli c (upd_cpu c (\<lambda>k. k\<lparr>cr3 := kpml4_pa s, cpu_proc := None\<rparr>) s)"

text \<open>
  \<open>sched\<close>: its four tests and the switch to this CPU's scheduler. \<open>held\<close> is the outcome of
  \<open>holding(&ptable.lock)\<close>; every caller acquires the lock a few lines earlier. \<open>kc\<close> is the
  point the process will be resumed at.
\<close>

definition sched :: "bool \<Rightarrow> kcode \<Rightarrow> nat \<Rightarrow> nat \<Rightarrow> 'z pstate_scheme \<Rightarrow> 'z pstate_scheme res" where
  "sched held kc c i s =
     (if \<not> held then Inl (Panic ''sched ptable.lock'')
      else if ncli (cpus s ! c) \<noteq> 1 then Inl (Panic ''sched locks'')
      else if state (ptable s ! i) = RUNNING then Inl (Panic ''sched running'')
      else if intr (cpus s ! c) then Inl (Panic ''sched interruptible'')
      else scheduler_back c
             (upd_proc i (\<lambda>p. p\<lparr>kctx := kc, saved_intena := intena (cpus s ! c)\<rparr>) s))"

definition yield :: "nat \<Rightarrow> 'z pstate_scheme \<Rightarrow> 'z pstate_scheme res" where
  "yield c s =
     (case curproc c s of
        None \<Rightarrow> Inl NullPointer
      | Some i \<Rightarrow>
          sched True At_yield c i
            (upd_proc i (\<lambda>p. p\<lparr>yield_count := s32 (yield_count p + 1), state := RUNNABLE\<rparr>)
              (upd_cpu c pushcli s)))"

text \<open>
  \<open>sleep(chan, lk)\<close> up to the switch. \<open>lk\<close> is null, \<open>ptable.lock\<close> or another spin lock;
  in the last case \<open>ptable.lock\<close> is acquired and \<open>lk\<close> released before the state changes.
\<close>

datatype lkref = PtableLock | OtherLock

definition sleep :: "chan \<Rightarrow> lkref option \<Rightarrow> nat \<Rightarrow> 'z pstate_scheme \<Rightarrow> 'z pstate_scheme res" where
  "sleep ch lk c s =
     (case curproc c s of
        None \<Rightarrow> Inl (Panic ''sleep'')
      | Some i \<Rightarrow>
          (case lk of
             None \<Rightarrow> Inl (Panic ''sleep without lk'')
           | Some l \<Rightarrow>
               rbind (if l \<noteq> PtableLock then cpu_popcli c (upd_cpu c pushcli s) else Inr s)
                 (\<lambda>s. sched True At_sleep c i
                        (upd_proc i (\<lambda>p. p\<lparr>chan := Some ch, state := SLEEPING\<rparr>) s))))"

text \<open>
  What a process does when \<open>swtch\<close> returns to it, up to the release of \<open>ptable.lock\<close>: the
  tails of \<open>forkret\<close>, \<open>yield\<close>, \<open>sleep\<close> and \<open>exit\<close>. A process that slept in \<open>wait\<close>
  keeps the lock for its next scan of the table; here it releases the lock and acquires it
  again, which lets other CPUs do more than the code does.
\<close>

definition resume :: "nat \<Rightarrow> nat \<Rightarrow> 'z pstate_scheme \<Rightarrow> 'z pstate_scheme res" where
  "resume c i s =
     (let p = ptable s ! i;
          s1 = upd_cpu c (\<lambda>k. k\<lparr>intena := saved_intena p\<rparr>) s
      in case kctx p of
           At_forkret \<Rightarrow> cpu_popcli c s
         | At_yield \<Rightarrow> cpu_popcli c s1
         | At_sleep \<Rightarrow> cpu_popcli c (upd_proc i (\<lambda>p. p\<lparr>chan := None\<rparr>) s1)
         | At_exit \<Rightarrow> Inl (Panic ''zombie exit''))"

section \<open>Waking up\<close>

definition wakeup1 :: "chan option \<Rightarrow> proc list \<Rightarrow> proc list" where
  "wakeup1 ch ps =
     map (\<lambda>p. if state p = SLEEPING \<and> chan p = ch then p\<lparr>state := RUNNABLE\<rparr> else p) ps"

definition wakeup :: "chan \<Rightarrow> 'z pstate_scheme \<Rightarrow> 'z pstate_scheme" where
  "wakeup ch s = s\<lparr>ptable := wakeup1 (Some ch) (ptable s)\<rparr>"

section \<open>Exit and wait\<close>

text \<open>
  The part of \<open>exit\<close> under \<open>ptable.lock\<close>: the agent slot is released, the parent woken, the
  children handed to \<open>initproc\<close> (waking it for each zombie), and the process becomes a zombie.
\<close>

fun reparent :: "nat \<Rightarrow> nat option \<Rightarrow> nat \<Rightarrow> proc list \<Rightarrow> proc list" where
  "reparent i ini 0 ps = ps"
| "reparent i ini (Suc n) ps =
     (let j = length ps - Suc n in
      if parent (ps ! j) = Some i
      then let ps1 = upd_at j (\<lambda>p. p\<lparr>parent := ini\<rparr>) ps
           in reparent i ini n
                (if state (ps1 ! j) = ZOMBIE then wakeup1 (map_option Ch_proc ini) ps1 else ps1)
      else reparent i ini n ps)"

definition exit_ptable :: "nat \<Rightarrow> 'z pstate_scheme \<Rightarrow> 'z pstate_scheme res" where
  "exit_ptable c s =
     (case curproc c s of
        None \<Rightarrow> Inl NullPointer
      | Some i \<Rightarrow>
          let s = upd_cpu c pushcli s;
              sp = schedp s;
              sp = (if agent_pid sp = pid (ptable s ! i) then sp\<lparr>agent_pid := 0\<rparr> else sp);
              ps = wakeup1 (map_option Ch_proc (parent (ptable s ! i))) (ptable s);
              ps = reparent i (initproc s) (length ps) ps
          in sched True At_exit c i
               (upd_proc i (\<lambda>p. p\<lparr>state := ZOMBIE\<rparr>) (s\<lparr>schedp := sp, ptable := ps\<rparr>)))"

definition wait_zombie :: "nat \<Rightarrow> proc list \<Rightarrow> nat option" where
  "wait_zombie i ps = first_index (\<lambda>p. parent p = Some i \<and> state p = ZOMBIE) ps"

definition havekids :: "nat \<Rightarrow> proc list \<Rightarrow> bool" where
  "havekids i ps \<longleftrightarrow> list_ex (\<lambda>p. parent p = Some i) ps"

text \<open>The fields \<open>wait\<close> clears in the slot of a reaped child.\<close>

definition reap_slot :: "proc \<Rightarrow> proc" where
  "reap_slot p = p\<lparr>kstack := 0, pid := 0, parent := None, pname := (pname p)[0 := 0],
                   killed := 0, state := UNUSED\<rparr>"

section \<open>Alarms and signals\<close>

definition alarm_tick :: "proc \<Rightarrow> proc" where
  "alarm_tick p =
     (if alarm_ticks p > 0
      then let p = p\<lparr>alarm_countdown := s32 (alarm_countdown p - 1)\<rparr>
           in if alarm_countdown p \<le> 0
              then let p = p\<lparr>signal_pending := SIGALRM, alarm_ticks := 0, alarm_countdown := 0\<rparr>
                   in if state p = SLEEPING then p\<lparr>state := RUNNABLE\<rparr> else p
              else p
      else p)"

definition check_alarms :: "'z pstate_scheme \<Rightarrow> 'z pstate_scheme" where
  "check_alarms s = s\<lparr>ptable := map alarm_tick (ptable s)\<rparr>"

text \<open>\<open>signal(signum, handler)\<close> on the current process.\<close>

definition signal :: "int \<Rightarrow> u64 \<Rightarrow> proc \<Rightarrow> proc" where
  "signal signum handler p =
     (if signum \<ge> 0 \<and> signum < 32
      then p\<lparr>sig_disp := (sig_disp p)[nat signum := handler]\<rparr> else p)"

definition kill :: "int \<Rightarrow> int \<Rightarrow> 'z pstate_scheme \<Rightarrow> int \<times> 'z pstate_scheme" where
  "kill target signum s =
     (case first_index (\<lambda>p. pid p = target) (ptable s) of
        None \<Rightarrow> (-1, s)
      | Some i \<Rightarrow>
          (0, upd_proc i (\<lambda>p. let p = p\<lparr>signal_pending := signum\<rparr>
                              in if state p = SLEEPING then p\<lparr>state := RUNNABLE\<rparr> else p) s))"

definition send_fgsig :: "int \<Rightarrow> 'z pstate_scheme \<Rightarrow> 'z pstate_scheme" where
  "send_fgsig signum s = (if fgpid s > 0 then snd (kill (fgpid s) signum s) else s)"

section \<open>Telemetry\<close>

record schedstat =
  st_pid :: int
  st_state :: int
  st_queue_level :: int
  st_burst_ema_fast :: int
  st_burst_ema_slow :: int
  st_wait_ticks :: int
  st_yield_count :: int
  st_preempt_count :: int
  st_burst_variance :: int
  st_page_fault_count :: int
  st_effective_score :: int
  st_sched_alert :: int
  st_first_run_tick :: int
  st_create_tick :: int

definition stat_entry :: "int \<Rightarrow> proc \<Rightarrow> schedstat" where
  "stat_entry alert p = \<lparr>
     st_pid = pid p, st_state = state_code (state p), st_queue_level = queue_level p,
     st_burst_ema_fast = burst_ema_fast p, st_burst_ema_slow = burst_ema_slow p,
     st_wait_ticks = wait_ticks p, st_yield_count = yield_count p,
     st_preempt_count = preempt_count p, st_burst_variance = burst_variance p,
     st_page_fault_count = page_fault_count p, st_effective_score = effective_score p,
     st_sched_alert = alert, st_first_run_tick = first_run_tick p,
     st_create_tick = create_tick p\<rparr>"

text \<open>
  The copy loop of \<open>kern_getschedstats\<close>: \<open>n\<close> entries are already in the buffer, and the
  loop runs while slots remain and \<open>n < maxproc\<close>.
\<close>

fun stats_loop :: "int \<Rightarrow> int \<Rightarrow> int \<Rightarrow> proc list \<Rightarrow> schedstat list" where
  "stats_loop alert maxproc n [] = []"
| "stats_loop alert maxproc n (p # ps) =
     (if n < maxproc
      then if state p = UNUSED then stats_loop alert maxproc n ps
           else stat_entry (if n = 0 then alert else 0) p # stats_loop alert maxproc (n + 1) ps
      else [])"

definition kern_getschedstats :: "int \<Rightarrow> 'z pstate_scheme \<Rightarrow> schedstat list" where
  "kern_getschedstats maxproc s = stats_loop (sched_alert (schedp s)) maxproc 0 (ptable s)"

definition kern_pin_agent :: "nat \<Rightarrow> 'z pstate_scheme \<Rightarrow> 'z pstate_scheme" where
  "kern_pin_agent i s =
     upd_proc i (\<lambda>p. p\<lparr>queue_level := 0, ticks_remaining := q0_quantum (schedp s)\<rparr>) s"

end
