(* ===== verification/Scheduler.thy ===== *)
theory Scheduler
  imports Proc
begin

text \<open>
  One turn of the loop of \<open>scheduler\<close> in \<open>proc.c\<close>, step by step as the source numbers them:
  priority boost, aging, selection (round robin or MLFQ with shortest-job-first scores) and
  dispatch. The parameters are the snapshot \<open>sp\<close> taken at the top of the turn.
\<close>

section \<open>Step 1: priority boost\<close>

definition boost_slot :: "int \<Rightarrow> proc \<Rightarrow> proc" where
  "boost_slot snap_q0 p =
     (if state p = UNUSED then p
      else p\<lparr>queue_level := 0, ticks_remaining := snap_q0, wait_ticks := 0\<rparr>)"

definition boost_due :: "sched_params \<Rightarrow> 'z pstate_scheme \<Rightarrow> bool" where
  "boost_due sp s \<longleftrightarrow> ticks s - last_boost_tick s \<ge> uint_of_int (boost_interval sp)"

definition sched_boost :: "sched_params \<Rightarrow> 'z pstate_scheme \<Rightarrow> 'z pstate_scheme" where
  "sched_boost sp s =
     (if boost_due sp s
      then s\<lparr>ptable := map (boost_slot (q0_quantum sp)) (ptable s), last_boost_tick := ticks s\<rparr>
      else s)"

section \<open>Step 2: aging\<close>

fun age_loop :: "proc list \<Rightarrow> int \<Rightarrow> proc list \<times> int" where
  "age_loop [] alert = ([], alert)"
| "age_loop (p # ps) alert =
     (if state p \<noteq> RUNNABLE then (let (qs, a) = age_loop ps alert in (p # qs, a))
      else let p = p\<lparr>wait_ticks := s32 (wait_ticks p + 1)\<rparr>;
               alert = (if wait_ticks p > 100 \<and> alert = 0 then 1 else alert);
               (qs, a) = age_loop ps alert
           in (p # qs, a))"

definition sched_age :: "'z pstate_scheme \<Rightarrow> 'z pstate_scheme" where
  "sched_age s =
     (let (ps, a) = age_loop (ptable s) (sched_alert (schedp s))
      in s\<lparr>ptable := ps, schedp := (schedp s)\<lparr>sched_alert := a\<rparr>\<rparr>)"

section \<open>Step 3: selection\<close>

text \<open>Round robin: scan from the rotating start index; the next scan starts behind the pick.\<close>

definition select_rr :: "'z pstate_scheme \<Rightarrow> nat option \<times> 'z pstate_scheme" where
  "select_rr s =
     (case find (\<lambda>i. state (ptable s ! ((rr_next s + i) mod NPROC)) = RUNNABLE) [0..<NPROC] of
        None \<Rightarrow> (None, s)
      | Some i \<Rightarrow> let j = (rr_next s + i) mod NPROC
                  in (Some j, s\<lparr>rr_next := (j + 1) mod NPROC\<rparr>))"

text \<open>
  The score \<open>burst_ema_fast / 100 - wait_ticks / snap_aging\<close>; dividing by a zero aging factor
  is a divide error.
\<close>

definition score :: "int \<Rightarrow> proc \<Rightarrow> int" where
  "score aging p = s32 (burst_ema_fast p sdiv 100 - wait_ticks p sdiv aging)"

definition score_of :: "int \<Rightarrow> proc \<Rightarrow> int res" where
  "score_of aging p = (if aging = 0 then Inl DivideError else Inr (score aging p))"

text \<open>
  The scan of one queue: \<open>n\<close> slots are left, \<open>best\<close> is the best index so far. Scores are
  stored in the table as the scan passes, and compared there.
\<close>

fun scan_queue :: "int \<Rightarrow> int \<Rightarrow> nat \<Rightarrow> nat option \<Rightarrow> proc list \<Rightarrow> (nat option \<times> proc list) res" where
  "scan_queue aging q 0 best ps = Inr (best, ps)"
| "scan_queue aging q (Suc n) best ps =
     (let i = length ps - Suc n; p = ps ! i in
      if state p \<noteq> RUNNABLE then scan_queue aging q n best ps
      else if queue_level p \<noteq> q then scan_queue aging q n best ps
      else rbind (score_of aging p) (\<lambda>sc.
             let ps = upd_at i (\<lambda>p. p\<lparr>effective_score := sc\<rparr>) ps
             in scan_queue aging q n
                  (case best of
                     None \<Rightarrow> Some i
                   | Some b \<Rightarrow> if effective_score (ps ! i) < effective_score (ps ! b)
                               then Some i else Some b) ps))"

fun scan_queues :: "int \<Rightarrow> int list \<Rightarrow> proc list \<Rightarrow> (nat option \<times> proc list) res" where
  "scan_queues aging [] ps = Inr (None, ps)"
| "scan_queues aging (q # qs) ps =
     rbind (scan_queue aging q (length ps) None ps)
       (\<lambda>(best, ps). if best \<noteq> None then Inr (best, ps) else scan_queues aging qs ps)"

definition select_mlfq :: "int \<Rightarrow> 'z pstate_scheme \<Rightarrow> (nat option \<times> 'z pstate_scheme) res" where
  "select_mlfq aging s =
     rbind (scan_queues aging [0, 1, 2] (ptable s)) (\<lambda>(best, ps). Inr (best, s\<lparr>ptable := ps\<rparr>))"

section \<open>Step 4: dispatch\<close>

definition switchuvm :: "nat \<Rightarrow> nat \<Rightarrow> 'z pstate_scheme \<Rightarrow> 'z pstate_scheme res" where
  "switchuvm c i s =
     (let s = upd_cpu c pushcli s; p = ptable s ! i in
      if pgdir p = 0 then Inl (Panic ''switchuvm: no pgdir'')
      else cpu_popcli c
             (upd_cpu c (\<lambda>k. k\<lparr>tss_rsp0 := kstack p + KSTACKSIZE, cr3 := v2p (pgdir p)\<rparr>) s))"

definition start_burst :: "sched_params \<Rightarrow> u32 \<Rightarrow> proc \<Rightarrow> proc" where
  "start_burst sp now p =
     (let p = p\<lparr>wait_ticks := 0, burst_start_tick := int_of_uint now\<rparr>;
          p = (if first_run_tick p = 0 then p\<lparr>first_run_tick := int_of_uint now\<rparr> else p)
      in p\<lparr>ticks_remaining :=
             (if queue_level p = 0 then q0_quantum sp
              else if queue_level p = 1 then q1_quantum sp else q2_quantum sp)\<rparr>)"

definition dispatch :: "sched_params \<Rightarrow> nat \<Rightarrow> nat \<Rightarrow> 'z pstate_scheme \<Rightarrow> 'z pstate_scheme res" where
  "dispatch sp c i s =
     (let s = upd_proc i (start_burst sp (ticks s)) s;
          s = upd_cpu c (\<lambda>k. k\<lparr>cpu_proc := Some i\<rparr>) s
      in rbind (switchuvm c i s) (\<lambda>s. resume c i (upd_proc i (\<lambda>p. p\<lparr>state := RUNNING\<rparr>) s)))"

section \<open>The turn\<close>

definition sched_select :: "'z pstate_scheme \<Rightarrow> (nat option \<times> 'z pstate_scheme) res" where
  "sched_select s =
     (let sp = schedp s; s = sched_age (sched_boost sp s)
      in if rr_mode sp \<noteq> 0 then Inr (select_rr s) else select_mlfq (aging_factor sp) s)"

text \<open>
  \<open>sti\<close>, \<open>acquire\<close>, the four steps. With a pick the turn ends in the resumed process, which
  has released \<open>ptable.lock\<close>; without one the scheduler releases it and halts.
\<close>

definition scheduler_turn :: "nat \<Rightarrow> 'z pstate_scheme \<Rightarrow> (nat option \<times> 'z pstate_scheme) res" where
  "scheduler_turn c s =
     (let sp = schedp s;
          s = upd_cpu c (\<lambda>k. pushcli (k\<lparr>intr := True\<rparr>)) s
      in rbind (sched_select s) (\<lambda>(best, s).
           case best of
             None \<Rightarrow> rbind (cpu_popcli c s) (\<lambda>s. Inr (None, s))
           | Some i \<Rightarrow> rbind (dispatch sp c i s) (\<lambda>s. Inr (Some i, s))))"

section \<open>Aging characterised\<close>

definition age_slot :: "proc \<Rightarrow> proc" where
  "age_slot p = (if state p = RUNNABLE then p\<lparr>wait_ticks := s32 (wait_ticks p + 1)\<rparr> else p)"

definition starving :: "proc \<Rightarrow> bool" where
  "starving p \<longleftrightarrow> state p = RUNNABLE \<and> s32 (wait_ticks p + 1) > 100"

lemma age_loop_eq:
  "age_loop ps a = (map age_slot ps, if a = 0 \<and> list_ex starving ps then 1 else a)"
  by (induction ps a rule: age_loop.induct)
     (auto simp: age_slot_def starving_def Let_def split: if_splits)

lemma sched_age_simps [simp]:
  "ptable (sched_age s) = map age_slot (ptable s)"
  "cpus (sched_age s) = cpus s" "rr_next (sched_age s) = rr_next s" "ticks (sched_age s) = ticks s"
  "last_boost_tick (sched_age s) = last_boost_tick s" "kpml4_pa (sched_age s) = kpml4_pa s"
  "initproc (sched_age s) = initproc s" "nextpid (sched_age s) = nextpid s"
  "agent_pid (schedp (sched_age s)) = agent_pid (schedp s)"
  "params_ok (schedp (sched_age s)) = params_ok (schedp s)"
  by (simp_all add: sched_age_def age_loop_eq)

lemma sched_boost_simps [simp]:
  "cpus (sched_boost sp s) = cpus s" "rr_next (sched_boost sp s) = rr_next s"
  "ticks (sched_boost sp s) = ticks s" "schedp (sched_boost sp s) = schedp s"
  "kpml4_pa (sched_boost sp s) = kpml4_pa s" "initproc (sched_boost sp s) = initproc s"
  "nextpid (sched_boost sp s) = nextpid s"
  "length (ptable (sched_boost sp s)) = length (ptable s)"
  by (simp_all add: sched_boost_def)

lemma ptable_sched_boost:
  "ptable (sched_boost sp s) =
     (if boost_due sp s then map (boost_slot (q0_quantum sp)) (ptable s) else ptable s)"
  by (simp add: sched_boost_def)

lemma age_slot_fields [simp]:
  "state (age_slot p) = state p" "queue_level (age_slot p) = queue_level p"
  "burst_ema_fast (age_slot p) = burst_ema_fast p" "pid (age_slot p) = pid p"
  "pgdir (age_slot p) = pgdir p" "kstack (age_slot p) = kstack p" "kctx (age_slot p) = kctx p"
  "parent (age_slot p) = parent p" "chan (age_slot p) = chan p"
  by (simp_all add: age_slot_def)

lemma boost_slot_fields [simp]:
  "state (boost_slot q p) = state p" "burst_ema_fast (boost_slot q p) = burst_ema_fast p"
  "pid (boost_slot q p) = pid p" "pgdir (boost_slot q p) = pgdir p"
  "kstack (boost_slot q p) = kstack p" "kctx (boost_slot q p) = kctx p"
  "parent (boost_slot q p) = parent p" "chan (boost_slot q p) = chan p"
  by (simp_all add: boost_slot_def)

section \<open>The scan of one queue finds the first minimal score\<close>

definition cand :: "int \<Rightarrow> proc \<Rightarrow> bool" where
  "cand q p \<longleftrightarrow> state p = RUNNABLE \<and> queue_level p = q"

definition scored :: "int \<Rightarrow> int \<Rightarrow> proc \<Rightarrow> proc" where
  "scored aging q p = (if cand q p then p\<lparr>effective_score := score aging p\<rparr> else p)"

text \<open>\<open>best\<close> is the first index below \<open>k\<close> with the least score of queue \<open>q\<close>, if there is one.\<close>

definition best_upto :: "int \<Rightarrow> int \<Rightarrow> proc list \<Rightarrow> nat \<Rightarrow> nat option \<Rightarrow> bool" where
  "best_upto aging q ps k best \<longleftrightarrow>
     (case best of
        None \<Rightarrow> \<forall>j<k. \<not> cand q (ps ! j)
      | Some b \<Rightarrow> b < k \<and> cand q (ps ! b) \<and>
          (\<forall>j<k. cand q (ps ! j) \<longrightarrow>
             score aging (ps ! b) \<le> score aging (ps ! j) \<and>
             (j < b \<longrightarrow> score aging (ps ! b) < score aging (ps ! j))))"

lemma score_effective [simp]: "score aging (p\<lparr>effective_score := x\<rparr>) = score aging p"
  by (simp add: score_def)

lemma scored_other [simp]: "\<not> cand q p \<Longrightarrow> scored aging q p = p"
  by (simp add: scored_def)

lemma best_upto_skip:
  "best_upto aging q ps k best \<Longrightarrow> \<not> cand q (ps ! k) \<Longrightarrow> best_upto aging q ps (Suc k) best"
  by (auto simp: best_upto_def less_Suc_eq split: option.splits)

lemma best_upto_take:
  assumes "best_upto aging q ps k best" and "cand q (ps ! k)"
  shows "best_upto aging q ps (Suc k)
           (case best of None \<Rightarrow> Some k
            | Some b \<Rightarrow> if score aging (ps ! k) < score aging (ps ! b) then Some k else Some b)"
  using assms by (fastforce simp: best_upto_def less_Suc_eq split: option.splits)

definition scan_part :: "int \<Rightarrow> int \<Rightarrow> nat \<Rightarrow> proc list \<Rightarrow> proc list" where
  "scan_part aging q k ps = map (scored aging q) (take k ps) @ drop k ps"

lemma length_scan_part [simp]: "length (scan_part aging q k ps) = length ps"
  by (simp add: scan_part_def min_def)

lemma nth_scan_part:
  "i < length ps \<Longrightarrow> scan_part aging q k ps ! i = (if i < k then scored aging q (ps ! i) else ps ! i)"
  by (auto simp: scan_part_def nth_append min_def)

lemma scan_part_Suc:
  "k < length ps \<Longrightarrow> scan_part aging q (Suc k) ps = (scan_part aging q k ps)[k := scored aging q (ps ! k)]"
  by (rule nth_equalityI) (auto simp: nth_scan_part nth_list_update less_Suc_eq)

lemma scan_part_all [simp]: "scan_part aging q (length ps) ps = map (scored aging q) ps"
  by (simp add: scan_part_def)

lemma scan_part_0 [simp]: "scan_part aging q 0 ps = ps"
  by (simp add: scan_part_def)

lemma scan_queue_part:
  assumes "aging \<noteq> 0" and "n \<le> length ps"
    and "best_upto aging q ps (length ps - n) best"
  shows "\<exists>b. scan_queue aging q n best (scan_part aging q (length ps - n) ps)
               = Inr (b, map (scored aging q) ps) \<and> best_upto aging q ps (length ps) b"
  using assms(2,3)
proof (induction n arbitrary: best)
  case 0
  then show ?case by simp
next
  case (Suc n)
  let ?k = "length ps - Suc n" and ?S = "scan_part aging q"
  have k: "?k < length ps" "Suc ?k = length ps - n" using Suc.prems(1) by auto
  show ?case
  proof (cases "cand q (ps ! ?k)")
    case False
    then have "?S (length ps - n) ps = ?S ?k ps"
      using k scan_part_Suc [OF k(1), of aging q] by (simp add: nth_scan_part list_update_same_conv)
    moreover have "best_upto aging q ps (length ps - n) best"
      using best_upto_skip [OF Suc.prems(2) False] k by simp
    ultimately show ?thesis
      using Suc.IH [of best] Suc.prems(1) False k
      by (auto simp: Let_def nth_scan_part cand_def)
  next
    case True
    let ?b = "case best of None \<Rightarrow> Some ?k
      | Some b \<Rightarrow> if score aging (ps ! ?k) < score aging (ps ! b) then Some ?k else Some b"
    have upd: "upd_at ?k (\<lambda>p. p\<lparr>effective_score := score aging (ps ! ?k)\<rparr>) (?S ?k ps) = ?S (length ps - n) ps"
      using True k scan_part_Suc [OF k(1), of aging q]
      by (simp add: upd_at_def nth_scan_part scored_def)
    have sk: "effective_score (?S (length ps - n) ps ! ?k) = score aging (ps ! ?k)"
      using True k by (simp add: nth_scan_part scored_def)
    have sb: "effective_score (?S (length ps - n) ps ! b) = score aging (ps ! b)" if "best = Some b" for b
      using that Suc.prems(2) k by (auto simp: nth_scan_part scored_def best_upto_def)
    have "best_upto aging q ps (length ps - n) ?b"
      using best_upto_take [OF Suc.prems(2) True] k by simp
    then obtain b' where "scan_queue aging q n ?b (?S (length ps - n) ps) = Inr (b', map (scored aging q) ps)"
      and b': "best_upto aging q ps (length ps) b'"
      using Suc.IH [of ?b] Suc.prems(1) by auto
    then have "scan_queue aging q (Suc n) best (?S ?k ps) = Inr (b', map (scored aging q) ps)"
      using True k assms(1) upd sk sb
      by (auto simp: Let_def nth_scan_part cand_def score_of_def split: option.splits)
    with b' show ?thesis by blast
  qed
qed

lemma scan_queue_spec:
  assumes "aging \<noteq> 0"
  obtains b where "scan_queue aging q (length ps) None ps = Inr (b, map (scored aging q) ps)"
    and "best_upto aging q ps (length ps) b"
  using scan_queue_part [OF assms, of "length ps" ps q None]
  by (auto simp: best_upto_def)

section \<open>The three queues\<close>

text \<open>
  The declarative reading of MLFQ with SJF: \<open>i\<close> is runnable, no runnable process sits in a
  higher queue, and within the queue \<open>i\<close> has the least score, the lowest slot winning ties.
\<close>

definition mlfq_best :: "int \<Rightarrow> proc list \<Rightarrow> nat \<Rightarrow> bool" where
  "mlfq_best aging ps i \<longleftrightarrow>
     i < length ps \<and> state (ps ! i) = RUNNABLE \<and>
     (\<forall>j<length ps. state (ps ! j) = RUNNABLE \<longrightarrow>
        queue_level (ps ! i) < queue_level (ps ! j) \<or>
        queue_level (ps ! i) = queue_level (ps ! j) \<and>
        (score aging (ps ! i) < score aging (ps ! j) \<or>
         score aging (ps ! i) = score aging (ps ! j) \<and> i \<le> j))"

definition levels_ok :: "proc list \<Rightarrow> bool" where
  "levels_ok ps \<longleftrightarrow> list_all (\<lambda>p. 0 \<le> queue_level p \<and> queue_level p \<le> 2) ps"

lemma no_cand_scored: "\<forall>j<length ps. \<not> cand q (ps ! j) \<Longrightarrow> map (scored aging q) ps = ps"
  by (rule nth_equalityI) auto

lemma scan_queues_spec:
  assumes "aging \<noteq> 0"
  shows "(scan_queues aging qs ps = Inr (None, ps) \<and> (\<forall>p\<in>set ps. \<forall>q\<in>set qs. \<not> cand q p)) \<or>
         (\<exists>i q qs1 qs2. qs = qs1 @ q # qs2 \<and> (\<forall>p\<in>set ps. \<forall>q'\<in>set qs1. \<not> cand q' p) \<and>
            best_upto aging q ps (length ps) (Some i) \<and>
            scan_queues aging qs ps = Inr (Some i, map (scored aging q) ps))"
proof (induction qs)
  case Nil
  then show ?case by simp
next
  case (Cons q qs)
  obtain b where b: "scan_queue aging q (length ps) None ps = Inr (b, map (scored aging q) ps)"
    "best_upto aging q ps (length ps) b"
    using scan_queue_spec [OF assms] by blast
  show ?case
  proof (cases b)
    case None
    with b(2) have none: "\<forall>j<length ps. \<not> cand q (ps ! j)" by (simp add: best_upto_def)
    have eq: "scan_queues aging (q # qs) ps = scan_queues aging qs ps"
      using b(1) None no_cand_scored [OF none, of aging] by simp
    have "\<forall>p\<in>set ps. \<not> cand q p" using none by (auto simp: in_set_conv_nth)
    with Cons.IH eq show ?thesis
      by (elim disjE exE conjE; (intro disjI1; auto; fail)?)
         (intro disjI2, metis append_Cons set_ConsD)
  next
    case (Some i)
    with b have "scan_queues aging (q # qs) ps = Inr (Some i, map (scored aging q) ps)" by simp
    with b(2) Some show ?thesis
      by (intro disjI2 exI [of _ i] exI [of _ q] exI [of _ "[]"] exI [of _ qs]) simp
  qed
qed

declare scan_queues.simps [simp del]

lemma levels_ok_cases: "levels_ok ps \<Longrightarrow> p \<in> set ps \<Longrightarrow> queue_level p \<in> {0, 1, 2}"
  by (auto simp: levels_ok_def list_all_iff)

lemma best_upto_mlfq_best:
  assumes "levels_ok ps" and "best_upto aging q ps (length ps) (Some i)"
    and higher: "\<forall>p\<in>set ps. \<forall>q'. 0 \<le> q' \<longrightarrow> q' < q \<longrightarrow> \<not> cand q' p"
  shows "mlfq_best aging ps i" and "queue_level (ps ! i) = q"
proof -
  have i: "i < length ps" "cand q (ps ! i)" and
    best: "\<And>j. j < length ps \<Longrightarrow> cand q (ps ! j) \<Longrightarrow>
       score aging (ps ! i) \<le> score aging (ps ! j) \<and> (j < i \<longrightarrow> score aging (ps ! i) < score aging (ps ! j))"
    using assms(2) by (auto simp: best_upto_def)
  show q: "queue_level (ps ! i) = q" using i by (simp add: cand_def)
  have "queue_level (ps ! i) < queue_level (ps ! j) \<or>
        queue_level (ps ! i) = queue_level (ps ! j) \<and>
        (score aging (ps ! i) < score aging (ps ! j) \<or>
         score aging (ps ! i) = score aging (ps ! j) \<and> i \<le> j)"
    if j: "j < length ps" "state (ps ! j) = RUNNABLE" for j
  proof -
    have "0 \<le> queue_level (ps ! j)" using assms(1) j by (simp add: levels_ok_def list_all_length)
    with higher j have "\<not> queue_level (ps ! j) < q" by (force simp: cand_def)
    moreover have "queue_level (ps ! j) = q \<Longrightarrow> ?thesis"
      using best [OF j(1)] j q by (force simp: cand_def)
    ultimately show ?thesis using q by linarith
  qed
  with i show "mlfq_best aging ps i" by (simp add: mlfq_best_def cand_def)
qed

text \<open>
  The scan of the three queues finds the declarative best, and finds one whenever a process
  is runnable.
\<close>

lemma scan_queues_mlfq:
  assumes "aging \<noteq> 0" and "levels_ok ps"
  obtains (none) "scan_queues aging [0, 1, 2] ps = Inr (None, ps)" "\<forall>p\<in>set ps. state p \<noteq> RUNNABLE"
  | (pick) i where "mlfq_best aging ps i"
      "scan_queues aging [0, 1, 2] ps = Inr (Some i, map (scored aging (queue_level (ps ! i))) ps)"
proof -
  consider (no) "scan_queues aging [0, 1, 2] ps = Inr (None, ps)"
      "\<forall>p\<in>set ps. \<forall>q\<in>set [0, 1, 2]. \<not> cand q p"
    | (yes) i q qs1 qs2 where "[0, 1, 2] = qs1 @ q # qs2" "\<forall>p\<in>set ps. \<forall>q'\<in>set qs1. \<not> cand q' p"
      "best_upto aging q ps (length ps) (Some i)"
      "scan_queues aging [0, 1, 2] ps = Inr (Some i, map (scored aging q) ps)"
    using scan_queues_spec [OF assms(1), of "[0, 1, 2]" ps] by blast
  then show ?thesis
  proof cases
    case no
    have "\<forall>p\<in>set ps. state p \<noteq> RUNNABLE"
      using no(2) levels_ok_cases [OF assms(2)] by (fastforce simp: cand_def)
    with no(1) show ?thesis by (rule none)
  next
    case yes
    have "\<forall>q'. 0 \<le> q' \<longrightarrow> q' < q \<longrightarrow> q' \<in> set qs1"
      using yes(1) by (auto simp: Cons_eq_append_conv append_eq_Cons_conv)
    with yes(2) have "\<forall>p\<in>set ps. \<forall>q'. 0 \<le> q' \<longrightarrow> q' < q \<longrightarrow> \<not> cand q' p" by blast
    from best_upto_mlfq_best [OF assms(2) yes(3) this] yes(4) show ?thesis by (auto intro: pick)
  qed
qed

section \<open>Aging bounds how far a process can be overtaken\<close>

lemma mlfq_best_runnable: "mlfq_best aging ps i \<Longrightarrow> state (ps ! i) = RUNNABLE \<and> i < length ps"
  by (simp add: mlfq_best_def)

lemma score_exact:
  assumes "1 \<le> aging" "0 \<le> burst_ema_fast p" "burst_ema_fast p \<le> 5000"
    and "0 \<le> wait_ticks p" "in_s32 (wait_ticks p)"
  shows "score aging p = burst_ema_fast p div 100 - wait_ticks p div aging"
proof -
  have "0 \<le> wait_ticks p div aging" "wait_ticks p div aging \<le> wait_ticks p"
    using assms zdiv_mono2 [of "wait_ticks p" 1 aging] by (simp_all add: pos_imp_zdiv_nonneg_iff)
  moreover have "0 \<le> burst_ema_fast p div 100" "burst_ema_fast p div 100 \<le> 50" using assms by auto
  ultimately show ?thesis
    using assms by (simp add: score_def sdiv_nonneg s32_eq in_s32_def)
qed

lemma aging_gap:
  fixes wi wj a :: int
  assumes "1 \<le> a" and "wj div a - wi div a \<le> 50"
  shows "wj < wi + 51 * a"
proof -
  have "wj div a * a \<le> (wi div a + 50) * a" using assms by (intro mult_right_mono) auto
  moreover have "wj = wj div a * a + wj mod a" "wi = wi div a * a + wi mod a" by simp_all
  moreover have "wj mod a < a" "0 \<le> wi mod a" using assms(1) by auto
  ultimately show ?thesis unfolding distrib_right by linarith
qed

section \<open>Round robin\<close>

text \<open>How many slots the rotating scan passes before it reaches slot \<open>j\<close>.\<close>

definition rr_dist :: "nat \<Rightarrow> nat \<Rightarrow> nat" where
  "rr_dist r j = (if r \<le> j then j - r else j + NPROC - r)"

lemma rr_dist_less: "r < NPROC \<Longrightarrow> j < NPROC \<Longrightarrow> rr_dist r j < NPROC"
  by (auto simp: rr_dist_def)

lemma rr_dist_hits: "r < NPROC \<Longrightarrow> j < NPROC \<Longrightarrow> (r + rr_dist r j) mod NPROC = j"
  by (auto simp: rr_dist_def NPROC_def)

lemma rr_dist_of_hit: "r < NPROC \<Longrightarrow> i < NPROC \<Longrightarrow> rr_dist r ((r + i) mod NPROC) = i"
proof -
  assume r: "r < NPROC" "i < NPROC"
  show ?thesis
  proof (cases "r + i < NPROC")
    case True
    then show ?thesis by (simp add: rr_dist_def)
  next
    case False
    with r have "(r + i) mod NPROC = r + i - NPROC" by (simp add: mod_if)
    with False r show ?thesis by (auto simp: rr_dist_def)
  qed
qed

lemma rr_dist_decreases:
  assumes "r < NPROC" "k < NPROC" "j < NPROC" "rr_dist r k \<le> rr_dist r j" "k \<noteq> j"
  shows "rr_dist ((k + 1) mod NPROC) j < rr_dist r j"
proof (cases "k + 1 = NPROC")
  case True
  with assms show ?thesis by (auto simp: rr_dist_def split: if_splits)
next
  case False
  with assms have "(k + 1) mod NPROC = k + 1" by simp
  with assms False show ?thesis by (auto simp: rr_dist_def split: if_splits)
qed

lemma select_rr_cases:
  assumes "rr_next s < NPROC" and "length (ptable s) = NPROC"
  obtains (none) "select_rr s = (None, s)" "\<forall>p\<in>set (ptable s). state p \<noteq> RUNNABLE"
  | (pick) k where "select_rr s = (Some k, s\<lparr>rr_next := (k + 1) mod NPROC\<rparr>)" "k < NPROC"
      "state (ptable s ! k) = RUNNABLE"
      "\<forall>j<NPROC. state (ptable s ! j) = RUNNABLE \<longrightarrow> rr_dist (rr_next s) k \<le> rr_dist (rr_next s) j"
proof (cases "find (\<lambda>i. state (ptable s ! ((rr_next s + i) mod NPROC)) = RUNNABLE) [0..<NPROC]")
  case None
  have "state (ptable s ! j) \<noteq> RUNNABLE" if "j < NPROC" for j
    using None that rr_dist_less [OF assms(1) that] rr_dist_hits [OF assms(1) that]
    by (auto simp: find_None_iff)
  then have "\<forall>p\<in>set (ptable s). state p \<noteq> RUNNABLE" using assms(2) by (auto simp: in_set_conv_nth)
  with None show ?thesis by (intro none) (simp_all add: select_rr_def)
next
  case (Some i)
  let ?k = "(rr_next s + i) mod NPROC"
  from Some have i: "i < NPROC" "state (ptable s ! ?k) = RUNNABLE"
    and least: "\<And>j. j < i \<Longrightarrow> state (ptable s ! ((rr_next s + j) mod NPROC)) \<noteq> RUNNABLE"
    by (auto simp: find_upt_Some)
  have "rr_dist (rr_next s) ?k \<le> rr_dist (rr_next s) j"
    if "j < NPROC" "state (ptable s ! j) = RUNNABLE" for j
  proof -
    have "\<not> rr_dist (rr_next s) j < i"
      using least [of "rr_dist (rr_next s) j"] that rr_dist_hits [OF assms(1) that(1)] by auto
    then show ?thesis using rr_dist_of_hit [OF assms(1) i(1)] by simp
  qed
  moreover have "?k < NPROC" by (simp add: NPROC_def)
  ultimately show ?thesis
    using i Some by (intro pick [of ?k]) (auto simp: select_rr_def Let_def)
qed


lemma select_rr_simps [simp]:
  "ptable (snd (select_rr s)) = ptable s" "cpus (snd (select_rr s)) = cpus s"
  by (simp_all add: select_rr_def Let_def split: option.splits)

section \<open>What a turn selects\<close>

lemma levels_ok_boost: "levels_ok ps \<Longrightarrow> levels_ok (map (boost_slot q) ps)"
  by (auto simp: levels_ok_def list_all_iff boost_slot_def)

lemma levels_ok_age: "levels_ok ps \<Longrightarrow> levels_ok (map age_slot ps)"
  by (auto simp: levels_ok_def list_all_iff)

text \<open>The table the selection of a turn works on.\<close>

definition aged :: "'z pstate_scheme \<Rightarrow> proc list" where
  "aged s = map age_slot (ptable (sched_boost (schedp s) s))"

lemma length_aged [simp]: "length (aged s) = length (ptable s)"
  by (simp add: aged_def)

lemma levels_ok_aged: "levels_ok (ptable s) \<Longrightarrow> levels_ok (aged s)"
  by (simp add: aged_def ptable_sched_boost levels_ok_age levels_ok_boost)

lemma nth_aged_state [simp]: "i < length (ptable s) \<Longrightarrow> state (aged s ! i) = state (ptable s ! i)"
  by (simp add: aged_def ptable_sched_boost)

lemma aged_runnable:
  "(\<forall>p\<in>set (aged s). state p \<noteq> RUNNABLE) \<longleftrightarrow> (\<forall>p\<in>set (ptable s). state p \<noteq> RUNNABLE)"
  by (simp add: all_set_conv_all_nth)

lemma sched_select_mlfq:
  assumes "params_ok (schedp s)" and "rr_mode (schedp s) = 0" and "levels_ok (ptable s)"
  obtains (none) "sched_select s = Inr (None, sched_age (sched_boost (schedp s) s))"
      "\<forall>p\<in>set (ptable s). state p \<noteq> RUNNABLE"
  | (pick) i where "mlfq_best (aging_factor (schedp s)) (aged s) i"
      "sched_select s = Inr (Some i, (sched_age (sched_boost (schedp s) s))\<lparr>ptable :=
         map (scored (aging_factor (schedp s)) (queue_level (aged s ! i))) (aged s)\<rparr>)"
proof -
  have "aging_factor (schedp s) \<noteq> 0" using assms(1) by (auto simp: params_ok_def)
  from this levels_ok_aged [OF assms(3)] show ?thesis
  proof (cases rule: scan_queues_mlfq)
    case none
    then show ?thesis
      using assms(2) aged_runnable [of s]
      by (intro that(1)) (simp_all add: sched_select_def select_mlfq_def Let_def flip: aged_def)
  next
    case (pick i)
    then show ?thesis
      using assms(2)
      by (intro that(2) [of i]) (simp_all add: sched_select_def select_mlfq_def Let_def flip: aged_def)
  qed
qed

lemma sched_select_rr:
  assumes "rr_mode (schedp s) \<noteq> 0" and "rr_next s < NPROC" and "length (ptable s) = NPROC"
  obtains (none) "sched_select s = Inr (None, sched_age (sched_boost (schedp s) s))"
      "\<forall>p\<in>set (ptable s). state p \<noteq> RUNNABLE"
  | (pick) k where "k < NPROC" "state (ptable s ! k) = RUNNABLE"
      "sched_select s = Inr (Some k, (sched_age (sched_boost (schedp s) s))\<lparr>rr_next := (k + 1) mod NPROC\<rparr>)"
      "\<forall>j<NPROC. state (ptable s ! j) = RUNNABLE \<longrightarrow> rr_dist (rr_next s) k \<le> rr_dist (rr_next s) j"
proof -
  let ?s = "sched_age (sched_boost (schedp s) s)"
  have r: "rr_next ?s < NPROC" "length (ptable ?s) = NPROC" using assms by auto
  have pt: "ptable ?s = aged s" by (simp add: aged_def)
  note [simp del] = sched_age_simps(1)
  from r show ?thesis
  proof (cases rule: select_rr_cases)
    case none
    then show ?thesis
      using assms(1) aged_runnable [of s] pt by (intro that(1)) (simp_all add: sched_select_def Let_def)
  next
    case (pick k)
    then show ?thesis
      using assms pt by (intro that(2) [of k]) (simp_all add: sched_select_def Let_def)
  qed
qed

section \<open>The properties of the selection\<close>

text \<open>A table with three runnable processes, two of them in queue 1, for the examples below.\<close>

definition demo_proc :: "int \<Rightarrow> int \<Rightarrow> int \<Rightarrow> int \<Rightarrow> proc" where
  "demo_proc i lvl ema w = proc_zero\<lparr>state := RUNNABLE, pid := i, pgdir := 0x5000, queue_level := lvl,
     burst_ema_fast := ema, burst_ema_slow := ema, wait_ticks := w, ticks_remaining := 1\<rparr>"

definition demo_state :: "int \<Rightarrow> pstate" where
  "demo_state mode = \<lparr>
     ptable = [demo_proc 1 1 900 3, demo_proc 2 1 400 0, demo_proc 3 2 100 7] @ replicate 61 proc_zero,
     nextpid = 4, initproc = Some 0, schedp = schedp_init\<lparr>rr_mode := mode\<rparr>,
     fgpid = 0, ticks = 600, last_boost_tick = 200, rr_next = 1,
     cpus = [\<lparr>apicid = 0, started = 1, ncli = 0, intena = True, intr = True,
              cpu_proc = None, cr3 = 0x1000, tss_rsp0 = 0\<rparr>],
     kpml4_pa = 0x1000\<rparr>"

lemma demo_state_facts:
  "params_ok (schedp (demo_state 0))" "rr_mode (schedp (demo_state m)) = m"
  "levels_ok (ptable (demo_state m))" "length (ptable (demo_state m)) = NPROC" "rr_next (demo_state m) = 1"
  "state (ptable (demo_state m) ! 0) = RUNNABLE" "state (ptable (demo_state m) ! 1) = RUNNABLE"
  "schedp (demo_state m) = schedp_init\<lparr>rr_mode := m\<rparr>"
  by (simp_all add: demo_state_def schedp_init_def params_ok_def levels_ok_def demo_proc_def proc_zero_def
      NPROC_def list_all_iff)

lemma demo_runnable: "i < NPROC \<Longrightarrow> state (ptable (demo_state m) ! i) = RUNNABLE \<longleftrightarrow> i \<in> {0, 1, 2}"
proof -
  assume "i < NPROC"
  then consider "i = 0" | "i = 1" | "i = 2" | k where "i = k + 3" "k < 61"
    by (cases "i < 3") (auto simp: NPROC_def less_Suc_eq numeral_3_eq_3 intro: that(4) [of "i - 3"])
  then show ?thesis
    by cases (auto simp: demo_state_def demo_proc_def proc_zero_def nth_append)
qed

lemma demo_aged:
  "\<not> boost_due (schedp (demo_state 0)) (demo_state 0)"
  "aged (demo_state 0) ! 0 = demo_proc 1 1 900 4" "aged (demo_state 0) ! 1 = demo_proc 2 1 400 1"
  "aged (demo_state 0) ! 2 = demo_proc 3 2 100 8"
proof -
  show d: "\<not> boost_due (schedp (demo_state 0)) (demo_state 0)"
    by (simp add: boost_due_def demo_state_def schedp_init_def uint_of_int_def)
  show "aged (demo_state 0) ! 0 = demo_proc 1 1 900 4" "aged (demo_state 0) ! 1 = demo_proc 2 1 400 1"
    "aged (demo_state 0) ! 2 = demo_proc 3 2 100 8"
    using d by (simp_all add: aged_def ptable_sched_boost)
      (simp_all add: demo_state_def age_slot_def demo_proc_def s32_eq)
qed

definition demo_one :: "proc list" where
  "demo_one = (replicate NPROC proc_zero)[1 := demo_proc 1 0 100 0]"

lemma demo_one_facts:
  "length demo_one = NPROC" "state (demo_one ! 1) = RUNNABLE"
  "i < NPROC \<Longrightarrow> state (demo_one ! i) = RUNNABLE \<longleftrightarrow> i = 1"
  by (auto simp: demo_one_def demo_proc_def proc_zero_def NPROC_def nth_list_update)

text \<open>
  C6: In MLFQ mode, with valid parameters, the selection of a scheduler turn always returns: it
  picks nothing exactly when no process is runnable, and otherwise the process of the highest
  non-empty queue with the least score (burst estimate minus aging credit), the lowest slot
  winning ties. It stores the scores of that queue and changes nothing else in the aged table.
\<close>

theorem mlfq_selection:
  assumes "params_ok (schedp s)" and "rr_mode (schedp s) = 0" and "levels_ok (ptable s)"
  shows "\<exists>b s'. sched_select s = Inr (b, s') \<and>
     (case b of None \<Rightarrow> (\<forall>p\<in>set (ptable s). state p \<noteq> RUNNABLE) \<and> ptable s' = aged s
      | Some i \<Rightarrow> mlfq_best (aging_factor (schedp s)) (aged s) i \<and>
          ptable s' = map (scored (aging_factor (schedp s)) (queue_level (aged s ! i))) (aged s))"
  using assms
proof (cases rule: sched_select_mlfq)
  case none
  then show ?thesis by (auto simp flip: aged_def)
next
  case (pick i)
  then show ?thesis by fastforce
qed

theorem mlfq_selection_witness:
  "\<exists>b s'. sched_select (demo_state 0) = Inr (b, s') \<and>
     (case b of None \<Rightarrow> (\<forall>p\<in>set (ptable (demo_state 0)). state p \<noteq> RUNNABLE) \<and> ptable s' = aged (demo_state 0)
      | Some i \<Rightarrow> mlfq_best (aging_factor (schedp (demo_state 0))) (aged (demo_state 0)) i \<and>
          ptable s' = map (scored (aging_factor (schedp (demo_state 0))) (queue_level (aged (demo_state 0) ! i)))
                        (aged (demo_state 0)))"
  by (rule mlfq_selection [OF demo_state_facts(1,2,3)])

text \<open>
  C10: In round-robin mode no runnable process waits for more than \<open>NPROC\<close> picks: however the
  rest of the system changes between turns, a process that stays runnable is picked within the
  next 64 selections.
\<close>

theorem rr_no_starvation:
  assumes "\<And>n. rr_mode (schedp (f n)) \<noteq> 0" and "\<And>n. length (ptable (f n)) = NPROC"
    and "\<And>n. state (ptable (f n) ! j) = RUNNABLE" and "j < NPROC" and "rr_next (f 0) < NPROC"
    and nxt: "\<And>n k s'. sched_select (f n) = Inr (k, s') \<Longrightarrow> rr_next (f (Suc n)) = rr_next s'"
  shows "\<exists>n<NPROC. \<exists>s'. sched_select (f n) = Inr (Some j, s')"
proof (rule ccontr)
  assume no: "\<not> (\<exists>n<NPROC. \<exists>s'. sched_select (f n) = Inr (Some j, s'))"
  have "rr_next (f n) < NPROC \<and> rr_dist (rr_next (f n)) j + n < NPROC" if "n \<le> NPROC" for n
    using that
  proof (induction n)
    case 0
    then show ?case using assms(4,5) rr_dist_less by simp
  next
    case (Suc n)
    then have IH: "rr_next (f n) < NPROC" "rr_dist (rr_next (f n)) j + n < NPROC" by auto
    from assms(1) IH(1) assms(2) show ?case
    proof (cases rule: sched_select_rr)
      case none
      then show ?thesis using assms(2-4) by (metis nth_mem)
    next
      case (pick k)
      then have "k \<noteq> j" using no Suc.prems by (metis Suc_le_lessD)
      then have "rr_dist ((k + 1) mod NPROC) j < rr_dist (rr_next (f n)) j"
        using pick assms(3,4) IH(1) by (intro rr_dist_decreases) auto
      moreover have "rr_next (f (Suc n)) = (k + 1) mod NPROC" using nxt [OF pick(3)] by simp
      moreover have "(k + 1) mod NPROC < NPROC" by (simp add: NPROC_def)
      ultimately show ?thesis using IH by simp
    qed
  qed
  from this [of NPROC] show False by simp
qed

theorem rr_no_starvation_witness:
  "\<exists>n<NPROC. \<exists>s'. sched_select ((demo_state 1)\<lparr>rr_next := if n = 0 then 1 else 2, ptable := demo_one\<rparr>) = Inr (Some 1, s')"
proof (rule rr_no_starvation [where f = "\<lambda>n. (demo_state 1)\<lparr>rr_next := if n = 0 then 1 else 2, ptable := demo_one\<rparr>"])
  fix n k s'
  let ?f = "\<lambda>n :: nat. (demo_state 1)\<lparr>rr_next := if n = 0 then 1 else 2, ptable := demo_one\<rparr>"
  assume *: "sched_select (?f n) = Inr (k, s')"
  have "rr_mode (schedp (?f n)) \<noteq> 0" "rr_next (?f n) < NPROC" "length (ptable (?f n)) = NPROC"
    using demo_state_facts demo_one_facts by (simp_all add: NPROC_def)
  then show "rr_next (?f (Suc n)) = rr_next s'"
  proof (cases rule: sched_select_rr)
    case none
    then have "state (demo_one ! 1) \<noteq> RUNNABLE" using demo_one_facts by (simp add: NPROC_def)
    then show ?thesis using demo_one_facts by simp
  next
    case (pick i)
    then have "i = 1" using demo_one_facts(3) by simp
    with pick * show ?thesis by (auto simp: NPROC_def)
  qed
qed (use demo_state_facts demo_one_facts in \<open>auto simp: NPROC_def\<close>)

text \<open>
  C16: Aging bounds overtaking within a queue: when the selection picks \<open>i\<close>, every process it
  passes over in the same queue has waited for fewer than \<open>51 * aging_factor\<close> decisions more
  than \<open>i\<close>, whatever the two burst estimates are.
\<close>

theorem aging_bounds_waiting:
  assumes "params_ok (schedp s)" and "rr_mode (schedp s) = 0" and "levels_ok (ptable s)"
    and sel: "sched_select s = Inr (Some i, s')"
    and j: "j < length (ptable s)" "state (ptable s ! j) = RUNNABLE"
    and same: "queue_level (aged s ! j) = queue_level (aged s ! i)"
    and range: "\<forall>p\<in>set (aged s). 0 \<le> burst_ema_fast p \<and> burst_ema_fast p \<le> 5000 \<and>
                  0 \<le> wait_ticks p \<and> in_s32 (wait_ticks p)"
  shows "wait_ticks (aged s ! j) < wait_ticks (aged s ! i) + 51 * aging_factor (schedp s)"
  using assms(1-3)
proof (cases rule: sched_select_mlfq)
  case none
  with sel show ?thesis by simp
next
  case (pick k)
  let ?a = "aging_factor (schedp s)"
  from pick sel have best: "mlfq_best ?a (aged s) i" by simp
  then have i: "i < length (aged s)" by (simp add: mlfq_best_def)
  have a: "1 \<le> ?a" using assms(1) by (simp add: params_ok_def)
  have exact: "score ?a (aged s ! k) = burst_ema_fast (aged s ! k) div 100 - wait_ticks (aged s ! k) div ?a"
    "0 \<le> burst_ema_fast (aged s ! k) div 100" "burst_ema_fast (aged s ! k) div 100 \<le> 50"
    if "k < length (aged s)" for k
  proof -
    have "aged s ! k \<in> set (aged s)" using that by simp
    then have r: "0 \<le> burst_ema_fast (aged s ! k)" "burst_ema_fast (aged s ! k) \<le> 5000"
      "0 \<le> wait_ticks (aged s ! k)" "in_s32 (wait_ticks (aged s ! k))" using range by blast+
    then show "score ?a (aged s ! k) = burst_ema_fast (aged s ! k) div 100 - wait_ticks (aged s ! k) div ?a"
      using a by (intro score_exact)
    show "0 \<le> burst_ema_fast (aged s ! k) div 100" "burst_ema_fast (aged s ! k) div 100 \<le> 50" using r by auto
  qed
  have "score ?a (aged s ! i) \<le> score ?a (aged s ! j)"
    using best j same by (auto simp: mlfq_best_def)
  with exact [OF i] exact [of j] j have "wait_ticks (aged s ! j) div ?a - wait_ticks (aged s ! i) div ?a \<le> 50"
    by simp
  with a show ?thesis by (rule aging_gap)
qed

theorem aging_bounds_waiting_witness:
  "wait_ticks (aged (demo_state 0) ! 0) < wait_ticks (aged (demo_state 0) ! 1) + 51 * aging_factor (schedp (demo_state 0))"
proof -
  have range: "\<forall>p\<in>set (aged (demo_state 0)). 0 \<le> burst_ema_fast p \<and> burst_ema_fast p \<le> 5000 \<and>
                  0 \<le> wait_ticks p \<and> in_s32 (wait_ticks p)"
    using demo_aged(1)
    by (simp add: aged_def ptable_sched_boost)
       (simp add: demo_state_def demo_proc_def proc_zero_def age_slot_def s32_eq in_s32_def)
  from demo_state_facts(1,2,3) show ?thesis
  proof (cases rule: sched_select_mlfq)
    case none
    have "ptable (demo_state 0) ! 0 \<in> set (ptable (demo_state 0))"
      using demo_state_facts(4) by (intro nth_mem) (simp add: NPROC_def)
    with none(2) demo_state_facts(6) show ?thesis by blast
  next
    case (pick i)
    have "i < NPROC" "state (ptable (demo_state 0) ! i) = RUNNABLE"
      using pick(1) demo_state_facts by (auto simp: mlfq_best_def)
    then have "i \<in> {0, 1, 2}" using demo_runnable by blast
    moreover have "queue_level (aged (demo_state 0) ! i) < 1 \<or> queue_level (aged (demo_state 0) ! i) = 1 \<and>
        score 50 (aged (demo_state 0) ! i) \<le> score 50 (aged (demo_state 0) ! 1)"
      using pick(1) demo_state_facts demo_aged(3)
      by (auto simp: mlfq_best_def demo_proc_def schedp_init_def NPROC_def dest!: spec [of _ 1])
    ultimately have "i = 1"
      using demo_aged by (auto simp: demo_proc_def score_def sdiv_nonneg s32_eq)
    show ?thesis
      using aging_bounds_waiting [OF demo_state_facts(1) _ demo_state_facts(3) pick(2), of 0] range demo_state_facts demo_aged \<open>i = 1\<close>
      by (simp add: demo_proc_def NPROC_def)
  qed
qed

text \<open>
  C17: The priority boost: it is due exactly when at least \<open>boost_interval\<close> ticks have passed
  since the last one, also across the wrap-around of the tick counter; then the turn puts every
  process into queue 0 with a full quantum and restarts the interval, and otherwise no queue
  level changes.
\<close>

theorem boost_resets_levels:
  assumes "params_ok (schedp s)"
  shows "(boost_due (schedp s) s \<longleftrightarrow> nat (boost_interval (schedp s)) \<le> unat (ticks s - last_boost_tick s)) \<and>
    (boost_due (schedp s) s \<longrightarrow> last_boost_tick (sched_age (sched_boost (schedp s) s)) = ticks s \<and>
       (\<forall>p\<in>set (aged s). state p \<noteq> UNUSED \<longrightarrow>
          queue_level p = 0 \<and> ticks_remaining p = q0_quantum (schedp s) \<and> wait_ticks p \<in> {0, 1})) \<and>
    (\<not> boost_due (schedp s) s \<longrightarrow> map queue_level (aged s) = map queue_level (ptable s))"
proof (intro conjI impI)
  have "10 \<le> boost_interval (schedp s)" "boost_interval (schedp s) \<le> 500" using assms by (simp_all add: params_ok_def)
  then have "unat (uint_of_int (boost_interval (schedp s))) = nat (boost_interval (schedp s))"
    by (simp add: uint_of_int_def unat_eq_nat_uint uint_word_of_int)
  then show "boost_due (schedp s) s \<longleftrightarrow> nat (boost_interval (schedp s)) \<le> unat (ticks s - last_boost_tick s)"
    by (simp add: boost_due_def word_le_nat_alt)
qed (auto simp: aged_def ptable_sched_boost boost_slot_def age_slot_def sched_boost_def s32_eq)

theorem boost_resets_levels_witness:
  "boost_due (schedp ((demo_state 0)\<lparr>last_boost_tick := 4294967200\<rparr>)) ((demo_state 0)\<lparr>last_boost_tick := 4294967200\<rparr>)"
  using boost_resets_levels [of "(demo_state 0)\<lparr>last_boost_tick := 4294967200\<rparr>"] demo_state_facts(1)
  by (simp add: demo_state_def schedp_init_def)

end
