(* ===== verification/Timer.thy ===== *)
theory Timer
  imports Scheduler
begin

text \<open>
  The timer interrupt of \<open>trap.c\<close>: the clock, the wakeups and alarms of CPU 0, the quantum
  accounting with its two exponential moving averages, the demotion, and the preemption at the
  end of \<open>trap\<close>.
\<close>

section \<open>Definitions\<close>

text \<open>\<open>int burst_len = ticks - proc->burst_start_tick\<close>: unsigned subtraction read as \<open>int\<close>.\<close>

definition burst_len :: "u32 \<Rightarrow> proc \<Rightarrow> int" where
  "burst_len now p = int_of_uint (now - uint_of_int (burst_start_tick p))"

definition ema_step :: "int \<Rightarrow> int \<Rightarrow> int \<Rightarrow> int" where
  "ema_step alpha burst ema = s32 (ema + s32 (alpha * s32 (s32 (burst * 100) - ema)) sdiv 100)"

definition ema_cap :: "int \<Rightarrow> int" where
  "ema_cap x = (let x = (if x > 5000 then 5000 else x) in if x < 0 then 0 else x)"

text \<open>The branch taken when the quantum is used up.\<close>

definition quantum_expired :: "sched_params \<Rightarrow> u32 \<Rightarrow> proc \<Rightarrow> proc" where
  "quantum_expired sp now p =
     (let burst = burst_len now p;
          p = p\<lparr>burst_ema_fast := ema_cap (ema_step (ema_alpha_fast sp) burst (burst_ema_fast p)),
                burst_ema_slow := ema_cap (ema_step (ema_alpha_slow sp) burst (burst_ema_slow p))\<rparr>;
          v = s32 (burst_ema_fast p - burst_ema_slow p);
          p = p\<lparr>burst_variance := (if v < 0 then s32 (- v) else v),
                preempt_count := s32 (preempt_count p + 1)\<rparr>
      in if queue_level p < 2 \<and> (agent_pid sp = 0 \<or> pid p \<noteq> agent_pid sp)
         then p\<lparr>queue_level := s32 (queue_level p + 1)\<rparr> else p)"

definition account_tick :: "sched_params \<Rightarrow> u32 \<Rightarrow> proc \<Rightarrow> proc" where
  "account_tick sp now p =
     (let p = p\<lparr>ticks_remaining := s32 (ticks_remaining p - 1)\<rparr>
      in if ticks_remaining p \<le> 0 then quantum_expired sp now p else p)"

text \<open>The work of CPU 0: the clock, its sleepers, the alarms.\<close>

definition clock_tick :: "'z pstate_scheme \<Rightarrow> 'z pstate_scheme" where
  "clock_tick s = check_alarms (wakeup Ch_ticks (s\<lparr>ticks := ticks s + 1\<rparr>))"

text \<open>\<open>case T_IRQ0 + IRQ_TIMER\<close> on CPU \<open>c\<close>.\<close>

definition timer_irq :: "nat \<Rightarrow> 'z pstate_scheme \<Rightarrow> 'z pstate_scheme" where
  "timer_irq c s =
     (let s = (if c = 0 then clock_tick s else s)
      in case curproc c s of
           None \<Rightarrow> s
         | Some i \<Rightarrow> if state (ptable s ! i) = RUNNING
                     then upd_proc i (account_tick (schedp s) (ticks s)) s else s)"

text \<open>The preemption test at the end of \<open>trap\<close>, for a timer interrupt.\<close>

definition preempt :: "nat \<Rightarrow> 'z pstate_scheme \<Rightarrow> 'z pstate_scheme res" where
  "preempt c s =
     (case curproc c s of
        None \<Rightarrow> Inr s
      | Some i \<Rightarrow>
          if state (ptable s ! i) = RUNNING \<and> ticks_remaining (ptable s ! i) \<le> 0
          then yield c s else Inr s)"

section \<open>The moving averages\<close>

lemma ema_cap_range: "0 \<le> ema_cap x \<and> ema_cap x \<le> 5000"
  by (simp add: ema_cap_def)

lemma ema_cap_id [simp]: "0 \<le> x \<Longrightarrow> x \<le> 5000 \<Longrightarrow> ema_cap x = x"
  by (simp add: ema_cap_def)

text \<open>
  For averages in range, weights up to 100 and bursts up to 200000 ticks no operation of the
  update overflows: the products stay below two thousand million.
\<close>

lemma ema_step_exact:
  assumes "0 \<le> alpha" "alpha \<le> 100" "0 \<le> burst" "burst \<le> 200000" "0 \<le> ema" "ema \<le> 5000"
  shows "ema_step alpha burst ema = ema + alpha * (burst * 100 - ema) sdiv 100"
proof -
  let ?d = "burst * 100 - ema"
  have d: "-5000 \<le> ?d" "?d \<le> 20000000" using assms by auto
  have "alpha * ?d \<le> alpha * 20000000" using d assms by (intro mult_left_mono) auto
  then have m2: "alpha * ?d \<le> 2000000000" using assms by linarith
  have "alpha * (-5000) \<le> alpha * ?d" using d assms by (intro mult_left_mono) auto
  then have m1: "-500000 \<le> alpha * ?d" using assms by linarith
  have q: "-500000 \<le> alpha * ?d sdiv 100" "alpha * ?d sdiv 100 \<le> 2000000000"
    using sdiv_bounds [of 100 "alpha * ?d"] m1 m2 by linarith+
  have "s32 (burst * 100) = burst * 100" "s32 ?d = ?d" "s32 (alpha * ?d) = alpha * ?d"
    using assms d m1 m2 by (auto intro!: s32_eq)
  moreover have "s32 (ema + alpha * ?d sdiv 100) = ema + alpha * ?d sdiv 100"
    using q assms by (intro s32_eq) linarith+
  ultimately show ?thesis by (simp add: ema_step_def)
qed

text \<open>The fixed-point step lands between the old average and the new sample.\<close>

lemma sdiv_100_between:
  fixes a d :: int
  assumes "0 \<le> a" "a \<le> 100"
  shows "0 \<le> d \<Longrightarrow> 0 \<le> a * d sdiv 100 \<and> a * d sdiv 100 \<le> d"
    and "d \<le> 0 \<Longrightarrow> d \<le> a * d sdiv 100 \<and> a * d sdiv 100 \<le> 0"
proof -
  have pos: "0 \<le> a * e sdiv 100 \<and> a * e sdiv 100 \<le> e" if "0 \<le> e" for e :: int
  proof -
    have "a * e \<le> 100 * e" using assms that by (intro mult_right_mono) auto
    then have "a * e div 100 \<le> 100 * e div 100" by (intro zdiv_mono1) auto
    moreover have "0 \<le> a * e" using assms that by simp
    ultimately show ?thesis by (simp add: sdiv_nonneg)
  qed
  show "0 \<le> d \<Longrightarrow> 0 \<le> a * d sdiv 100 \<and> a * d sdiv 100 \<le> d" by (rule pos)
  assume "d \<le> 0"
  moreover from this have "a * d \<le> 0" using assms by (simp add: mult_nonneg_nonpos)
  ultimately show "d \<le> a * d sdiv 100 \<and> a * d sdiv 100 \<le> 0"
    using pos [of "- d"] by (auto simp: sdiv_neg_num sdiv_nonneg)
qed

lemma ema_step_between:
  assumes "0 \<le> alpha" "alpha \<le> 100" "0 \<le> burst" "burst \<le> 200000" "0 \<le> ema" "ema \<le> 5000"
  shows "min ema (burst * 100) \<le> ema_step alpha burst ema \<and>
         ema_step alpha burst ema \<le> max ema (burst * 100)"
proof (cases "ema \<le> burst * 100")
  case True
  then show ?thesis
    using sdiv_100_between(1) [OF assms(1,2), of "burst * 100 - ema"] ema_step_exact [OF assms] by auto
next
  case False
  then show ?thesis
    using sdiv_100_between(2) [OF assms(1,2), of "burst * 100 - ema"] ema_step_exact [OF assms] by auto
qed

section \<open>Accounting\<close>

lemma quantum_expired_fields [simp]:
  "state (quantum_expired sp now p) = state p" "pid (quantum_expired sp now p) = pid p"
  "pgdir (quantum_expired sp now p) = pgdir p" "kstack (quantum_expired sp now p) = kstack p"
  "kctx (quantum_expired sp now p) = kctx p" "parent (quantum_expired sp now p) = parent p"
  "ticks_remaining (quantum_expired sp now p) = ticks_remaining p"
  "ofile (quantum_expired sp now p) = ofile p" "sig_disp (quantum_expired sp now p) = sig_disp p"
  "burst_ema_fast (quantum_expired sp now p)
     = ema_cap (ema_step (ema_alpha_fast sp) (burst_len now p) (burst_ema_fast p))"
  "burst_ema_slow (quantum_expired sp now p)
     = ema_cap (ema_step (ema_alpha_slow sp) (burst_len now p) (burst_ema_slow p))"
  by (simp_all add: quantum_expired_def Let_def)

lemma quantum_expired_level:
  "queue_level (quantum_expired sp now p) =
     (if queue_level p < 2 \<and> (agent_pid sp = 0 \<or> pid p \<noteq> agent_pid sp)
      then s32 (queue_level p + 1) else queue_level p)"
  by (auto simp: quantum_expired_def Let_def)

lemma account_tick_fields [simp]:
  "state (account_tick sp now p) = state p" "pid (account_tick sp now p) = pid p"
  "pgdir (account_tick sp now p) = pgdir p" "kstack (account_tick sp now p) = kstack p"
  "kctx (account_tick sp now p) = kctx p" "parent (account_tick sp now p) = parent p"
  "ofile (account_tick sp now p) = ofile p" "sig_disp (account_tick sp now p) = sig_disp p"
  "ticks_remaining (account_tick sp now p) = s32 (ticks_remaining p - 1)"
  by (simp_all add: account_tick_def Let_def)

lemma quantum_expired_variance:
  "burst_variance (quantum_expired sp now p) =
     \<bar>burst_ema_fast (quantum_expired sp now p) - burst_ema_slow (quantum_expired sp now p)\<bar>"
proof -
  let ?f = "ema_cap (ema_step (ema_alpha_fast sp) (burst_len now p) (burst_ema_fast p))"
  let ?s = "ema_cap (ema_step (ema_alpha_slow sp) (burst_len now p) (burst_ema_slow p))"
  have "0 \<le> ?f" "?f \<le> 5000" "0 \<le> ?s" "?s \<le> 5000" using ema_cap_range by blast+
  then have "s32 (?f - ?s) = ?f - ?s" "s32 (- (?f - ?s)) = - (?f - ?s)" by (intro s32_eq; linarith)+
  then show ?thesis by (simp add: quantum_expired_def Let_def)
qed

section \<open>The properties of the accounting\<close>

text \<open>
  C19: The moving averages are sound in fixed-point arithmetic: for a burst of up to 200000 ticks
  and averages in range nothing overflows, and the new fast and slow averages lie between the
  old value and the new sample (both capped at 5000).
\<close>

theorem ema_update_between:
  assumes "params_ok sp" and "0 \<le> burst_len now p" and "burst_len now p \<le> 200000"
    and "0 \<le> burst_ema_fast p" "burst_ema_fast p \<le> 5000" "0 \<le> burst_ema_slow p" "burst_ema_slow p \<le> 5000"
  shows "let q = quantum_expired sp now p; sample = min 5000 (burst_len now p * 100) in
     min (burst_ema_fast p) sample \<le> burst_ema_fast q \<and> burst_ema_fast q \<le> max (burst_ema_fast p) sample \<and>
     min (burst_ema_slow p) sample \<le> burst_ema_slow q \<and> burst_ema_slow q \<le> max (burst_ema_slow p) sample"
proof -
  have cap: "min e (min 5000 (b * 100)) \<le> ema_cap x \<and> ema_cap x \<le> max e (min 5000 (b * 100))"
    if "min e (b * 100) \<le> x" "x \<le> max e (b * 100)" "0 \<le> e" "e \<le> 5000" "0 \<le> b" for e b x :: int
    using that by (auto simp: ema_cap_def min_def max_def split: if_splits)
  have f: "min (burst_ema_fast p) (burst_len now p * 100) \<le> ema_step (ema_alpha_fast sp) (burst_len now p) (burst_ema_fast p) \<and>
      ema_step (ema_alpha_fast sp) (burst_len now p) (burst_ema_fast p) \<le> max (burst_ema_fast p) (burst_len now p * 100)"
    using assms by (intro ema_step_between) (auto simp: params_ok_def)
  have s: "min (burst_ema_slow p) (burst_len now p * 100) \<le> ema_step (ema_alpha_slow sp) (burst_len now p) (burst_ema_slow p) \<and>
      ema_step (ema_alpha_slow sp) (burst_len now p) (burst_ema_slow p) \<le> max (burst_ema_slow p) (burst_len now p * 100)"
    using assms by (intro ema_step_between) (auto simp: params_ok_def)
  from cap [of "burst_ema_fast p" "burst_len now p"] f cap [of "burst_ema_slow p" "burst_len now p"] s assms
  show ?thesis by (simp add: Let_def)
qed

theorem ema_update_between_witness:
  "let q = quantum_expired schedp_init 108 ((demo_proc 1 1 400 0)\<lparr>burst_start_tick := 100\<rparr>); sample = min 5000 (8 * 100) in
     min 400 sample \<le> burst_ema_fast q \<and> burst_ema_fast q \<le> max 400 sample \<and>
     min 400 sample \<le> burst_ema_slow q \<and> burst_ema_slow q \<le> max 400 sample"
proof -
  have "burst_len 108 ((demo_proc 1 1 400 0)\<lparr>burst_start_tick := 100\<rparr>) = 8"
    by (simp add: burst_len_def int_of_uint_def uint_of_int_def)
  moreover have "burst_ema_fast ((demo_proc 1 1 400 0)\<lparr>burst_start_tick := 100\<rparr>) = 400"
    "burst_ema_slow ((demo_proc 1 1 400 0)\<lparr>burst_start_tick := 100\<rparr>) = 400" by (simp_all add: demo_proc_def)
  ultimately show ?thesis
    using ema_update_between [of schedp_init 108 "(demo_proc 1 1 400 0)\<lparr>burst_start_tick := 100\<rparr>"]
    by (simp only: params_ok_init)
qed

text \<open>
  C18: A timer tick of a running process uses one tick of its quantum and nothing else, until the
  last one: then the process is demoted by exactly one level, never below queue 2 and never if it
  is the registered agent, its preemption is counted, and the variance is the distance of the
  two averages.
\<close>

theorem tick_accounting:
  assumes "1 \<le> ticks_remaining p" and "ticks_remaining p \<le> 40" and "0 \<le> queue_level p" and "queue_level p \<le> 2"
  shows "let q = account_tick sp now p in
     (1 < ticks_remaining p \<longrightarrow> q = p\<lparr>ticks_remaining := ticks_remaining p - 1\<rparr>) \<and>
     (ticks_remaining p = 1 \<longrightarrow>
        ticks_remaining q = 0 \<and>
        queue_level q = (if agent_pid sp \<noteq> 0 \<and> pid p = agent_pid sp then queue_level p else min 2 (queue_level p + 1)) \<and>
        preempt_count q = s32 (preempt_count p + 1) \<and>
        burst_variance q = \<bar>burst_ema_fast q - burst_ema_slow q\<bar>)"
proof -
  have "s32 (ticks_remaining p - 1) = ticks_remaining p - 1" "s32 (queue_level p + 1) = queue_level p + 1"
    using assms by (simp_all add: s32_eq)
  moreover have "preempt_count (quantum_expired sp now r) = s32 (preempt_count r + 1)" for r
    by (simp add: quantum_expired_def Let_def)
  ultimately show ?thesis
    using assms by (auto simp: account_tick_def Let_def quantum_expired_level quantum_expired_variance simp del: quantum_expired_fields(10,11))
qed

theorem tick_accounting_witness:
  "queue_level (account_tick schedp_init 108 (demo_proc 1 1 400 0)) = 2"
  using tick_accounting [of "demo_proc 1 1 400 0" schedp_init 108] by (simp add: demo_proc_def schedp_init_def Let_def)

end
