(* ===== verification/Sysproc.thy ===== *)
theory Sysproc
  imports Timer Strings
begin

text \<open>
  Argument fetching of \<open>syscall.c\<close> and the handlers of \<open>sysproc.c\<close> that work on the process
  table and the scheduler parameters alone. \<open>um\<close> is memory as the kernel sees it while the
  caller's page table is loaded; \<open>c\<close> is the CPU the call runs on. A handler returns the value
  stored in \<open>rax\<close> and the new state.
\<close>

section \<open>Fetching arguments\<close>

definition fetchint :: "mem \<Rightarrow> proc \<Rightarrow> u64 \<Rightarrow> int option" where
  "fetchint um p addr =
     (if addr < PGSIZE \<or> addr \<ge> sz p \<or> addr + 4 > sz p then None else Some (sint (ld32 um addr)))"

definition fetchaddr :: "mem \<Rightarrow> proc \<Rightarrow> u64 \<Rightarrow> u64 option" where
  "fetchaddr um p addr =
     (if addr < PGSIZE \<or> addr \<ge> sz p \<or> addr + 8 > sz p then None else Some (ld64 um addr))"

text \<open>The scan of \<open>fetchstr\<close> from \<open>s\<close> to \<open>ep\<close>; \<open>n\<close> bytes are left.\<close>

fun fetchstr_loop :: "mem \<Rightarrow> u64 \<Rightarrow> nat \<Rightarrow> nat \<Rightarrow> nat option" where
  "fetchstr_loop um s k 0 = None"
| "fetchstr_loop um s k (Suc n) =
     (if um s = 0 then Some k else fetchstr_loop um (s + 1) (Suc k) n)"

definition fetchstr :: "mem \<Rightarrow> proc \<Rightarrow> u64 \<Rightarrow> (u64 \<times> nat) option" where
  "fetchstr um p addr =
     (if addr < PGSIZE \<or> addr \<ge> sz p then None
      else map_option (\<lambda>k. (addr, k)) (fetchstr_loop um addr 0 (unat (sz p - addr))))"

definition fetcharg :: "proc \<Rightarrow> int \<Rightarrow> u64 res" where
  "fetcharg p n =
     (if n = 0 then Inr (rdi (tf p)) else if n = 1 then Inr (rsi (tf p))
      else if n = 2 then Inr (rdx (tf p)) else if n = 3 then Inr (r10 (tf p))
      else if n = 4 then Inr (r8 (tf p)) else if n = 5 then Inr (r9 (tf p))
      else Inl (Panic ''failed fetch''))"

definition argint :: "proc \<Rightarrow> int \<Rightarrow> int res" where
  "argint p n = rbind (fetcharg p n) (\<lambda>a. Inr (sint (ucast a :: u32)))"

definition argaddr :: "proc \<Rightarrow> int \<Rightarrow> u64 res" where
  "argaddr p n = fetcharg p n"

text \<open>\<open>argptr\<close> tests the low half of the argument and hands out the whole of it.\<close>

definition argptr :: "proc \<Rightarrow> int \<Rightarrow> int \<Rightarrow> u64 option res" where
  "argptr p n nbytes =
     rbind (argaddr p n) (\<lambda>i.
       let lo = ucast i :: u32 in
       Inr (if nbytes < 0 \<or> ucast lo \<ge> sz p \<or> ucast (lo + uint_of_int nbytes) > sz p
            then None else Some i))"

definition argstr :: "mem \<Rightarrow> proc \<Rightarrow> int \<Rightarrow> (u64 \<times> nat) option res" where
  "argstr um p n = rbind (argint p n) (\<lambda>addr. Inr (fetchstr um p (word_of_int addr)))"

section \<open>Handlers on the process table\<close>

definition with_cur :: "nat \<Rightarrow> 'z pstate_scheme \<Rightarrow> (nat \<Rightarrow> proc \<Rightarrow> 'b res) \<Rightarrow> 'b res" where
  "with_cur c s f = (case curproc c s of None \<Rightarrow> Inl NullPointer | Some i \<Rightarrow> f i (ptable s ! i))"

definition sys_kill :: "nat \<Rightarrow> 'z pstate_scheme \<Rightarrow> (int \<times> 'z pstate_scheme) res" where
  "sys_kill c s =
     with_cur c s (\<lambda>i p. rbind (argint p 0) (\<lambda>target. rbind (argint p 1) (\<lambda>signum.
       Inr (kill target signum s))))"

definition sys_alarm :: "nat \<Rightarrow> 'z pstate_scheme \<Rightarrow> (int \<times> 'z pstate_scheme) res" where
  "sys_alarm c s =
     with_cur c s (\<lambda>i p. rbind (argint p 0) (\<lambda>secs.
       Inr (0, upd_proc i (\<lambda>p. p\<lparr>alarm_ticks := s32 (secs * 100),
                                 alarm_countdown := s32 (s32 (secs + 1) * 100)\<rparr>) s)))"

definition sys_signal :: "nat \<Rightarrow> 'z pstate_scheme \<Rightarrow> (int \<times> 'z pstate_scheme) res" where
  "sys_signal c s =
     with_cur c s (\<lambda>i p. rbind (argint p 0) (\<lambda>signum. rbind (argaddr p 1) (\<lambda>handler.
       if signum < 0 \<or> signum \<ge> 32 then Inr (-1, s)
       else Inr (0, upd_proc i (signal signum handler) s))))"

definition sys_sigret :: "nat \<Rightarrow> 'z pstate_scheme \<Rightarrow> (int \<times> 'z pstate_scheme) res" where
  "sys_sigret c s =
     with_cur c s (\<lambda>i p. Inr (0, upd_proc i (\<lambda>p. p\<lparr>tf := tf_backup p\<rparr>) s))"

definition sys_fgproc :: "nat \<Rightarrow> 'z pstate_scheme \<Rightarrow> (int \<times> 'z pstate_scheme) res" where
  "sys_fgproc c s = with_cur c s (\<lambda>i p. Inr (0, s\<lparr>fgpid := pid p\<rparr>))"

definition sys_getpid :: "nat \<Rightarrow> 'z pstate_scheme \<Rightarrow> (int \<times> 'z pstate_scheme) res" where
  "sys_getpid c s = with_cur c s (\<lambda>i p. Inr (pid p, s))"

definition sys_uptime :: "nat \<Rightarrow> 'z pstate_scheme \<Rightarrow> (int \<times> 'z pstate_scheme) res" where
  "sys_uptime c s = Inr (int_of_uint (ticks s), s)"

text \<open>
  One round of the loop of \<open>sys_sleep\<close>, entered with \<open>tickslock\<close> about to be acquired: the
  call returns a value, or goes to sleep (\<open>None\<close>) and runs this again when it is resumed.
\<close>

definition sys_sleep_round ::
    "u32 \<Rightarrow> int \<Rightarrow> nat \<Rightarrow> 'z pstate_scheme \<Rightarrow> (int option \<times> 'z pstate_scheme) res" where
  "sys_sleep_round ticks0 n c s =
     with_cur c s (\<lambda>i p.
       if ticks s - ticks0 < uint_of_int n
       then if killed p \<noteq> 0 then Inr (Some (-1), s)
            else rbind (sleep Ch_ticks (Some OtherLock) c (upd_cpu c pushcli s)) (\<lambda>s. Inr (None, s))
       else Inr (Some 0, s))"

section \<open>Handlers of the scheduling interface\<close>

text \<open>\<open>struct schedstat\<close> is fourteen consecutive \<open>int\<close>s.\<close>

definition sizeof_schedstat :: u64 where
  "sizeof_schedstat = 56"

definition stat_words :: "schedstat \<Rightarrow> int list" where
  "stat_words e = [st_pid e, st_state e, st_queue_level e, st_burst_ema_fast e,
     st_burst_ema_slow e, st_wait_ticks e, st_yield_count e, st_preempt_count e,
     st_burst_variance e, st_page_fault_count e, st_effective_score e, st_sched_alert e,
     st_first_run_tick e, st_create_tick e]"

fun store_words :: "u64 \<Rightarrow> int list \<Rightarrow> mem \<Rightarrow> mem" where
  "store_words a [] um = um"
| "store_words a (w # ws) um = store_words (a + 4) ws (st32 a (uint_of_int w) um)"

definition store_stats :: "u64 \<Rightarrow> schedstat list \<Rightarrow> mem \<Rightarrow> mem" where
  "store_stats a es um = store_words a (concat (map stat_words es)) um"

definition sys_getschedstats ::
    "nat \<Rightarrow> mem \<Rightarrow> 'z pstate_scheme \<Rightarrow> (int \<times> mem \<times> 'z pstate_scheme) res" where
  "sys_getschedstats c um s =
     with_cur c s (\<lambda>i p. rbind (argaddr p 0) (\<lambda>buf_addr. rbind (argint p 1) (\<lambda>maxproc.
       if maxproc \<le> 0 \<or> maxproc > int NPROC then Inr (-1, um, s)
       else let buf_end = buf_addr + word_of_int maxproc * sizeof_schedstat in
            if buf_addr < PGSIZE \<or> buf_addr \<ge> sz p \<or> buf_end > sz p then Inr (-1, um, s)
            else let es = kern_getschedstats maxproc s
                 in Inr (int (length es), store_stats buf_addr es um, s))))"

definition sys_setschedparam ::
    "nat \<Rightarrow> mem \<Rightarrow> 'z pstate_scheme \<Rightarrow> (int \<times> 'z pstate_scheme) res" where
  "sys_setschedparam c um s =
     with_cur c s (\<lambda>i p.
       if agent_pid (schedp s) = 0 \<or> pid p \<noteq> agent_pid (schedp s) then Inr (-1, s)
       else rbind (argaddr p 0) (\<lambda>upd_addr.
         if upd_addr < PGSIZE \<or> upd_addr + sizeof_sched_update > sz p then Inr (-1, s)
         else let upd = load_sched_update (ld32 um) upd_addr in
              if upd_rejected upd then Inr (-1, s)
              else Inr (0, s\<lparr>schedp := commit_update upd (schedp s)\<rparr>)))"

definition sys_register_agent :: "nat \<Rightarrow> 'z pstate_scheme \<Rightarrow> (int \<times> 'z pstate_scheme) res" where
  "sys_register_agent c s =
     with_cur c s (\<lambda>i p.
       if agent_pid (schedp s) \<noteq> 0 then Inr (-1, s)
       else Inr (0, kern_pin_agent i (s\<lparr>schedp := (schedp s)\<lparr>agent_pid := pid p\<rparr>\<rparr>)))"

section \<open>Storing and reading back the telemetry\<close>

lemma unat_of_nat_u64: "k < 2 ^ 64 \<Longrightarrow> unat (of_nat k :: u64) = k"
  by (simp add: unat_of_nat)

lemma unat_add_small: "unat (x :: u64) + k < 2 ^ 64 \<Longrightarrow> unat (x + of_nat k) = unat x + k"
  by (simp add: unat_word_ariths unat_of_nat)

text \<open>An address \<open>n\<close> bytes or more behind \<open>a\<close> is not touched by \<open>n\<close> bytes of stores.\<close>

lemma store_words_other: "4 * length ws \<le> unat (x - a) \<Longrightarrow> store_words a ws um x = um x"
proof (induction ws arbitrary: a um)
  case (Cons w ws)
  have "unat (x - a) = unat (x - (a + 4)) + 4"
  proof -
    have "(4 :: u64) \<le> x - a" using Cons.prems by (simp add: word_le_nat_alt)
    then have "unat (x - a - 4) = unat (x - a) - 4" by (simp add: unat_sub)
    moreover have "x - a - 4 = x - (a + 4)" by simp
    ultimately show ?thesis using Cons.prems by simp
  qed
  then show ?case using Cons.IH [of "a + 4"] Cons.prems by (simp add: st32_other)
qed simp

lemma ld32_store_words:
  assumes "4 * length ws < 2 ^ 64" "k < length ws"
  shows "ld32 (store_words a ws um) (a + of_nat (4 * k)) = uint_of_int (ws ! k)"
  using assms
proof (induction ws arbitrary: a um k)
  case (Cons w ws)
  show ?case
  proof (cases k)
    case 0
    have "store_words (a + 4) ws (st32 a (uint_of_int w) um) (a + of_nat j) = st32 a (uint_of_int w) um (a + of_nat j)"
      if "j < 4" for j
    proof (rule store_words_other)
      have "unat (of_nat j - 4 :: u64) = 2 ^ 64 + j - 4"
        using that by (subst unat_sub_if') (simp add: unat_of_nat)
      moreover have "a + of_nat j - (a + 4) = of_nat j - 4" by simp
      ultimately show "4 * length ws \<le> unat (a + of_nat j - (a + 4))" using Cons.prems that by simp
    qed
    from this [of 0] this [of 1] this [of 2] this [of 3] 0 show ?thesis
      by (simp, subst ld32_cong [of _ _ "st32 a (uint_of_int w) um"]) simp_all
  next
    case (Suc j)
    then show ?thesis using Cons.IH [of j "a + 4" "st32 a (uint_of_int w) um"] Cons.prems
      by (simp add: algebra_simps)
  qed
qed simp

lemma length_stat_words [simp]: "length (stat_words e) = 14"
  by (simp add: stat_words_def)

lemma nth_stat_words_concat:
  "k < length es \<Longrightarrow> w < 14 \<Longrightarrow> concat (map stat_words es) ! (14 * k + w) = stat_words (es ! k) ! w"
proof (induction es arbitrary: k)
  case (Cons e es)
  then show ?case by (cases k) (simp_all add: nth_append)
qed simp

lemma length_stat_words_concat [simp]: "length (concat (map stat_words es)) = 14 * length es"
  by (induction es) simp_all

section \<open>The telemetry snapshot\<close>

lemma stats_loop_later:
  "0 < n \<Longrightarrow> stats_loop alert m n ps = map (stat_entry 0) (take (nat (m - n)) (filter (\<lambda>p. state p \<noteq> UNUSED) ps))"
proof (induction ps arbitrary: n)
  case (Cons p ps)
  show ?case
  proof (cases "n < m")
    case True
    then have "nat (m - n) = Suc (nat (m - (n + 1)))" by simp
    with Cons True show ?thesis by simp
  qed simp
qed simp

lemma stats_loop_eq:
  "stats_loop alert m 0 ps =
     (case take (nat m) (filter (\<lambda>p. state p \<noteq> UNUSED) ps) of
        [] \<Rightarrow> [] | p # qs \<Rightarrow> stat_entry alert p # map (stat_entry 0) qs)"
proof (induction ps)
  case (Cons p ps)
  show ?case
  proof (cases "0 < m")
    case True
    then have "nat m = Suc (nat (m - 1))" by simp
    with Cons True show ?thesis by (simp add: stats_loop_later)
  qed simp
qed simp

lemma length_stats_loop:
  "length (stats_loop alert m 0 ps) = min (nat m) (length (filter (\<lambda>p. state p \<noteq> UNUSED) ps))"
proof -
  have "length (stats_loop alert m 0 ps) = length (take (nat m) (filter (\<lambda>p. state p \<noteq> UNUSED) ps))"
    by (cases "take (nat m) (filter (\<lambda>p. state p \<noteq> UNUSED) ps)") (auto simp only: stats_loop_eq list.case list.size length_map)
  then show ?thesis by (simp add: min.commute)
qed

section \<open>The properties of the scheduling interface\<close>


definition demo_update :: "mem" where
  "demo_update = store_words 8192 [2, 4, 8, 100, 60, 20, 10, 0] (\<lambda>_. 0)"

lemma demo_update_word:
  "k < 8 \<Longrightarrow> ld32 demo_update (8192 + of_nat (4 * k)) = uint_of_int ([2, 4, 8, 100, 60, 20, 10, 0] ! k)"
  unfolding demo_update_def by (rule ld32_store_words) simp_all

definition demo_agent :: pstate where
  "demo_agent = (demo_state 0)\<lparr>schedp := schedp_init\<lparr>agent_pid := 1\<rparr>,
     ptable := (ptable (demo_state 0))[0 := (demo_proc 1 0 100 0)\<lparr>state := RUNNING, sz := 16384,
        tf := tf_zero\<lparr>rdi := 8192, rsi := 2\<rparr>\<rparr>],
     cpus := [(cpus (demo_state 0) ! 0)\<lparr>cpu_proc := Some 0\<rparr>]\<rparr>"

lemma demo_agent_facts:
  "curproc 0 demo_agent = Some 0" "agent_pid (schedp demo_agent) = 1"
  "ptable demo_agent ! 0 = (demo_proc 1 0 100 0)\<lparr>state := RUNNING, sz := 16384,
     tf := tf_zero\<lparr>rdi := 8192, rsi := 2\<rparr>\<rparr>"
  "length (ptable demo_agent) = NPROC"
  by (simp_all add: demo_agent_def demo_state_def NPROC_def)


text \<open>
  C20: \<open>getschedstats\<close> reports the first \<open>maxproc\<close> used slots in table order, one entry of
  fourteen integers each, with the alert on the first entry only; the caller reads back exactly
  these words, no byte outside the returned entries changes, and the kernel state is untouched.
\<close>

theorem getschedstats_spec:
  assumes "curproc c s = Some i" and "sys_getschedstats c um s = Inr (r, um', s')" and "0 \<le> r"
  shows "let p = ptable s ! i; buf = rdi (tf p); maxproc = sint (ucast (rsi (tf p)) :: u32);
             used = take (nat maxproc) (filter (\<lambda>p. state p \<noteq> UNUSED) (ptable s));
             entry = (\<lambda>k. stat_entry (if k = 0 then sched_alert (schedp s) else 0) (used ! k))
         in s' = s \<and> 0 < maxproc \<and> maxproc \<le> int NPROC \<and> r = int (length used) \<and>
            (\<forall>k<length used. \<forall>w<14. ld32 um' (buf + of_nat (56 * k + 4 * w)) = uint_of_int (stat_words (entry k) ! w)) \<and>
            (\<forall>x. 56 * length used \<le> unat (x - buf) \<longrightarrow> um' x = um x)"
proof -
  let ?p = "ptable s ! i"
  let ?buf = "rdi (tf ?p)" and ?m = "sint (ucast (rsi (tf ?p)) :: u32)"
  let ?used = "take (nat ?m) (filter (\<lambda>p. state p \<noteq> UNUSED) (ptable s))"
  let ?es = "stats_loop (sched_alert (schedp s)) ?m 0 (ptable s)"
  have m: "0 < ?m" "?m \<le> int NPROC" and r: "r = int (length ?es)" and s': "s' = s"
    and um': "um' = store_words ?buf (concat (map stat_words ?es)) um"
    using assms by (auto simp: sys_getschedstats_def with_cur_def argaddr_def argint_def fetcharg_def Let_def
        kern_getschedstats_def store_stats_def split: if_splits)
  have len: "length ?es = length ?used" by (simp add: length_stats_loop min.commute)
  have es: "?es ! k = stat_entry (if k = 0 then sched_alert (schedp s) else 0) (?used ! k)" if "k < length ?used" for k
    using that by (cases ?used) (auto simp only: stats_loop_eq list.case nth_Cons' nth_map list.size split: if_splits)
  have small: "length ?es \<le> 64"
    using m by (simp add: length_stats_loop NPROC_def)
  have "ld32 um' (?buf + of_nat (56 * k + 4 * w)) = uint_of_int (stat_words (?es ! k) ! w)"
    if "k < length ?es" "w < 14" for k w
  proof -
    have "14 * k + w < length (concat (map stat_words ?es))" using that by simp
    from ld32_store_words [OF _ this, of ?buf um] small
    have "ld32 um' (?buf + of_nat (4 * (14 * k + w))) = uint_of_int (concat (map stat_words ?es) ! (14 * k + w))"
      unfolding um' by simp
    moreover have "4 * (14 * k + w) = 56 * k + 4 * w" by simp
    ultimately show ?thesis using nth_stat_words_concat [OF that] by (simp only:)
  qed
  with es len have "\<forall>k<length ?used. \<forall>w<14. ld32 um' (?buf + of_nat (56 * k + 4 * w)) =
      uint_of_int (stat_words (stat_entry (if k = 0 then sched_alert (schedp s) else 0) (?used ! k)) ! w)" by metis
  moreover have "\<forall>x. 56 * length ?used \<le> unat (x - ?buf) \<longrightarrow> um' x = um x"
    unfolding um' using len by (auto intro!: store_words_other)
  ultimately show ?thesis using m r s' len by (simp only: Let_def simp_thms)
qed

theorem getschedstats_spec_witness:
  "\<exists>um'. sys_getschedstats 0 demo_update demo_agent = Inr (2, um', demo_agent) \<and> ld32 um' 8192 = 1"
proof -
  have st: "kern_getschedstats 2 demo_agent = [stat_entry 0 (ptable demo_agent ! 0), stat_entry 0 (ptable demo_agent ! 1)]"
    by (simp add: kern_getschedstats_def demo_agent_def demo_state_def demo_proc_def schedp_init_def)
  obtain um' where eq: "sys_getschedstats 0 demo_update demo_agent = Inr (2, um', demo_agent)"
    using st demo_agent_facts
    by (simp add: sys_getschedstats_def with_cur_def argaddr_def argint_def fetcharg_def Let_def NPROC_def
        demo_proc_def tf_zero_def PGSIZE_def sizeof_schedstat_def)
  have used: "take 2 (filter (\<lambda>p. state p \<noteq> UNUSED) (ptable demo_agent)) = [ptable demo_agent ! 0, ptable demo_agent ! 1]"
    by (simp add: demo_agent_def demo_state_def demo_proc_def)
  have used0: "filter (\<lambda>p. state p \<noteq> UNUSED) (ptable demo_agent) ! 0 = ptable demo_agent ! 0"
    by (simp add: demo_agent_def demo_state_def demo_proc_def)
  have "ld32 um' 8192 = uint_of_int 1"
    using getschedstats_spec [OF demo_agent_facts(1) eq] demo_agent_facts(3) used used0
    by (auto simp: Let_def tf_zero_def demo_proc_def stat_words_def stat_entry_def dest!: spec [of _ 0])
  then show ?thesis using eq by (simp add: uint_of_int_def)
qed

text \<open>
  Registration is first come, first served: \<open>register_agent\<close> succeeds exactly when no agent
  is registered, and then makes the caller the agent, in queue 0 with a full quantum; an existing
  registration is never replaced.
\<close>

theorem register_agent_spec:
  assumes "curproc c s = Some i" and "i < length (ptable s)"
  shows "\<exists>r s'. sys_register_agent c s = Inr (r, s') \<and> (r = 0 \<longleftrightarrow> agent_pid (schedp s) = 0) \<and>
    (r = 0 \<longrightarrow> agent_pid (schedp s') = pid (ptable s ! i) \<and> queue_level (ptable s' ! i) = 0 \<and>
       ticks_remaining (ptable s' ! i) = q0_quantum (schedp s) \<and>
       (\<forall>j. j \<noteq> i \<longrightarrow> ptable s' ! j = ptable s ! j)) \<and>
    (r \<noteq> 0 \<longrightarrow> r = -1 \<and> s' = s)"
  using assms by (auto simp: sys_register_agent_def with_cur_def kern_pin_agent_def)

theorem register_agent_spec_witness:
  "\<exists>s'. sys_register_agent 0 (demo_agent\<lparr>schedp := schedp_init\<rparr>) = Inr (0, s') \<and> agent_pid (schedp s') = 1"
proof -
  have "curproc 0 (demo_agent\<lparr>schedp := schedp_init\<rparr>) = Some 0"
    "0 < length (ptable (demo_agent\<lparr>schedp := schedp_init\<rparr>))"
    using demo_agent_facts by (simp_all add: NPROC_def)
  moreover have "pid (ptable demo_agent ! 0) = 1" "agent_pid schedp_init = 0"
    using demo_agent_facts by (simp_all add: demo_proc_def schedp_init_def)
  ultimately show ?thesis
    using register_agent_spec [where c = 0 and i = 0 and s = "demo_agent\<lparr>schedp := schedp_init\<rparr>"] by auto
qed

section \<open>Where the code departs from its intent\<close>




definition demo_sleeper :: pstate where
  "demo_sleeper = upd_proc 0 (\<lambda>p. p\<lparr>state := SLEEPING, chan := Some Ch_ticks\<rparr>) demo_agent"

definition demo_woken :: pstate where
  "demo_woken = (upd_proc 0 (\<lambda>p. p\<lparr>state := RUNNING\<rparr>) (snd (kill 1 SIGKILL demo_sleeper)))\<lparr>ticks := 5\<rparr>"


end
