(* ===== verification/Multicpu.thy ===== *)
theory Multicpu
  imports Sysproc
begin

text \<open>
  The process table shared by all CPUs as a transition system. A step is one critical section
  of \<open>ptable.lock\<close> on some CPU (a scheduler turn, a timer interrupt, the table part of a
  system call) or an unlocked store to the slot a CPU owns; CPUs interleave in any order. The
  invariants of the reachable states are proved by rule induction, those that speak about one
  slot at a time once for all inside the locale \<open>slot_inv\<close>.
\<close>

section \<open>Steps\<close>

definition pstate_init :: "nat \<Rightarrow> u64 \<Rightarrow> pstate" where
  "pstate_init n kpml4 = pinit \<lparr>
     ptable = replicate NPROC proc_zero, nextpid = 1, initproc = None, schedp = schedp_init,
     fgpid = 0, ticks = 0, last_boost_tick = 0, rr_next = 0,
     cpus = replicate n \<lparr>apicid = 0, started = 1, ncli = 0, intena = False, intr = False,
                         cpu_proc = None, cr3 = kpml4, tss_rsp0 = 0\<rparr>,
     kpml4_pa = kpml4\<rparr>"

text \<open>The stores of \<open>userinit\<close> into the slot of the first process.\<close>

definition initcode_name :: "u8 list" where
  "initcode_name = [105, 110, 105, 116, 99, 111, 100, 101, 0]"

definition userinit_slot :: "u64 \<Rightarrow> nat option \<Rightarrow> proc \<Rightarrow> proc" where
  "userinit_slot pg root p =
     p\<lparr>pgdir := pg, sz := PGSIZE * 2,
       tf := tf_zero\<lparr>r11 := 0x200, rsp := PGSIZE * 2, rcx := PGSIZE\<rparr>,
       pname := safestrcpy_name initcode_name (pname p), cwd := root, state := RUNNABLE\<rparr>"

inductive pstep :: "pstate \<Rightarrow> pstate \<Rightarrow> bool" where
  turn: "c < length (cpus s) \<Longrightarrow> curproc c s = None \<Longrightarrow> scheduler_turn c s = Inr (r, s') \<Longrightarrow> pstep s s'"
| timer: "c < length (cpus s) \<Longrightarrow> intr (cpus s ! c) \<Longrightarrow>
    preempt c (timer_irq c (upd_cpu c (\<lambda>k. k\<lparr>intr := False\<rparr>) s)) = Inr s' \<Longrightarrow> pstep s s'"
| timer_killed: "c < length (cpus s) \<Longrightarrow> intr (cpus s ! c) \<Longrightarrow> curproc c s = Some i \<Longrightarrow>
    killed (ptable s ! i) \<noteq> 0 \<Longrightarrow> pstep s (timer_irq c (upd_cpu c (\<lambda>k. k\<lparr>intr := False\<rparr>) s))"
| iret: "c < length (cpus s) \<Longrightarrow> pstep s (upd_cpu c (\<lambda>k. k\<lparr>intr := True\<rparr>) s)"
| alloc: "alloc_slot s = (Some i, s') \<Longrightarrow> pstep s s'"
| kstack: "i < length (ptable s) \<Longrightarrow> state (ptable s ! i) = EMBRYO \<Longrightarrow>
    pstep s (upd_proc i (alloc_context kst) s)"
| first: "i < length (ptable s) \<Longrightarrow> state (ptable s ! i) = EMBRYO \<Longrightarrow> kctx (ptable s ! i) = At_forkret \<Longrightarrow>
    initproc s = None \<Longrightarrow> pg \<noteq> 0 \<Longrightarrow>
    pstep s ((upd_proc i (userinit_slot pg root) s)\<lparr>initproc := Some i\<rparr>)"
| child: "c < length (cpus s) \<Longrightarrow> curproc c s = Some i \<Longrightarrow>
    j < length (ptable s) \<Longrightarrow> state (ptable s ! j) = EMBRYO \<Longrightarrow> kctx (ptable s ! j) = At_forkret \<Longrightarrow>
    pstep s (upd_proc j (fork_child i (ptable s ! i) pg) s)"
| image: "c < length (cpus s) \<Longrightarrow> curproc c s = Some i \<Longrightarrow> pg \<noteq> 0 \<Longrightarrow> (\<forall>xs. length (nm xs) = length xs) \<Longrightarrow>
    switchuvm c i (upd_proc i (\<lambda>p. p\<lparr>pgdir := pg, sz := n, tf := t, pname := nm (pname p)\<rparr>) s) = Inr s' \<Longrightarrow> pstep s s'"
| frame: "c < length (cpus s) \<Longrightarrow> curproc c s = Some i \<Longrightarrow>
    pstep s (upd_proc i (\<lambda>p. p\<lparr>tf := t, tf_backup := b, signal_pending := g\<rparr>) s)"
| fdesc: "c < length (cpus s) \<Longrightarrow> curproc c s = Some i \<Longrightarrow>
    pstep s (upd_proc i (\<lambda>p. p\<lparr>ofile := (ofile p)[fd := f], cwd := d\<rparr>) s)"
| fault: "c < length (cpus s) \<Longrightarrow> curproc c s = Some i \<Longrightarrow>
    pstep s (upd_proc i (\<lambda>p. p\<lparr>page_fault_count := n, killed := 1\<rparr>) s)"
| sleeps: "c < length (cpus s) \<Longrightarrow> curproc c s = Some i \<Longrightarrow>
    sleep ch (Some lk) c (upd_cpu c pushcli s) = Inr s' \<Longrightarrow> pstep s s'"
| wakes: "pstep s (wakeup ch s)"
| exits: "c < length (cpus s) \<Longrightarrow> curproc c s = Some i \<Longrightarrow> initproc s \<noteq> Some i \<Longrightarrow>
    exit_ptable c s = Inr s' \<Longrightarrow> pstep s s'"
| reap: "c < length (cpus s) \<Longrightarrow> curproc c s = Some i \<Longrightarrow> wait_zombie i (ptable s) = Some j \<Longrightarrow>
    pstep s (upd_proc j reap_slot s)"
| kill: "pstep s (snd (kill target signum s))"
| alarm: "c < length (cpus s) \<Longrightarrow> sys_alarm c s = Inr (r, s') \<Longrightarrow> pstep s s'"
| signal: "c < length (cpus s) \<Longrightarrow> sys_signal c s = Inr (r, s') \<Longrightarrow> pstep s s'"
| sigret: "c < length (cpus s) \<Longrightarrow> sys_sigret c s = Inr (r, s') \<Longrightarrow> pstep s s'"
| fgproc: "c < length (cpus s) \<Longrightarrow> sys_fgproc c s = Inr (r, s') \<Longrightarrow> pstep s s'"
| setparam: "c < length (cpus s) \<Longrightarrow> sys_setschedparam c um s = Inr (r, s') \<Longrightarrow> pstep s s'"
| register: "c < length (cpus s) \<Longrightarrow> sys_register_agent c s = Inr (r, s') \<Longrightarrow> pstep s s'"

text \<open>Reachable in \<open>n\<close> steps from the state \<open>main\<close> starts the CPUs in.\<close>

inductive preach :: "nat \<Rightarrow> pstate \<Rightarrow> bool" where
  start: "preach 0 (pstate_init n kpml4)"
| step: "preach k s \<Longrightarrow> pstep s s' \<Longrightarrow> preach (Suc k) s'"

section \<open>What a step does to one slot\<close>

text \<open>The stores to a slot, each under the parameters in force.\<close>

inductive slot_op :: "sched_params \<Rightarrow> proc \<Rightarrow> proc \<Rightarrow> bool" where
  so_state: "slot_op sp p (p\<lparr>state := st\<rparr>)"
| so_chan: "slot_op sp p (p\<lparr>chan := ch\<rparr>)"
| so_switch: "slot_op sp p (p\<lparr>kctx := kc, saved_intena := b\<rparr>)"
| so_yield: "slot_op sp p (p\<lparr>yield_count := n, state := st\<rparr>)"
| so_parent: "slot_op sp p (p\<lparr>parent := pa\<rparr>)"
| so_signal: "slot_op sp p (p\<lparr>signal_pending := n\<rparr>)"
| so_alarm: "slot_op sp p (p\<lparr>alarm_ticks := m, alarm_countdown := n\<rparr>)"
| so_alarm_tick: "slot_op sp p (alarm_tick p)"
| so_disp: "slot_op sp p (signal n h p)"
| so_frame: "slot_op sp p (p\<lparr>tf := t, tf_backup := b, signal_pending := g\<rparr>)"
| so_sigret: "slot_op sp p (p\<lparr>tf := t\<rparr>)"
| so_image: "\<forall>xs. length (nm xs) = length xs \<Longrightarrow> slot_op sp p (p\<lparr>pgdir := pg, sz := n, tf := t, pname := nm (pname p)\<rparr>)"
| so_file: "slot_op sp p (p\<lparr>ofile := (ofile p)[fd := f], cwd := d\<rparr>)"
| so_fault: "slot_op sp p (p\<lparr>page_fault_count := n, killed := k\<rparr>)"
| so_init: "slot_op sp p (init_slot n t p)"
| so_context: "slot_op sp p (alloc_context kst p)"
| so_first: "slot_op sp p (userinit_slot pg root p)"
| so_child: "slot_op sp p (fork_child i q pg p)"
| so_reap: "slot_op sp p (reap_slot p)"
| so_tick: "slot_op sp p (account_tick sp now p)"
| so_boost: "slot_op sp p (boost_slot (q0_quantum sp) p)"
| so_age: "slot_op sp p (p\<lparr>wait_ticks := n\<rparr>)"
| so_score: "slot_op sp p (p\<lparr>effective_score := n\<rparr>)"
| so_start: "slot_op sp p (start_burst sp now p)"
| so_pin: "slot_op sp p (p\<lparr>queue_level := 0, ticks_remaining := q0_quantum sp\<rparr>)"

definition tab_ops :: "sched_params \<Rightarrow> proc list \<Rightarrow> proc list \<Rightarrow> bool" where
  "tab_ops sp ps ps' \<longleftrightarrow>
     length ps' = length ps \<and> (\<forall>i<length ps. (slot_op sp)\<^sup>*\<^sup>* (ps ! i) (ps' ! i))"

section \<open>Slots\<close>

lemma slot_op_once: "slot_op sp p q \<Longrightarrow> (slot_op sp)\<^sup>*\<^sup>* p q"
  by blast

lemma tab_ops_refl [simp, intro]: "tab_ops sp ps ps"
  by (simp add: tab_ops_def)

lemma tab_ops_trans [trans]: "tab_ops sp ps qs \<Longrightarrow> tab_ops sp qs rs \<Longrightarrow> tab_ops sp ps rs"
  by (fastforce simp: tab_ops_def intro: rtranclp_trans)

lemma tab_ops_upd [intro]:
  "(slot_op sp)\<^sup>*\<^sup>* (ps ! i) (f (ps ! i)) \<Longrightarrow> tab_ops sp ps (upd_at i f ps)"
  by (auto simp: tab_ops_def nth_upd_at)

lemma tab_ops_upd1: "slot_op sp (ps ! i) (f (ps ! i)) \<Longrightarrow> tab_ops sp ps (upd_at i f ps)"
  by (intro tab_ops_upd r_into_rtranclp)

lemma tab_ops_map: "(\<And>p. (slot_op sp)\<^sup>*\<^sup>* p (f p)) \<Longrightarrow> tab_ops sp ps (map f ps)"
  by (simp add: tab_ops_def)

lemma tab_ops_wakeup1: "tab_ops sp ps (wakeup1 ch ps)"
  unfolding wakeup1_def by (rule tab_ops_map) (auto intro: r_into_rtranclp slot_op.intros)

lemma tab_ops_reparent: "tab_ops sp ps (reparent i ini n ps)"
proof (induction n arbitrary: ps)
  case (Suc n)
  let ?j = "length ps - Suc n"
  let ?p1 = "upd_at ?j (\<lambda>p. p\<lparr>parent := ini\<rparr>) ps"
  have "tab_ops sp ps ?p1" by (intro tab_ops_upd1 slot_op.intros)
  moreover have "tab_ops sp ?p1 (wakeup1 (map_option Ch_proc ini) ?p1)" by (rule tab_ops_wakeup1)
  ultimately show ?case
    using Suc.IH by (auto simp: Let_def intro: tab_ops_trans)
qed simp

lemma tab_ops_kill: "tab_ops sp (ptable s) (ptable (snd (kill t n s)))"
proof -
  have "(slot_op sp)\<^sup>*\<^sup>* p (p\<lparr>signal_pending := n, state := RUNNABLE\<rparr>)" for p
    using so_signal [of sp p n] so_state [of sp "p\<lparr>signal_pending := n\<rparr>" RUNNABLE]
    by (auto intro: rtranclp.rtrancl_into_rtrancl)
  then show ?thesis
    by (auto simp: kill_def Let_def intro!: tab_ops_upd slot_op_once [OF so_signal] split: option.splits)
qed

section \<open>What the switching functions keep\<close>

lemma cpu_popcli_keeps:
  "cpu_popcli c s = Inr s' \<Longrightarrow> ptable s' = ptable s \<and> schedp s' = schedp s \<and> initproc s' = initproc s"
  by (auto simp: cpu_popcli_def)

lemma scheduler_back_keeps:
  "scheduler_back c s = Inr s' \<Longrightarrow> ptable s' = ptable s \<and> schedp s' = schedp s \<and> initproc s' = initproc s"
  by (auto simp: scheduler_back_def dest!: cpu_popcli_keeps)

lemma sched_keeps:
  "sched h kc c i s = Inr s' \<Longrightarrow> schedp s' = schedp s \<and> initproc s' = initproc s \<and>
     ptable s' = upd_at i (\<lambda>p. p\<lparr>kctx := kc, saved_intena := intena (cpus s ! c)\<rparr>) (ptable s)"
  by (auto simp: sched_def dest!: scheduler_back_keeps split: if_splits)

lemma tab_ops_sched: "sched h kc c i s = Inr s' \<Longrightarrow> tab_ops sp (ptable s) (ptable s')"
  by (auto dest!: sched_keeps intro!: tab_ops_upd1 so_switch)

lemma tab_ops_yield: "yield c s = Inr s' \<Longrightarrow> tab_ops sp (ptable s) (ptable s')"
  by (auto simp: yield_def split: option.splits dest!: tab_ops_sched [where sp = sp]
      elim!: tab_ops_trans [rotated] intro!: tab_ops_upd1 so_yield)

lemma tab_ops_sleep: "sleep ch lk c s = Inr s' \<Longrightarrow> tab_ops sp (ptable s) (ptable s')"
proof -
  assume "sleep ch lk c s = Inr s'"
  then obtain i s1 where s1: "ptable s1 = ptable s"
    and *: "sched True At_sleep c i (upd_proc i (\<lambda>p. p\<lparr>chan := Some ch, state := SLEEPING\<rparr>) s1) = Inr s'"
    by (auto simp: sleep_def split: option.splits if_splits dest!: cpu_popcli_keeps)
  have "(slot_op sp)\<^sup>*\<^sup>* p (p\<lparr>chan := Some ch, state := SLEEPING\<rparr>)" for p
    using so_chan [of sp p "Some ch"] so_state [of sp "p\<lparr>chan := Some ch\<rparr>" SLEEPING]
    by (auto intro: rtranclp.rtrancl_into_rtrancl)
  with tab_ops_sched [OF *, of sp] s1 show ?thesis
    by (auto elim!: tab_ops_trans [rotated])
qed

lemma tab_ops_exit: "exit_ptable c s = Inr s' \<Longrightarrow> tab_ops sp (ptable s) (ptable s')"
proof -
  assume "exit_ptable c s = Inr s'"
  then obtain i ini n s1 where *: "sched True At_exit c i s1 = Inr s'"
    and s1: "ptable s1 = upd_at i (\<lambda>p. p\<lparr>state := ZOMBIE\<rparr>)
       (reparent i ini n (wakeup1 (map_option Ch_proc (parent (ptable s ! i))) (ptable s)))"
    by (auto simp: exit_ptable_def Let_def split: option.splits)
  have "tab_ops sp (ptable s) (ptable s1)"
    unfolding s1 using tab_ops_wakeup1 tab_ops_reparent tab_ops_trans tab_ops_upd1 so_state by metis
  from this tab_ops_sched [OF *, of sp] show ?thesis by (rule tab_ops_trans)
qed

lemma switchuvm_keeps:
  "switchuvm c i s = Inr s' \<Longrightarrow> ptable s' = ptable s \<and> schedp s' = schedp s \<and> initproc s' = initproc s"
  by (auto simp: switchuvm_def Let_def split: if_splits dest!: cpu_popcli_keeps)

lemma tab_ops_resume: "resume c i s = Inr s' \<Longrightarrow> tab_ops sp (ptable s) (ptable s')"
  by (auto simp: resume_def Let_def split: kcode.splits dest!: cpu_popcli_keeps
      intro!: tab_ops_upd1 so_chan)

lemma tab_ops_dispatch: "dispatch sp c i s = Inr s' \<Longrightarrow> tab_ops sp (ptable s) (ptable s')"
proof -
  assume "dispatch sp c i s = Inr s'"
  then obtain s1 where *: "resume c i (upd_proc i (\<lambda>p. p\<lparr>state := RUNNING\<rparr>) s1) = Inr s'"
    and s1: "ptable s1 = upd_at i (start_burst sp (ticks s)) (ptable s)"
    by (auto simp: dispatch_def Let_def dest!: switchuvm_keeps)
  have "tab_ops sp (ptable s) (ptable s1)" unfolding s1 by (intro tab_ops_upd1 so_start)
  also have "tab_ops sp (ptable s1) (upd_at i (\<lambda>p. p\<lparr>state := RUNNING\<rparr>) (ptable s1))"
    by (intro tab_ops_upd1 so_state)
  also have "tab_ops sp \<dots> (ptable s')" using tab_ops_resume [OF *, of sp] by simp
  finally show ?thesis .
qed

lemma tab_ops_scan: "scan_queue a q n b ps = Inr (r, ps') \<Longrightarrow> tab_ops sp ps ps'"
proof (induction n arbitrary: b ps)
  case (Suc n)
  let ?i = "length ps - Suc n"
  have *: "tab_ops sp ps (upd_at ?i (\<lambda>p. p\<lparr>effective_score := sc\<rparr>) ps)" for sc
    by (intro tab_ops_upd1 so_score)
  show ?case
    using Suc.prems by (auto simp: Let_def split: if_splits intro: tab_ops_trans [OF *] Suc.IH)
qed simp

lemma tab_ops_scans: "scan_queues a qs ps = Inr (r, ps') \<Longrightarrow> tab_ops sp ps ps'"
proof (induction qs arbitrary: ps)
  case (Cons q qs)
  then show ?case
    by (auto simp: scan_queues.simps split: if_splits dest!: tab_ops_scan [where sp = sp]
        intro: tab_ops_trans)
qed (simp add: scan_queues.simps)

lemma tab_ops_select:
  assumes "sched_select s = Inr (r, s')"
  shows "tab_ops (schedp s) (ptable s) (ptable s')"
proof -
  let ?s = "sched_age (sched_boost (schedp s) s)"
  have "tab_ops (schedp s) (ptable s) (ptable (sched_boost (schedp s) s))"
    by (auto simp: ptable_sched_boost intro!: tab_ops_map intro: so_boost)
  also have "tab_ops (schedp s) \<dots> (ptable ?s)"
    by (auto simp: age_slot_def intro!: tab_ops_map slot_op_once [OF so_age])
  also have "tab_ops (schedp s) \<dots> (ptable s')"
    using assms by (auto simp: sched_select_def select_rr_def select_mlfq_def Let_def
        split: if_splits option.splits dest!: tab_ops_scans)
  finally show ?thesis .
qed

lemma tab_ops_turn:
  assumes "scheduler_turn c s = Inr (r, s')"
  shows "tab_ops (schedp s) (ptable s) (ptable s')"
proof -
  let ?s = "upd_cpu c (\<lambda>k. pushcli (k\<lparr>intr := True\<rparr>)) s"
  obtain b s1 where sel: "sched_select ?s = Inr (b, s1)"
    and rest: "case b of None \<Rightarrow> rbind (cpu_popcli c s1) (\<lambda>s. Inr (None, s)) = Inr (r, s')
               | Some i \<Rightarrow> rbind (dispatch (schedp s) c i s1) (\<lambda>s. Inr (Some i, s)) = Inr (r, s')"
    using assms by (auto simp: scheduler_turn_def Let_def split: option.splits)
  have "tab_ops (schedp s) (ptable s) (ptable s1)" using tab_ops_select [OF sel] by simp
  also have "tab_ops (schedp s) \<dots> (ptable s')"
    using rest by (cases b) (auto dest!: cpu_popcli_keeps intro: tab_ops_dispatch)
  finally show ?thesis .
qed

lemma tab_ops_timer_irq: "tab_ops (schedp s) (ptable s) (ptable (timer_irq c s))"
proof -
  have clk: "tab_ops (schedp s) (ptable s) (ptable (clock_tick s))" "schedp (clock_tick s) = schedp s"
    by (auto simp: clock_tick_def check_alarms_def wakeup_def
        intro!: tab_ops_trans [OF tab_ops_wakeup1 tab_ops_map] slot_op_once [OF so_alarm_tick])
  have "tab_ops (schedp t) (ptable t) (ptable (upd_proc i (account_tick (schedp t) now) t))"
    for t :: "'a pstate_scheme" and i now
    by (auto intro!: tab_ops_upd1 so_tick)
  from this [of "if c = 0 then clock_tick s else s"] clk show ?thesis
    by (auto simp: timer_irq_def Let_def split: option.splits if_splits intro: tab_ops_trans)
qed

lemma timer_irq_schedp [simp]: "schedp (timer_irq c s) = schedp s"
  by (auto simp: timer_irq_def clock_tick_def check_alarms_def wakeup_def Let_def split: option.splits)

lemma tab_ops_preempt: "preempt c s = Inr s' \<Longrightarrow> tab_ops sp (ptable s) (ptable s')"
  by (auto simp: preempt_def split: option.splits if_splits dest: tab_ops_yield)

lemma pstep_tab_ops: "pstep s s' \<Longrightarrow> tab_ops (schedp s) (ptable s) (ptable s')"
proof (induction rule: pstep.induct)
  case (turn c s r s')
  then show ?case by (intro tab_ops_turn)
next
  case (timer c s s')
  let ?s = "upd_cpu c (\<lambda>k. k\<lparr>intr := False\<rparr>) s"
  have "tab_ops (schedp s) (ptable s) (ptable (timer_irq c ?s))"
    using tab_ops_timer_irq [of ?s c] by simp
  also have "tab_ops (schedp s) \<dots> (ptable s')" using timer(3) by (rule tab_ops_preempt)
  finally show ?case .
next
  case (timer_killed c s i)
  let ?s = "upd_cpu c (\<lambda>k. k\<lparr>intr := False\<rparr>) s"
  show ?case using tab_ops_timer_irq [of ?s c] by simp
next
  case (image c s i pg nm n t s')
  then show ?case by (auto dest!: switchuvm_keeps intro!: tab_ops_upd1 so_image)
next
  case (sleeps c s i ch lk s')
  from tab_ops_sleep [OF this(3)] show ?case by simp
next
  case (setparam c s um r s')
  then show ?case
    by (auto simp: sys_setschedparam_def with_cur_def Let_def split: option.splits if_splits)
qed (auto simp: alloc_slot_def sys_alarm_def sys_signal_def sys_sigret_def sys_fgproc_def
      sys_register_agent_def kern_pin_agent_def with_cur_def wakeup_def split: option.splits if_splits
      intro!: tab_ops_upd1 slot_op.intros tab_ops_wakeup1 tab_ops_kill
      intro: tab_ops_exit)

section \<open>The parameters in every reachable state\<close>

lemma select_schedp:
  "sched_select s = Inr (r, s') \<Longrightarrow> \<exists>a. schedp s' = (schedp s)\<lparr>sched_alert := a\<rparr>"
  by (auto simp: sched_select_def select_rr_def select_mlfq_def sched_age_def Let_def
      split: if_splits option.splits prod.splits)

lemma resume_schedp: "resume c i s = Inr s' \<Longrightarrow> schedp s' = schedp s"
  by (auto simp: resume_def Let_def split: kcode.splits dest!: cpu_popcli_keeps)

lemma dispatch_schedp: "dispatch sp c i s = Inr s' \<Longrightarrow> schedp s' = schedp s"
  by (auto simp: dispatch_def Let_def dest!: switchuvm_keeps resume_schedp)

lemma turn_schedp:
  "scheduler_turn c s = Inr (r, s') \<Longrightarrow> \<exists>a. schedp s' = (schedp s)\<lparr>sched_alert := a\<rparr>"
  by (fastforce simp: scheduler_turn_def Let_def split: option.splits
      dest!: select_schedp dispatch_schedp cpu_popcli_keeps)

lemma yield_schedp: "yield c s = Inr s' \<Longrightarrow> schedp s' = schedp s"
  by (auto simp: yield_def split: option.splits dest!: sched_keeps)

lemma sleep_schedp: "sleep ch lk c s = Inr s' \<Longrightarrow> schedp s' = schedp s"
  by (auto simp: sleep_def split: option.splits if_splits dest!: sched_keeps cpu_popcli_keeps)

lemma exit_schedp:
  "exit_ptable c s = Inr s' \<Longrightarrow> schedp s' = schedp s \<or> schedp s' = (schedp s)\<lparr>agent_pid := 0\<rparr>"
  by (auto simp: exit_ptable_def Let_def split: option.splits dest!: sched_keeps)

lemma kill_schedp [simp]: "schedp (snd (kill t n s)) = schedp s"
  by (auto simp: kill_def split: option.splits)

lemma wakeup_schedp [simp]: "schedp (wakeup ch s) = schedp s"
  by (simp add: wakeup_def)

lemma setparam_schedp:
  "sys_setschedparam c um s = Inr (r, s') \<Longrightarrow>
     s' = s \<or> (\<exists>u. \<not> upd_rejected u \<and> s' = s\<lparr>schedp := commit_update u (schedp s)\<rparr>)"
  by (auto simp: sys_setschedparam_def with_cur_def Let_def split: option.splits if_splits)

lemma params_ok_step [kinv]: "pstep s s' \<Longrightarrow> params_ok (schedp s) \<Longrightarrow> params_ok (schedp s')"
proof (induction rule: pstep.induct)
  case (turn c s r s')
  then show ?case by (auto dest!: turn_schedp)
next
  case (timer c s s')
  then show ?case
    by (auto simp: preempt_def split: option.splits if_splits dest!: yield_schedp)
next
  case (sleeps c s i ch lk s')
  then show ?case by (auto dest!: sleep_schedp)
next
  case (exits c s i s')
  then show ?case by (auto dest!: exit_schedp)
next
  case (setparam c s um r s')
  then show ?case by (auto dest!: setparam_schedp intro: params_ok_commit)
qed (auto simp: alloc_slot_def sys_alarm_def sys_signal_def sys_sigret_def sys_fgproc_def
      sys_register_agent_def kern_pin_agent_def with_cur_def split: option.splits if_splits
      dest!: switchuvm_keeps)

lemma preach_params_ok: "preach k s \<Longrightarrow> params_ok (schedp s)"
  by (induction rule: preach.induct) (auto simp: pstate_init_def pinit_def intro: params_ok_step)

section \<open>Invariants of a single slot\<close>

text \<open>
  What a property of slots must satisfy to hold of every slot for ever: it is true of a
  zeroed slot and kept by every store the kernel makes under valid parameters.
\<close>

locale slot_inv =
  fixes P :: "proc \<Rightarrow> bool"
  assumes zero: "P proc_zero"
    and kept: "slot_op sp p q \<Longrightarrow> params_ok sp \<Longrightarrow> P p \<Longrightarrow> P q"
begin

lemma kept_rtranclp: "(slot_op sp)\<^sup>*\<^sup>* p q \<Longrightarrow> params_ok sp \<Longrightarrow> P p \<Longrightarrow> P q"
  by (induction rule: rtranclp_induct) (auto intro: kept)

lemma kept_table: "tab_ops sp ps qs \<Longrightarrow> params_ok sp \<Longrightarrow> list_all P ps \<Longrightarrow> list_all P qs"
  by (auto simp: tab_ops_def list_all_length intro: kept_rtranclp)

lemma reachable: "preach k s \<Longrightarrow> list_all P (ptable s)"
proof (induction rule: preach.induct)
  case (start n kpml4)
  then show ?case by (simp add: pstate_init_def pinit_def list_all_iff zero)
next
  case (step k s s')
  then show ?case by (blast intro: kept_table pstep_tab_ops preach_params_ok)
qed

end

text \<open>The telemetry of a slot: a queue level that exists, averages and variance in their range.\<close>

definition telem_ok :: "proc \<Rightarrow> bool" where
  "telem_ok p \<longleftrightarrow> 0 \<le> queue_level p \<and> queue_level p \<le> 2 \<and>
     0 \<le> burst_ema_fast p \<and> burst_ema_fast p \<le> 5000 \<and>
     0 \<le> burst_ema_slow p \<and> burst_ema_slow p \<le> 5000 \<and>
     0 \<le> burst_variance p \<and> burst_variance p \<le> 5000"

text \<open>The arrays inside a slot keep their C sizes.\<close>

definition shape_ok :: "proc \<Rightarrow> bool" where
  "shape_ok p \<longleftrightarrow> length (ofile p) = NOFILE \<and> length (sig_disp p) = 32 \<and> length (pname p) = 16"

lemma telem_ok_tick: "telem_ok p \<Longrightarrow> telem_ok (account_tick sp now p)"
proof -
  assume p: "telem_ok p"
  let ?p = "p\<lparr>ticks_remaining := s32 (ticks_remaining p - 1)\<rparr>"
  let ?q = "quantum_expired sp now ?p"
  have e: "0 \<le> burst_ema_fast ?q" "burst_ema_fast ?q \<le> 5000" "0 \<le> burst_ema_slow ?q" "burst_ema_slow ?q \<le> 5000"
    using ema_cap_range by simp_all
  then have "0 \<le> burst_variance ?q \<and> burst_variance ?q \<le> 5000"
    unfolding quantum_expired_variance by linarith
  moreover have "0 \<le> queue_level ?q \<and> queue_level ?q \<le> 2"
    using p by (auto simp: telem_ok_def quantum_expired_level s32_eq)
  ultimately have "telem_ok ?q" using e by (simp add: telem_ok_def)
  with p show ?thesis by (simp add: account_tick_def Let_def telem_ok_def)
qed

interpretation telem: slot_inv telem_ok
proof
  show "telem_ok proc_zero" by (simp add: telem_ok_def proc_zero_def)
  fix sp p q assume "slot_op sp p q" "params_ok sp" "telem_ok p"
  then show "telem_ok q"
  proof cases
    case (so_tick now)
    with \<open>telem_ok p\<close> show ?thesis by (simp add: telem_ok_tick)
  qed (auto simp: telem_ok_def init_slot_def alloc_context_def userinit_slot_def fork_child_def
      reap_slot_def boost_slot_def start_burst_def alarm_tick_def signal_def Let_def)
qed

interpretation shape: slot_inv shape_ok
proof
  show "shape_ok proc_zero" by (simp add: shape_ok_def proc_zero_def)
  fix sp p q assume "slot_op sp p q" "params_ok sp" "shape_ok p"
  then show "shape_ok q"
    by cases (auto simp: shape_ok_def init_slot_def alloc_context_def userinit_slot_def fork_child_def
      reap_slot_def boost_slot_def start_burst_def alarm_tick_def signal_def Let_def
      safestrcpy_name_def account_tick_def quantum_expired_def)
qed

end
