(* ===== verification/Cpus.thy ===== *)
theory Cpus
  imports Multicpu
begin

text \<open>
  CPUs and processes in the reachable states of the process table: closed forms of the
  switching functions when no lock is held, the invariant that ties every CPU to the process
  it runs, and from it that the scheduler, the timer and the blocking calls never panic.
\<close>

section \<open>Closed forms of the switching functions\<close>

lemma popcli_one:
  "ncli k = 1 \<Longrightarrow> \<not> intr k \<Longrightarrow> popcli k = Inr (k\<lparr>ncli := 0, intr := intena k\<rparr>)"
  by (cases k) (simp add: popcli_def Let_def s32_eq)

lemma popcli_two: "ncli k = 2 \<Longrightarrow> \<not> intr k \<Longrightarrow> popcli k = Inr (k\<lparr>ncli := 1\<rparr>)"
  by (simp add: popcli_def Let_def s32_eq)

lemma ncli_pushcli0 [simp]: "ncli k = 0 \<Longrightarrow> ncli (pushcli k) = 1"
  by (simp add: pushcli_def Let_def s32_eq)

lemma ncli_pushcli1 [simp]: "ncli k = 1 \<Longrightarrow> ncli (pushcli k) = 2"
  by (simp add: pushcli_def Let_def s32_eq)

lemma intena_pushcli1 [simp]: "ncli k = 1 \<Longrightarrow> intena (pushcli k) = intena k"
  by (simp add: pushcli_def Let_def)

text \<open>A CPU that has gone back to its scheduler, and one that runs process \<open>i\<close>.\<close>

definition cpu_idle :: "cpu \<Rightarrow> bool" where
  "cpu_idle k \<longleftrightarrow> ncli k = 0 \<and> cpu_proc k = None"

definition on_cpu :: "proc list \<Rightarrow> nat \<Rightarrow> cpu \<Rightarrow> bool" where
  "on_cpu ps i k \<longleftrightarrow> ncli k = 0 \<and> cpu_proc k = Some i \<and> i < length ps \<and> state (ps ! i) = RUNNING \<and>
     cr3 k = v2p (pgdir (ps ! i)) \<and> tss_rsp0 k = kstack (ps ! i) + KSTACKSIZE"

lemma sched_leaves:
  assumes "c < length (cpus s)" "ncli (cpus s ! c) = 1" "\<not> intr (cpus s ! c)"
    and "state (ptable s ! i) \<noteq> RUNNING"
  obtains b k where "sched True kc c i s =
      Inr (s\<lparr>ptable := upd_at i (\<lambda>p. p\<lparr>kctx := kc, saved_intena := b\<rparr>) (ptable s), cpus := (cpus s)[c := k]\<rparr>)"
    "cpu_idle k"
proof -
  let ?k = "(cpus s ! c)\<lparr>cr3 := kpml4_pa s, cpu_proc := None, ncli := 0, intr := intena (cpus s ! c)\<rparr>"
  have "sched True kc c i s = Inr (s\<lparr>ptable := upd_at i (\<lambda>p. p\<lparr>kctx := kc, saved_intena := intena (cpus s ! c)\<rparr>) (ptable s),
          cpus := (cpus s)[c := ?k]\<rparr>)"
    using assms by (simp add: sched_def scheduler_back_def cpu_popcli_def popcli_one upd_at_def)
  then show ?thesis by (rule that) (simp add: cpu_idle_def)
qed

lemma yield_leaves:
  assumes "c < length (cpus s)" "on_cpu (ptable s) i (cpus s ! c)"
  obtains f k where "yield c s = Inr (s\<lparr>ptable := upd_at i f (ptable s), cpus := (cpus s)[c := k]\<rparr>)"
    "cpu_idle k" "state (f (ptable s ! i)) = RUNNABLE" "kctx (f (ptable s ! i)) = At_yield"
    "\<forall>p. pgdir (f p) = pgdir p" "\<forall>p. ticks_remaining (f p) = ticks_remaining p"
    "\<forall>p. pid (f p) = pid p" "\<forall>p. queue_level (f p) = queue_level p"
    "\<forall>p. killed (f p) = killed p" "\<forall>p. yield_count (f p) = s32 (yield_count p + 1)"
    "\<forall>p. preempt_count (f p) = preempt_count p"
proof -
  let ?f = "\<lambda>p. p\<lparr>yield_count := s32 (yield_count p + 1), state := RUNNABLE\<rparr>"
  let ?s = "upd_proc i ?f (upd_cpu c pushcli s)"
  have "c < length (cpus ?s)" "ncli (cpus ?s ! c) = 1" "\<not> intr (cpus ?s ! c)"
    "state (ptable ?s ! i) \<noteq> RUNNING"
    using assms by (auto simp: on_cpu_def)
  then obtain b k where "sched True At_yield c i ?s =
      Inr (?s\<lparr>ptable := upd_at i (\<lambda>p. p\<lparr>kctx := At_yield, saved_intena := b\<rparr>) (ptable ?s), cpus := (cpus ?s)[c := k]\<rparr>)"
    "cpu_idle k" by (rule sched_leaves)
  then show ?thesis
    using assms by (intro that [where f = "\<lambda>p. (?f p)\<lparr>kctx := At_yield, saved_intena := b\<rparr>" and k = k])
      (auto simp: yield_def on_cpu_def upd_at_def)
qed

lemma sleep_leaves:
  assumes "c < length (cpus s)" "on_cpu (ptable s) i (cpus s ! c)"
  obtains f k where "sleep ch (Some lk) c (upd_cpu c pushcli s) =
      Inr (s\<lparr>ptable := upd_at i f (ptable s), cpus := (cpus s)[c := k]\<rparr>)"
    "cpu_idle k" "state (f (ptable s ! i)) = SLEEPING" "kctx (f (ptable s ! i)) = At_sleep"
    "chan (f (ptable s ! i)) = Some ch"
    "\<forall>p. pgdir (f p) = pgdir p" "\<forall>p. ticks_remaining (f p) = ticks_remaining p"
    "\<forall>p. pid (f p) = pid p" "\<forall>p. queue_level (f p) = queue_level p"
    "\<forall>p. killed (f p) = killed p" "\<forall>p. yield_count (f p) = yield_count p"
    "\<forall>p. preempt_count (f p) = preempt_count p"
proof -
  let ?f = "\<lambda>p. p\<lparr>chan := Some ch, state := SLEEPING\<rparr>"
  obtain k1 where k1: "ncli k1 = 1" "\<not> intr k1"
    and eq: "sleep ch (Some lk) c (upd_cpu c pushcli s) =
      sched True At_sleep c i (upd_proc i ?f (s\<lparr>cpus := (cpus s)[c := k1]\<rparr>))"
  proof (cases "lk = PtableLock")
    case True
    then show ?thesis
      using assms by (intro that [of "pushcli (cpus s ! c)"]) (auto simp: sleep_def on_cpu_def upd_at_def)
  next
    case False
    then show ?thesis
      using assms by (intro that [of "(pushcli (pushcli (cpus s ! c)))\<lparr>ncli := 1\<rparr>"])
        (auto simp: sleep_def on_cpu_def upd_at_def cpu_popcli_def popcli_two)
  qed
  let ?s = "upd_proc i ?f (s\<lparr>cpus := (cpus s)[c := k1]\<rparr>)"
  have "c < length (cpus ?s)" "ncli (cpus ?s ! c) = 1" "\<not> intr (cpus ?s ! c)"
    "state (ptable ?s ! i) \<noteq> RUNNING"
    using assms k1 by (auto simp: on_cpu_def)
  then obtain b k where "sched True At_sleep c i ?s =
      Inr (?s\<lparr>ptable := upd_at i (\<lambda>p. p\<lparr>kctx := At_sleep, saved_intena := b\<rparr>) (ptable ?s), cpus := (cpus ?s)[c := k]\<rparr>)"
    "cpu_idle k" by (rule sched_leaves)
  with eq show ?thesis
    using assms by (intro that [where f = "\<lambda>p. (?f p)\<lparr>kctx := At_sleep, saved_intena := b\<rparr>" and k = k])
      (auto simp: on_cpu_def upd_at_def)
qed

text \<open>\<open>wakeup1\<close> and the reparenting loop touch only sleepers' states and the children's parents.\<close>

lemma wakeup1_nth [simp]:
  "length (wakeup1 ch ps) = length ps"
  "j < length ps \<Longrightarrow> wakeup1 ch ps ! j =
     (if state (ps ! j) = SLEEPING \<and> chan (ps ! j) = ch then (ps ! j)\<lparr>state := RUNNABLE\<rparr> else ps ! j)"
  by (simp_all add: wakeup1_def)

definition woken :: "proc \<Rightarrow> proc \<Rightarrow> bool" where
  "woken p q \<longleftrightarrow> pgdir q = pgdir p \<and> kstack q = kstack p \<and> kctx q = kctx p \<and> pid q = pid p \<and>
     ticks_remaining q = ticks_remaining p \<and> queue_level q = queue_level p \<and> killed q = killed p \<and>
     yield_count q = yield_count p \<and> preempt_count q = preempt_count p \<and>
     (state q = state p \<or> state p = SLEEPING \<and> state q = RUNNABLE)"

lemma woken_refl [simp]: "woken p p"
  by (simp add: woken_def)

lemma woken_trans: "woken p q \<Longrightarrow> woken q r \<Longrightarrow> woken p r"
  by (auto simp: woken_def)

lemma tab_woken_refl [simp]: "list_all2 woken ps ps"
  by (simp add: list_all2_refl)

lemma tab_woken_trans: "list_all2 woken ps qs \<Longrightarrow> list_all2 woken qs rs \<Longrightarrow> list_all2 woken ps rs"
  by (rule list_all2_trans) (rule woken_trans)

lemma tab_woken_wakeup1: "list_all2 woken ps (wakeup1 ch ps)"
  by (auto simp: list_all2_conv_all_nth woken_def)

lemma tab_woken_parent: "list_all2 woken ps (upd_at k (\<lambda>p. p\<lparr>parent := pa\<rparr>) ps)"
  by (auto simp: list_all2_conv_all_nth woken_def nth_upd_at)

lemma tab_woken_reparent: "list_all2 woken ps (reparent i ini n ps)"
proof (induction n arbitrary: ps)
  case (Suc n)
  let ?p1 = "upd_at (length ps - Suc n) (\<lambda>p. p\<lparr>parent := ini\<rparr>) ps"
  let ?p2 = "if state (?p1 ! (length ps - Suc n)) = ZOMBIE then wakeup1 (map_option Ch_proc ini) ?p1 else ?p1"
  have "list_all2 woken ?p1 ?p2" using tab_woken_wakeup1 by simp
  with tab_woken_parent have "list_all2 woken ps ?p2" by (rule tab_woken_trans)
  then have "list_all2 woken ps (reparent i ini n ?p2)" using Suc.IH by (rule tab_woken_trans)
  then show ?case using Suc.IH [of ps] by (simp add: Let_def)
qed simp

lemma exit_leaves:
  assumes "c < length (cpus s)" "on_cpu (ptable s) i (cpus s ! c)"
  obtains ps k where "exit_ptable c s = Inr (s\<lparr>ptable := ps, cpus := (cpus s)[c := k],
        schedp := (if agent_pid (schedp s) = pid (ptable s ! i) then (schedp s)\<lparr>agent_pid := 0\<rparr> else schedp s)\<rparr>)"
    "cpu_idle k" "length ps = length (ptable s)" "state (ps ! i) = ZOMBIE"
    "ticks_remaining (ps ! i) = ticks_remaining (ptable s ! i)" "pid (ps ! i) = pid (ptable s ! i)"
    "\<forall>j<length ps. j \<noteq> i \<longrightarrow> woken (ptable s ! j) (ps ! j)"
proof -
  let ?sp = "if agent_pid (schedp s) = pid (ptable s ! i) then (schedp s)\<lparr>agent_pid := 0\<rparr> else schedp s"
  let ?ps1 = "wakeup1 (map_option Ch_proc (parent (ptable s ! i))) (ptable s)"
  let ?ps2 = "reparent i (initproc s) (length ?ps1) ?ps1"
  let ?s = "upd_proc i (\<lambda>p. p\<lparr>state := ZOMBIE\<rparr>) ((upd_cpu c pushcli s)\<lparr>schedp := ?sp, ptable := ?ps2\<rparr>)"
  have "list_all2 woken (ptable s) ?ps2"
    using tab_woken_wakeup1 tab_woken_reparent by (rule tab_woken_trans)
  then have len: "length ?ps2 = length (ptable s)"
    and w: "woken (ptable s ! j) (?ps2 ! j)" if "j < length (ptable s)" for j
    using that by (simp_all add: list_all2_conv_all_nth)
  have i: "i < length (ptable s)" "curproc c s = Some i" using assms(2) by (auto simp: on_cpu_def)
  have "c < length (cpus ?s)" "ncli (cpus ?s ! c) = 1" "\<not> intr (cpus ?s ! c)"
    "state (ptable ?s ! i) \<noteq> RUNNING"
    using assms len by (auto simp: on_cpu_def)
  then obtain b k where sch: "sched True At_exit c i ?s =
      Inr (?s\<lparr>ptable := upd_at i (\<lambda>p. p\<lparr>kctx := At_exit, saved_intena := b\<rparr>) (ptable ?s), cpus := (cpus ?s)[c := k]\<rparr>)"
    "cpu_idle k" by (rule sched_leaves)
  let ?ps = "upd_at i (\<lambda>p. p\<lparr>kctx := At_exit, saved_intena := b\<rparr>) (ptable ?s)"
  have "exit_ptable c s = sched True At_exit c i ?s" using i by (simp add: exit_ptable_def Let_def)
  also have "\<dots> = Inr (s\<lparr>ptable := ?ps, cpus := (cpus s)[c := k], schedp := ?sp\<rparr>)"
    using sch(1) by (simp add: upd_at_def)
  finally show ?thesis
    by (rule that) (use sch(2) len w i w [OF i(1)] in \<open>auto simp: nth_upd_at woken_def\<close>)
qed

lemma switchuvm_loads:
  assumes "c < length (cpus s)" "ncli (cpus s ! c) = 1" "\<not> intr (cpus s ! c)" "pgdir (ptable s ! i) \<noteq> 0"
  obtains k where "switchuvm c i s = Inr (s\<lparr>cpus := (cpus s)[c := k]\<rparr>)" "ncli k = 1" "\<not> intr k"
    "cpu_proc k = cpu_proc (cpus s ! c)" "cr3 k = v2p (pgdir (ptable s ! i))"
    "tss_rsp0 k = kstack (ptable s ! i) + KSTACKSIZE"
proof -
  let ?k = "(pushcli (cpus s ! c))\<lparr>tss_rsp0 := kstack (ptable s ! i) + KSTACKSIZE,
               cr3 := v2p (pgdir (ptable s ! i)), ncli := 1\<rparr>"
  have "switchuvm c i s = Inr (s\<lparr>cpus := (cpus s)[c := ?k]\<rparr>)"
    using assms by (simp add: switchuvm_def Let_def cpu_popcli_def popcli_two upd_at_def)
  then show ?thesis by (rule that) simp_all
qed

lemma resume_enters:
  assumes "c < length (cpus s)" "ncli (cpus s ! c) = 1" "\<not> intr (cpus s ! c)"
    and "kctx (ptable s ! i) \<noteq> At_exit"
  obtains f k where "resume c i s = Inr (s\<lparr>ptable := upd_at i f (ptable s), cpus := (cpus s)[c := k]\<rparr>)"
    "ncli k = 0" "cpu_proc k = cpu_proc (cpus s ! c)" "cr3 k = cr3 (cpus s ! c)"
    "tss_rsp0 k = tss_rsp0 (cpus s ! c)" "\<forall>p. state (f p) = state p" "\<forall>p. pgdir (f p) = pgdir p"
    "\<forall>p. kstack (f p) = kstack p" "\<forall>p. ticks_remaining (f p) = ticks_remaining p"
    "\<forall>p. kctx (f p) = kctx p" "\<forall>p. pid (f p) = pid p" "\<forall>p. queue_level (f p) = queue_level p"
    "\<forall>p. killed (f p) = killed p" "\<forall>p. yield_count (f p) = yield_count p" "\<forall>p. preempt_count (f p) = preempt_count p"
proof (cases "kctx (ptable s ! i)")
  case At_sleep
  let ?k = "cpus s ! c"
  have "resume c i s = Inr (s\<lparr>ptable := upd_at i (\<lambda>p. p\<lparr>chan := None\<rparr>) (ptable s), cpus := (cpus s)[c :=
     ?k\<lparr>intena := saved_intena (ptable s ! i), ncli := 0, intr := saved_intena (ptable s ! i)\<rparr>]\<rparr>)"
    using assms At_sleep by (simp add: resume_def Let_def cpu_popcli_def popcli_one upd_at_def)
  then show ?thesis by (rule that) auto
next
  case At_yield
  let ?k = "cpus s ! c"
  have "resume c i s = Inr (s\<lparr>ptable := upd_at i (\<lambda>p. p\<lparr>chan := chan p\<rparr>) (ptable s), cpus := (cpus s)[c :=
     ?k\<lparr>intena := saved_intena (ptable s ! i), ncli := 0, intr := saved_intena (ptable s ! i)\<rparr>]\<rparr>)"
    using assms At_yield by (simp add: resume_def Let_def cpu_popcli_def popcli_one upd_at_def)
  then show ?thesis by (rule that) auto
next
  case At_forkret
  let ?k = "cpus s ! c"
  have "resume c i s = Inr (s\<lparr>ptable := upd_at i (\<lambda>p. p\<lparr>chan := chan p\<rparr>) (ptable s), cpus := (cpus s)[c :=
     ?k\<lparr>ncli := 0, intr := intena ?k\<rparr>]\<rparr>)"
    using assms At_forkret by (simp add: resume_def Let_def cpu_popcli_def popcli_one upd_at_def)
  then show ?thesis by (rule that) auto
qed (use assms in simp)

section \<open>CPUs and processes agree\<close>

text \<open>
  Every CPU is idle or runs exactly the process its \<open>proc\<close> names, on that process's page
  table and kernel stack; no process runs on two CPUs; every running process has a CPU.
\<close>

definition cpus_ok :: "'z pstate_scheme \<Rightarrow> bool" where
  "cpus_ok s \<longleftrightarrow>
     (\<forall>c<length (cpus s). cpu_idle (cpus s ! c) \<or> (\<exists>i. on_cpu (ptable s) i (cpus s ! c))) \<and>
     (\<forall>c d i. c < length (cpus s) \<and> d < length (cpus s) \<and> curproc c s = Some i \<and>
        curproc d s = Some i \<longrightarrow> c = d) \<and>
     (\<forall>i<length (ptable s). state (ptable s ! i) = RUNNING \<longrightarrow>
        (\<exists>c<length (cpus s). curproc c s = Some i))"

text \<open>
  A process that can run has a page table and a context to resume. Unless a fault has marked
  it for death, its quantum is between 0 and the largest legal one, a running process has at
  least one tick left, and every preemption has been counted as a yield as well.
\<close>

definition slot_live :: "proc \<Rightarrow> bool" where
  "slot_live p \<longleftrightarrow>
     (state p \<in> {SLEEPING, RUNNABLE, RUNNING} \<longrightarrow> pgdir p \<noteq> 0 \<and> kctx p \<noteq> At_exit) \<and>
     (killed p = 0 \<and> state p \<in> {EMBRYO, SLEEPING, RUNNABLE, RUNNING} \<longrightarrow>
        0 \<le> ticks_remaining p \<and> ticks_remaining p \<le> 40 \<and> (state p = RUNNING \<longrightarrow> 1 \<le> ticks_remaining p) \<and>
        yield_count p = preempt_count p)"

definition same_run :: "proc \<Rightarrow> proc \<Rightarrow> bool" where
  "same_run p q \<longleftrightarrow> (state q = RUNNING \<longleftrightarrow> state p = RUNNING) \<and>
     (state p = RUNNING \<longrightarrow> pgdir q = pgdir p \<and> kstack q = kstack p)"

lemma cpus_okD:
  assumes "cpus_ok s" "c < length (cpus s)"
  shows "ncli (cpus s ! c) = 0"
    and "curproc c s = Some i \<Longrightarrow> on_cpu (ptable s) i (cpus s ! c)"
    and "curproc c s = None \<Longrightarrow> cpu_idle (cpus s ! c)"
  using assms by (auto simp: cpus_ok_def cpu_idle_def on_cpu_def)

lemma cpus_ok_inj:
  "cpus_ok s \<Longrightarrow> c < length (cpus s) \<Longrightarrow> d < length (cpus s) \<Longrightarrow> curproc c s = Some i \<Longrightarrow>
   curproc d s = Some i \<Longrightarrow> c = d"
  unfolding cpus_ok_def by blast

lemma cpus_okI:
  assumes "\<And>c. c < length (cpus s) \<Longrightarrow> cpu_idle (cpus s ! c) \<or> (\<exists>i. on_cpu (ptable s) i (cpus s ! c))"
    and "\<And>c d i. c < length (cpus s) \<Longrightarrow> d < length (cpus s) \<Longrightarrow> curproc c s = Some i \<Longrightarrow>
           curproc d s = Some i \<Longrightarrow> c = d"
    and "\<And>i. i < length (ptable s) \<Longrightarrow> state (ptable s ! i) = RUNNING \<Longrightarrow>
           \<exists>c<length (cpus s). curproc c s = Some i"
  shows "cpus_ok s"
  unfolding cpus_ok_def using assms by blast

lemma on_cpu_same_run:
  "on_cpu ps i k \<Longrightarrow> same_run (ps ! i) (qs ! i) \<Longrightarrow> length qs = length ps \<Longrightarrow>
   ncli k' = ncli k \<Longrightarrow> cpu_proc k' = cpu_proc k \<Longrightarrow> cr3 k' = cr3 k \<Longrightarrow> tss_rsp0 k' = tss_rsp0 k \<Longrightarrow>
   on_cpu qs i k'"
  by (auto simp: on_cpu_def same_run_def)

lemma cpus_ok_frame:
  assumes ok: "cpus_ok s" and ps: "list_all2 same_run (ptable s) (ptable s')"
    and cs: "list_all2 (\<lambda>k k'. ncli k' = ncli k \<and> cpu_proc k' = cpu_proc k \<and> cr3 k' = cr3 k \<and> tss_rsp0 k' = tss_rsp0 k)
               (cpus s) (cpus s')"
  shows "cpus_ok s'"
proof -
  have len: "length (ptable s') = length (ptable s)" "length (cpus s') = length (cpus s)"
    using ps cs by (simp_all add: list_all2_conv_all_nth)
  have p: "same_run (ptable s ! i) (ptable s' ! i)" if "i < length (ptable s)" for i
    using ps that by (simp add: list_all2_conv_all_nth)
  have c: "ncli (cpus s' ! c) = ncli (cpus s ! c)" "curproc c s' = curproc c s"
    "cr3 (cpus s' ! c) = cr3 (cpus s ! c)" "tss_rsp0 (cpus s' ! c) = tss_rsp0 (cpus s ! c)"
    if "c < length (cpus s)" for c
    using cs that by (simp_all add: list_all2_conv_all_nth)
  have "cpu_idle (cpus s' ! d) \<or> (\<exists>i. on_cpu (ptable s') i (cpus s' ! d))" if d: "d < length (cpus s)" for d
  proof (cases "curproc d s")
    case None
    then show ?thesis using cpus_okD [OF ok d] c [OF d] by (auto simp: cpu_idle_def)
  next
    case (Some i)
    then have o: "on_cpu (ptable s) i (cpus s ! d)" using cpus_okD [OF ok d] by blast
    then have "same_run (ptable s ! i) (ptable s' ! i)" by (intro p) (simp add: on_cpu_def)
    from on_cpu_same_run [OF o this len(1) c [OF d]] show ?thesis by blast
  qed
  moreover have "\<exists>d<length (cpus s). curproc d s' = Some i"
    if "i < length (ptable s)" "state (ptable s' ! i) = RUNNING" for i
  proof -
    have "state (ptable s ! i) = RUNNING" using p [OF that(1)] that(2) by (simp add: same_run_def)
    with ok that(1) obtain d where "d < length (cpus s)" "curproc d s = Some i" by (auto simp: cpus_ok_def)
    then show ?thesis using c(2) by auto
  qed
  moreover have "a = d" if "a < length (cpus s)" "d < length (cpus s)" "curproc a s' = Some i"
    "curproc d s' = Some i" for a d i
    using cpus_ok_inj [OF ok that(1,2), of i] that c(2) by simp
  ultimately show ?thesis by (intro cpus_okI) (simp_all add: len)
qed

lemma cpus_ok_leave:
  assumes ok: "cpus_ok s" and c: "c < length (cpus s)" "curproc c s = Some i" and k: "cpu_idle k"
    and cs: "cpus s' = (cpus s)[c := k]" and len: "length (ptable s') = length (ptable s)"
    and i: "state (ptable s' ! i) \<noteq> RUNNING"
    and p: "\<And>j. j < length (ptable s) \<Longrightarrow> j \<noteq> i \<Longrightarrow> same_run (ptable s ! j) (ptable s' ! j)"
  shows "cpus_ok s'"
proof -
  have other: "curproc d s \<noteq> Some i" if "d < length (cpus s)" "d \<noteq> c" for d
    using cpus_ok_inj [OF ok c(1) that(1) c(2)] that(2) by blast
  have "cpu_idle (cpus s' ! d) \<or> (\<exists>j. on_cpu (ptable s') j (cpus s' ! d))" if d: "d < length (cpus s)" for d
  proof (cases "d = c")
    case True
    then show ?thesis using k cs d by simp
  next
    case False
    show ?thesis
    proof (cases "curproc d s")
      case None
      then show ?thesis using cpus_okD [OF ok d] False cs by simp
    next
      case (Some j)
      then have o: "on_cpu (ptable s) j (cpus s ! d)" using cpus_okD [OF ok d] by blast
      moreover have "j \<noteq> i" using other [OF d False] Some by auto
      ultimately have "same_run (ptable s ! j) (ptable s' ! j)" by (intro p) (auto simp: on_cpu_def)
      from on_cpu_same_run [OF o this len] False cs show ?thesis by auto
    qed
  qed
  moreover have "\<exists>d<length (cpus s). curproc d s' = Some j"
    if j: "j < length (ptable s)" "state (ptable s' ! j) = RUNNING" for j
  proof -
    from j i have "j \<noteq> i" by auto
    with p [OF j(1)] j have "state (ptable s ! j) = RUNNING" by (simp add: same_run_def)
    with ok j obtain d where "d < length (cpus s)" "curproc d s = Some j" by (auto simp: cpus_ok_def)
    moreover from this \<open>j \<noteq> i\<close> c have "d \<noteq> c" by auto
    ultimately show ?thesis using cs by auto
  qed
  moreover have "a = d" if "a < length (cpus s)" "d < length (cpus s)" "curproc a s' = Some j"
    "curproc d s' = Some j" for a d j
    using cpus_ok_inj [OF ok that(1,2), of j] that k cs
    by (cases "a = c"; cases "d = c") (auto simp: cpu_idle_def)
  moreover have "length (cpus s') = length (cpus s)" using cs by simp
  ultimately show ?thesis by (intro cpus_okI) (simp_all add: len)
qed

lemma cpus_ok_enter:
  assumes ok: "cpus_ok s" and c: "c < length (cpus s)" "curproc c s = None"
    and cs: "cpus s' = (cpus s)[c := k]" and len: "length (ptable s') = length (ptable s)"
    and k: "on_cpu (ptable s') i k" and i: "state (ptable s ! i) \<noteq> RUNNING"
    and p: "\<And>j. j < length (ptable s) \<Longrightarrow> j \<noteq> i \<Longrightarrow> same_run (ptable s ! j) (ptable s' ! j)"
  shows "cpus_ok s'"
proof -
  have other: "curproc d s \<noteq> Some i" if "d < length (cpus s)" for d
    using cpus_okD(2) [OF ok that] i by (auto simp: on_cpu_def)
  have "cpu_idle (cpus s' ! d) \<or> (\<exists>j. on_cpu (ptable s') j (cpus s' ! d))" if d: "d < length (cpus s)" for d
  proof (cases "d = c")
    case True
    then show ?thesis using k cs d by auto
  next
    case False
    show ?thesis
    proof (cases "curproc d s")
      case None
      then show ?thesis using cpus_okD [OF ok d] False cs by simp
    next
      case (Some j)
      then have o: "on_cpu (ptable s) j (cpus s ! d)" using cpus_okD [OF ok d] by blast
      moreover have "j \<noteq> i" using other [OF d] Some by auto
      ultimately have "same_run (ptable s ! j) (ptable s' ! j)" by (intro p) (auto simp: on_cpu_def)
      from on_cpu_same_run [OF o this len] False cs show ?thesis by auto
    qed
  qed
  moreover have "\<exists>d<length (cpus s). curproc d s' = Some j"
    if j: "j < length (ptable s)" "state (ptable s' ! j) = RUNNING" for j
  proof (cases "j = i")
    case True
    then show ?thesis using c cs k by (intro exI [of _ c]) (simp add: on_cpu_def)
  next
    case False
    with p [OF j(1)] j have "state (ptable s ! j) = RUNNING" by (simp add: same_run_def)
    with ok j obtain d where "d < length (cpus s)" "curproc d s = Some j" by (auto simp: cpus_ok_def)
    moreover from this c have "d \<noteq> c" by auto
    ultimately show ?thesis using cs by auto
  qed
  moreover have "a = d" if "a < length (cpus s)" "d < length (cpus s)" and
    j: "curproc a s' = Some j" "curproc d s' = Some j" for a d j
  proof -
    have ki: "cpu_proc k = Some i" using k by (simp add: on_cpu_def)
    show ?thesis
    proof (cases "a = c"; cases "d = c")
      assume "a = c" "d \<noteq> c"
      then show ?thesis using j ki cs that other [of d] by simp
    next
      assume "a \<noteq> c" "d = c"
      then show ?thesis using j ki cs that other [of a] by simp
    next
      assume "a \<noteq> c" "d \<noteq> c"
      then show ?thesis using j cs that cpus_ok_inj [OF ok] by auto
    qed simp
  qed
  moreover have "length (cpus s') = length (cpus s)" using cs by simp
  ultimately show ?thesis by (intro cpus_okI) (simp_all add: len)
qed

section \<open>The invariant of the system\<close>

definition core_inv :: "'z pstate_scheme \<Rightarrow> bool" where
  "core_inv s \<longleftrightarrow> length (ptable s) = NPROC \<and> rr_next s < NPROC \<and>
     list_all slot_live (ptable s) \<and> cpus_ok s"

definition sys_inv :: "'z pstate_scheme \<Rightarrow> bool" where
  "sys_inv s \<longleftrightarrow> params_ok (schedp s) \<and> list_all telem_ok (ptable s) \<and> core_inv s"

lemma levels_ok_telem: "list_all telem_ok ps \<Longrightarrow> levels_ok ps"
  by (auto simp: levels_ok_def telem_ok_def list_all_iff)

text \<open>What the selection of a turn may do to a slot.\<close>

definition reprio :: "proc \<Rightarrow> proc \<Rightarrow> bool" where
  "reprio p q \<longleftrightarrow> state q = state p \<and> pgdir q = pgdir p \<and> kstack q = kstack p \<and> kctx q = kctx p \<and>
     pid q = pid p \<and> killed q = killed p \<and> yield_count q = yield_count p \<and> preempt_count q = preempt_count p \<and>
     (queue_level q = queue_level p \<or> queue_level q = 0) \<and>
     (ticks_remaining q = ticks_remaining p \<or> 1 \<le> ticks_remaining q \<and> ticks_remaining q \<le> 40)"

lemma reprio_aged:
  "params_ok (schedp s) \<Longrightarrow> list_all2 reprio (ptable s) (aged s)"
  by (auto simp: list_all2_conv_all_nth aged_def ptable_sched_boost reprio_def boost_slot_def
      age_slot_def params_ok_def)

lemma reprio_scored: "list_all2 reprio ps qs \<Longrightarrow> list_all2 reprio ps (map (scored a q) qs)"
  by (auto simp: list_all2_conv_all_nth reprio_def scored_def)

lemma sched_select_total:
  assumes "params_ok (schedp s)" "levels_ok (ptable s)" "length (ptable s) = NPROC" "rr_next s < NPROC"
  obtains b s1 where "sched_select s = Inr (b, s1)" "cpus s1 = cpus s" "list_all2 reprio (ptable s) (ptable s1)"
    "rr_next s1 < NPROC" "b = None \<longleftrightarrow> (\<forall>p\<in>set (ptable s). state p \<noteq> RUNNABLE)"
    "\<forall>i. b = Some i \<longrightarrow> i < NPROC \<and> state (ptable s ! i) = RUNNABLE"
proof (cases "rr_mode (schedp s) = 0")
  case True
  from assms(1) this assms(2) show ?thesis
  proof (cases rule: sched_select_mlfq)
    case none
    then show ?thesis
      using assms reprio_aged [of s]
      by (intro that [of None "sched_age (sched_boost (schedp s) s)"]) (auto simp flip: aged_def)
  next
    case (pick i)
    then have "state (aged s ! i) = RUNNABLE" "i < NPROC"
      using assms(3) by (auto dest!: mlfq_best_runnable)
    then have i: "state (ptable s ! i) = RUNNABLE" "i < NPROC" using assms(3) by auto
    then have "ptable s ! i \<in> set (ptable s)" using assms(3) by simp
    with pick i show ?thesis
      using assms reprio_aged [of s] by (intro that [OF pick(2)]) (auto intro: reprio_scored)
  qed
next
  case False
  from this assms(4,3) show ?thesis
  proof (cases rule: sched_select_rr)
    case none
    then show ?thesis
      using assms reprio_aged [of s]
      by (intro that [of None "sched_age (sched_boost (schedp s) s)"]) (auto simp flip: aged_def)
  next
    case (pick k)
    then have "ptable s ! k \<in> set (ptable s)" using assms(3) by simp
    moreover have "(k + 1) mod NPROC < NPROC" by (simp add: NPROC_def)
    ultimately show ?thesis
      using assms reprio_aged [of s] pick by (intro that [OF pick(3)]) (auto simp flip: aged_def)
  qed
qed

lemma dispatch_enters:
  assumes "c < length (cpus s)" "ncli (cpus s ! c) = 1" "\<not> intr (cpus s ! c)"
    and "i < length (ptable s)" "state (ptable s ! i) = RUNNABLE" "slot_live (ptable s ! i)" "params_ok sp"
  obtains f k where "dispatch sp c i s = Inr (s\<lparr>ptable := upd_at i f (ptable s), cpus := (cpus s)[c := k]\<rparr>)"
    "on_cpu (upd_at i f (ptable s)) i k" "slot_live (f (ptable s ! i))"
    "queue_level (f (ptable s ! i)) = queue_level (ptable s ! i)" "pid (f (ptable s ! i)) = pid (ptable s ! i)"
proof -
  let ?g = "start_burst sp (ticks s)"
  let ?s1 = "upd_cpu c (\<lambda>k. k\<lparr>cpu_proc := Some i\<rparr>) (upd_proc i ?g s)"
  have g: "pgdir (?g p) = pgdir p" "kstack (?g p) = kstack p" "kctx (?g p) = kctx p"
    "queue_level (?g p) = queue_level p" "pid (?g p) = pid p" "killed (?g p) = killed p"
    "yield_count (?g p) = yield_count p" "preempt_count (?g p) = preempt_count p"
    "0 \<le> ticks_remaining (?g p)" "1 \<le> ticks_remaining (?g p)" "ticks_remaining (?g p) \<le> 40" for p
    using assms(7) by (auto simp: start_burst_def Let_def params_ok_def)
  have live: "pgdir (ptable s ! i) \<noteq> 0" "kctx (ptable s ! i) \<noteq> At_exit"
    using assms(5,6) by (simp_all add: slot_live_def)
  have "c < length (cpus ?s1)" "ncli (cpus ?s1 ! c) = 1" "\<not> intr (cpus ?s1 ! c)" "pgdir (ptable ?s1 ! i) \<noteq> 0"
    using assms live g by simp_all
  then obtain k1 where sw: "switchuvm c i ?s1 = Inr (?s1\<lparr>cpus := (cpus ?s1)[c := k1]\<rparr>)"
    and k1: "ncli k1 = 1" "\<not> intr k1" "cpu_proc k1 = cpu_proc (cpus ?s1 ! c)"
      "cr3 k1 = v2p (pgdir (ptable ?s1 ! i))" "tss_rsp0 k1 = kstack (ptable ?s1 ! i) + KSTACKSIZE"
    by (rule switchuvm_loads)
  let ?s2 = "upd_proc i (\<lambda>p. p\<lparr>state := RUNNING\<rparr>) (?s1\<lparr>cpus := (cpus ?s1)[c := k1]\<rparr>)"
  have "c < length (cpus ?s2)" "ncli (cpus ?s2 ! c) = 1" "\<not> intr (cpus ?s2 ! c)" "kctx (ptable ?s2 ! i) \<noteq> At_exit"
    using assms k1 live g by simp_all
  then obtain f k where re: "resume c i ?s2 = Inr (?s2\<lparr>ptable := upd_at i f (ptable ?s2), cpus := (cpus ?s2)[c := k]\<rparr>)"
    and k: "ncli k = 0" "cpu_proc k = cpu_proc (cpus ?s2 ! c)" "cr3 k = cr3 (cpus ?s2 ! c)"
      "tss_rsp0 k = tss_rsp0 (cpus ?s2 ! c)"
    and f: "\<forall>p. state (f p) = state p" "\<forall>p. pgdir (f p) = pgdir p" "\<forall>p. kstack (f p) = kstack p"
      "\<forall>p. ticks_remaining (f p) = ticks_remaining p" "\<forall>p. kctx (f p) = kctx p" "\<forall>p. pid (f p) = pid p"
      "\<forall>p. queue_level (f p) = queue_level p"
      "\<forall>p. killed (f p) = killed p" "\<forall>p. yield_count (f p) = yield_count p" "\<forall>p. preempt_count (f p) = preempt_count p"
    by (rule resume_enters)
  let ?h = "\<lambda>p. f ((?g p)\<lparr>state := RUNNING\<rparr>)"
  have "dispatch sp c i s = resume c i ?s2" using sw by (simp add: dispatch_def Let_def)
  also have "\<dots> = Inr (s\<lparr>ptable := upd_at i ?h (ptable s), cpus := (cpus s)[c := k]\<rparr>)"
    using re assms(4) by (simp add: upd_at_def)
  finally show ?thesis
    using assms k k1 f g live
    by (intro that [where f = ?h and k = k]) (auto simp: on_cpu_def slot_live_def)
qed

lemma list_all2_nth: "list_all2 P xs ys \<Longrightarrow> i < length xs \<Longrightarrow> P (xs ! i) (ys ! i)"
  by (simp add: list_all2_conv_all_nth)

lemma slot_live_reprio: "slot_live p \<Longrightarrow> reprio p q \<Longrightarrow> slot_live q"
  by (auto simp: slot_live_def reprio_def)

lemma list_all_slot_live_reprio:
  "list_all slot_live ps \<Longrightarrow> list_all2 reprio ps qs \<Longrightarrow> list_all slot_live qs"
  by (auto simp: list_all_length list_all2_conv_all_nth intro: slot_live_reprio)

lemma same_run_reprio: "reprio p q \<Longrightarrow> same_run p q"
  by (simp add: reprio_def same_run_def)

text \<open>
  A turn of an idle CPU's scheduler never fails; it leaves the CPU idle exactly when nothing
  was runnable, and else running a process that was.
\<close>

lemma turn_total:
  assumes inv: "sys_inv s" and c: "c < length (cpus s)" "curproc c s = None"
  obtains r s' where "scheduler_turn c s = Inr (r, s')" "core_inv s'" "length (cpus s') = length (cpus s)"
    "r = curproc c s'" "r = None \<longleftrightarrow> (\<forall>p\<in>set (ptable s). state p \<noteq> RUNNABLE)"
    "\<forall>i. r = Some i \<longrightarrow> i < NPROC \<and> state (ptable s ! i) = RUNNABLE"
    "\<forall>i<NPROC. pid (ptable s' ! i) = pid (ptable s ! i) \<and>
       (state (ptable s ! i) \<in> {SLEEPING, RUNNABLE, RUNNING} \<longrightarrow> state (ptable s' ! i) \<in> {SLEEPING, RUNNABLE, RUNNING}) \<and>
       (state (ptable s ! i) \<notin> {SLEEPING, RUNNABLE, RUNNING} \<longrightarrow> state (ptable s' ! i) = state (ptable s ! i)) \<and>
       (queue_level (ptable s' ! i) = queue_level (ptable s ! i) \<or> queue_level (ptable s' ! i) = 0)"
proof -
  let ?k = "pushcli ((cpus s ! c)\<lparr>intr := True\<rparr>)"
  let ?s = "upd_cpu c (\<lambda>k. pushcli (k\<lparr>intr := True\<rparr>)) s"
  from inv have ok: "cpus_ok s" and len: "length (ptable s) = NPROC" and live: "list_all slot_live (ptable s)"
    and par: "params_ok (schedp s)" by (auto simp: sys_inv_def core_inv_def)
  have idle: "ncli (cpus s ! c) = 0" using cpus_okD(1) [OF ok c(1)] .
  have "params_ok (schedp ?s)" "levels_ok (ptable ?s)" "length (ptable ?s) = NPROC" "rr_next ?s < NPROC"
    using inv levels_ok_telem by (simp_all add: sys_inv_def core_inv_def)
  then obtain b s1 where sel: "sched_select ?s = Inr (b, s1)" "cpus s1 = cpus ?s"
    and rp': "list_all2 reprio (ptable ?s) (ptable s1)" and rr: "rr_next s1 < NPROC"
    and none': "b = None \<longleftrightarrow> (\<forall>p\<in>set (ptable ?s). state p \<noteq> RUNNABLE)"
    and some': "\<forall>i. b = Some i \<longrightarrow> i < NPROC \<and> state (ptable ?s ! i) = RUNNABLE"
    by (rule sched_select_total)
  from rp' none' some' have rp: "list_all2 reprio (ptable s) (ptable s1)"
    and none: "b = None \<longleftrightarrow> (\<forall>p\<in>set (ptable s). state p \<noteq> RUNNABLE)"
    and some: "\<forall>i. b = Some i \<longrightarrow> i < NPROC \<and> state (ptable s ! i) = RUNNABLE" by simp_all
  have len1: "length (ptable s1) = NPROC" using rp len by (simp add: list_all2_lengthD)
  have rpi: "reprio (ptable s ! i) (ptable s1 ! i)" if "i < NPROC" for i
    using rp that len by (simp add: list_all2_nth)
  have live1: "list_all slot_live (ptable s1)" using live rp by (rule list_all_slot_live_reprio)
  have c1: "c < length (cpus s1)" "ncli (cpus s1 ! c) = 1" "\<not> intr (cpus s1 ! c)" "intena (cpus s1 ! c)"
    using c sel(2) idle by (simp_all add: pushcli_def Let_def s32_eq)
  show ?thesis
  proof (cases b)
    case None
    let ?k' = "(cpus s1 ! c)\<lparr>ncli := 0, intr := intena (cpus s1 ! c)\<rparr>"
    let ?s' = "s1\<lparr>cpus := (cpus s1)[c := ?k']\<rparr>"
    have turn: "scheduler_turn c s = Inr (None, ?s')"
      using sel None c1 by (simp add: scheduler_turn_def Let_def cpu_popcli_def popcli_one)
    have "cpus_ok ?s'"
    proof (rule cpus_ok_frame [OF ok])
      show "list_all2 same_run (ptable s) (ptable ?s')"
        using rp by (auto elim!: list_all2_mono intro: same_run_reprio)
      show "list_all2 (\<lambda>k k'. ncli k' = ncli k \<and> cpu_proc k' = cpu_proc k \<and> cr3 k' = cr3 k \<and> tss_rsp0 k' = tss_rsp0 k)
               (cpus s) (cpus ?s')"
        using sel(2) c idle by (auto simp: list_all2_conv_all_nth nth_list_update nth_upd_at)
    qed
    from turn this show ?thesis
      using live1 len1 rr sel(2) c none None rpi
      by (intro that [of None ?s']) (auto simp: reprio_def core_inv_def)
  next
    case (Some i)
    then have i: "i < NPROC" "state (ptable s ! i) = RUNNABLE" using some by auto
    then have i1: "i < length (ptable s1)" "state (ptable s1 ! i) = RUNNABLE" "slot_live (ptable s1 ! i)"
      using len1 rpi live1 by (auto simp: reprio_def list_all_length)
    obtain f k where d: "dispatch (schedp s) c i s1 = Inr (s1\<lparr>ptable := upd_at i f (ptable s1), cpus := (cpus s1)[c := k]\<rparr>)"
      and on: "on_cpu (upd_at i f (ptable s1)) i k" and fl: "slot_live (f (ptable s1 ! i))"
      and f: "queue_level (f (ptable s1 ! i)) = queue_level (ptable s1 ! i)" "pid (f (ptable s1 ! i)) = pid (ptable s1 ! i)"
      by (rule dispatch_enters [OF c1(1-3) i1 par])
    let ?s' = "s1\<lparr>ptable := upd_at i f (ptable s1), cpus := (cpus s1)[c := k]\<rparr>"
    have turn: "scheduler_turn c s = Inr (Some i, ?s')"
      using sel Some d by (simp add: scheduler_turn_def Let_def)
    have "cpus_ok ?s'"
    proof (rule cpus_ok_enter [OF ok c])
      show "cpus ?s' = (cpus s)[c := k]" using sel(2) by (simp add: upd_at_def)
      show "same_run (ptable s ! j) (ptable ?s' ! j)" if "j < length (ptable s)" "j \<noteq> i" for j
        using rpi that len by (simp add: same_run_reprio)
    qed (use on i len len1 in simp_all)
    moreover have "list_all slot_live (ptable ?s')"
      using live1 fl by (auto intro!: list_all_upd_at)
    moreover have "state (f (ptable s1 ! i)) = RUNNING" "cpu_proc k = Some i"
      using on i1 by (simp_all add: on_cpu_def)
    ultimately show ?thesis
      using turn len1 rr sel(2) c none Some rpi f i
      by (intro that [of "Some i" ?s']) (auto simp: reprio_def nth_upd_at core_inv_def)
  qed
qed

section \<open>Every step keeps the invariant\<close>

lemma slot_live_woken: "slot_live p \<Longrightarrow> woken p q \<Longrightarrow> slot_live q"
  by (auto simp: slot_live_def woken_def)

lemma same_run_woken: "woken p q \<Longrightarrow> same_run p q"
  by (auto simp: woken_def same_run_def)

lemma same_run_refl [simp]: "same_run p p"
  by (simp add: same_run_def)

lemma core_inv_woken:
  assumes "core_inv s" "list_all2 woken (ptable s) (ptable s')" "cpus s' = cpus s" "rr_next s' = rr_next s"
  shows "core_inv s'"
proof -
  have "cpus_ok s'"
  proof (rule cpus_ok_frame)
    show "list_all2 same_run (ptable s) (ptable s')"
      using assms(2) by (auto elim!: list_all2_mono intro: same_run_woken)
    show "list_all2 (\<lambda>k k'. ncli k' = ncli k \<and> cpu_proc k' = cpu_proc k \<and> cr3 k' = cr3 k \<and> tss_rsp0 k' = tss_rsp0 k)
               (cpus s) (cpus s')"
      using assms(3) by (simp add: list_all2_conv_all_nth)
  qed (use assms in \<open>simp add: core_inv_def\<close>)
  moreover have "slot_live (ptable s' ! j)" if "j < length (ptable s)" for j
    using slot_live_woken [of "ptable s ! j"] assms(1,2) that
    by (simp add: core_inv_def list_all_length list_all2_conv_all_nth)
  then have "list_all slot_live (ptable s')"
    using list_all2_lengthD [OF assms(2)] by (simp add: list_all_length)
  ultimately show ?thesis
    using assms by (auto simp: core_inv_def dest: list_all2_lengthD)
qed

lemma core_inv_slot:
  assumes "core_inv s" "i < length (ptable s) \<Longrightarrow> slot_live (ptable s ! i) \<Longrightarrow> slot_live (f (ptable s ! i))"
    and "i < length (ptable s) \<Longrightarrow> same_run (ptable s ! i) (f (ptable s ! i))"
  shows "core_inv (upd_proc i f s)"
proof -
  have "cpus_ok (upd_proc i f s)"
    by (rule cpus_ok_frame [of s])
      (use assms in \<open>auto simp: core_inv_def list_all2_conv_all_nth nth_upd_at\<close>)
  then show ?thesis
    using assms(1,2) by (auto simp: core_inv_def intro!: list_all_upd_at)
qed

lemma core_inv_cpu:
  assumes "core_inv s" "\<And>k. ncli (f k) = ncli k \<and> cpu_proc (f k) = cpu_proc k \<and> cr3 (f k) = cr3 k \<and> tss_rsp0 (f k) = tss_rsp0 k"
  shows "core_inv (upd_cpu c f s)"
proof -
  have "cpus_ok (upd_cpu c f s)"
    by (rule cpus_ok_frame [of s])
      (use assms in \<open>auto simp: core_inv_def list_all2_conv_all_nth nth_upd_at\<close>)
  then show ?thesis using assms(1) by (simp add: core_inv_def)
qed

lemma core_inv_leave:
  assumes inv: "core_inv s" and c: "c < length (cpus s)" "curproc c s = Some i" and k: "cpu_idle k"
    and cs: "cpus s' = (cpus s)[c := k]" and len: "length (ptable s') = length (ptable s)"
    and i: "state (ptable s' ! i) \<noteq> RUNNING" "slot_live (ptable s' ! i)"
    and p: "\<forall>j<length (ptable s). j \<noteq> i \<longrightarrow> woken (ptable s ! j) (ptable s' ! j)"
    and rr: "rr_next s' = rr_next s"
  shows "core_inv s'"
proof -
  have "cpus_ok s'"
    by (rule cpus_ok_leave [OF _ c k cs len i(1)])
      (use inv p in \<open>auto simp: core_inv_def intro: same_run_woken\<close>)
  moreover have "slot_live (ptable s' ! j)" if "j < length (ptable s)" for j
    using slot_live_woken [of "ptable s ! j"] inv p i that
    by (cases "j = i") (auto simp: core_inv_def list_all_length)
  then have "list_all slot_live (ptable s')" using len by (simp add: list_all_length)
  ultimately show ?thesis using inv len rr by (simp add: core_inv_def)
qed

lemma core_inv_on_cpu:
  "core_inv s \<Longrightarrow> c < length (cpus s) \<Longrightarrow> curproc c s = Some i \<Longrightarrow>
   on_cpu (ptable s) i (cpus s ! c) \<and> slot_live (ptable s ! i)"
  using cpus_okD(2) [of s c i] by (auto simp: core_inv_def on_cpu_def list_all_length)

lemma core_inv_sleep:
  assumes inv: "core_inv s" and c: "c < length (cpus s)" "curproc c s = Some i"
  obtains s' where "sleep ch (Some lk) c (upd_cpu c pushcli s) = Inr s'" "core_inv s'"
    "state (ptable s' ! i) = SLEEPING" "chan (ptable s' ! i) = Some ch" "curproc c s' = None"
proof -
  have on: "on_cpu (ptable s) i (cpus s ! c)" and li: "slot_live (ptable s ! i)"
    using core_inv_on_cpu [OF inv c] by auto
  have il: "i < length (ptable s)" "state (ptable s ! i) = RUNNING" using on by (auto simp: on_cpu_def)
  obtain f k where eq: "sleep ch (Some lk) c (upd_cpu c pushcli s) =
      Inr (s\<lparr>ptable := upd_at i f (ptable s), cpus := (cpus s)[c := k]\<rparr>)"
    and k: "cpu_idle k" and f: "state (f (ptable s ! i)) = SLEEPING" "kctx (f (ptable s ! i)) = At_sleep"
      "chan (f (ptable s ! i)) = Some ch" "\<forall>p. pgdir (f p) = pgdir p" "\<forall>p. ticks_remaining (f p) = ticks_remaining p"
      "\<forall>p. pid (f p) = pid p" "\<forall>p. queue_level (f p) = queue_level p"
      "\<forall>p. killed (f p) = killed p" "\<forall>p. yield_count (f p) = yield_count p" "\<forall>p. preempt_count (f p) = preempt_count p"
    by (rule sleep_leaves [OF c(1) on])
  have "core_inv (s\<lparr>ptable := upd_at i f (ptable s), cpus := (cpus s)[c := k]\<rparr>)"
    by (rule core_inv_leave [OF inv c k]) (use f il li in \<open>auto simp: slot_live_def\<close>)
  with eq show ?thesis using f il k c by (intro that) (auto simp: cpu_idle_def)
qed

lemma core_inv_exit:
  assumes inv: "core_inv s" and c: "c < length (cpus s)" "curproc c s = Some i"
  obtains s' where "exit_ptable c s = Inr s'" "core_inv s'"
    "state (ptable s' ! i) = ZOMBIE" "pid (ptable s' ! i) = pid (ptable s ! i)"
    "schedp s' = (if agent_pid (schedp s) = pid (ptable s ! i) then (schedp s)\<lparr>agent_pid := 0\<rparr> else schedp s)"
    "\<forall>j<length (ptable s). j \<noteq> i \<longrightarrow> woken (ptable s ! j) (ptable s' ! j)"
proof -
  have on: "on_cpu (ptable s) i (cpus s ! c)" and li: "slot_live (ptable s ! i)"
    using core_inv_on_cpu [OF inv c] by auto
  obtain ps k where eq: "exit_ptable c s = Inr (s\<lparr>ptable := ps, cpus := (cpus s)[c := k],
        schedp := (if agent_pid (schedp s) = pid (ptable s ! i) then (schedp s)\<lparr>agent_pid := 0\<rparr> else schedp s)\<rparr>)"
    and k: "cpu_idle k" and ps: "length ps = length (ptable s)" "state (ps ! i) = ZOMBIE"
    "ticks_remaining (ps ! i) = ticks_remaining (ptable s ! i)" "pid (ps ! i) = pid (ptable s ! i)"
    "\<forall>j<length ps. j \<noteq> i \<longrightarrow> woken (ptable s ! j) (ps ! j)"
    by (rule exit_leaves [OF c(1) on])
  have "core_inv (s\<lparr>ptable := ps, cpus := (cpus s)[c := k],
        schedp := (if agent_pid (schedp s) = pid (ptable s ! i) then (schedp s)\<lparr>agent_pid := 0\<rparr> else schedp s)\<rparr>)"
    by (rule core_inv_leave [OF inv c k]) (use ps li in \<open>auto simp: slot_live_def\<close>)
  then show ?thesis using ps by (intro that [OF eq]) auto
qed

lemma tab_woken_alarms: "list_all2 woken ps (map alarm_tick ps)"
  by (auto simp: list_all2_conv_all_nth woken_def alarm_tick_def Let_def)

lemma tab_woken_clock: "list_all2 woken (ptable s) (ptable (clock_tick s))"
  using tab_woken_trans [OF tab_woken_wakeup1 tab_woken_alarms]
  by (simp add: clock_tick_def check_alarms_def wakeup_def)

lemma clock_tick_simps [simp]:
  "cpus (clock_tick s) = cpus s" "rr_next (clock_tick s) = rr_next s" "schedp (clock_tick s) = schedp s"
  "initproc (clock_tick s) = initproc s" "nextpid (clock_tick s) = nextpid s"
  by (simp_all add: clock_tick_def check_alarms_def wakeup_def)

lemma account_tick_counts:
  "killed (account_tick sp now p) = killed p" "yield_count (account_tick sp now p) = yield_count p"
  "preempt_count (account_tick sp now p) =
     (if s32 (ticks_remaining p - 1) \<le> 0 then s32 (preempt_count p + 1) else preempt_count p)"
  by (simp_all add: account_tick_def quantum_expired_def Let_def)

lemma core_inv_account:
  assumes inv: "core_inv s" and c: "c < length (cpus s)" "curproc c s = Some i"
  obtains s' where "preempt c (upd_proc i (account_tick sp now) s) = Inr s'" "core_inv s'"
proof -
  let ?f = "account_tick sp now"
  let ?s1 = "upd_proc i ?f s"
  have on: "on_cpu (ptable s) i (cpus s ! c)" and li: "slot_live (ptable s ! i)"
    using core_inv_on_cpu [OF inv c] by auto
  have i: "i < length (ptable s)" "state (ptable s ! i) = RUNNING" using on by (auto simp: on_cpu_def)
  have tr: "s32 (ticks_remaining (ptable s ! i) - 1) = ticks_remaining (ptable s ! i) - 1" if "killed (ptable s ! i) = 0"
    using li i that by (simp add: slot_live_def s32_eq)
  show ?thesis
  proof (cases "s32 (ticks_remaining (ptable s ! i) - 1) \<le> 0")
    case False
    then have "slot_live (?f (ptable s ! i))" using li i tr by (auto simp: slot_live_def account_tick_counts)
    then have inv1: "core_inv ?s1" by (intro core_inv_slot [OF inv]) (simp_all add: same_run_def)
    have "preempt c ?s1 = Inr ?s1"
      using False i c by (simp add: preempt_def)
    then show ?thesis using inv1 by (rule that)
  next
    case True
    have on1: "c < length (cpus ?s1)" "on_cpu (ptable ?s1) i (cpus ?s1 ! c)"
      using on i c by (simp_all add: on_cpu_def)
    obtain f k where eq: "yield c ?s1 = Inr (?s1\<lparr>ptable := upd_at i f (ptable ?s1), cpus := (cpus ?s1)[c := k]\<rparr>)"
      and k: "cpu_idle k" and f: "state (f (ptable ?s1 ! i)) = RUNNABLE" "kctx (f (ptable ?s1 ! i)) = At_yield"
        "\<forall>p. pgdir (f p) = pgdir p" "\<forall>p. ticks_remaining (f p) = ticks_remaining p"
        "\<forall>p. pid (f p) = pid p" "\<forall>p. queue_level (f p) = queue_level p"
        "\<forall>p. killed (f p) = killed p" "\<forall>p. yield_count (f p) = s32 (yield_count p + 1)"
        "\<forall>p. preempt_count (f p) = preempt_count p"
      by (rule yield_leaves [OF on1])
    let ?s' = "?s1\<lparr>ptable := upd_at i f (ptable ?s1), cpus := (cpus ?s1)[c := k]\<rparr>"
    have "slot_live (ptable ?s' ! i)" "state (ptable ?s' ! i) \<noteq> RUNNING"
      using f i li tr True by (auto simp: slot_live_def account_tick_counts)
    then have "core_inv ?s'"
      by (intro core_inv_leave [OF inv c k]) simp_all
    moreover have "preempt c ?s1 = yield c ?s1"
      using True i c by (simp add: preempt_def)
    ultimately show ?thesis using eq by (intro that [of ?s']) simp_all
  qed
qed

text \<open>A process marked for death goes on to \<open>exit\<close> instead of yielding.\<close>

lemma core_inv_account_killed:
  assumes inv: "core_inv s" and c: "c < length (cpus s)" "curproc c s = Some i" and k: "killed (ptable s ! i) \<noteq> 0"
  shows "core_inv (upd_proc i (account_tick sp now) s)"
  using core_inv_on_cpu [OF inv c] k
  by (intro core_inv_slot [OF inv]) (auto simp: slot_live_def same_run_def account_tick_counts)

text \<open>A timer interrupt never fails, whatever the CPU was doing.\<close>

lemma core_inv_timer:
  assumes inv: "core_inv s" and c: "c < length (cpus s)"
  obtains s' where "preempt c (timer_irq c s) = Inr s'" "core_inv s'"
proof -
  define t where "t = (if c = 0 then clock_tick s else s)"
  have t: "core_inv t" "cpus t = cpus s"
    using inv core_inv_woken [OF inv tab_woken_clock] by (simp_all add: t_def)
  have irq: "timer_irq c s = (case curproc c t of None \<Rightarrow> t
      | Some i \<Rightarrow> if state (ptable t ! i) = RUNNING then upd_proc i (account_tick (schedp t) (ticks t)) t else t)"
    by (simp only: timer_irq_def Let_def t_def)
  show ?thesis
  proof (cases "curproc c t")
    case None
    then have "preempt c (timer_irq c s) = Inr t" unfolding irq by (simp add: preempt_def)
    then show ?thesis using t(1) by (rule that)
  next
    case (Some i)
    have ct: "c < length (cpus t)" using c t by simp
    have "state (ptable t ! i) = RUNNING" using core_inv_on_cpu [OF t(1) ct Some] by (simp add: on_cpu_def)
    with Some have eq: "timer_irq c s = upd_proc i (account_tick (schedp t) (ticks t)) t" unfolding irq by simp
    show ?thesis
      unfolding eq by (rule core_inv_account [OF t(1) ct Some]) (rule that [unfolded eq])
  qed
qed

lemma core_inv_timer_killed:
  assumes inv: "core_inv s" and c: "c < length (cpus s)" "curproc c s = Some i" and k: "killed (ptable s ! i) \<noteq> 0"
  shows "core_inv (timer_irq c s)"
proof -
  define t where "t = (if c = 0 then clock_tick s else s)"
  have t: "core_inv t" "cpus t = cpus s"
    using inv core_inv_woken [OF inv tab_woken_clock] by (simp_all add: t_def)
  have irq: "timer_irq c s = (case curproc c t of None \<Rightarrow> t
      | Some i \<Rightarrow> if state (ptable t ! i) = RUNNING then upd_proc i (account_tick (schedp t) (ticks t)) t else t)"
    by (simp only: timer_irq_def Let_def t_def)
  have "i < length (ptable s)" using core_inv_on_cpu [OF inv c] by (simp add: on_cpu_def)
  then have "woken (ptable s ! i) (ptable t ! i)"
    using list_all2_nth [OF tab_woken_clock [of s]] by (simp add: t_def)
  with k have "killed (ptable t ! i) \<noteq> 0" by (simp add: woken_def)
  then have "core_inv (upd_proc i (account_tick (schedp t) (ticks t)) t)"
    using c t by (intro core_inv_account_killed) auto
  then show ?thesis using irq c t by simp
qed

lemma core_inv_image:
  assumes inv: "core_inv s" and c: "c < length (cpus s)" "curproc c s = Some i"
    and f: "\<And>p. state (f p) = state p \<and> kctx (f p) = kctx p \<and> ticks_remaining (f p) = ticks_remaining p \<and> pgdir (f p) \<noteq> 0 \<and>
      killed (f p) = killed p \<and> yield_count (f p) = yield_count p \<and> preempt_count (f p) = preempt_count p"
  obtains s' where "switchuvm c i (upd_proc i f s) = Inr s'" "core_inv s'"
proof -
  have on: "on_cpu (ptable s) i (cpus s ! c)" and li: "slot_live (ptable s ! i)"
    using core_inv_on_cpu [OF inv c] by auto
  have i: "i < length (ptable s)" "state (ptable s ! i) = RUNNING" "ncli (cpus s ! c) = 0"
    using on by (auto simp: on_cpu_def)
  let ?p = "f (ptable s ! i)"
  let ?k = "(pushcli (cpus s ! c))\<lparr>tss_rsp0 := kstack ?p + KSTACKSIZE, cr3 := v2p (pgdir ?p), ncli := 0,
              intr := intena (pushcli (cpus s ! c))\<rparr>"
  let ?s' = "s\<lparr>ptable := upd_at i f (ptable s), cpus := (cpus s)[c := ?k]\<rparr>"
  have "switchuvm c i (upd_proc i f s) = Inr ?s'"
    using c i f by (simp add: switchuvm_def Let_def cpu_popcli_def popcli_one upd_at_def)
  moreover have "cpus_ok ?s'"
  proof -
    let ?idle = "(cpus s ! c)\<lparr>cpu_proc := None\<rparr>"
    let ?s0 = "s\<lparr>ptable := upd_at i (\<lambda>p. p\<lparr>state := RUNNABLE\<rparr>) (ptable s), cpus := (cpus s)[c := ?idle]\<rparr>"
    have "cpus_ok ?s0"
      by (rule cpus_ok_leave [OF _ c]) (use inv i in \<open>auto simp: core_inv_def cpu_idle_def\<close>)
    then show ?thesis
      by (rule cpus_ok_enter [where c = c and i = i and k = ?k])
        (use c i f on in \<open>auto simp: on_cpu_def\<close>)
  qed
  moreover have "list_all slot_live (ptable ?s')"
    using inv f by (auto simp: core_inv_def slot_live_def intro!: list_all_upd_at)
  ultimately show ?thesis using inv by (intro that [of ?s']) (simp_all add: core_inv_def)
qed

lemma core_inv_nochange:
  "core_inv s \<Longrightarrow> ptable s' = ptable s \<Longrightarrow> cpus s' = cpus s \<Longrightarrow> rr_next s' = rr_next s \<Longrightarrow> core_inv s'"
  by (rule core_inv_woken [of s]) simp_all

lemma core_inv_alloc: "core_inv s \<Longrightarrow> alloc_slot s = (Some i, s') \<Longrightarrow> core_inv s'"
proof -
  assume inv: "core_inv s" and a: "alloc_slot s = (Some i, s')"
  then have "state (ptable s ! i) = UNUSED"
    and s': "s' = (upd_proc i (init_slot (nextpid s) (ticks s)) s)\<lparr>nextpid := s32 (nextpid s + 1)\<rparr>"
    by (auto simp: alloc_slot_def split: option.splits dest: first_index_holds)
  then have "core_inv (upd_proc i (init_slot (nextpid s) (ticks s)) s)"
    by (intro core_inv_slot [OF inv]) (auto simp: slot_live_def same_run_def init_slot_def)
  then show ?thesis unfolding s' by (rule core_inv_nochange) simp_all
qed

lemma core_inv_kill: "core_inv s \<Longrightarrow> core_inv (snd (kill t n s))"
  by (auto simp: kill_def Let_def split: option.splits intro!: core_inv_slot)
     (auto simp: slot_live_def same_run_def)

lemma core_inv_setparam: "core_inv s \<Longrightarrow> sys_setschedparam c um s = Inr (r, s') \<Longrightarrow> core_inv s'"
  by (auto dest!: setparam_schedp intro: core_inv_nochange)

lemma core_inv_register:
  "core_inv s \<Longrightarrow> params_ok (schedp s) \<Longrightarrow> sys_register_agent c s = Inr (r, s') \<Longrightarrow> core_inv s'"
proof (cases "curproc c s")
  case (Some i)
  assume inv: "core_inv s" "params_ok (schedp s)" "sys_register_agent c s = Inr (r, s')"
  show ?thesis
  proof (cases "agent_pid (schedp s) = 0")
    case True
    let ?t = "s\<lparr>schedp := (schedp s)\<lparr>agent_pid := pid (ptable s ! i)\<rparr>\<rparr>"
    have "core_inv ?t" using inv(1) by (rule core_inv_nochange) simp_all
    then have "core_inv (upd_proc i (\<lambda>p. p\<lparr>queue_level := 0, ticks_remaining := q0_quantum (schedp ?t)\<rparr>) ?t)"
      by (rule core_inv_slot) (use inv(2) in \<open>auto simp: slot_live_def same_run_def params_ok_def\<close>)
    with True Some inv show ?thesis
      by (auto simp: sys_register_agent_def with_cur_def kern_pin_agent_def)
  qed (use inv Some in \<open>auto simp: sys_register_agent_def with_cur_def\<close>)
qed (simp add: sys_register_agent_def with_cur_def)

end
