(* ===== verification/Reachable.thy ===== *)
theory Reachable
  imports Cpus
begin

text \<open>
  The reachable states of the process table: the invariant of the system, the protected slot of
  the scheduling agent, and unique process identifiers.
\<close>

section \<open>The invariant holds in every reachable state\<close>

lemma sys_inv_step:
  assumes "pstep s s'" "sys_inv s"
  shows "sys_inv s'"
proof -
  have par: "params_ok (schedp s')" using assms params_ok_step by (auto simp: sys_inv_def)
  have tel: "list_all telem_ok (ptable s')"
    using assms pstep_tab_ops [OF assms(1)] telem.kept_table by (auto simp: sys_inv_def)
  have inv: "core_inv s" "params_ok (schedp s)" using assms(2) by (auto simp: sys_inv_def)
  have "core_inv s'"
    using assms(1)
  proof cases
    case (turn c r)
    with turn_total [OF assms(2) turn(1,2)] show ?thesis by (metis Pair_inject sum.inject(2))
  next
    case (timer c)
    have "core_inv (upd_cpu c (\<lambda>k. k\<lparr>intr := False\<rparr>) s)" by (rule core_inv_cpu [OF inv(1)]) simp
    from core_inv_timer [OF this, of c] timer show ?thesis by (metis length_upd_at pstate.select_convs(9) pstate.surjective pstate.update_convs(9) sum.inject(2))
  next
    case (timer_killed c i)
    have "core_inv (upd_cpu c (\<lambda>k. k\<lparr>intr := False\<rparr>) s)" by (rule core_inv_cpu [OF inv(1)]) simp
    from core_inv_timer_killed [OF this, of c i] timer_killed show ?thesis by simp
  next
    case (iret c)
    then show ?thesis using core_inv_cpu [OF inv(1), of "\<lambda>k. k\<lparr>intr := True\<rparr>"] by simp
  next
    case (alloc i)
    then show ?thesis using core_inv_alloc inv by blast
  next
    case (image c i pg nm t n)
    then show ?thesis
      using core_inv_image [OF inv(1) image(1,2), of "\<lambda>p. p\<lparr>pgdir := pg, sz := n, tf := t, pname := nm (pname p)\<rparr>"]
      by auto
  next
    case (sleeps c i ch lk)
    then show ?thesis using core_inv_sleep [OF inv(1) sleeps(1,2), of ch lk] by auto
  next
    case (exits c i)
    then show ?thesis using core_inv_exit [OF inv(1) exits(1,2)] by auto
  next
    case (setparam c um r)
    then show ?thesis using core_inv_setparam inv by blast
  next
    case (register c r)
    then show ?thesis using core_inv_register inv by blast
  next
    case (wakes ch)
    then show ?thesis
      using core_inv_woken [OF inv(1), of s'] tab_woken_wakeup1 by (simp add: wakeup_def)
  next
    case (kill target signum)
    then show ?thesis using core_inv_kill inv by blast
  next
    case (fgproc c r)
    then show ?thesis
      using core_inv_nochange [OF inv(1), of s']
      by (auto simp: sys_fgproc_def with_cur_def split: option.splits)
  next
    case (first i pg root)
    have "core_inv (upd_proc i (userinit_slot pg root) s)"
      using first by (intro core_inv_slot [OF inv(1)]) (auto simp: userinit_slot_def slot_live_def same_run_def)
    then show ?thesis unfolding first by (rule core_inv_nochange) simp_all
  next
    case (reap c i j)
    then have "state (ptable s ! j) = ZOMBIE" by (auto simp: wait_zombie_def dest: first_index_holds)
    then show ?thesis
      unfolding reap by (intro core_inv_slot [OF inv(1)]) (auto simp: reap_slot_def slot_live_def same_run_def)
  next
    case (kstack i kst)
    then show ?thesis
      by (auto intro!: core_inv_slot [OF inv(1)] simp: alloc_context_def slot_live_def same_run_def)
  next
    case (child c i j pg)
    then show ?thesis
      by (auto intro!: core_inv_slot [OF inv(1)] simp: fork_child_def slot_live_def same_run_def)
  next
    case (alarm c r)
    then show ?thesis
      by (auto simp: sys_alarm_def with_cur_def slot_live_def same_run_def split: option.splits
          intro!: core_inv_slot [OF inv(1)])
  next
    case (signal c r)
    then show ?thesis
      using inv(1) by (auto simp: sys_signal_def signal_def with_cur_def slot_live_def same_run_def split: option.splits if_splits
          intro!: core_inv_slot [OF inv(1)])
  next
    case (sigret c r)
    then show ?thesis
      by (auto simp: sys_sigret_def with_cur_def slot_live_def same_run_def split: option.splits
          intro!: core_inv_slot [OF inv(1)])
  qed (auto intro!: core_inv_slot [OF inv(1)] simp: slot_live_def same_run_def)
  with par tel show ?thesis by (simp add: sys_inv_def)
qed

lemma sys_inv_init: "sys_inv (pstate_init n kpml4)"
  by (auto simp: sys_inv_def core_inv_def pstate_init_def pinit_def NPROC_def list_all_iff telem_ok_def
      slot_live_def proc_zero_def cpus_ok_def cpu_idle_def)

lemma preach_sys_inv: "preach k s \<Longrightarrow> sys_inv s"
  by (induction rule: preach.induct) (auto intro: sys_inv_init sys_inv_step)

section \<open>What a step keeps of a slot\<close>

definition live :: "proc \<Rightarrow> bool" where
  "live p \<longleftrightarrow> state p \<in> {SLEEPING, RUNNABLE, RUNNING}"

text \<open>
  A slot keeps its identifier until it is reaped, is only taken into use by \<open>allocproc\<close>, and
  the agent \<open>a\<close> stays alive and is never demoted.
\<close>

definition slot_keep :: "int \<Rightarrow> proc \<Rightarrow> proc \<Rightarrow> bool" where
  "slot_keep a p q \<longleftrightarrow>
     (pid q = pid p \<or> pid q = 0 \<and> state q = UNUSED) \<and>
     (state q \<noteq> UNUSED \<longrightarrow> state p \<noteq> UNUSED) \<and>
     (live p \<and> pid p = a \<and> a \<noteq> 0 \<longrightarrow>
        live q \<and> pid q = pid p \<and> (queue_level q = queue_level p \<or> queue_level q = 0))"

lemma slot_keep_refl [simp]: "slot_keep a p p"
  by (simp add: slot_keep_def)

lemma slot_keep_trans: "slot_keep a p q \<Longrightarrow> slot_keep a q r \<Longrightarrow> slot_keep a p r"
  by (auto simp: slot_keep_def)

lemma tab_keep_refl [simp]: "list_all2 (slot_keep a) ps ps"
  by (simp add: list_all2_refl)

lemma tab_keep_trans [trans]:
  "list_all2 (slot_keep a) ps qs \<Longrightarrow> list_all2 (slot_keep a) qs rs \<Longrightarrow> list_all2 (slot_keep a) ps rs"
  by (rule list_all2_trans) (rule slot_keep_trans)

lemma tab_keep_upd:
  "(i < length ps \<Longrightarrow> slot_keep a (ps ! i) (f (ps ! i))) \<Longrightarrow> list_all2 (slot_keep a) ps (upd_at i f ps)"
  by (auto simp: list_all2_conv_all_nth nth_upd_at)

lemma slot_keep_woken: "woken p q \<Longrightarrow> slot_keep a p q"
  by (auto simp: woken_def slot_keep_def live_def)

lemma tab_keep_woken: "list_all2 woken ps qs \<Longrightarrow> list_all2 (slot_keep a) ps qs"
  by (erule list_all2_mono) (rule slot_keep_woken)

lemma slot_keep_account: "agent_pid sp = a \<Longrightarrow> slot_keep a p (account_tick sp now p)"
  by (auto simp: slot_keep_def live_def account_tick_def quantum_expired_level Let_def)

lemma tab_keep_sched: "sched h kc c i s = Inr s' \<Longrightarrow> list_all2 (slot_keep a) (ptable s) (ptable s')"
  by (auto dest!: sched_keeps intro!: tab_keep_upd simp: slot_keep_def live_def)

lemma tab_keep_yield:
  "yield c s = Inr s' \<Longrightarrow> curproc c s = Some i \<Longrightarrow> state (ptable s ! i) = RUNNING \<Longrightarrow>
   list_all2 (slot_keep a) (ptable s) (ptable s')"
  by (auto simp: yield_def slot_keep_def live_def dest!: tab_keep_sched [where a = a]
      elim!: tab_keep_trans [rotated] intro!: tab_keep_upd)

lemma tab_keep_sleep:
  assumes "sleep ch lk c s = Inr s'" "curproc c s = Some i" "state (ptable s ! i) = RUNNING"
  shows "list_all2 (slot_keep a) (ptable s) (ptable s')"
proof -
  from assms obtain s1 where s1: "ptable s1 = ptable s"
    and *: "sched True At_sleep c i (upd_proc i (\<lambda>p. p\<lparr>chan := Some ch, state := SLEEPING\<rparr>) s1) = Inr s'"
    by (auto simp: sleep_def split: option.splits if_splits dest!: cpu_popcli_keeps)
  have "list_all2 (slot_keep a) (ptable s) (upd_at i (\<lambda>p. p\<lparr>chan := Some ch, state := SLEEPING\<rparr>) (ptable s1))"
    unfolding s1 using assms(3) by (intro tab_keep_upd) (auto simp: slot_keep_def live_def)
  also have "list_all2 (slot_keep a) \<dots> (ptable s')" using tab_keep_sched [OF *, of a] by simp
  finally show ?thesis .
qed

lemma tab_keep_timer_irq:
  assumes inv: "core_inv s" and c: "c < length (cpus s)"
  shows "list_all2 (slot_keep (agent_pid (schedp s))) (ptable s) (ptable (timer_irq c s))"
proof -
  let ?a = "agent_pid (schedp s)"
  define t where "t = (if c = 0 then clock_tick s else s)"
  have t: "schedp t = schedp s" by (simp add: t_def)
  have irq: "timer_irq c s = (case curproc c t of None \<Rightarrow> t
      | Some i \<Rightarrow> if state (ptable t ! i) = RUNNING then upd_proc i (account_tick (schedp t) (ticks t)) t else t)"
    by (simp only: timer_irq_def Let_def t_def)
  have "list_all2 (slot_keep ?a) (ptable s) (ptable t)"
    using tab_keep_woken [OF tab_woken_clock [of s]] by (simp add: t_def)
  also have "list_all2 (slot_keep ?a) (ptable t) (ptable (timer_irq c s))"
    unfolding irq using t by (auto split: option.splits intro!: tab_keep_upd slot_keep_account)
  finally show ?thesis .
qed

lemma tab_keep_timer:
  assumes inv: "core_inv s" and c: "c < length (cpus s)" and eq: "preempt c (timer_irq c s) = Inr s'"
  shows "list_all2 (slot_keep (agent_pid (schedp s))) (ptable s) (ptable s')"
proof -
  let ?a = "agent_pid (schedp s)"
  note tab_keep_timer_irq [OF inv c]
  also have "list_all2 (slot_keep ?a) (ptable (timer_irq c s)) (ptable s')"
    using eq tab_keep_yield [of c "timer_irq c s" s' _ ?a]
    by (auto simp: preempt_def split: option.splits if_splits)
  finally show ?thesis .
qed

lemma tab_keep_turn:
  assumes "sys_inv s" "c < length (cpus s)" "curproc c s = None" "scheduler_turn c s = Inr (r, s')"
  shows "list_all2 (slot_keep a) (ptable s) (ptable s')"
proof -
  obtain r1 s1 where eq: "scheduler_turn c s = Inr (r1, s1)" and inv: "core_inv s1"
    and "length (cpus s1) = length (cpus s)" "r1 = curproc c s1"
      "r1 = None \<longleftrightarrow> (\<forall>p\<in>set (ptable s). state p \<noteq> RUNNABLE)"
      "\<forall>i. r1 = Some i \<longrightarrow> i < NPROC \<and> state (ptable s ! i) = RUNNABLE"
    and sl: "\<forall>i<NPROC. pid (ptable s1 ! i) = pid (ptable s ! i) \<and>
       (state (ptable s ! i) \<in> {SLEEPING, RUNNABLE, RUNNING} \<longrightarrow> state (ptable s1 ! i) \<in> {SLEEPING, RUNNABLE, RUNNING}) \<and>
       (state (ptable s ! i) \<notin> {SLEEPING, RUNNABLE, RUNNING} \<longrightarrow> state (ptable s1 ! i) = state (ptable s ! i)) \<and>
       (queue_level (ptable s1 ! i) = queue_level (ptable s ! i) \<or> queue_level (ptable s1 ! i) = 0)"
    by (rule turn_total [OF assms(1-3)])
  have s1: "s1 = s'" using eq assms(4) by simp
  have "length (ptable s) = NPROC" "length (ptable s') = NPROC"
    using inv assms(1) s1 by (simp_all add: sys_inv_def core_inv_def)
  moreover have "slot_keep a (ptable s ! i) (ptable s' ! i)" if "i < NPROC" for i
    using sl [rule_format, OF that] unfolding s1 slot_keep_def live_def by auto
  ultimately show ?thesis by (simp add: list_all2_conv_all_nth)
qed

lemma tab_keep_exit:
  assumes "core_inv s" "c < length (cpus s)" "curproc c s = Some i" "exit_ptable c s = Inr s'"
  shows "list_all2 (slot_keep (agent_pid (schedp s'))) (ptable s) (ptable s')"
proof -
  obtain s1 where eq: "exit_ptable c s = Inr s1" and inv: "core_inv s1"
    and z: "state (ptable s1 ! i) = ZOMBIE" "pid (ptable s1 ! i) = pid (ptable s ! i)"
    and sp: "schedp s1 = (if agent_pid (schedp s) = pid (ptable s ! i) then (schedp s)\<lparr>agent_pid := 0\<rparr> else schedp s)"
    and w: "\<forall>j<length (ptable s). j \<noteq> i \<longrightarrow> woken (ptable s ! j) (ptable s1 ! j)"
    by (rule core_inv_exit [OF assms(1-3)])
  have s1: "s1 = s'" using eq assms(4) by simp
  have run: "state (ptable s ! i) = RUNNING"
    using core_inv_on_cpu [OF assms(1-3)] by (simp add: on_cpu_def)
  have "slot_keep (agent_pid (schedp s')) (ptable s ! j) (ptable s' ! j)" if "j < length (ptable s)" for j
    using w that z sp run slot_keep_woken unfolding s1 by (cases "j = i") (auto simp: slot_keep_def)
  moreover have "length (ptable s') = length (ptable s)"
    using inv assms(1) s1 by (simp add: core_inv_def)
  ultimately show ?thesis by (simp add: list_all2_conv_all_nth)
qed

lemma tab_keep_kill: "list_all2 (slot_keep a) (ptable s) (ptable (snd (kill t n s)))"
  by (auto simp: kill_def Let_def slot_keep_def live_def split: option.splits intro!: tab_keep_upd)

text \<open>Except for \<open>allocproc\<close> taking a slot into use, every step keeps every slot.\<close>

lemma pstep_keep:
  assumes "pstep s s'" "sys_inv s"
  shows "(\<exists>i. alloc_slot s = (Some i, s')) \<or>
         list_all2 (slot_keep (agent_pid (schedp s'))) (ptable s) (ptable s')"
proof -
  have inv: "core_inv s" using assms(2) by (simp add: sys_inv_def)
  note on = core_inv_on_cpu [OF inv]
  show ?thesis
    using assms(1)
  proof cases
    case (turn c r)
    then show ?thesis using tab_keep_turn [OF assms(2)] by blast
  next
    case (timer c)
    let ?s = "upd_cpu c (\<lambda>k. k\<lparr>intr := False\<rparr>) s"
    have "core_inv ?s" by (rule core_inv_cpu [OF inv]) simp
    from tab_keep_timer [OF this _ timer(3)] timer(1) have
      "list_all2 (slot_keep (agent_pid (schedp s))) (ptable s) (ptable s')" by simp
    moreover have "schedp s' = schedp s"
      using timer(3) by (auto simp: preempt_def split: option.splits if_splits dest!: yield_schedp)
    ultimately show ?thesis by simp
  next
    case (timer_killed c i)
    let ?s = "upd_cpu c (\<lambda>k. k\<lparr>intr := False\<rparr>) s"
    have "core_inv ?s" by (rule core_inv_cpu [OF inv]) simp
    from tab_keep_timer_irq [OF this, of c] timer_killed show ?thesis by simp
  next
    case (sleeps c i ch lk)
    then show ?thesis
      using tab_keep_sleep [OF sleeps(3), of i] on [OF sleeps(1,2)] by (auto simp: on_cpu_def)
  next
    case (exits c i)
    then show ?thesis using tab_keep_exit [OF inv] by blast
  next
    case (image c i pg nm t n)
    then show ?thesis
      by (auto dest!: switchuvm_keeps intro!: tab_keep_upd simp: slot_keep_def live_def)
  next
    case (setparam c um r)
    then show ?thesis by (auto dest!: setparam_schedp)
  next
    case (kill target signum)
    then show ?thesis using tab_keep_kill by blast
  next
    case (wakes ch)
    then show ?thesis by (auto simp: wakeup_def intro: tab_keep_woken tab_woken_wakeup1)
  next
    case (reap c i j)
    then have "state (ptable s ! j) = ZOMBIE" by (auto simp: wait_zombie_def dest: first_index_holds)
    with reap show ?thesis by (auto intro!: tab_keep_upd simp: slot_keep_def live_def reap_slot_def)
  next
    case (first i pg root)
    then show ?thesis by (auto intro!: tab_keep_upd simp: slot_keep_def live_def userinit_slot_def)
  next
    case (register c r)
    then show ?thesis
      by (auto simp: sys_register_agent_def kern_pin_agent_def with_cur_def slot_keep_def live_def
          split: option.splits if_splits intro!: tab_keep_upd)
  next
    case (signal c r)
    then show ?thesis
      by (auto simp: sys_signal_def signal_def with_cur_def slot_keep_def live_def
          split: option.splits if_splits intro!: tab_keep_upd)
  qed (auto simp: sys_alarm_def sys_sigret_def sys_fgproc_def alloc_context_def fork_child_def
      with_cur_def slot_keep_def live_def split: option.splits if_splits intro!: tab_keep_upd)
qed

section \<open>The agent\<close>

text \<open>
  The registered agent is a process that has not exited, and it is in queue 0.
\<close>

definition agent_ok :: "'z pstate_scheme \<Rightarrow> bool" where
  "agent_ok s \<longleftrightarrow> agent_pid (schedp s) = 0 \<or>
     list_ex (\<lambda>p. live p \<and> pid p = agent_pid (schedp s) \<and> queue_level p = 0) (ptable s)"

lemma pstep_agent:
  assumes "pstep s s'"
  shows "agent_pid (schedp s') = agent_pid (schedp s) \<or> agent_pid (schedp s') = 0 \<or>
     (\<exists>c i. c < length (cpus s) \<and> curproc c s = Some i \<and> agent_pid (schedp s') = pid (ptable s ! i) \<and>
        ptable s' = upd_at i (\<lambda>p. p\<lparr>queue_level := 0, ticks_remaining := q0_quantum (schedp s)\<rparr>) (ptable s))"
  using assms
proof cases
  case (turn c r)
  then show ?thesis by (auto dest!: turn_schedp)
next
  case (timer c)
  then show ?thesis by (auto simp: preempt_def split: option.splits if_splits dest!: yield_schedp)
next
  case (register c r)
  then show ?thesis
    by (auto simp: sys_register_agent_def kern_pin_agent_def with_cur_def split: option.splits if_splits)
qed (auto simp: alloc_slot_def sys_alarm_def sys_signal_def sys_sigret_def sys_fgproc_def with_cur_def
      split: option.splits if_splits dest!: sleep_schedp exit_schedp switchuvm_keeps setparam_schedp)

lemma agent_ok_step:
  assumes st: "pstep s s'" and inv: "sys_inv s" and ag: "agent_ok s"
  shows "agent_ok s'"
proof (cases "agent_pid (schedp s') = 0")
  case False
  consider (same) "agent_pid (schedp s') = agent_pid (schedp s)"
    | (new) c i where "c < length (cpus s)" "curproc c s = Some i" "agent_pid (schedp s') = pid (ptable s ! i)"
        "ptable s' = upd_at i (\<lambda>p. p\<lparr>queue_level := 0, ticks_remaining := q0_quantum (schedp s)\<rparr>) (ptable s)"
    using pstep_agent [OF st] False by blast
  then show ?thesis
  proof cases
    case same
    with ag False obtain i where i: "i < length (ptable s)" "live (ptable s ! i)"
      "pid (ptable s ! i) = agent_pid (schedp s')" "queue_level (ptable s ! i) = 0"
      by (auto simp: agent_ok_def list_ex_length)
    have "i < length (ptable s') \<and> live (ptable s' ! i) \<and> pid (ptable s' ! i) = agent_pid (schedp s') \<and>
          queue_level (ptable s' ! i) = 0"
    proof (cases "\<exists>j. alloc_slot s = (Some j, s')")
      case True
      then obtain j where "state (ptable s ! j) = UNUSED" "ptable s' = upd_at j (init_slot (nextpid s) (ticks s)) (ptable s)"
        by (auto simp: alloc_slot_def split: option.splits dest: first_index_holds)
      moreover from this i have "i \<noteq> j" by (auto simp: live_def)
      ultimately show ?thesis using i by simp
    next
      case False
      with pstep_keep [OF st inv] have "list_all2 (slot_keep (agent_pid (schedp s'))) (ptable s) (ptable s')" by blast
      then have "length (ptable s') = length (ptable s)" "slot_keep (agent_pid (schedp s')) (ptable s ! i) (ptable s' ! i)"
        using i by (simp_all add: list_all2_conv_all_nth)
      with i \<open>agent_pid (schedp s') \<noteq> 0\<close> show ?thesis by (auto simp: slot_keep_def)
    qed
    then show ?thesis unfolding agent_ok_def list_ex_length by blast
  next
    case new
    have "on_cpu (ptable s) i (cpus s ! c)"
      using core_inv_on_cpu new inv by (auto simp: sys_inv_def)
    with new have "i < length (ptable s')" "live (ptable s' ! i)" "pid (ptable s' ! i) = agent_pid (schedp s')"
      "queue_level (ptable s' ! i) = 0"
      by (auto simp: on_cpu_def live_def)
    then show ?thesis unfolding agent_ok_def list_ex_length by blast
  qed
qed (simp add: agent_ok_def)

lemma preach_agent_ok: "preach k s \<Longrightarrow> agent_ok s"
proof (induction rule: preach.induct)
  case (start n kpml4)
  then show ?case by (simp add: agent_ok_def pstate_init_def pinit_def schedp_init_def)
next
  case (step k s s')
  then show ?case using agent_ok_step preach_sys_inv by blast
qed

section \<open>Process identifiers\<close>

lemma cpu_popcli_nextpid: "cpu_popcli c s = Inr s' \<Longrightarrow> nextpid s' = nextpid s"
  by (auto simp: cpu_popcli_def)

lemma sched_nextpid: "sched h kc c i s = Inr s' \<Longrightarrow> nextpid s' = nextpid s"
  by (auto simp: sched_def scheduler_back_def split: if_splits dest!: cpu_popcli_nextpid)

lemma switchuvm_nextpid: "switchuvm c i s = Inr s' \<Longrightarrow> nextpid s' = nextpid s"
  by (auto simp: switchuvm_def Let_def split: if_splits dest!: cpu_popcli_nextpid)

lemma turn_nextpid: "scheduler_turn c s = Inr (r, s') \<Longrightarrow> nextpid s' = nextpid s"
proof -
  have 1: "sched_select t = Inr (b, t') \<Longrightarrow> nextpid t' = nextpid t" for t t' :: "'a pstate_scheme" and b
    by (auto simp: sched_select_def select_rr_def select_mlfq_def Let_def split: if_splits option.splits)
  have 2: "resume c i t = Inr t' \<Longrightarrow> nextpid t' = nextpid t" for t t' :: "'a pstate_scheme" and i
    by (auto simp: resume_def Let_def split: kcode.splits dest!: cpu_popcli_nextpid)
  have 3: "dispatch sp c i t = Inr t' \<Longrightarrow> nextpid t' = nextpid t" for t t' :: "'a pstate_scheme" and i sp
    by (auto simp: dispatch_def Let_def dest!: 2 switchuvm_nextpid)
  show "scheduler_turn c s = Inr (r, s') \<Longrightarrow> nextpid s' = nextpid s"
    by (auto simp: scheduler_turn_def Let_def split: option.splits dest!: 1 3 cpu_popcli_nextpid)
qed

lemma yield_nextpid: "yield c s = Inr s' \<Longrightarrow> nextpid s' = nextpid s"
  by (auto simp: yield_def split: option.splits dest!: sched_nextpid)

lemma sleep_nextpid: "sleep ch lk c s = Inr s' \<Longrightarrow> nextpid s' = nextpid s"
  by (auto simp: sleep_def split: option.splits if_splits dest!: sched_nextpid cpu_popcli_nextpid)

lemma exit_nextpid: "exit_ptable c s = Inr s' \<Longrightarrow> nextpid s' = nextpid s"
  by (auto simp: exit_ptable_def Let_def split: option.splits dest!: sched_nextpid)

lemma timer_irq_nextpid [simp]: "nextpid (timer_irq c s) = nextpid s"
  by (auto simp: timer_irq_def Let_def split: option.splits)

lemma pstep_nextpid: "pstep s s' \<Longrightarrow> (\<exists>i. alloc_slot s = (Some i, s')) \<or> nextpid s' = nextpid s"
  by (cases rule: pstep.cases)
     (auto simp: preempt_def kill_def wakeup_def sys_alarm_def sys_signal_def sys_sigret_def sys_fgproc_def
        sys_register_agent_def kern_pin_agent_def with_cur_def
      split: option.splits if_splits
      dest!: turn_nextpid yield_nextpid sleep_nextpid exit_nextpid switchuvm_nextpid setparam_schedp)

text \<open>Identifiers handed out so far are below \<open>nextpid\<close>, and slots in use have distinct positive ones.\<close>

definition pids_ok :: "'z pstate_scheme \<Rightarrow> bool" where
  "pids_ok s \<longleftrightarrow> (\<forall>i<length (ptable s). pid (ptable s ! i) < nextpid s) \<and>
     (\<forall>i<length (ptable s). state (ptable s ! i) \<noteq> UNUSED \<longrightarrow> 0 < pid (ptable s ! i)) \<and>
     (\<forall>i<length (ptable s). \<forall>j<length (ptable s).
        state (ptable s ! i) \<noteq> UNUSED \<and> state (ptable s ! j) \<noteq> UNUSED \<and> pid (ptable s ! i) = pid (ptable s ! j) \<longrightarrow> i = j)"

lemma pids_ok_alloc:
  assumes "pids_ok s" "alloc_slot s = (Some i, s')" "0 < nextpid s" "nextpid s < 2147483647"
  shows "pids_ok s' \<and> nextpid s' = nextpid s + 1"
proof -
  let ?f = "init_slot (nextpid s) (ticks s)"
  have s': "ptable s' = upd_at i ?f (ptable s)" "nextpid s' = nextpid s + 1"
    using assms(2-4) by (auto simp: alloc_slot_def s32_eq split: option.splits)
  have f: "pid (?f p) = nextpid s" for p by (simp add: init_slot_def)
  have lt: "pid (ptable s ! j) < nextpid s" if "j < length (ptable s)" for j
    using assms(1) that by (auto simp: pids_ok_def)
  have pos: "0 < pid (ptable s ! j)" if "j < length (ptable s)" "state (ptable s ! j) \<noteq> UNUSED" for j
    using assms(1) that by (auto simp: pids_ok_def)
  have inj: "j = k" if "j < length (ptable s)" "k < length (ptable s)" "state (ptable s ! j) \<noteq> UNUSED"
     "state (ptable s ! k) \<noteq> UNUSED" "pid (ptable s ! j) = pid (ptable s ! k)" for j k
    using assms(1) that by (auto simp: pids_ok_def)
  have "pid (ptable s' ! j) < nextpid s'" if "j < length (ptable s)" for j
    using lt [OF that] that s' f by (auto simp: nth_upd_at)
  moreover have "0 < pid (ptable s' ! j)" if "j < length (ptable s)" "state (ptable s' ! j) \<noteq> UNUSED" for j
    using pos that s' f assms(3) by (auto simp: nth_upd_at split: if_splits)
  moreover have "j = k" if "j < length (ptable s)" "k < length (ptable s)" "state (ptable s' ! j) \<noteq> UNUSED"
     "state (ptable s' ! k) \<noteq> UNUSED" "pid (ptable s' ! j) = pid (ptable s' ! k)" for j k
    using that s' f inj [of j k] lt [of j] lt [of k]
    by (cases "i = j"; cases "i = k") (auto simp: nth_upd_at)
  moreover have "length (ptable s') = length (ptable s)" using s' by simp
  ultimately show ?thesis using s'(2) unfolding pids_ok_def by simp
qed

lemma pids_ok_keep:
  assumes ok: "pids_ok s" and k: "list_all2 (slot_keep a) (ptable s) (ptable s')"
    and np: "nextpid s' = nextpid s" "0 < nextpid s"
  shows "pids_ok s'"
proof -
  have len: "length (ptable s') = length (ptable s)" using k by (simp add: list_all2_conv_all_nth)
  have sk: "pid (ptable s' ! i) = pid (ptable s ! i) \<or> pid (ptable s' ! i) = 0 \<and> state (ptable s' ! i) = UNUSED"
    "state (ptable s' ! i) \<noteq> UNUSED \<Longrightarrow> state (ptable s ! i) \<noteq> UNUSED" if "i < length (ptable s)" for i
    using k that by (auto simp: list_all2_conv_all_nth slot_keep_def)
  have used: "pid (ptable s' ! i) = pid (ptable s ! i) \<and> state (ptable s ! i) \<noteq> UNUSED"
    if "i < length (ptable s)" "state (ptable s' ! i) \<noteq> UNUSED" for i
    using sk [OF that(1)] that by auto
  have "pid (ptable s' ! i) < nextpid s'" if "i < length (ptable s)" for i
    using sk(1) [OF that] ok that np by (auto simp: pids_ok_def)
  moreover have "0 < pid (ptable s' ! i)" if "i < length (ptable s)" "state (ptable s' ! i) \<noteq> UNUSED" for i
    using used [OF that] ok that by (auto simp: pids_ok_def)
  moreover have "i = j" if "i < length (ptable s)" "j < length (ptable s)" "state (ptable s' ! i) \<noteq> UNUSED"
    "state (ptable s' ! j) \<noteq> UNUSED" "pid (ptable s' ! i) = pid (ptable s' ! j)" for i j
    using used [of i] used [of j] ok that by (simp add: pids_ok_def)
  ultimately show ?thesis unfolding pids_ok_def len by blast
qed

lemma preach_pids_ok:
  "preach k s \<Longrightarrow> k < 2147483646 \<Longrightarrow> pids_ok s \<and> 0 < nextpid s \<and> nextpid s \<le> int k + 1"
proof (induction rule: preach.induct)
  case (start n kpml4)
  then show ?case by (simp add: pids_ok_def pstate_init_def pinit_def proc_zero_def)
next
  case (step k s s')
  then have IH: "pids_ok s" "0 < nextpid s" "nextpid s \<le> int k + 1" by auto
  show ?case
  proof (cases "\<exists>i. alloc_slot s = (Some i, s')")
    case True
    then show ?thesis using pids_ok_alloc [OF IH(1) _ IH(2)] IH step.prems by fastforce
  next
    case False
    with pstep_keep [OF step.hyps(2) preach_sys_inv [OF step.hyps(1)]] pstep_nextpid [OF step.hyps(2)]
    show ?thesis using pids_ok_keep [OF IH(1)] IH by auto
  qed
qed

lemma turn_initproc: "scheduler_turn c s = Inr (r, s') \<Longrightarrow> initproc s' = initproc s"
proof -
  have 1: "sched_select t = Inr (b, t') \<Longrightarrow> initproc t' = initproc t" for t t' :: "'a pstate_scheme" and b
    by (auto simp: sched_select_def select_rr_def select_mlfq_def Let_def split: if_splits option.splits)
  have 2: "resume c i t = Inr t' \<Longrightarrow> initproc t' = initproc t" for t t' :: "'a pstate_scheme" and i
    by (auto simp: resume_def Let_def split: kcode.splits dest!: cpu_popcli_keeps)
  have 3: "dispatch sp c i t = Inr t' \<Longrightarrow> initproc t' = initproc t" for t t' :: "'a pstate_scheme" and i sp
    by (auto simp: dispatch_def Let_def dest!: 2 switchuvm_keeps)
  show "scheduler_turn c s = Inr (r, s') \<Longrightarrow> initproc s' = initproc s"
    by (auto simp: scheduler_turn_def Let_def split: option.splits dest!: 1 3 cpu_popcli_keeps)
qed

section \<open>Booting\<close>

text \<open>
  The first process comes up: \<open>allocproc\<close>, its kernel stack, \<open>userinit\<close>, and the first turn
  of the second CPU's scheduler.
\<close>

definition boot1 :: pstate where "boot1 = snd (alloc_slot (pstate_init 2 0x1000))"
definition boot2 :: pstate where "boot2 = upd_proc 0 (alloc_context 0xFFFF800000400000) boot1"
definition boot3 :: pstate where
  "boot3 = (upd_proc 0 (userinit_slot 0xFFFF800000500000 (Some 0)) boot2)\<lparr>initproc := Some 0\<rparr>"
definition boot4 :: pstate where "boot4 = snd (projr (scheduler_turn 1 boot3))"

lemma boot1_alloc: "alloc_slot (pstate_init 2 0x1000) = (Some 0, boot1)"
  by (simp add: boot1_def alloc_slot_def pstate_init_def pinit_def proc_zero_def NPROC_def numeral_eq_Suc)

lemma boot1_facts:
  "ptable boot1 = (replicate NPROC proc_zero)[0 := init_slot 1 0 proc_zero]" "cpus boot1 = cpus (pstate_init 2 0x1000)"
  "initproc boot1 = None" "schedp boot1 = schedp_init"
proof -
  have "first_index (\<lambda>p. state p = UNUSED) (ptable (pstate_init 2 0x1000)) = Some 0"
    using boot1_alloc by (auto simp: alloc_slot_def split: option.splits)
  then have e: "boot1 = (upd_proc 0 (init_slot (nextpid (pstate_init 2 0x1000)) (ticks (pstate_init 2 0x1000)))
      (pstate_init 2 0x1000))\<lparr>nextpid := s32 (nextpid (pstate_init 2 0x1000) + 1)\<rparr>"
    by (simp add: boot1_def alloc_slot_def)
  show "ptable boot1 = (replicate NPROC proc_zero)[0 := init_slot 1 0 proc_zero]"
    "cpus boot1 = cpus (pstate_init 2 0x1000)" "initproc boot1 = None" "schedp boot1 = schedp_init"
    unfolding e by (simp_all add: pstate_init_def pinit_def upd_at_def NPROC_def)
qed

lemma boot3_facts:
  "length (ptable boot3) = NPROC" "length (cpus boot3) = 2" "curproc 1 boot3 = None" "initproc boot3 = Some 0"
  "i < NPROC \<Longrightarrow> state (ptable boot3 ! i) = RUNNABLE \<longleftrightarrow> i = 0"
  using boot1_facts
  by (auto simp: boot3_def boot2_def pstate_init_def pinit_def nth_upd_at nth_list_update userinit_slot_def
      proc_zero_def NPROC_def)

lemma preach_boot3: "preach 3 boot3"
proof -
  have 0: "preach 0 (pstate_init 2 0x1000)" by (rule preach.start)
  have 1: "preach (Suc 0) boot1" by (rule preach.step [OF 0 pstep.alloc [OF boot1_alloc]])
  have p: "ptable boot1 ! 0 = init_slot 1 0 proc_zero" "length (ptable boot1) = NPROC"
    using boot1_facts by (simp_all add: NPROC_def)
  have 2: "preach (Suc (Suc 0)) boot2"
    unfolding boot2_def using p by (intro preach.step [OF 1 pstep.kstack]) (simp_all add: NPROC_def init_slot_def)
  have q: "state (ptable boot2 ! 0) = EMBRYO" "kctx (ptable boot2 ! 0) = At_forkret" "length (ptable boot2) = NPROC" "initproc boot2 = None"
    using p boot1_facts by (simp_all add: boot2_def init_slot_def alloc_context_def NPROC_def)
  have "preach (Suc (Suc (Suc 0))) boot3"
    unfolding boot3_def using q by (intro preach.step [OF 2 pstep.first]) (simp_all add: NPROC_def)
  then show ?thesis by (simp add: numeral_3_eq_3)
qed

lemma boot4_facts: "preach 4 boot4" "curproc 1 boot4 = Some 0" "length (cpus boot4) = 2" "initproc boot4 = Some 0"
  "on_cpu (ptable boot4) 0 (cpus boot4 ! 1)" "agent_pid (schedp boot4) = 0"
proof -
  have c: "1 < length (cpus boot3)" using boot3_facts by simp
  obtain r s' where t: "scheduler_turn 1 boot3 = Inr (r, s')" and l: "length (cpus s') = length (cpus boot3)"
    and core: "core_inv s'" and slots: "\<forall>i<NPROC. pid (ptable s' ! i) = pid (ptable boot3 ! i) \<and>
       (state (ptable boot3 ! i) \<in> {SLEEPING, RUNNABLE, RUNNING} \<longrightarrow> state (ptable s' ! i) \<in> {SLEEPING, RUNNABLE, RUNNING}) \<and>
       (state (ptable boot3 ! i) \<notin> {SLEEPING, RUNNABLE, RUNNING} \<longrightarrow> state (ptable s' ! i) = state (ptable boot3 ! i)) \<and>
       (queue_level (ptable s' ! i) = queue_level (ptable boot3 ! i) \<or> queue_level (ptable s' ! i) = 0)"
    and r: "r = curproc 1 s'" "r = None \<longleftrightarrow> (\<forall>p\<in>set (ptable boot3). state p \<noteq> RUNNABLE)"
      "\<forall>i. r = Some i \<longrightarrow> i < NPROC \<and> state (ptable boot3 ! i) = RUNNABLE"
    by (rule turn_total [OF preach_sys_inv [OF preach_boot3] c boot3_facts(3)])
  have b4: "boot4 = s'" using t by (simp add: boot4_def)
  have "state (ptable boot3 ! 0) = RUNNABLE" "ptable boot3 ! 0 \<in> set (ptable boot3)"
    using boot3_facts(1,5) by (simp_all add: NPROC_def)
  then obtain i where "r = Some i" using r(2) by auto
  with r(3) boot3_facts(5) have "r = Some 0" by auto
  then show "curproc 1 boot4 = Some 0" "length (cpus boot4) = 2" using b4 r l boot3_facts by simp_all
  have "preach (Suc 3) s'" by (rule preach.step [OF preach_boot3 pstep.turn [OF c boot3_facts(3) t]])
  then show "preach 4 boot4" using b4 by simp
  have "initproc s' = initproc boot3"
    using t by (rule turn_initproc)
  then show "initproc boot4 = Some 0" using b4 boot3_facts by simp
  show "on_cpu (ptable boot4) 0 (cpus boot4 ! 1)"
    using core_inv_on_cpu [OF core, of 1 0] \<open>r = Some 0\<close> r(1) l b4 boot3_facts(2) by simp
  have "agent_pid (schedp boot3) = 0" using boot1_facts(4) by (simp add: boot3_def boot2_def schedp_init_def)
  then show "agent_pid (schedp boot4) = 0" using turn_schedp [OF t] b4 by auto
qed

section \<open>The properties of the running system\<close>

text \<open>
  C5: In every reachable state CPUs and processes agree: each CPU holds no lock and is idle or
  runs exactly the process its \<open>proc\<close> variable names, which is RUNNING, on that process's page
  table and kernel stack; no process runs on two CPUs, and every RUNNING process has a CPU.
\<close>

theorem cpus_consistent:
  assumes "preach k s"
  shows "(\<forall>c<length (cpus s). cpu_idle (cpus s ! c) \<or> (\<exists>i. on_cpu (ptable s) i (cpus s ! c))) \<and>
     (\<forall>c d i. c < length (cpus s) \<and> d < length (cpus s) \<and> curproc c s = Some i \<and> curproc d s = Some i \<longrightarrow> c = d) \<and>
     (\<forall>i<NPROC. state (ptable s ! i) = RUNNING \<longrightarrow> (\<exists>c<length (cpus s). curproc c s = Some i))"
  using preach_sys_inv [OF assms] by (auto simp: sys_inv_def core_inv_def cpus_ok_def)

theorem cpus_consistent_witness:
  "\<exists>i. on_cpu (ptable boot4) i (cpus boot4 ! 1)"
proof -
  have "cpu_idle (cpus boot4 ! 1) \<or> (\<exists>i. on_cpu (ptable boot4) i (cpus boot4 ! 1))"
    using cpus_consistent [OF boot4_facts(1)] boot4_facts(3) by (metis one_less_numeral_iff semiring_norm(76))
  with boot4_facts(2) show ?thesis by (simp add: cpu_idle_def)
qed

text \<open>
  C1: The scheduler never fails: in every reachable state a turn of an idle CPU returns without
  panic and without divide error; it stays idle exactly when nothing is runnable, and otherwise
  it ends inside a process that was runnable and now is RUNNING on this CPU.
\<close>

theorem scheduler_never_fails:
  assumes "preach k s" and "c < length (cpus s)" and "curproc c s = None"
  shows "\<exists>r s'. scheduler_turn c s = Inr (r, s') \<and> r = curproc c s' \<and>
     (r = None \<longleftrightarrow> (\<forall>p\<in>set (ptable s). state p \<noteq> RUNNABLE)) \<and>
     (\<forall>i. r = Some i \<longrightarrow> state (ptable s ! i) = RUNNABLE \<and> on_cpu (ptable s') i (cpus s' ! c))"
proof -
  obtain r s' where t: "scheduler_turn c s = Inr (r, s')" and l: "length (cpus s') = length (cpus s)"
    and core: "core_inv s'" and slots: "\<forall>i<NPROC. pid (ptable s' ! i) = pid (ptable s ! i) \<and>
       (state (ptable s ! i) \<in> {SLEEPING, RUNNABLE, RUNNING} \<longrightarrow> state (ptable s' ! i) \<in> {SLEEPING, RUNNABLE, RUNNING}) \<and>
       (state (ptable s ! i) \<notin> {SLEEPING, RUNNABLE, RUNNING} \<longrightarrow> state (ptable s' ! i) = state (ptable s ! i)) \<and>
       (queue_level (ptable s' ! i) = queue_level (ptable s ! i) \<or> queue_level (ptable s' ! i) = 0)"
    and r: "r = curproc c s'" "r = None \<longleftrightarrow> (\<forall>p\<in>set (ptable s). state p \<noteq> RUNNABLE)"
      "\<forall>i. r = Some i \<longrightarrow> i < NPROC \<and> state (ptable s ! i) = RUNNABLE"
    by (rule turn_total [OF preach_sys_inv [OF assms(1)] assms(2,3)])
  have "on_cpu (ptable s') i (cpus s' ! c)" if "r = Some i" for i
    using core_inv_on_cpu [OF core, of c i] that r(1) l assms(2) by simp
  with t r show ?thesis by auto
qed

theorem scheduler_never_fails_witness:
  "\<exists>r s'. scheduler_turn 1 boot3 = Inr (r, s') \<and> r = curproc 1 s'"
  using scheduler_never_fails [OF preach_boot3, of 1] boot3_facts(2,3) by auto

text \<open>
  C7: Switching away never fails either: in every reachable state a timer interrupt (with the
  preemption it may cause) returns on every CPU, and a process that sleeps or exits leaves its
  CPU idle without any of the panics of \<open>sched\<close>, \<open>popcli\<close> and \<open>sleep\<close>.
\<close>

theorem switching_never_fails:
  assumes "preach k s" and "c < length (cpus s)"
  shows "(\<exists>s'. preempt c (timer_irq c (upd_cpu c (\<lambda>k. k\<lparr>intr := False\<rparr>) s)) = Inr s') \<and>
     (\<forall>i. curproc c s = Some i \<longrightarrow>
        (\<exists>s'. sleep ch (Some lk) c (upd_cpu c pushcli s) = Inr s' \<and> curproc c s' = None) \<and>
        (\<exists>s'. exit_ptable c s = Inr s' \<and> state (ptable s' ! i) = ZOMBIE))"
proof -
  have inv: "core_inv s" using preach_sys_inv [OF assms(1)] by (simp add: sys_inv_def)
  let ?s = "upd_cpu c (\<lambda>k. k\<lparr>intr := False\<rparr>) s"
  have "core_inv ?s" by (rule core_inv_cpu [OF inv]) simp
  then obtain s' where "preempt c (timer_irq c ?s) = Inr s'"
    by (rule core_inv_timer [of ?s c]) (use assms(2) in simp)
  moreover have "\<exists>s'. sleep ch (Some lk) c (upd_cpu c pushcli s) = Inr s' \<and> curproc c s' = None"
    if "curproc c s = Some i" for i
    by (rule core_inv_sleep [OF inv assms(2) that, of ch lk]) blast
  moreover have "\<exists>s'. exit_ptable c s = Inr s' \<and> state (ptable s' ! i) = ZOMBIE"
    if "curproc c s = Some i" for i
    by (rule core_inv_exit [OF inv assms(2) that]) blast
  ultimately show ?thesis by blast
qed

theorem switching_never_fails_witness:
  "\<exists>s'. sleep Ch_ticks (Some OtherLock) 1 (upd_cpu 1 pushcli boot4) = Inr s' \<and> curproc 1 s' = None"
  using switching_never_fails [OF boot4_facts(1), of 1 Ch_ticks OtherLock] boot4_facts(2,3) by auto


definition boot5 :: pstate where "boot5 = snd (projr (sys_register_agent 1 boot4))"


text \<open>
  C15: Process identifiers are unique: after fewer than 2147483646 steps (before \<open>nextpid\<close> can
  overflow) all slots in use have distinct positive identifiers below \<open>nextpid\<close>.
\<close>

theorem pids_unique:
  assumes "preach k s" and "k < 2147483646"
  shows "\<forall>i<NPROC. \<forall>j<NPROC. state (ptable s ! i) \<noteq> UNUSED \<longrightarrow> state (ptable s ! j) \<noteq> UNUSED \<longrightarrow>
     0 < pid (ptable s ! i) \<and> pid (ptable s ! i) < nextpid s \<and> (pid (ptable s ! i) = pid (ptable s ! j) \<longrightarrow> i = j)"
proof -
  have "length (ptable s) = NPROC" using preach_sys_inv [OF assms(1)] by (simp add: sys_inv_def core_inv_def)
  with preach_pids_ok [OF assms] show ?thesis by (auto simp: pids_ok_def)
qed

theorem pids_unique_witness:
  "0 < pid (ptable boot4 ! 0) \<and> pid (ptable boot4 ! 0) < nextpid boot4"
proof -
  have "state (ptable boot4 ! 0) \<noteq> UNUSED" "0 < NPROC" using boot4_facts(5) by (simp_all add: on_cpu_def NPROC_def)
  with pids_unique [OF boot4_facts(1)] show ?thesis by simp
qed



section \<open>Sleeping, exiting and waiting\<close>



lemma reparent_parents:
  assumes "n \<le> length ps" and "j < length ps"
  shows "parent (reparent i ini n ps ! j) =
     (if length ps - n \<le> j \<and> parent (ps ! j) = Some i then ini else parent (ps ! j))"
  using assms
proof (induction n arbitrary: ps)
  case (Suc n)
  let ?k = "length ps - Suc n"
  let ?p1 = "upd_at ?k (\<lambda>p. p\<lparr>parent := ini\<rparr>) ps"
  let ?p2 = "if state (?p1 ! ?k) = ZOMBIE then wakeup1 (map_option Ch_proc ini) ?p1 else ?p1"
  have k: "?k < length ps" "length ps - n = Suc ?k" using Suc.prems by auto
  have p2: "length ?p2 = length ps" "parent (?p2 ! j) = (if j = ?k then ini else parent (ps ! j))"
    using Suc.prems k by (auto simp: nth_upd_at)
  show ?case
  proof (cases "parent (ps ! ?k) = Some i")
    case True
    then have "reparent i ini (Suc n) ps = reparent i ini n ?p2" by (simp add: Let_def)
    moreover have "parent (reparent i ini n ?p2 ! j) =
        (if length ?p2 - n \<le> j \<and> parent (?p2 ! j) = Some i then ini else parent (?p2 ! j))"
      using Suc.prems p2(1) by (intro Suc.IH) auto
    ultimately show ?thesis using p2 k True by (auto simp: le_less Suc_le_eq)
  next
    case False
    then have "reparent i ini (Suc n) ps = reparent i ini n ps" by (simp add: Let_def)
    then show ?thesis using Suc.IH [of ps] Suc.prems k False by (auto simp: le_less Suc_le_eq)
  qed
qed simp

text \<open>A process stays RUNNABLE, or asleep on the same channel, through the reparenting loop.\<close>

lemma reparent_runnable:
  "j < length ps \<Longrightarrow> state (ps ! j) = RUNNABLE \<Longrightarrow> state (reparent i ini n ps ! j) = RUNNABLE"
  using list_all2_nth [OF tab_woken_reparent, of j ps i ini n] by (auto simp: woken_def)

lemma reparent_wakes_init:
  assumes "n \<le> length ps" and "ini = Some m" and "m < length ps"
    and "state (ps ! m) = SLEEPING" "chan (ps ! m) = Some (Ch_proc m)"
    and "length ps - n \<le> j" "j < length ps" "parent (ps ! j) = Some i" "state (ps ! j) = ZOMBIE"
  shows "state (reparent i ini n ps ! m) = RUNNABLE"
  using assms
proof (induction n arbitrary: ps)
  case (Suc n)
  let ?k = "length ps - Suc n"
  let ?p1 = "upd_at ?k (\<lambda>p. p\<lparr>parent := ini\<rparr>) ps"
  let ?p2 = "if state (?p1 ! ?k) = ZOMBIE then wakeup1 (map_option Ch_proc ini) ?p1 else ?p1"
  have k: "?k < length ps" "length ps - n = Suc ?k" using Suc.prems by auto
  have fields: "state (?p1 ! x) = state (ps ! x)" "chan (?p1 ! x) = chan (ps ! x)" if "x < length ps" for x
    using that by (auto simp: nth_upd_at)
  show ?case
  proof (cases "parent (ps ! ?k) = Some i")
    case True
    then have eq: "reparent i ini (Suc n) ps = reparent i ini n ?p2" by (simp add: Let_def)
    show ?thesis
    proof (cases "state (ps ! ?k) = ZOMBIE")
      case True
      then have "?p2 = wakeup1 (Some (Ch_proc m)) ?p1" using k Suc.prems(2) by simp
      then have "state (?p2 ! m) = RUNNABLE" using Suc.prems fields by simp
      then show ?thesis unfolding eq using Suc.prems by (intro reparent_runnable) auto
    next
      case False
      then have p2: "?p2 = ?p1" using k by simp
      have "j \<noteq> ?k" using False Suc.prems by auto
      then have "state (reparent i ini n ?p1 ! m) = RUNNABLE"
        using Suc.prems k fields by (intro Suc.IH) auto
      then show ?thesis unfolding eq p2 .
    qed
  next
    case False
    then have "reparent i ini (Suc n) ps = reparent i ini n ps" by (simp add: Let_def)
    moreover have "j \<noteq> ?k" using False Suc.prems by auto
    ultimately show ?thesis using Suc.IH [of ps] Suc.prems k by simp
  qed
qed simp

lemma exit_table:
  assumes "exit_ptable c s = Inr s'" and "curproc c s = Some i" and "i < length (ptable s)"
  obtains b where "ptable s' = upd_at i (\<lambda>p. p\<lparr>state := ZOMBIE, kctx := At_exit, saved_intena := b\<rparr>)
     (reparent i (initproc s) (length (ptable s)) (wakeup1 (map_option Ch_proc (parent (ptable s ! i))) (ptable s)))"
proof -
  let ?ps = "reparent i (initproc s) (length (ptable s)) (wakeup1 (map_option Ch_proc (parent (ptable s ! i))) (ptable s))"
  have "length ?ps = length (ptable s)" using list_all2_lengthD [OF tab_woken_reparent] by simp
  then have i: "i < length ?ps" using assms(3) by simp
  from assms(1,2) obtain b where "ptable s' = upd_at i (\<lambda>p. p\<lparr>kctx := At_exit, saved_intena := b\<rparr>)
      (upd_at i (\<lambda>p. p\<lparr>state := ZOMBIE\<rparr>) ?ps)"
    by (auto simp: exit_ptable_def Let_def dest!: sched_keeps)
  also have "\<dots> = upd_at i (\<lambda>p. p\<lparr>state := ZOMBIE, kctx := At_exit, saved_intena := b\<rparr>) ?ps"
    using i by (simp add: upd_at_def)
  finally show ?thesis by (rule that)
qed

text \<open>
  C13: \<open>exit\<close> leaves no orphan and no sleeper behind: the exiting process becomes a zombie, its
  children and only they are handed to \<open>initproc\<close>, a parent asleep in \<open>wait\<close> becomes runnable,
  and so does \<open>initproc\<close> if it sleeps in \<open>wait\<close> and inherits a zombie.
\<close>

theorem exit_hands_over_children:
  assumes "preach k s" and "c < length (cpus s)" and "curproc c s = Some i"
  shows "\<exists>s'. exit_ptable c s = Inr s' \<and> state (ptable s' ! i) = ZOMBIE \<and>
     (\<forall>j<NPROC. parent (ptable s' ! j) = (if parent (ptable s ! j) = Some i then initproc s else parent (ptable s ! j))) \<and>
     (\<forall>m<NPROC. m \<noteq> i \<and> state (ptable s ! m) = SLEEPING \<and> chan (ptable s ! m) = Some (Ch_proc m) \<and>
        (parent (ptable s ! i) = Some m \<or>
         initproc s = Some m \<and> (\<exists>j<NPROC. parent (ptable s ! j) = Some i \<and> state (ptable s ! j) = ZOMBIE)) \<longrightarrow>
        state (ptable s' ! m) = RUNNABLE)"
proof -
  have inv: "core_inv s" using preach_sys_inv [OF assms(1)] by (simp add: sys_inv_def)
  have len: "length (ptable s) = NPROC" and on: "on_cpu (ptable s) i (cpus s ! c)"
    using inv core_inv_on_cpu [OF inv assms(2,3)] by (simp_all add: core_inv_def)
  then have i: "i < length (ptable s)" by (simp add: on_cpu_def)
  obtain s' where eq: "exit_ptable c s = Inr s'" and z: "state (ptable s' ! i) = ZOMBIE"
    by (rule core_inv_exit [OF inv assms(2,3)])
  let ?w = "wakeup1 (map_option Ch_proc (parent (ptable s ! i))) (ptable s)"
  let ?r = "reparent i (initproc s) (length (ptable s)) ?w"
  have lw: "length ?w = length (ptable s)" by simp
  have lr: "length ?r = length (ptable s)" using list_all2_lengthD [OF tab_woken_reparent, of ?w i "initproc s"] by simp
  obtain b where pt: "ptable s' = upd_at i (\<lambda>p. p\<lparr>state := ZOMBIE, kctx := At_exit, saved_intena := b\<rparr>) ?r"
    by (rule exit_table [OF eq assms(3) i])
  have par: "parent (ptable s' ! j) = (if parent (ptable s ! j) = Some i then initproc s else parent (ptable s ! j))"
    if "j < NPROC" for j
  proof -
    have "parent (ptable s' ! j) = parent (?r ! j)" unfolding pt using that len lr by (simp add: nth_upd_at)
    also have "\<dots> = (if parent (?w ! j) = Some i then initproc s else parent (?w ! j))"
      using reparent_parents [of "length (ptable s)" ?w j i "initproc s"] that len by simp
    finally show ?thesis using that len by simp
  qed
  have wake: "state (ptable s' ! m) = RUNNABLE"
    if m: "m < NPROC" "m \<noteq> i" "state (ptable s ! m) = SLEEPING" "chan (ptable s ! m) = Some (Ch_proc m)"
      and why: "parent (ptable s ! i) = Some m \<or>
         initproc s = Some m \<and> (\<exists>j<NPROC. parent (ptable s ! j) = Some i \<and> state (ptable s ! j) = ZOMBIE)" for m
  proof -
    have "state (?r ! m) = RUNNABLE"
    proof (cases "parent (ptable s ! i) = Some m")
      case True
      then show ?thesis using m len by (intro reparent_runnable) simp_all
    next
      case False
      with why obtain j where "initproc s = Some m" "j < NPROC" "parent (ptable s ! j) = Some i" "state (ptable s ! j) = ZOMBIE"
        by blast
      moreover have "map_option Ch_proc (parent (ptable s ! i)) \<noteq> Some (Ch_proc m)" using False by auto
      ultimately show ?thesis
        using m len by (intro reparent_wakes_init [of _ _ _ m j]) (auto simp: map_option_case split: option.splits)
    qed
    then show ?thesis unfolding pt using m lr len by (simp add: nth_upd_at)
  qed
  show ?thesis using eq z par wake by auto
qed

theorem exit_hands_over_children_witness:
  "\<exists>s'. exit_ptable 1 boot4 = Inr s' \<and> state (ptable s' ! 0) = ZOMBIE"
  using exit_hands_over_children [OF boot4_facts(1), of 1 0] boot4_facts(2,3) by auto



end
