(* ===== verification/Agent.thy ===== *)
theory Agent
  imports Reachable
begin

text \<open>
  The scheduling agent of \<open>sagent.c\<close>: the five signals it computes from a telemetry snapshot,
  the rule-based policy, and one round of its observe-decide-actuate loop. Logging with
  \<open>printf\<close> is left out. The field \<open>rr_mode\<close> of the update structure is never assigned by the
  source, so its value is an argument of the round.
\<close>

unbundle bit_operations_syntax

section \<open>State\<close>

record agent =
  cur_q0 :: int
  cur_q1 :: int
  cur_q2 :: int
  cur_boost :: int
  cur_af :: int
  cur_as :: int
  cur_aging :: int
  epoch :: int
  cnt :: "int list"

definition agent_init :: agent where
  "agent_init = \<lparr>cur_q0 = 4, cur_q1 = 6, cur_q2 = 8, cur_boost = 500, cur_af = 50, cur_as = 10,
     cur_aging = 50, epoch = 0, cnt = replicate 6 0\<rparr>"

section \<open>Signals\<close>

fun wait_loop :: "schedstat list \<Rightarrow> int \<Rightarrow> int \<Rightarrow> int \<times> int" where
  "wait_loop [] tsum count = (tsum, count)"
| "wait_loop (e # es) tsum count =
     (if st_state e = 3 then wait_loop es (s32 (tsum + st_wait_ticks e)) (s32 (count + 1))
      else wait_loop es tsum count)"

definition compute_avg_wait :: "schedstat list \<Rightarrow> int" where
  "compute_avg_wait stats =
     (let (tsum, count) = wait_loop stats 0 0 in if count = 0 then 0 else tsum sdiv count)"

fun pressure_loop :: "schedstat list \<Rightarrow> int \<Rightarrow> int \<Rightarrow> int \<times> int" where
  "pressure_loop [] count_q2 count_runnable = (count_q2, count_runnable)"
| "pressure_loop (e # es) count_q2 count_runnable =
     (if st_state e = 3
      then pressure_loop es (if st_queue_level e = 2 then s32 (count_q2 + 1) else count_q2) (s32 (count_runnable + 1))
      else pressure_loop es count_q2 count_runnable)"

definition compute_queue_pressure :: "schedstat list \<Rightarrow> int" where
  "compute_queue_pressure stats =
     (let (count_q2, count_runnable) = pressure_loop stats 0 0
      in if count_runnable = 0 then 0 else s32 (count_q2 * 100) sdiv count_runnable)"

fun switches_loop :: "schedstat list \<Rightarrow> int \<Rightarrow> int \<Rightarrow> int \<times> int" where
  "switches_loop [] total_yield total_preempt = (total_yield, total_preempt)"
| "switches_loop (e # es) total_yield total_preempt =
     switches_loop es (s32 (total_yield + st_yield_count e)) (s32 (total_preempt + st_preempt_count e))"

definition compute_workload_type :: "schedstat list \<Rightarrow> int" where
  "compute_workload_type stats =
     (let (total_yield, total_preempt) = switches_loop stats 0 0
      in if s32 (total_yield + total_preempt) = 0 then 50
         else s32 (total_yield * 100) sdiv s32 (total_yield + total_preempt))"

fun divergence_loop :: "schedstat list \<Rightarrow> int \<Rightarrow> int" where
  "divergence_loop [] divergence = divergence"
| "divergence_loop (e # es) divergence =
     (let diff = s32 (st_burst_ema_fast e - st_burst_ema_slow e);
          diff = (if diff < 0 then s32 (- diff) else diff)
      in divergence_loop es (s32 (divergence + diff)))"

definition detect_phase_change :: "schedstat list \<Rightarrow> int" where
  "detect_phase_change stats =
     (let divergence = divergence_loop stats 0;
          divergence = (if length stats > 0 then divergence sdiv int (length stats) else divergence)
      in if divergence > 50 then 1 else 0)"

fun detect_sjf_abuse :: "schedstat list \<Rightarrow> int" where
  "detect_sjf_abuse [] = 0"
| "detect_sjf_abuse (e # es) =
     (if st_burst_variance e < 5 \<and> st_yield_count e > 20 then 1 else detect_sjf_abuse es)"

section \<open>Policy\<close>

definition clamp :: "int \<Rightarrow> int \<Rightarrow> int \<Rightarrow> int" where
  "clamp val lo hi = (if val < lo then lo else if val > hi then hi else val)"

text \<open>\<open>if(cond) cnt[i]++; else cnt[i] = 0;\<close>\<close>

definition count_epoch :: "nat \<Rightarrow> bool \<Rightarrow> agent \<Rightarrow> agent" where
  "count_epoch i cond a = a\<lparr>cnt := (cnt a)[i := (if cond then s32 (cnt a ! i + 1) else 0)]\<rparr>"

definition rule1 :: "int \<Rightarrow> int \<times> agent \<Rightarrow> int \<times> agent" where
  "rule1 queue_pressure = (\<lambda>(fired, a).
     let a = count_epoch 0 (queue_pressure > 40) a in
     if cnt a ! 0 \<ge> 1
     then (fired OR 0x01, a\<lparr>cur_boost := clamp (s32 (cur_boost a - 20)) 10 500, cur_q0 := clamp (s32 (cur_q0 a - 1)) 1 10\<rparr>)
     else (fired, a))"

definition rule2 :: "int \<Rightarrow> int \<times> agent \<Rightarrow> int \<times> agent" where
  "rule2 workload_type = (\<lambda>(fired, a).
     let a = count_epoch 1 (workload_type > 70) a in
     if cnt a ! 1 \<ge> 2 then (fired OR 0x02, a\<lparr>cur_q0 := clamp (s32 (cur_q0 a + 1)) 1 10\<rparr>) else (fired, a))"

definition rule3 :: "int \<Rightarrow> int \<times> agent \<Rightarrow> int \<times> agent" where
  "rule3 workload_type = (\<lambda>(fired, a).
     let a = count_epoch 2 (workload_type < 30) a in
     if cnt a ! 2 \<ge> 2 then (fired OR 0x04, a\<lparr>cur_q0 := clamp (s32 (cur_q0 a - 1)) 1 10\<rparr>) else (fired, a))"

definition rule4 :: "int \<Rightarrow> int \<times> agent \<Rightarrow> int \<times> agent" where
  "rule4 avg_wait = (\<lambda>(fired, a).
     let a = count_epoch 3 (avg_wait > 10) a in
     if cnt a ! 3 \<ge> 1 then (fired OR 0x08, a\<lparr>cur_boost := clamp (s32 (cur_boost a - 10)) 10 500\<rparr>) else (fired, a))"

definition rule5 :: "int \<Rightarrow> int \<times> agent \<Rightarrow> int \<times> agent" where
  "rule5 phase_change = (\<lambda>(fired, a).
     if phase_change \<noteq> 0
     then (fired OR 0x10, a\<lparr>cur_af := clamp (s32 (cur_af a + 10)) (s32 (cur_as a + 1)) 90\<rparr>)
     else (fired, a\<lparr>cur_af := clamp (s32 (cur_af a - 5)) (s32 (cur_as a + 1)) 90\<rparr>))"

definition rule6 :: "int \<Rightarrow> int \<times> agent \<Rightarrow> int \<times> agent" where
  "rule6 abuse_detected = (\<lambda>(fired, a).
     let a = count_epoch 5 (abuse_detected \<noteq> 0) a in
     if cnt a ! 5 \<ge> 2 then (fired OR 0x20, a\<lparr>cur_aging := clamp (s32 (cur_aging a - 3)) 1 100\<rparr>) else (fired, a))"

definition monotone_quanta :: "agent \<Rightarrow> agent" where
  "monotone_quanta a =
     (let a = (if cur_q1 a < cur_q0 a then a\<lparr>cur_q1 := cur_q0 a\<rparr> else a)
      in if cur_q2 a < cur_q1 a then a\<lparr>cur_q2 := cur_q1 a\<rparr> else a)"

definition decide_and_update :: "int \<Rightarrow> int \<Rightarrow> int \<Rightarrow> int \<Rightarrow> int \<Rightarrow> agent \<Rightarrow> int \<times> agent" where
  "decide_and_update avg_wait queue_pressure workload_type phase_change abuse_detected a =
     (let (fired, a) = rule6 abuse_detected (rule5 phase_change (rule4 avg_wait
                         (rule3 workload_type (rule2 workload_type (rule1 queue_pressure (0, a))))))
      in (fired, monotone_quanta a))"

section \<open>The loop\<close>

definition agent_update :: "int \<Rightarrow> agent \<Rightarrow> sched_update" where
  "agent_update rr a = \<lparr>u_q0_quantum = cur_q0 a, u_q1_quantum = cur_q1 a, u_q2_quantum = cur_q2 a,
     u_boost_interval = cur_boost a, u_ema_alpha_fast = cur_af a, u_ema_alpha_slow = cur_as a,
     u_aging_factor = cur_aging a, u_rr_mode = rr\<rparr>"

text \<open>
  One round of the loop on the snapshot \<open>stats\<close> (empty when \<open>getschedstats\<close> returned 0 or
  less): the update passed to \<open>setschedparam\<close>, if any, the new state, and the ticks to sleep.
\<close>

definition agent_round :: "int \<Rightarrow> schedstat list \<Rightarrow> agent \<Rightarrow> sched_update option \<times> agent \<times> int" where
  "agent_round rr stats a =
     (if stats = [] then (None, a, 50)
      else let alert = st_sched_alert (stats ! 0);
               (fired, a) = decide_and_update (compute_avg_wait stats) (compute_queue_pressure stats)
                  (compute_workload_type stats) (detect_phase_change stats) (detect_sjf_abuse stats) a
           in (Some (agent_update rr a), a\<lparr>epoch := s32 (epoch a + 1)\<rparr>, if alert \<noteq> 0 then 10 else 50))"

section \<open>The legal ranges are invariant\<close>

definition agent_inv :: "agent \<Rightarrow> bool" where
  "agent_inv a \<longleftrightarrow> 1 \<le> cur_q0 a \<and> cur_q0 a \<le> 10 \<and> cur_q0 a \<le> cur_q1 a \<and> cur_q1 a \<le> cur_q2 a \<and> cur_q2 a \<le> 10 \<and>
     10 \<le> cur_boost a \<and> cur_boost a \<le> 500 \<and> cur_as a = 10 \<and> 11 \<le> cur_af a \<and> cur_af a \<le> 90 \<and>
     1 \<le> cur_aging a \<and> cur_aging a \<le> 100 \<and> length (cnt a) = 6"

text \<open>The invariant between the rules, before the quanta are put in order again.\<close>

definition agent_pre :: "agent \<Rightarrow> bool" where
  "agent_pre a \<longleftrightarrow> 1 \<le> cur_q0 a \<and> cur_q0 a \<le> 10 \<and> cur_q1 a \<le> cur_q2 a \<and> 1 \<le> cur_q1 a \<and> cur_q2 a \<le> 10 \<and>
     10 \<le> cur_boost a \<and> cur_boost a \<le> 500 \<and> cur_as a = 10 \<and> 11 \<le> cur_af a \<and> cur_af a \<le> 90 \<and>
     1 \<le> cur_aging a \<and> cur_aging a \<le> 100 \<and> length (cnt a) = 6"

lemma clamp_range: "lo \<le> hi \<Longrightarrow> lo \<le> clamp v lo hi \<and> clamp v lo hi \<le> hi"
  by (simp add: clamp_def)

lemma agent_pre_count [simp]: "agent_pre (count_epoch i b a) = agent_pre a"
  by (simp add: agent_pre_def count_epoch_def)

lemma rules_agent_pre:
  assumes "agent_pre (snd fa)"
  shows "agent_pre (snd (rule1 x fa))" "agent_pre (snd (rule2 x fa))" "agent_pre (snd (rule3 x fa))"
    "agent_pre (snd (rule4 x fa))" "agent_pre (snd (rule5 x fa))" "agent_pre (snd (rule6 x fa))"
  using assms clamp_range [of 1 10] clamp_range [of 10 500] clamp_range [of 11 90] clamp_range [of 1 100]
  by (auto simp: rule1_def rule2_def rule3_def rule4_def rule5_def rule6_def agent_pre_def count_epoch_def
      Let_def s32_eq split: prod.splits)

lemma monotone_quanta_inv: "agent_pre a \<Longrightarrow> agent_inv (monotone_quanta a)"
  by (auto simp: agent_pre_def agent_inv_def monotone_quanta_def Let_def)

lemma agent_inv_pre: "agent_inv a \<Longrightarrow> agent_pre a"
  by (auto simp: agent_pre_def agent_inv_def)

lemma decide_keeps_inv: "agent_inv a \<Longrightarrow> agent_inv (snd (decide_and_update w q t p b a))"
  by (simp add: decide_and_update_def case_prod_unfold Let_def monotone_quanta_inv rules_agent_pre agent_inv_pre)

lemma agent_inv_accepted: "agent_inv a \<Longrightarrow> upd_rejected (agent_update rr a) \<longleftrightarrow> rr \<noteq> 0 \<and> rr \<noteq> 1"
  by (auto simp: agent_inv_def upd_rejected_def agent_update_def)

text \<open>The states the agent can be in: any number of rounds on any snapshots.\<close>

inductive agent_reach :: "agent \<Rightarrow> bool" where
  "agent_reach agent_init"
| "agent_reach a \<Longrightarrow> agent_round rr stats a = (u, a', n) \<Longrightarrow> agent_reach a'"

lemma agent_inv_epoch [simp]: "agent_inv (a\<lparr>epoch := e\<rparr>) = agent_inv a"
  by (simp add: agent_inv_def)

lemma agent_round_cases:
  "agent_round rr stats a =
     (if stats = [] then (None, a, 50)
      else let a1 = snd (decide_and_update (compute_avg_wait stats) (compute_queue_pressure stats)
                  (compute_workload_type stats) (detect_phase_change stats) (detect_sjf_abuse stats) a)
           in (Some (agent_update rr a1), a1\<lparr>epoch := s32 (epoch a1 + 1)\<rparr>,
               if st_sched_alert (stats ! 0) \<noteq> 0 then 10 else 50))"
  by (simp add: agent_round_def Let_def case_prod_unfold)

lemma agent_round_inv: "agent_inv a \<Longrightarrow> agent_round rr stats a = (u, a', n) \<Longrightarrow> agent_inv a'"
  using decide_keeps_inv by (auto simp: agent_round_cases Let_def split: if_splits)

lemma agent_inv_init: "agent_inv agent_init"
  by (simp add: agent_inv_def agent_init_def)

lemma agent_reach_inv: "agent_reach a \<Longrightarrow> agent_inv a"
  by (induction rule: agent_reach.induct) (auto intro: agent_round_inv agent_inv_init)

section \<open>The properties of the agent\<close>

text \<open>
  C21: Whatever telemetry the agent sees, for as long as it runs, the update it passes to
  \<open>setschedparam\<close> is within the kernel's limits in all seven fields it sets: the kernel rejects
  it exactly when the eighth field, \<open>rr_mode\<close>, which the agent leaves uninitialised, happens to
  be neither 0 nor 1.
\<close>

theorem agent_update_accepted:
  assumes "agent_reach a" and "agent_round rr stats a = (Some u, a', n)"
  shows "u_rr_mode u = rr \<and> (upd_rejected u \<longleftrightarrow> rr \<noteq> 0 \<and> rr \<noteq> 1) \<and>
         (rr = 0 \<or> rr = 1 \<longrightarrow> params_ok (commit_update u sp))"
proof -
  let ?a1 = "snd (decide_and_update (compute_avg_wait stats) (compute_queue_pressure stats)
     (compute_workload_type stats) (detect_phase_change stats) (detect_sjf_abuse stats) a)"
  have u: "u = agent_update rr ?a1" using assms(2) by (auto simp: agent_round_cases Let_def split: if_splits)
  have "agent_inv ?a1" using assms(1) by (intro decide_keeps_inv agent_reach_inv)
  from agent_inv_accepted [OF this, of rr] show ?thesis
    unfolding u params_ok_commit_iff by (simp add: agent_update_def)
qed

definition demo_stats :: "schedstat list" where
  "demo_stats = [stat_entry 1 (demo_proc 1 2 900 30), stat_entry 0 (demo_proc 2 2 400 12)]"

theorem agent_update_accepted_witness:
  "\<exists>u a' n. agent_round 7 demo_stats agent_init = (Some u, a', n) \<and> upd_rejected u"
proof -
  obtain u a' n where eq: "agent_round 7 demo_stats agent_init = (Some u, a', n)"
    by (simp add: agent_round_cases Let_def demo_stats_def)
  with agent_update_accepted [OF agent_reach.intros(1) this] show ?thesis by auto
qed

text \<open>Each rule moves its parameters in one direction only.\<close>

definition agent_le :: "agent \<Rightarrow> agent \<Rightarrow> bool" where
  "agent_le a b \<longleftrightarrow> cur_boost b \<le> cur_boost a \<and> cur_aging b \<le> cur_aging a \<and> cur_q1 a \<le> cur_q1 b \<and> cur_q2 a \<le> cur_q2 b"

lemma agent_le_trans: "agent_le a b \<Longrightarrow> agent_le b c \<Longrightarrow> agent_le a c"
  by (auto simp: agent_le_def)

lemma clamp_down: "lo \<le> x \<Longrightarrow> x \<le> hi \<Longrightarrow> x \<le> 1000 \<Longrightarrow> -1000 \<le> lo \<Longrightarrow> 0 \<le> d \<Longrightarrow> d \<le> 1000 \<Longrightarrow> clamp (s32 (x - d)) lo hi \<le> x"
  by (simp add: clamp_def s32_eq)

lemma rules_agent_le:
  assumes "agent_pre (snd fa)"
  shows "agent_le (snd fa) (snd (rule1 x fa))" "agent_le (snd fa) (snd (rule2 x fa))" "agent_le (snd fa) (snd (rule3 x fa))"
    "agent_le (snd fa) (snd (rule4 x fa))" "agent_le (snd fa) (snd (rule5 x fa))" "agent_le (snd fa) (snd (rule6 x fa))"
  using assms
  by (auto simp: rule1_def rule2_def rule3_def rule4_def rule5_def rule6_def agent_pre_def agent_le_def count_epoch_def
      Let_def clamp_down split: prod.splits)

lemma monotone_quanta_le: "agent_le a (monotone_quanta a)"
  by (auto simp: agent_le_def monotone_quanta_def Let_def)

lemma decide_agent_le: "agent_inv a \<Longrightarrow> agent_le a (snd (decide_and_update w q t p b a))"
proof -
  assume "agent_inv a"
  define f1 where "f1 = rule1 q (0, a)"
  define f2 where "f2 = rule2 t f1"
  define f3 where "f3 = rule3 t f2"
  define f4 where "f4 = rule4 w f3"
  define f5 where "f5 = rule5 p f4"
  define f6 where "f6 = rule6 b f5"
  have 0: "agent_pre (snd (0 :: int, a))" using \<open>agent_inv a\<close> by (simp add: agent_inv_pre)
  have 1: "agent_pre (snd f1)" "agent_le a (snd f1)" using rules_agent_pre(1) [OF 0] rules_agent_le(1) [OF 0] by (simp_all add: f1_def)
  have 2: "agent_pre (snd f2)" "agent_le (snd f1) (snd f2)" using rules_agent_pre(2) [OF 1(1)] rules_agent_le(2) [OF 1(1)] by (simp_all add: f2_def)
  have 3: "agent_pre (snd f3)" "agent_le (snd f2) (snd f3)" using rules_agent_pre(3) [OF 2(1)] rules_agent_le(3) [OF 2(1)] by (simp_all add: f3_def)
  have 4: "agent_pre (snd f4)" "agent_le (snd f3) (snd f4)" using rules_agent_pre(4) [OF 3(1)] rules_agent_le(4) [OF 3(1)] by (simp_all add: f4_def)
  have 5: "agent_pre (snd f5)" "agent_le (snd f4) (snd f5)" using rules_agent_pre(5) [OF 4(1)] rules_agent_le(5) [OF 4(1)] by (simp_all add: f5_def)
  have 6: "agent_le (snd f5) (snd f6)" using rules_agent_le(6) [OF 5(1)] by (simp add: f6_def)
  have "snd (decide_and_update w q t p b a) = monotone_quanta (snd f6)"
    by (simp add: decide_and_update_def case_prod_unfold Let_def f1_def f2_def f3_def f4_def f5_def f6_def)
  then show ?thesis using 1 2 3 4 5 6 monotone_quanta_le agent_le_trans by metis
qed

text \<open>
  C23: The policy is one-way: over any round of the agent the boost interval and the aging factor
  never increase and the Q1 and Q2 quanta never decrease, so the parameters can tighten but never
  relax again.
\<close>

theorem agent_never_relaxes:
  assumes "agent_reach a" and "agent_round rr stats a = (u, a', n)"
  shows "cur_boost a' \<le> cur_boost a \<and> cur_aging a' \<le> cur_aging a \<and> cur_q1 a \<le> cur_q1 a' \<and> cur_q2 a \<le> cur_q2 a'"
  using decide_agent_le [OF agent_reach_inv [OF assms(1)]] assms(2)
  by (auto simp: agent_round_cases Let_def agent_le_def split: if_splits)

theorem agent_never_relaxes_witness:
  "cur_boost (fst (snd (agent_round 0 demo_stats agent_init))) \<le> cur_boost agent_init"
  using agent_never_relaxes [OF agent_reach.intros(1), of 0 demo_stats] by (metis prod.collapse)

section \<open>The workload signal\<close>

lemma switches_loop_eq:
  assumes "\<forall>e\<in>set es. st_preempt_count e = st_yield_count e \<and> 0 \<le> st_yield_count e \<and> st_yield_count e \<le> 100000"
    and "0 \<le> t" and "t + 100000 * int (length es) \<le> 2000000000"
  shows "\<exists>u. switches_loop es t t = (u, u) \<and> 0 \<le> u \<and> u \<le> t + 100000 * int (length es)"
  using assms
proof (induction es arbitrary: t)
  case (Cons e es)
  let ?t = "t + st_yield_count e"
  have "s32 ?t = ?t" using Cons.prems by (auto intro!: s32_eq)
  moreover have "\<exists>u. switches_loop es ?t ?t = (u, u) \<and> 0 \<le> u \<and> u \<le> ?t + 100000 * int (length es)"
    using Cons.prems by (intro Cons.IH) auto
  ultimately show ?case using Cons.prems by fastforce
qed simp

lemma workload_type_balanced:
  assumes "\<forall>e\<in>set es. st_preempt_count e = st_yield_count e \<and> 0 \<le> st_yield_count e \<and> st_yield_count e \<le> 100000"
    and "length es \<le> NPROC"
  shows "compute_workload_type es = 50"
proof -
  obtain u where u: "switches_loop es 0 0 = (u, u)" "0 \<le> u" "u \<le> 100000 * int (length es)"
    using switches_loop_eq [OF assms(1), of 0] assms(2) by (auto simp: NPROC_def)
  then have b: "u \<le> 6400000" using assms(2) by (simp add: NPROC_def)
  then have "s32 (u + u) = 2 * u" "s32 (u * 100) = u * 100" using u(2) by (simp_all add: s32_eq)
  moreover have "(u * 100) div (2 * u) = 50" if "0 < u" using that by (simp add: mult.commute)
  ultimately show ?thesis
    using u by (auto simp: compute_workload_type_def sdiv_nonneg)
qed



end
