(* ===== verification/Grep.thy ===== *)
theory Grep
  imports Prelude
begin

text \<open>
  The user program \<open>grep.c\<close>: the regular-expression matcher (\<open>match\<close>, \<open>matchhere\<close>,
  \<open>matchstar\<close>) and the line loop \<open>grep\<close>. C strings are the lists of their bytes before the
  terminating NUL. The matcher is proved equivalent to a language semantics of the patterns,
  and the line loop to a filter on the lines of the whole input for the inputs it handles.
\<close>

section \<open>Definitions\<close>

text \<open>\<open>46\<close> is the dot, \<open>42\<close> the star, \<open>36\<close> the dollar and \<open>94\<close> the caret.\<close>

function matchhere :: "u8 list \<Rightarrow> u8 list \<Rightarrow> bool" and matchstar :: "u8 \<Rightarrow> u8 list \<Rightarrow> u8 list \<Rightarrow> bool" where
  "matchhere re ts =
     (case re of
        [] \<Rightarrow> True
      | c # re1 \<Rightarrow>
          if re1 \<noteq> [] \<and> hd re1 = 42 then matchstar c (tl re1) ts
          else if c = 36 \<and> re1 = [] then ts = []
          else if ts \<noteq> [] \<and> (c = 46 \<or> c = hd ts) then matchhere re1 (tl ts)
          else False)"
| "matchstar c re ts =
     (if matchhere re ts then True
      else case ts of
             [] \<Rightarrow> False
           | x # ts1 \<Rightarrow> if x = c \<or> c = 46 then matchstar c re ts1 else False)"
  by pat_completeness auto

termination
  by (relation "measures [\<lambda>x. case x of Inl (re, _) \<Rightarrow> length re | Inr (_, re, _) \<Rightarrow> Suc (length re),
                          \<lambda>x. case x of Inl (_, ts) \<Rightarrow> length ts | Inr (_, _, ts) \<Rightarrow> length ts]")
    auto

declare matchhere.simps [simp del] matchstar.simps [simp del]

text \<open>The loop of \<open>match\<close>, which looks at every suffix of the text, the empty one included.\<close>

fun match_loop :: "u8 list \<Rightarrow> u8 list \<Rightarrow> bool" where
  "match_loop re [] = matchhere re []"
| "match_loop re (x # ts) = (if matchhere re (x # ts) then True else match_loop re ts)"

definition match :: "u8 list \<Rightarrow> u8 list \<Rightarrow> bool" where
  "match re ts = (if re \<noteq> [] \<and> hd re = 94 then matchhere (tl re) ts else match_loop re ts)"

text \<open>
  \<open>strchr\<close> of \<open>ulib.c\<close> on the buffer: the index of the first \<open>c\<close> in front of the first NUL.
\<close>

fun strchr :: "u8 list \<Rightarrow> u8 \<Rightarrow> nat option" where
  "strchr [] c = None"
| "strchr (x # xs) c = (if x = 0 then None else if x = c then Some 0 else map_option Suc (strchr xs c))"

lemma strchr_less: "strchr xs c = Some k \<Longrightarrow> k < length xs"
  by (induction xs arbitrary: k) (auto split: if_splits)

text \<open>The inner loop of \<open>grep\<close>: what is written, and the bytes behind the last newline.\<close>

function grep_lines :: "u8 list \<Rightarrow> u8 list \<Rightarrow> u8 list \<times> u8 list" where
  "grep_lines pattern p =
     (case strchr p 10 of
        None \<Rightarrow> ([], p)
      | Some k \<Rightarrow>
          let (out, rest) = grep_lines pattern (drop (Suc k) p)
          in (if match pattern (take k p) then take (Suc k) p @ out else out, rest))"
  by pat_completeness auto

termination
  by (relation "measure (\<lambda>(_, p). length p)") (auto dest: strchr_less)

declare grep_lines.simps [simp del]

text \<open>
  The outer loop on the chunks that the successive calls of \<open>read\<close> return. \<open>buf\<close> holds the
  \<open>m\<close> bytes kept from the last round; they are dropped when the buffer had no newline.
\<close>

fun grep_loop :: "u8 list \<Rightarrow> u8 list \<Rightarrow> u8 list list \<Rightarrow> u8 list" where
  "grep_loop pattern buf [] = []"
| "grep_loop pattern buf (chunk # chunks) =
     (let b = buf @ chunk;
          (out, rest) = grep_lines pattern b;
          kept = (if length rest = length b then [] else rest)
      in out @ grep_loop pattern kept chunks)"

definition grep :: "u8 list \<Rightarrow> u8 list list \<Rightarrow> u8 list" where
  "grep pattern chunks = grep_loop pattern [] chunks"

section \<open>The language of a pattern\<close>

datatype item = One u8 | Many u8

fun items :: "u8 list \<Rightarrow> item list \<times> bool" where
  "items [] = ([], False)"
| "items [c] = (if c = 36 then ([], True) else ([One c], False))"
| "items (c # d # re) =
     (if d = 42 then apfst ((#) (Many c)) (items re) else apfst ((#) (One c)) (items (d # re)))"

definition atom :: "u8 \<Rightarrow> u8 set" where
  "atom c = (if c = 46 then UNIV else {c})"

fun lang :: "item list \<Rightarrow> u8 list set" where
  "lang [] = {[]}"
| "lang (One c # its) = {x # w |x w. x \<in> atom c \<and> w \<in> lang its}"
| "lang (Many c # its) = {u @ w |u w. set u \<subseteq> atom c \<and> w \<in> lang its}"

text \<open>A pattern matches at the front of a text; with a final dollar it must match all of it.\<close>

definition front :: "item list \<times> bool \<Rightarrow> u8 list \<Rightarrow> bool" where
  "front ie ts \<longleftrightarrow> (if snd ie then ts \<in> lang (fst ie) else \<exists>w\<in>lang (fst ie). \<exists>v. ts = w @ v)"

lemma front_Nil: "front ([], e) ts \<longleftrightarrow> (e \<longrightarrow> ts = [])"
  by (auto simp: front_def)

lemma front_One: "front (One c # its, e) ts \<longleftrightarrow> (\<exists>x t. ts = x # t \<and> x \<in> atom c \<and> front (its, e) t)"
proof (cases e)
  case False
  have "(\<exists>w\<in>lang (One c # its). \<exists>v. ts = w @ v) \<longleftrightarrow> (\<exists>x w v. x \<in> atom c \<and> w \<in> lang its \<and> ts = x # w @ v)"
    by fastforce
  with False show ?thesis by (auto simp: front_def)
qed (auto simp: front_def)

lemma front_Many: "front (Many c # its, e) ts \<longleftrightarrow> (\<exists>u t. ts = u @ t \<and> set u \<subseteq> atom c \<and> front (its, e) t)"
proof (cases e)
  case False
  have "(\<exists>w\<in>lang (Many c # its). \<exists>v. ts = w @ v) \<longleftrightarrow> (\<exists>u w v. set u \<subseteq> atom c \<and> w \<in> lang its \<and> ts = u @ w @ v)"
    by fastforce
  with False show ?thesis by (auto simp: front_def)
qed (auto simp: front_def)

lemma front_Many_step:
  "front (Many c # its, e) ts \<longleftrightarrow>
     front (its, e) ts \<or> (\<exists>x t. ts = x # t \<and> x \<in> atom c \<and> front (Many c # its, e) t)"
  (is "?l \<longleftrightarrow> ?r")
proof
  assume ?l
  then obtain u t where u: "ts = u @ t" "set u \<subseteq> atom c" "front (its, e) t" by (auto simp: front_Many)
  then show ?r by (cases u) (auto simp: front_Many)
next
  assume ?r
  then show ?l
  proof
    assume "front (its, e) ts"
    then show ?l by (auto simp: front_Many intro: exI [of _ "[]"])
  next
    assume "\<exists>x t. ts = x # t \<and> x \<in> atom c \<and> front (Many c # its, e) t"
    then obtain x u t where "ts = x # u @ t" "x \<in> atom c" "set u \<subseteq> atom c" "front (its, e) t"
      by (auto simp: front_Many)
    then have "ts = (x # u) @ t \<and> set (x # u) \<subseteq> atom c \<and> front (its, e) t" by simp
    then show ?l unfolding front_Many by blast
  qed
qed

lemma atom_iff: "x \<in> atom c \<longleftrightarrow> x = c \<or> c = 46"
  by (auto simp: atom_def)

lemma matcher_front:
  "matchhere re ts = front (items re) ts"
  "matchstar c re ts = front (apfst ((#) (Many c)) (items re)) ts"
proof (induction re ts and c re ts rule: matchhere_matchstar.induct)
  case (1 re ts)
  show ?case
  proof (cases re rule: items.cases)
    case 1
    then show ?thesis by (simp add: matchhere.simps front_Nil)
  next
    case (2 c)
    then show ?thesis using "1.IH" [of c "[]"]
      by (cases ts) (auto simp: matchhere.simps front_Nil front_One atom_iff)
  next
    case (3 c d re1)
    show ?thesis
    proof (cases "d = 42")
      case True
      with 3 show ?thesis using "1.IH"(1) [of c "d # re1"] by (simp add: matchhere.simps)
    next
      case False
      with 3 show ?thesis using "1.IH"(2) [of c "d # re1"]
        by (cases ts; cases "items (d # re1)") (auto simp: matchhere.simps [of "c # d # re1"] front_One atom_iff)
    qed
  qed
next
  case (2 c re ts)
  obtain its e where ie: "items re = (its, e)" by (cases "items re")
  show ?case
  proof (cases "matchhere re ts")
    case True
    with 2 show ?thesis by (simp add: matchstar.simps [of c re ts] ie front_Many_step [of c its e ts])
  next
    case False
    show ?thesis
    proof (cases ts)
      case Nil
      with False 2(1) show ?thesis
        by (simp add: matchstar.simps [of c re "[]"] ie front_Many_step [of c its e "[]"])
    next
      case (Cons x t)
      have "matchstar c re (x # t) = ((x = c \<or> c = 46) \<and> matchstar c re t)"
        using False Cons by (simp add: matchstar.simps [of c re "x # t"])
      also have "\<dots> = ((x = c \<or> c = 46) \<and> front (Many c # its, e) t)"
        using 2(2) [OF False Cons] by (auto simp: ie)
      also have "\<dots> = front (Many c # its, e) (x # t)"
        using False 2(1) Cons by (simp add: ie front_Many_step [of c its e "x # t"] atom_iff)
      finally show ?thesis by (simp add: ie Cons)
    qed
  qed
qed

lemma match_loop_suffix: "match_loop re ts \<longleftrightarrow> (\<exists>pre suf. ts = pre @ suf \<and> matchhere re suf)"
proof (induction ts)
  case (Cons x ts)
  have "(\<exists>pre suf. x # ts = pre @ suf \<and> matchhere re suf) \<longleftrightarrow>
      matchhere re (x # ts) \<or> (\<exists>pre suf. ts = pre @ suf \<and> matchhere re suf)"
    by (auto simp: Cons_eq_append_conv)
  with Cons.IH show ?case by simp
qed simp

section \<open>The lines of the input\<close>

text \<open>The complete lines of a text, and the line loop as a filter on them.\<close>

function text_lines :: "u8 list \<Rightarrow> u8 list list" where
  "text_lines bs = (if 10 \<in> set bs then takeWhile (\<lambda>x. x \<noteq> 10) bs # text_lines (tl (dropWhile (\<lambda>x. x \<noteq> 10) bs)) else [])"
  by pat_completeness auto

termination
proof (relation "measure length")
  fix bs :: "u8 list" assume "10 \<in> set bs"
  then have "dropWhile (\<lambda>x. x \<noteq> 10) bs \<noteq> []" by (auto simp: dropWhile_eq_Nil_conv)
  then have "length (tl (dropWhile (\<lambda>x. x \<noteq> 10) bs)) < length (dropWhile (\<lambda>x. x \<noteq> 10) bs)" by simp
  also have "\<dots> \<le> length bs" by (rule length_dropWhile_le)
  finally show "(tl (dropWhile (\<lambda>x. x \<noteq> 10) bs), bs) \<in> measure length" by simp
qed simp

declare text_lines.simps [simp del]

definition grep_ref :: "u8 list \<Rightarrow> u8 list \<Rightarrow> u8 list" where
  "grep_ref pattern bs = concat (map (\<lambda>l. l @ [10]) (filter (match pattern) (text_lines bs)))"

text \<open>The bytes behind the last newline.\<close>

definition last_line :: "u8 list \<Rightarrow> u8 list" where
  "last_line bs = rev (takeWhile (\<lambda>x. x \<noteq> 10) (rev bs))"

lemma strchr_newline:
  assumes "0 \<notin> set bs"
  shows "strchr bs 10 = (if 10 \<in> set bs then Some (length (takeWhile (\<lambda>x. x \<noteq> 10) bs)) else None)"
  using assms by (induction bs) auto

lemma text_lines_nl: "10 \<notin> set l \<Longrightarrow> text_lines (l @ 10 # bs) = l # text_lines bs"
  by (subst text_lines.simps) (auto simp: takeWhile_tail dropWhile_append)

lemma text_lines_none: "10 \<notin> set bs \<Longrightarrow> text_lines bs = []"
  by (subst text_lines.simps) simp

lemma split_newline: "10 \<in> set bs \<Longrightarrow> \<exists>l rest. bs = l @ 10 # rest \<and> 10 \<notin> set l"
  by (metis split_list_first)

lemma last_line_nl: "last_line (l @ 10 # bs) = last_line bs"
  by (simp add: last_line_def takeWhile_tail)

lemma grep_lines_nl:
  assumes "0 \<notin> set l" and "10 \<notin> set l"
  shows "grep_lines pattern (l @ 10 # bs) =
     (let (out, rest) = grep_lines pattern bs in (if match pattern l then l @ 10 # out else out, rest))"
proof -
  have "strchr (l @ 10 # bs) 10 = Some (length l)" using assms by (induction l) auto
  then show ?thesis by (subst grep_lines.simps) (simp add: case_prod_unfold Let_def)
qed

lemma grep_lines_eq: "0 \<notin> set bs \<Longrightarrow> grep_lines pattern bs = (grep_ref pattern bs, last_line bs)"
proof (induction bs rule: length_induct)
  case (1 bs)
  show ?case
  proof (cases "10 \<in> set bs")
    case True
    then obtain l rest where l: "bs = l @ 10 # rest" "10 \<notin> set l" using split_newline by metis
    then have "grep_lines pattern rest = (grep_ref pattern rest, last_line rest)" using 1 by auto
    moreover have "0 \<notin> set l" using 1 l by auto
    ultimately show ?thesis using l
      by (simp add: grep_lines_nl grep_ref_def text_lines_nl last_line_nl)
  next
    case False
    then have "last_line bs = rev (rev bs)" unfolding last_line_def by (subst takeWhile_eq_all_conv [THEN iffD2]) auto
    then have "last_line bs = bs" by simp
    with False 1 show ?thesis
      by (simp add: grep_lines.simps [of pattern bs] strchr_newline grep_ref_def text_lines_none)
  qed
qed

lemma last_line_no_nl: "10 \<notin> set (last_line bs)"
  unfolding last_line_def by (metis set_rev set_takeWhileD)

lemma set_last_line: "set (last_line bs) \<subseteq> set bs"
  unfolding last_line_def by (metis set_rev set_takeWhileD subsetI)

lemma length_last_line: "10 \<in> set bs \<Longrightarrow> length (last_line bs) < length bs"
proof -
  assume "10 \<in> set bs"
  then obtain l rest where "bs = l @ 10 # rest" using split_newline by metis
  then show ?thesis using length_takeWhile_le [of "\<lambda>x. x \<noteq> 10" "rev rest"]
    by (simp add: last_line_nl) (simp add: last_line_def)
qed

text \<open>Only the unfinished last line of a text matters for what follows it.\<close>

lemma grep_ref_append: "grep_ref pattern (bs @ cs) = grep_ref pattern bs @ grep_ref pattern (last_line bs @ cs)"
proof (induction bs rule: length_induct)
  case (1 bs)
  show ?case
  proof (cases "10 \<in> set bs")
    case True
    then obtain l rest where l: "bs = l @ 10 # rest" "10 \<notin> set l" using split_newline by metis
    then have "grep_ref pattern (rest @ cs) = grep_ref pattern rest @ grep_ref pattern (last_line rest @ cs)"
      using 1 by auto
    with l show ?thesis by (simp add: grep_ref_def text_lines_nl last_line_nl)
  next
    case False
    then have "last_line bs = rev (rev bs)" unfolding last_line_def by (subst takeWhile_eq_all_conv [THEN iffD2]) auto
    with False show ?thesis by (simp add: grep_ref_def text_lines_none)
  qed
qed

lemma grep_loop_eq:
  assumes "\<forall>c\<in>set chunks. 10 \<in> set c \<and> 0 \<notin> set c" and "0 \<notin> set buf" and "10 \<notin> set buf"
  shows "grep_loop pattern buf chunks = grep_ref pattern (buf @ concat chunks)"
  using assms
proof (induction chunks arbitrary: buf)
  case Nil
  then show ?case by (simp add: grep_ref_def text_lines_none)
next
  case (Cons c chunks)
  let ?b = "buf @ c"
  have b: "0 \<notin> set ?b" "10 \<in> set ?b" using Cons.prems by auto
  have "length (last_line ?b) \<noteq> length ?b" using length_last_line [OF b(2)] by simp
  moreover have "grep_loop pattern (last_line ?b) chunks = grep_ref pattern (last_line ?b @ concat chunks)"
    using Cons.prems b(1) set_last_line [of ?b] by (intro Cons.IH) (auto simp: last_line_no_nl)
  ultimately show ?case
    using grep_ref_append [of pattern ?b "concat chunks"] by (simp add: grep_lines_eq [OF b(1)] Let_def)
qed

section \<open>The properties of grep\<close>

text \<open>
  C39: The recursive matcher decides the language of the pattern: with \<open>^\<close> in front a match
  starts at the beginning of the line and otherwise anywhere, a final \<open>$\<close> makes it end at the
  end of the line, and in between \<open>c\<close>, \<open>.\<close> and \<open>c*\<close> denote one byte, any byte and any
  number of them.
\<close>

theorem match_correct:
  "match re ts \<longleftrightarrow>
     (if re \<noteq> [] \<and> hd re = 94 then front (items (tl re)) ts
      else \<exists>pre suf. ts = pre @ suf \<and> front (items re) suf)"
  by (simp add: match_def match_loop_suffix matcher_front)

text \<open>
  C40: When every read returns at least one newline and no NUL, the output of \<open>grep\<close> does not
  depend on how the input is cut into reads: it is the sequence of the complete lines of the
  whole input that match, each with its newline.
\<close>

theorem grep_chunks:
  assumes "\<forall>c\<in>set chunks. 10 \<in> set c \<and> 0 \<notin> set c"
  shows "grep pattern chunks =
     concat (map (\<lambda>l. l @ [10]) (filter (match pattern) (text_lines (concat chunks))))"
  using grep_loop_eq [OF assms, of "[]"] by (simp add: grep_def grep_ref_def)

text \<open>
  The condition is needed: the line \<open>ab\<close> arriving in two reads loses its first byte, because
  a buffer without a newline is dropped.
\<close>

lemma grep_drops_split_line: "grep [97] [[97], [98, 10]] = [] \<and> grep [97] [[97, 98, 10]] = [97, 98, 10]"
  by (simp add: grep_def grep_lines.simps match_def matchhere.simps)

theorem grep_chunks_witness:
  "grep [97] [[98, 10, 97], [99, 10]] = [97, 99, 10]"
  using grep_chunks [of "[[98, 10, 97], [99, 10]]" "[97]"]
  by (simp add: text_lines.simps match_def matchhere.simps)

end
