(* ===== verification/Sh.thy ===== *)
theory Sh
  imports Grep
begin

text \<open>
  The shell \<open>sh.c\<close>: reading a line (\<open>getcmd\<close>, \<open>gets\<close>), the tokens and the recursive-descent parser
  (\<open>gettoken\<close> to \<open>parseexec\<close>), and \<open>nulterminate\<close>. A position in the line is an index, the line is
  the list of its bytes in front of the terminating NUL, and a word is the pair of its first index
  and the index behind it, as the code keeps it in \<open>argv\<close> and \<open>eargv\<close>. The parser always returns,
  the words it returns are words, and it inverts a printer of commands.
\<close>

section \<open>Definitions\<close>

definition MAXARGS :: nat where "MAXARGS = 10"

datatype cmd =
    Execcmd "(nat \<times> nat) list"
  | Redircmd cmd "nat \<times> nat" int int
  | Pipecmd cmd cmd
  | Listcmd cmd cmd
  | Backcmd cmd

text \<open>
  Blank, tab, carriage return, newline and vertical tab; less, bar, greater, ampersand, semicolon and
  the parentheses.
\<close>

definition whitespace :: "u8 list" where
  "whitespace = [32, 9, 13, 10, 11]"

definition symbols :: "u8 list" where
  "symbols = [60, 124, 62, 38, 59, 40, 41]"

text \<open>\<open>*s\<close>: the bytes behind the end of the line are NUL, \<open>getcmd\<close> has cleared the buffer.\<close>

definition char_at :: "u8 list \<Rightarrow> nat \<Rightarrow> u8" where
  "char_at buf s = (if s < length buf then buf ! s else 0)"

text \<open>The loops over white space and over a word.\<close>

function skip_ws :: "u8 list \<Rightarrow> nat \<Rightarrow> nat" where
  "skip_ws buf s = (if s < length buf \<and> strchr whitespace (char_at buf s) \<noteq> None then skip_ws buf (s + 1) else s)"
  by pat_completeness auto

termination
  by (relation "measure (\<lambda>(buf, s). length buf - s)") auto

function skip_word :: "u8 list \<Rightarrow> nat \<Rightarrow> nat" where
  "skip_word buf s =
     (if s < length buf \<and> strchr whitespace (char_at buf s) = None \<and> strchr symbols (char_at buf s) = None
      then skip_word buf (s + 1) else s)"
  by pat_completeness auto

termination
  by (relation "measure (\<lambda>(buf, s). length buf - s)") auto

declare skip_ws.simps [simp del] skip_word.simps [simp del]

text \<open>The \<open>switch\<close> of \<open>gettoken\<close>: the token and the index behind it.\<close>

definition token :: "u8 list \<Rightarrow> nat \<Rightarrow> u8 \<times> nat" where
  "token buf s =
     (let c = char_at buf s in
      if c = 0 then (c, s)
      else if c \<in> {124, 40, 41, 59, 38, 60} then (c, s + 1)
      else if c = 62 then (if char_at buf (s + 1) = 62 then (43, s + 2) else (c, s + 1))
      else (97, skip_word buf s))"

text \<open>The results are the token, its first index, the index behind it, and the new position.\<close>

definition gettoken :: "u8 list \<Rightarrow> nat \<Rightarrow> u8 \<times> nat \<times> nat \<times> nat" where
  "gettoken buf s =
     (let q = skip_ws buf s; (ret, eq) = token buf q in (ret, q, eq, skip_ws buf eq))"

definition peek :: "u8 list \<Rightarrow> nat \<Rightarrow> u8 list \<Rightarrow> bool \<times> nat" where
  "peek buf s toks =
     (let s = skip_ws buf s in (char_at buf s \<noteq> 0 \<and> strchr toks (char_at buf s) \<noteq> None, s))"

lemma char_at_0: "char_at buf s \<noteq> 0 \<Longrightarrow> s < length buf"
  by (auto simp: char_at_def split: if_splits)

lemma strchr_mem: "0 \<notin> set xs \<Longrightarrow> strchr xs c \<noteq> None \<longleftrightarrow> c \<in> set xs"
  by (induction xs) auto

lemma strchr_in: "strchr xs c = Some k \<Longrightarrow> c \<in> set xs"
  by (induction xs arbitrary: k) (auto split: if_splits)

definition is_ws :: "u8 \<Rightarrow> bool" where
  "is_ws c \<longleftrightarrow> c \<in> set whitespace"

definition is_word :: "u8 \<Rightarrow> bool" where
  "is_word c \<longleftrightarrow> c \<noteq> 0 \<and> c \<notin> set whitespace \<and> c \<notin> set symbols"

lemma strchr_ws [simp]: "strchr whitespace c = None \<longleftrightarrow> \<not> is_ws c"
  using strchr_mem [of whitespace c] by (simp add: is_ws_def whitespace_def)

lemma strchr_symbols [simp]: "strchr symbols c = None \<longleftrightarrow> c \<notin> set symbols"
  using strchr_mem [of symbols c] by (simp add: symbols_def)

text \<open>The loops as functions of the rest of the line.\<close>

lemma skip_ws_drop: "skip_ws buf s = s + length (takeWhile is_ws (drop s buf))"
proof (induction buf s rule: skip_ws.induct)
  case (1 buf s)
  then show ?case
    by (subst skip_ws.simps) (auto simp: char_at_def Cons_nth_drop_Suc [symmetric] simp flip: not_None_eq)
qed

lemma skip_word_drop: "0 \<notin> set buf \<Longrightarrow> skip_word buf s = s + length (takeWhile is_word (drop s buf))"
proof (induction buf s rule: skip_word.induct)
  case (1 buf s)
  have "\<not> is_ws (buf ! s) \<and> buf ! s \<notin> set symbols \<longleftrightarrow> is_word (buf ! s)" if "s < length buf"
    using 1(2) nth_mem [OF that] by (auto simp: is_word_def is_ws_def)
  with 1 show ?case
    by (subst skip_word.simps) (auto simp: char_at_def Cons_nth_drop_Suc [symmetric])
qed

lemma skip_ws_bounds: "s \<le> skip_ws buf s" "s \<le> length buf \<Longrightarrow> skip_ws buf s \<le> length buf"
  using length_takeWhile_le [of is_ws "drop s buf"] by (auto simp: skip_ws_drop)

lemma drop_skip_ws: "drop (skip_ws buf s) buf = dropWhile is_ws (drop s buf)"
  by (simp add: skip_ws_drop dropWhile_eq_drop add.commute)

lemma skip_ws_end: "skip_ws buf s < length buf \<Longrightarrow> \<not> is_ws (buf ! skip_ws buf s)"
proof -
  let ?p = "skip_ws buf s"
  assume p: "?p < length buf"
  then have "dropWhile is_ws (drop s buf) = buf ! ?p # drop (Suc ?p) buf" by (simp add: drop_skip_ws [symmetric] Cons_nth_drop_Suc)
  then show ?thesis by (metis hd_dropWhile list.distinct(1) list.sel(1))
qed

lemma skip_ws_idem [simp]: "skip_ws buf (skip_ws buf s) = skip_ws buf s"
  using skip_ws_end [of buf s] by (subst skip_ws.simps) (auto simp: char_at_def)

lemma skip_word_bounds: "s \<le> skip_word buf s" "s \<le> length buf \<Longrightarrow> skip_word buf s \<le> length buf"
  by (induction buf s rule: skip_word.induct; subst skip_word.simps, auto)+

lemma char_at_drop: "char_at buf s = (case drop s buf of [] \<Rightarrow> 0 | c # _ \<Rightarrow> c)"
  by (auto simp: char_at_def Cons_nth_drop_Suc [symmetric])

text \<open>A token that is there is not empty.\<close>

lemma skip_word_step: "s < length buf \<Longrightarrow> \<not> is_ws (char_at buf s) \<Longrightarrow> char_at buf s \<notin> set symbols \<Longrightarrow> s < skip_word buf s"
  using skip_word_bounds(1) [of "s + 1" buf] by (subst skip_word.simps) simp

lemma token_bounds:
  assumes "token buf s = (ret, e)" "s < length buf \<Longrightarrow> \<not> is_ws (char_at buf s)"
  shows "s \<le> e" "s \<le> length buf \<Longrightarrow> e \<le> length buf" "char_at buf s \<noteq> 0 \<Longrightarrow> s < e" "ret \<noteq> 0 \<longleftrightarrow> char_at buf s \<noteq> 0"
proof -
  have w: "s < skip_word buf s" if "char_at buf s \<noteq> 0" "char_at buf s \<notin> {124, 40, 41, 59, 38, 60}" "char_at buf s \<noteq> 62"
    using that assms(2) char_at_0 [of buf s] by (intro skip_word_step) (auto simp: symbols_def)
  show "s \<le> e" "char_at buf s \<noteq> 0 \<Longrightarrow> s < e" "ret \<noteq> 0 \<longleftrightarrow> char_at buf s \<noteq> 0"
    using assms(1) w by (auto simp: token_def Let_def split: if_splits)
  show "s \<le> length buf \<Longrightarrow> e \<le> length buf"
    using assms(1) char_at_0 [of buf s] char_at_0 [of buf "s + 1"] skip_word_bounds(2) [of s buf]
    by (auto simp: token_def Let_def split: if_splits)
qed

lemma gettoken_bounds:
  assumes "gettoken buf s = (ret, q, eq, s')"
  shows "s \<le> q" "q \<le> eq" "eq \<le> s'" "s \<le> length buf \<Longrightarrow> s' \<le> length buf" "char_at buf (skip_ws buf s) \<noteq> 0 \<Longrightarrow> q < eq"
    "ret \<noteq> 0 \<longleftrightarrow> char_at buf (skip_ws buf s) \<noteq> 0"
proof -
  have e: "q = skip_ws buf s" "token buf q = (ret, eq)" "s' = skip_ws buf eq"
    using assms by (auto simp: gettoken_def Let_def split: prod.splits)
  have "\<not> is_ws (char_at buf q)" if "q < length buf"
    using that skip_ws_end [of buf s] by (simp add: char_at_def e(1))
  note b = token_bounds [OF e(2) this]
  show "s \<le> q" "q \<le> eq" "eq \<le> s'" "s \<le> length buf \<Longrightarrow> s' \<le> length buf" "char_at buf (skip_ws buf s) \<noteq> 0 \<Longrightarrow> q < eq"
    "ret \<noteq> 0 \<longleftrightarrow> char_at buf (skip_ws buf s) \<noteq> 0"
    using b skip_ws_bounds unfolding e(1,3) by auto
qed

section \<open>The parser\<close>

text \<open>
  \<open>O_RDONLY\<close> is 0 and \<open>O_WRONLY|O_CREATE\<close> is \<open>0x201\<close>. The loop of \<open>parseredirs\<close> reads two tokens
  a round, the first of which \<open>peek\<close> has seen.
\<close>

lemma peek_True: "peek buf s toks = (True, s') \<Longrightarrow> s' = skip_ws buf s \<and> s' < length buf \<and> char_at buf s' \<in> set toks \<and> char_at buf s' \<noteq> 0"
  using char_at_0 [of buf s'] by (auto simp: peek_def Let_def dest: strchr_in)

lemma peek_get: "gettoken buf s1 = (tok, q, eq, s2) \<Longrightarrow> peek buf s toks = (True, s1) \<Longrightarrow> s < s2 \<and> s < length buf"
  using peek_True [of buf s toks s1] gettoken_bounds [of buf s1 tok q eq s2] skip_ws_bounds(1) [of s buf] by auto

lemma peek_less:
  "(True, y) = peek buf s toks \<Longrightarrow> (r, a, e, z) = gettoken buf y \<Longrightarrow> length buf - z < length buf - s"
  "(True, y) = peek buf s toks \<Longrightarrow> (r, a, e, z) = gettoken buf y \<Longrightarrow> (r', a', e', z') = gettoken buf z \<Longrightarrow> length buf - z' < length buf - s"
proof -
  assume "(True, y) = peek buf s toks" "(r, a, e, z) = gettoken buf y"
  then have z: "s < z" "s < length buf" using peek_get by metis+
  then show "length buf - z < length buf - s" by linarith
  assume "(r', a', e', z') = gettoken buf z"
  then have "z \<le> z'" using gettoken_bounds(1-3) [of buf z r' a' e' z'] by simp
  then show "length buf - z' < length buf - s" using z by linarith
qed

function parseredirs :: "cmd \<Rightarrow> u8 list \<Rightarrow> nat \<Rightarrow> (cmd \<times> nat) res" where
  "parseredirs cmd buf s =
     (case peek buf s [60, 62] of
        (False, s) \<Rightarrow> Inr (cmd, s)
      | (True, s) \<Rightarrow>
          (case gettoken buf s of (tok, _, _, s) \<Rightarrow>
           case gettoken buf s of (ret, q, eq, s) \<Rightarrow>
             if ret \<noteq> 97 then Inl (Panic ''missing file for redirection'')
             else parseredirs (if tok = 60 then Redircmd cmd (q, eq) 0 0
                               else Redircmd cmd (q, eq) 513 1) buf s))"
  by pat_completeness auto

termination
  by (relation "measure (\<lambda>(_, buf, s). length buf - s)") (auto intro: peek_less)

declare parseredirs.simps [simp del]

text \<open>
  An argument stored through \<open>cmd\<close> while \<open>ret\<close> may wrap it in redirections.
\<close>

fun add_arg :: "nat \<times> nat \<Rightarrow> cmd \<Rightarrow> cmd" where
  "add_arg w (Execcmd ws) = Execcmd (ws @ [w])"
| "add_arg w (Redircmd c f mode fd) = Redircmd (add_arg w c) f mode fd"
| "add_arg w c = c"

text \<open>The loop of \<open>parseexec\<close>.\<close>

function args_loop :: "nat \<Rightarrow> cmd \<Rightarrow> u8 list \<Rightarrow> nat \<Rightarrow> (cmd \<times> nat) res" where
  "args_loop argc ret buf s =
     (case peek buf s [124, 41, 38, 59] of
        (True, s) \<Rightarrow> Inr (ret, s)
      | (False, s) \<Rightarrow>
          (case gettoken buf s of (tok, q, eq, s) \<Rightarrow>
             if tok = 0 then Inr (ret, s)
             else if tok \<noteq> 97 then Inl (Panic ''syntax'')
             else let ret = add_arg (q, eq) ret; argc = argc + 1 in
               if argc \<ge> MAXARGS then Inl (Panic ''too many args'')
               else rbind (parseredirs ret buf s) (\<lambda>(ret, s). args_loop argc ret buf s)))"
  by pat_completeness auto

termination
  by (relation "measure (\<lambda>(argc, _, _, _). MAXARGS - argc)") auto

declare args_loop.simps [simp del]

text \<open>The loop of \<open>parseline\<close> over ampersands.\<close>

function back_loop :: "cmd \<Rightarrow> u8 list \<Rightarrow> nat \<Rightarrow> cmd \<times> nat" where
  "back_loop cmd buf s =
     (case peek buf s [38] of
        (False, s) \<Rightarrow> (cmd, s)
      | (True, s) \<Rightarrow> (case gettoken buf s of (_, _, _, s) \<Rightarrow> back_loop (Backcmd cmd) buf s))"
  by pat_completeness auto

termination
  by (relation "measure (\<lambda>(_, buf, s). length buf - s)") (auto intro: peek_less)

declare back_loop.simps [simp del]

text \<open>
  The recursive procedures. The first argument bounds the depth of the recursion; that the bound
  \<open>parsecmd\<close> passes is never reached is proved below.
\<close>

fun parseline :: "nat \<Rightarrow> u8 list \<Rightarrow> nat \<Rightarrow> (cmd \<times> nat) res"
  and parsepipe :: "nat \<Rightarrow> u8 list \<Rightarrow> nat \<Rightarrow> (cmd \<times> nat) res"
  and parseexec :: "nat \<Rightarrow> u8 list \<Rightarrow> nat \<Rightarrow> (cmd \<times> nat) res"
  and parseblock :: "nat \<Rightarrow> u8 list \<Rightarrow> nat \<Rightarrow> (cmd \<times> nat) res" where
  "parseline 0 buf s = Inl Diverges"
| "parseline (Suc d) buf s =
     rbind (parsepipe d buf s) (\<lambda>(cmd, s).
     case back_loop cmd buf s of (cmd, s) \<Rightarrow>
     case peek buf s [59] of
       (True, s) \<Rightarrow> (case gettoken buf s of (_, _, _, s) \<Rightarrow>
          rbind (parseline d buf s) (\<lambda>(right, s). Inr (Listcmd cmd right, s)))
     | (False, s) \<Rightarrow> Inr (cmd, s))"
| "parsepipe 0 buf s = Inl Diverges"
| "parsepipe (Suc d) buf s =
     rbind (parseexec d buf s) (\<lambda>(cmd, s).
     case peek buf s [124] of
       (True, s) \<Rightarrow> (case gettoken buf s of (_, _, _, s) \<Rightarrow>
          rbind (parsepipe d buf s) (\<lambda>(right, s). Inr (Pipecmd cmd right, s)))
     | (False, s) \<Rightarrow> Inr (cmd, s))"
| "parseexec 0 buf s = Inl Diverges"
| "parseexec (Suc d) buf s =
     (case peek buf s [40] of
        (True, s) \<Rightarrow> parseblock d buf s
      | (False, s) \<Rightarrow> rbind (parseredirs (Execcmd []) buf s) (\<lambda>(ret, s). args_loop 0 ret buf s))"
| "parseblock 0 buf s = Inl Diverges"
| "parseblock (Suc d) buf s =
     (case peek buf s [40] of
        (False, s) \<Rightarrow> Inl (Panic ''parseblock'')
      | (True, s) \<Rightarrow> (case gettoken buf s of (_, _, _, s) \<Rightarrow>
          rbind (parseline d buf s) (\<lambda>(cmd, s).
          case peek buf s [41] of
            (False, s) \<Rightarrow> Inl (Panic ''syntax - missing )'')
          | (True, s) \<Rightarrow> (case gettoken buf s of (_, _, _, s) \<Rightarrow> parseredirs cmd buf s))))"

fun nulterminate :: "cmd \<Rightarrow> u8 list \<Rightarrow> u8 list" where
  "nulterminate (Execcmd ws) buf = fold (\<lambda>(_, eq) b. b[eq := 0]) ws buf"
| "nulterminate (Redircmd c (_, eq) _ _) buf = (nulterminate c buf)[eq := 0]"
| "nulterminate (Pipecmd l r) buf = nulterminate r (nulterminate l buf)"
| "nulterminate (Listcmd l r) buf = nulterminate r (nulterminate l buf)"
| "nulterminate (Backcmd c) buf = nulterminate c buf"

definition parsecmd :: "u8 list \<Rightarrow> (cmd \<times> u8 list) res" where
  "parsecmd buf =
     rbind (parseline (4 * length buf + 4) buf 0) (\<lambda>(cmd, s).
     case peek buf s [] of (_, s) \<Rightarrow>
     if s \<noteq> length buf then Inl (Panic ''syntax'')
     else Inr (cmd, nulterminate cmd buf))"

section \<open>Reading a line\<close>

text \<open>
  The input is the bytes that the successive calls of \<open>read\<close> return, one each, up to the end of file.
  \<open>gets\<close> gives the bytes stored in the buffer, without the NUL behind them, and the rest of the input.
\<close>

fun gets_loop :: "nat \<Rightarrow> nat \<Rightarrow> u8 list \<Rightarrow> u8 list \<times> u8 list" where
  "gets_loop i n [] = ([], [])"
| "gets_loop i n (c # input) =
     (if i + 1 < n then
        if c = 10 \<or> c = 13 then ([c], input)
        else let (bs, rest) = gets_loop (i + 1) n input in (c # bs, rest)
      else ([], c # input))"

definition gets :: "nat \<Rightarrow> u8 list \<Rightarrow> u8 list \<times> u8 list" where
  "gets n input = gets_loop 0 n input"

definition getcmd :: "nat \<Rightarrow> u8 list \<Rightarrow> int \<times> u8 list \<times> u8 list" where
  "getcmd nbuf input =
     (let (buf, rest) = gets nbuf input in (if char_at buf 0 = 0 then -1 else 0, buf, rest))"

text \<open>
  One round of the loop of \<open>main\<close>: the end of the input, a change of directory (with the last byte of
  the line cut off), or a command for a child to run. The text is what is in front of the first NUL.
\<close>

datatype round = Eof | Chdir "u8 list" | Run "(cmd \<times> u8 list) res"

definition sh_round :: "u8 list \<Rightarrow> round \<times> u8 list" where
  "sh_round input =
     (let (r, buf, rest) = getcmd 100 input; s = takeWhile (\<lambda>c. c \<noteq> 0) buf in
      (if r < 0 then Eof
       else if char_at buf 0 = 99 \<and> char_at buf 1 = 100 \<and> char_at buf 2 = 32 then Chdir (drop 3 (butlast s))
       else Run (parsecmd s), rest))"

lemma gets_loop_spec:
  "length (fst (gets_loop i n input)) \<le> n - 1 - i \<and> input = fst (gets_loop i n input) @ snd (gets_loop i n input)"
  by (induction i n input rule: gets_loop.induct) (auto simp: Let_def split: prod.splits)

lemma sh_round_run:
  assumes "sh_round input = (Run r, rest)"
  shows "\<exists>line. r = parsecmd line \<and> 0 \<notin> set line \<and> 0 < length line \<and> length line < 100 \<and> (\<exists>more. input = line @ more)"
proof -
  obtain buf more where g: "gets_loop 0 100 input = (buf, more)" by (cases "gets_loop 0 100 input")
  let ?s = "takeWhile (\<lambda>c. c \<noteq> 0) buf"
  have b: "length buf \<le> 99" "input = buf @ more" using gets_loop_spec [of 0 100 input] g by auto
  have r: "r = parsecmd ?s" "char_at buf 0 \<noteq> 0" using assms g by (auto simp: sh_round_def getcmd_def gets_def Let_def split: if_splits)
  have "buf = ?s @ dropWhile (\<lambda>c. c \<noteq> 0) buf" by simp
  then have "input = ?s @ dropWhile (\<lambda>c. c \<noteq> 0) buf @ more" using b(2) by (metis append.assoc)
  moreover have "0 \<notin> set ?s" using set_takeWhileD by fastforce
  moreover have "0 < length ?s" using r(2) by (cases buf) (auto simp: char_at_def)
  moreover have "length ?s < 100" using b(1) length_takeWhile_le [of "\<lambda>c. c \<noteq> 0" buf] by linarith
  ultimately show ?thesis using r(1) by blast
qed

section \<open>Well-formed commands and termination\<close>

text \<open>A word: not empty, of word characters only, and ended by another character or the end of the line.\<close>

definition span_ok :: "u8 list \<Rightarrow> nat \<times> nat \<Rightarrow> bool" where
  "span_ok buf w \<longleftrightarrow> fst w < snd w \<and> snd w \<le> length buf \<and> (\<forall>i. fst w \<le> i \<and> i < snd w \<longrightarrow> is_word (buf ! i)) \<and>
     (snd w < length buf \<longrightarrow> \<not> is_word (buf ! snd w))"

fun cmd_ok :: "u8 list \<Rightarrow> cmd \<Rightarrow> bool" where
  "cmd_ok buf (Execcmd ws) \<longleftrightarrow> (\<forall>w\<in>set ws. span_ok buf w) \<and> length ws < MAXARGS"
| "cmd_ok buf (Redircmd c f mode fd) \<longleftrightarrow> cmd_ok buf c \<and> span_ok buf f \<and> (mode, fd) \<in> {(0, 0), (513, 1)}"
| "cmd_ok buf (Pipecmd l r) \<longleftrightarrow> cmd_ok buf l \<and> cmd_ok buf r"
| "cmd_ok buf (Listcmd l r) \<longleftrightarrow> cmd_ok buf l \<and> cmd_ok buf r"
| "cmd_ok buf (Backcmd c) \<longleftrightarrow> cmd_ok buf c"

text \<open>The arguments under the redirections, while \<open>parseexec\<close> collects them.\<close>

fun args_of :: "cmd \<Rightarrow> (nat \<times> nat) list option" where
  "args_of (Execcmd ws) = Some ws"
| "args_of (Redircmd c f mode fd) = args_of c"
| "args_of c = None"

lemma add_arg_ok:
  assumes "cmd_ok buf c" "args_of c = Some ws" "span_ok buf w" "length ws + 1 < MAXARGS"
  shows "cmd_ok buf (add_arg w c)" "args_of (add_arg w c) = Some (ws @ [w])"
  using assms by (induction c) auto

lemma takeWhile_drop_nth:
  assumes "n = length (takeWhile P (drop s xs))"
  shows "i < n \<Longrightarrow> P (xs ! (s + i))" "s + n < length xs \<Longrightarrow> \<not> P (xs ! (s + n))"
proof -
  have l: "n \<le> length xs - s" using length_takeWhile_le [of P "drop s xs"] assms by simp
  show "P (xs ! (s + i))" if "i < n"
  proof -
    have "P (takeWhile P (drop s xs) ! i)" using that assms nth_mem set_takeWhileD by metis
    moreover have "takeWhile P (drop s xs) ! i = xs ! (s + i)" using that assms l by (simp add: takeWhile_nth)
    ultimately show ?thesis by simp
  qed
  show "\<not> P (xs ! (s + n))" if "s + n < length xs"
    using nth_length_takeWhile [of P "drop s xs"] that assms by simp
qed

lemma gettoken_word:
  assumes "gettoken buf s = (97, q, eq, s')" "0 \<notin> set buf"
  shows "span_ok buf (q, eq)"
proof -
  have e: "q = skip_ws buf s" "token buf q = (97, eq)" using assms(1) by (auto simp: gettoken_def Let_def split: prod.splits)
  have c: "char_at buf q \<noteq> 0" "eq = skip_word buf q" "q < length buf"
    using e(2) char_at_0 [of buf q] by (auto simp: token_def Let_def split: if_splits)
  have w: "eq = q + length (takeWhile is_word (drop q buf))" using c(2) skip_word_drop [OF assms(2)] by simp
  note n = takeWhile_drop_nth [of _ is_word q buf, OF refl]
  have "q < eq" using gettoken_bounds(5) [OF assms(1)] c(1) e(1) by simp
  moreover have "is_word (buf ! i)" if "q \<le> i" "i < eq" for i using n(1) [of "i - q"] that w by simp
  moreover have "eq \<le> length buf" using skip_word_bounds(2) [of q buf] c by simp
  ultimately show ?thesis using n(2) w by (simp add: span_ok_def)
qed

text \<open>What a parser may return: a command behind \<open>s\<close>, or one of the panics of the code.\<close>

definition good :: "bool \<Rightarrow> u8 list \<Rightarrow> nat \<Rightarrow> (cmd \<times> nat) res \<Rightarrow> bool" where
  "good p buf s r \<longleftrightarrow> (case r of
      Inr (c, s') \<Rightarrow> s \<le> s' \<and> s' \<le> length buf \<and> cmd_ok buf c
    | Inl e \<Rightarrow> e \<in> Panic ` {''syntax'', ''missing file for redirection'', ''syntax - missing )'', ''too many args''} \<or> e = Diverges \<and> p)"

lemma good_Inr [simp]: "good p buf s (Inr (c, s')) \<longleftrightarrow> s \<le> s' \<and> s' \<le> length buf \<and> cmd_ok buf c"
  by (simp add: good_def)

lemma good_bind:
  assumes "good p buf s r" "\<And>c s'. r = Inr (c, s') \<Longrightarrow> s \<le> s' \<Longrightarrow> s' \<le> length buf \<Longrightarrow> cmd_ok buf c \<Longrightarrow> good q buf s (f (c, s'))" "p \<Longrightarrow> q"
  shows "good q buf s (rbind r f)"
  using assms by (cases r) (auto simp: good_def)

lemma good_mono: "good p buf s' r \<Longrightarrow> s \<le> s' \<Longrightarrow> (p \<Longrightarrow> q) \<Longrightarrow> good q buf s r"
  by (auto simp: good_def split: sum.splits)

lemma good_le: "good p buf s' r \<Longrightarrow> s \<le> s' \<Longrightarrow> good p buf s r"
  by (rule good_mono)

lemma peek_snd: "peek buf s toks = (b, s') \<Longrightarrow> s' = skip_ws buf s"
  by (simp add: peek_def Let_def)

lemma peek_bounds: "peek buf s toks = (b, s') \<Longrightarrow> s \<le> length buf \<Longrightarrow> s \<le> s' \<and> s' \<le> length buf"
  using skip_ws_bounds by (auto dest: peek_snd)

lemma gettoken_le: "gettoken buf s = (r, q, e, s') \<Longrightarrow> s \<le> length buf \<Longrightarrow> s \<le> s' \<and> s' \<le> length buf"
  using gettoken_bounds(1-4) [of buf s r q e s'] by auto

lemma parseredirs_good:
  assumes "0 \<notin> set buf" "s \<le> length buf" "cmd_ok buf c"
  shows "good False buf s (parseredirs c buf s) \<and> (\<forall>c' s'. parseredirs c buf s = Inr (c', s') \<longrightarrow> args_of c' = args_of c)"
  using assms
proof (induction "length buf - s" arbitrary: c s rule: less_induct)
  case (less s c)
  obtain b s1 where p: "peek buf s [60, 62] = (b, s1)" by (cases "peek buf s [60, 62]")
  obtain tok q e s2 where g: "gettoken buf s1 = (tok, q, e, s2)" by (cases "gettoken buf s1") auto
  obtain ret q' e' s3 where g': "gettoken buf s2 = (ret, q', e', s3)" by (cases "gettoken buf s2") auto
  note b1 = peek_bounds [OF p less.prems(2)]
  note b2 = gettoken_le [OF g] and b3 = gettoken_le [OF g']
  show ?case
  proof (cases "b \<and> ret = 97")
    case True
    then have p': "(True, s1) = peek buf s [60, 62]" using p by simp
    let ?c = "if tok = 60 then Redircmd c (q', e') 0 0 else Redircmd c (q', e') 513 1"
    have ok: "cmd_ok buf ?c" "args_of ?c = args_of c" using less.prems(3) gettoken_word [of buf s2 q' e' s3] g' True less.prems(1) by auto
    have "good False buf s3 (parseredirs ?c buf s3) \<and> (\<forall>c' s'. parseredirs ?c buf s3 = Inr (c', s') \<longrightarrow> args_of c' = args_of ?c)"
      using True p g g' ok less.prems(1) b1 b2 b3 by (intro less.hyps [OF peek_less(2) [OF p' g [symmetric] g' [symmetric]]]) auto
    moreover have "parseredirs c buf s = parseredirs ?c buf s3" by (subst parseredirs.simps) (use True p g g' in simp)
    ultimately show ?thesis using ok(2) b1 b2 b3 by (auto intro: good_mono)
  next
    case False
    then have "parseredirs c buf s = (if b then Inl (Panic ''missing file for redirection'') else Inr (c, s1))"
      using p g g' by (subst parseredirs.simps) (cases b; simp)
    then show ?thesis using b1 less.prems(3) by (auto simp: good_def)
  qed
qed

lemma args_loop_good:
  assumes "0 \<notin> set buf" "s \<le> length buf" "cmd_ok buf c" "args_of c = Some ws" "length ws = argc"
  shows "good False buf s (args_loop argc c buf s)"
  using assms
proof (induction "MAXARGS - argc" arbitrary: argc ws s c rule: less_induct)
  case (less argc ws s c)
  obtain b s1 where p: "peek buf s [124, 41, 38, 59] = (b, s1)" by (cases "peek buf s [124, 41, 38, 59]")
  obtain tok q e s2 where g: "gettoken buf s1 = (tok, q, e, s2)" by (cases "gettoken buf s1") auto
  note b1 = peek_bounds [OF p less.prems(2)] and b2 = gettoken_le [OF g]
  show ?case
  proof (cases "\<not> b \<and> tok = 97 \<and> argc + 1 < MAXARGS")
    case True
    then have "span_ok buf (q, e)" using gettoken_word [of buf s1 q e s2] g less.prems(1) by simp
    note aa = add_arg_ok [OF less.prems(3,4) this, of] 
    have a1: "cmd_ok buf (add_arg (q, e) c)" "args_of (add_arg (q, e) c) = Some (ws @ [(q, e)])" using aa True less.prems(5) by auto
    have s2: "s2 \<le> length buf" using b1 b2 by auto
    note pr = parseredirs_good [OF less.prems(1) s2 a1(1)]
    have "good False buf s2 (rbind (parseredirs (add_arg (q, e) c) buf s2) (\<lambda>(ret, s). args_loop (argc + 1) ret buf s))"
    proof (rule good_bind [of False])
      fix c' s' assume c': "parseredirs (add_arg (q, e) c) buf s2 = Inr (c', s')" "s2 \<le> s'" "s' \<le> length buf" "cmd_ok buf c'"
      have "good False buf s' (args_loop (argc + 1) c' buf s')"
        using True c' pr a1(2) less.prems(1,5) by (intro less.hyps [of _ _ _ "ws @ [(q, e)]"]) auto
      then show "good False buf s2 (case (c', s') of (ret, s) \<Rightarrow> args_loop (argc + 1) ret buf s)"
        using c'(2) good_le by simp
    qed (use pr in auto)
    moreover have "args_loop argc c buf s = rbind (parseredirs (add_arg (q, e) c) buf s2) (\<lambda>(ret, s). args_loop (argc + 1) ret buf s)"
      using True p g by (subst args_loop.simps) simp
    ultimately show ?thesis using b1 b2 by (auto intro: good_mono)
  next
    case False
    have "args_loop argc c buf s = (if b then Inr (c, s1) else if tok = 0 then Inr (c, s2) else if tok \<noteq> 97 then Inl (Panic ''syntax'') else Inl (Panic ''too many args''))"
      using False p g by (subst args_loop.simps) (cases b; auto simp: Let_def)
    then show ?thesis using b1 b2 less.prems(3) by (auto simp: good_def)
  qed
qed

lemma back_loop_good:
  assumes "s \<le> length buf" "cmd_ok buf c" "back_loop c buf s = (c', s')"
  shows "s \<le> s' \<and> s' \<le> length buf \<and> cmd_ok buf c'"
  using assms
proof (induction "length buf - s" arbitrary: c s rule: less_induct)
  case (less s c)
  obtain b s1 where p: "peek buf s [38] = (b, s1)" by (cases "peek buf s [38]")
  obtain tok q e s2 where g: "gettoken buf s1 = (tok, q, e, s2)" by (cases "gettoken buf s1") auto
  note b1 = peek_bounds [OF p less.prems(1)] and b2 = gettoken_le [OF g]
  have bl: "back_loop c buf s = (if b then back_loop (Backcmd c) buf s2 else (c, s1))"
    using p g by (subst back_loop.simps) (cases b; simp)
  show ?case
  proof (cases b)
    case True
    then have p': "(True, s1) = peek buf s [38]" using p by simp
    show ?thesis using less.hyps [OF peek_less(1) [OF p' g [symmetric]], of "Backcmd c"] less.prems b1 b2 True bl by auto
  qed (use less.prems bl b1 in auto)
qed

lemma parser_good:
  "0 \<notin> set buf \<Longrightarrow> s \<le> length buf \<Longrightarrow> good (d < 4 * (length buf - s) + 4) buf s (parseline d buf s)"
  "0 \<notin> set buf \<Longrightarrow> s \<le> length buf \<Longrightarrow> good (d < 4 * (length buf - s) + 3) buf s (parsepipe d buf s)"
  "0 \<notin> set buf \<Longrightarrow> s \<le> length buf \<Longrightarrow> good (d < 4 * (length buf - s) + 2) buf s (parseexec d buf s)"
  "0 \<notin> set buf \<Longrightarrow> s \<le> length buf \<Longrightarrow> fst (peek buf s [40]) \<Longrightarrow> good (d < 4 * (length buf - s) + 1) buf s (parseblock d buf s)"
proof (induction d buf s and d buf s and d buf s and d buf s rule: parseline_parsepipe_parseexec_parseblock.induct)
  case (2 d buf s)
  show ?case
    unfolding parseline.simps
  proof (rule good_bind [OF 2(1) [OF 2(3,4)]])
    fix c s1 assume 1: "parsepipe d buf s = Inr (c, s1)" "s \<le> s1" "s1 \<le> length buf" "cmd_ok buf c"
    obtain c2 s2 where b: "back_loop c buf s1 = (c2, s2)" by (cases "back_loop c buf s1")
    note bg = back_loop_good [OF 1(3,4) b]
    obtain p s3 where p: "peek buf s2 [59] = (p, s3)" by (cases "peek buf s2 [59]")
    obtain tok q e s4 where g: "gettoken buf s3 = (tok, q, e, s4)" by (cases "gettoken buf s3") auto
    note b1 = peek_bounds [OF p] and b2 = gettoken_le [OF g]
    show "good (Suc d < 4 * (length buf - s) + 4) buf s (case (c, s1) of (cmd, s) \<Rightarrow> case back_loop cmd buf s of (cmd, s) \<Rightarrow>
     case peek buf s [59] of
       (True, s) \<Rightarrow> (case gettoken buf s of (_, _, _, s) \<Rightarrow>
          rbind (parseline d buf s) (\<lambda>(right, s). Inr (Listcmd cmd right, s)))
     | (False, s) \<Rightarrow> Inr (cmd, s))"
    proof (cases p)
      case True
      then have "(True, s3) = peek buf s2 [59]" using p by simp
      note less = peek_less(1) [OF this g [symmetric]]
      have g4: "good (d < 4 * (length buf - s4) + 4) buf s4 (parseline d buf s4)"
        using 2(2) 1 b p g True 2(3) b1 b2 bg by (auto)
      have "good (Suc d < 4 * (length buf - s) + 4) buf s4 (rbind (parseline d buf s4) (\<lambda>(right, s). Inr (Listcmd c2 right, s)))"
        by (rule good_bind [OF g4]) (use less bg 1(2) in auto)
      from good_le [OF this, of s] show ?thesis using 1(2) bg b1 b2 b p g True by simp
    qed (use b p bg b1 1(2) in auto)
  qed auto
next
  case (4 d buf s)
  show ?case
    unfolding parsepipe.simps
  proof (rule good_bind [OF 4(1) [OF 4(3,4)]])
    fix c s1 assume 1: "parseexec d buf s = Inr (c, s1)" "s \<le> s1" "s1 \<le> length buf" "cmd_ok buf c"
    obtain p s3 where p: "peek buf s1 [124] = (p, s3)" by (cases "peek buf s1 [124]")
    obtain tok q e s4 where g: "gettoken buf s3 = (tok, q, e, s4)" by (cases "gettoken buf s3") auto
    note b1 = peek_bounds [OF p] and b2 = gettoken_le [OF g]
    show "good (Suc d < 4 * (length buf - s) + 3) buf s (case (c, s1) of (cmd, s) \<Rightarrow>
     case peek buf s [124] of
       (True, s) \<Rightarrow> (case gettoken buf s of (_, _, _, s) \<Rightarrow>
          rbind (parsepipe d buf s) (\<lambda>(right, s). Inr (Pipecmd cmd right, s)))
     | (False, s) \<Rightarrow> Inr (cmd, s))"
    proof (cases p)
      case True
      then have "(True, s3) = peek buf s1 [124]" using p by simp
      note less = peek_less(1) [OF this g [symmetric]]
      have g4: "good (d < 4 * (length buf - s4) + 3) buf s4 (parsepipe d buf s4)"
        using 4(2) 1 p g True 4(3) b1 b2 by auto
      have "good (Suc d < 4 * (length buf - s) + 3) buf s4 (rbind (parsepipe d buf s4) (\<lambda>(right, s). Inr (Pipecmd c right, s)))"
        by (rule good_bind [OF g4]) (use less 1(2,4) in auto)
      from good_le [OF this, of s] show ?thesis using 1(2,3) b1 b2 p g True by simp
    qed (use p b1 1 in auto)
  qed auto
next
  case (6 d buf s)
  obtain p s1 where p: "peek buf s [40] = (p, s1)" by (cases "peek buf s [40]")
  note b1 = peek_bounds [OF p 6(3)] and s1 = peek_snd [OF p]
  show ?case
  proof (cases p)
    case True
    have "fst (peek buf s1 [40])" using p True s1 by (auto simp: peek_def Let_def)
    then have g: "good (d < 4 * (length buf - s1) + 1) buf s1 (parseblock d buf s1)" using 6(1) [of p s1] p True 6(2) b1 by auto
    from good_mono [OF this, of s "Suc d < 4 * (length buf - s) + 2"] show ?thesis using p True b1 by (simp add: diff_le_mono2 less_le_trans)
  next
    case False
    have s1l: "s1 \<le> length buf" using b1 by simp
    note pr = parseredirs_good [OF 6(2) s1l, of "Execcmd []"]
    have "good False buf s1 (rbind (parseredirs (Execcmd []) buf s1) (\<lambda>(ret, s). args_loop 0 ret buf s))"
    proof (rule good_bind [of False])
      fix c' s' assume c': "parseredirs (Execcmd []) buf s1 = Inr (c', s')" "s1 \<le> s'" "s' \<le> length buf" "cmd_ok buf c'"
      have "good False buf s' (args_loop 0 c' buf s')"
        using c' pr 6(2) by (intro args_loop_good [of _ _ _ "[]"]) (auto simp: MAXARGS_def)
      then show "good False buf s1 (case (c', s') of (ret, s) \<Rightarrow> args_loop 0 ret buf s)" using c'(2) good_le by simp
    qed (use pr in \<open>auto simp: MAXARGS_def\<close>)
    from good_mono [OF this, of s "Suc d < 4 * (length buf - s) + 2"] show ?thesis using p False b1 by simp
  qed
next
  case (8 d buf s)
  obtain s1 where p: "peek buf s [40] = (True, s1)" using 8(4) by (cases "peek buf s [40]") auto
  obtain tok q e s2 where g: "gettoken buf s1 = (tok, q, e, s2)" by (cases "gettoken buf s1") auto
  note b1 = peek_bounds [OF p 8(3)] and b2 = gettoken_le [OF g] and less = peek_less(1) [OF p [symmetric] g [symmetric]]
  have g2: "good (d < 4 * (length buf - s2) + 4) buf s2 (parseline d buf s2)" using 8(1) [OF p [symmetric]] p g 8(2) b1 b2 by auto
  have "good (Suc d < 4 * (length buf - s) + 1) buf s2 (rbind (parseline d buf s2) (\<lambda>(cmd, s).
          case peek buf s [41] of
            (False, s) \<Rightarrow> Inl (Panic ''syntax - missing )'')
          | (True, s) \<Rightarrow> (case gettoken buf s of (_, _, _, s) \<Rightarrow> parseredirs cmd buf s)))"
  proof (rule good_bind [OF g2])
    fix c s3 assume 1: "parseline d buf s2 = Inr (c, s3)" "s2 \<le> s3" "s3 \<le> length buf" "cmd_ok buf c"
    obtain r s4 where p': "peek buf s3 [41] = (r, s4)" by (cases "peek buf s3 [41]")
    obtain tok' q' e' s5 where g': "gettoken buf s4 = (tok', q', e', s5)" by (cases "gettoken buf s4") auto
    have b: "s4 \<le> length buf" "s5 \<le> length buf" "s2 \<le> s5" using peek_bounds [OF p' 1(3)] gettoken_le [OF g'] 1(2) by auto
    have "good (Suc d < 4 * (length buf - s) + 1) buf s2 (parseredirs c buf s5)"
      using good_mono [of False buf s5 "parseredirs c buf s5" s2] parseredirs_good [OF 8(2) b(2) 1(4)] b(3) by simp
    then show "good (Suc d < 4 * (length buf - s) + 1) buf s2 (case (c, s3) of (cmd, s) \<Rightarrow>
          case peek buf s [41] of
            (False, s) \<Rightarrow> Inl (Panic ''syntax - missing )'')
          | (True, s) \<Rightarrow> (case gettoken buf s of (_, _, _, s) \<Rightarrow> parseredirs cmd buf s))"
      using p' g' by (cases r) (auto simp: good_def)
  qed (use less in auto)
  from good_le [OF this, of s] show ?case using p g b1 b2 by simp
qed (auto simp: good_def)

text \<open>
  C37: The parser always returns: on every line it gives a command or ends in one of the four error
  messages of the code. The depth of the recursion is bounded by four for each character of the
  line, the bound that \<open>parsecmd\<close> is given, and the panic \<open>parseblock\<close> cannot happen.
\<close>

theorem parsecmd_returns:
  assumes "0 \<notin> set buf"
  shows "case parsecmd buf of
      Inr _ \<Rightarrow> True
    | Inl e \<Rightarrow> e \<in> Panic ` {''syntax'', ''missing file for redirection'', ''syntax - missing )'', ''too many args''}"
proof -
  have g: "good False buf 0 (parseline (4 * length buf + 4) buf 0)"
    using parser_good(1) [OF assms, of 0 "4 * length buf + 4"] by simp
  show ?thesis
  proof (cases "parseline (4 * length buf + 4) buf 0")
    case (Inl e)
    then show ?thesis using g by (simp add: parsecmd_def good_def)
  next
    case (Inr x)
    then show ?thesis by (cases x) (simp add: parsecmd_def split: prod.split)
  qed
qed

theorem parsecmd_returns_witness:
  "parsecmd [40, 108, 115] = Inl (Panic ''syntax - missing )'') \<and>
   (case parsecmd [40, 108, 115] of Inr _ \<Rightarrow> True
    | Inl e \<Rightarrow> e \<in> Panic ` {''syntax'', ''missing file for redirection'', ''syntax - missing )'', ''too many args''})"
proof
  show "parsecmd [40, 108, 115] = Inl (Panic ''syntax - missing )'')" by code_simp
  show "case parsecmd [40, 108, 115] of Inr _ \<Rightarrow> True
    | Inl e \<Rightarrow> e \<in> Panic ` {''syntax'', ''missing file for redirection'', ''syntax - missing )'', ''too many args''}"
    by (rule parsecmd_returns) simp
qed

lemma parsecmd_Inr: "parsecmd buf = Inr (c, b) \<longleftrightarrow> (\<exists>s. parseline (4 * length buf + 4) buf 0 = Inr (c, s) \<and> skip_ws buf s = length buf \<and> b = nulterminate c buf)"
  by (auto simp: parsecmd_def peek_def Let_def split: if_splits)

section \<open>The strings of a command\<close>

datatype acmd =
    AExec "u8 list list"
  | ARedir acmd "u8 list" int int
  | APipe acmd acmd
  | AList acmd acmd
  | ABack acmd

text \<open>The C string at a position, and the words of the line.\<close>

definition cstr :: "u8 list \<Rightarrow> nat \<Rightarrow> u8 list" where
  "cstr buf q = takeWhile (\<lambda>c. c \<noteq> 0) (drop q buf)"

fun view :: "u8 list \<Rightarrow> cmd \<Rightarrow> acmd" where
  "view buf (Execcmd ws) = AExec (map (\<lambda>w. cstr buf (fst w)) ws)"
| "view buf (Redircmd c f mode fd) = ARedir (view buf c) (cstr buf (fst f)) mode fd"
| "view buf (Pipecmd l r) = APipe (view buf l) (view buf r)"
| "view buf (Listcmd l r) = AList (view buf l) (view buf r)"
| "view buf (Backcmd c) = ABack (view buf c)"

definition wtext :: "u8 list \<Rightarrow> nat \<times> nat \<Rightarrow> u8 list" where
  "wtext buf w = take (snd w - fst w) (drop (fst w) buf)"

fun words :: "u8 list \<Rightarrow> cmd \<Rightarrow> acmd" where
  "words buf (Execcmd ws) = AExec (map (wtext buf) ws)"
| "words buf (Redircmd c f mode fd) = ARedir (words buf c) (wtext buf f) mode fd"
| "words buf (Pipecmd l r) = APipe (words buf l) (words buf r)"
| "words buf (Listcmd l r) = AList (words buf l) (words buf r)"
| "words buf (Backcmd c) = ABack (words buf c)"

fun word_ends :: "cmd \<Rightarrow> nat set" where
  "word_ends (Execcmd ws) = snd ` set ws"
| "word_ends (Redircmd c f mode fd) = insert (snd f) (word_ends c)"
| "word_ends (Pipecmd l r) = word_ends l \<union> word_ends r"
| "word_ends (Listcmd l r) = word_ends l \<union> word_ends r"
| "word_ends (Backcmd c) = word_ends c"

lemma nth_update: "i < length xs \<Longrightarrow> xs[e := v] ! i = (if i = e then v else xs ! i)"
  by (cases "i = e") auto

lemma fold_ends:
  "length (fold (\<lambda>(_, eq) b. b[eq := 0]) ws buf) = length buf"
  "i < length buf \<Longrightarrow> fold (\<lambda>(_, eq) b. b[eq := 0]) ws buf ! i = (if i \<in> snd ` set ws then 0 else buf ! i)"
  by (induction ws arbitrary: buf) (auto simp: nth_update split: prod.splits)

lemma nulterminate_nth:
  "length (nulterminate c buf) = length buf"
  "i < length buf \<Longrightarrow> nulterminate c buf ! i = (if i \<in> word_ends c then 0 else buf ! i)"
  by (induction c arbitrary: buf) (auto simp: fold_ends nth_update)

text \<open>Setting bytes that are no word characters to NUL leaves the words, and ends them.\<close>

lemma cstr_word:
  assumes w: "span_ok buf w" "snd w \<in> E" and E: "\<And>e. e \<in> E \<Longrightarrow> e < length buf \<Longrightarrow> \<not> is_word (buf ! e)"
    and b: "length b = length buf" "\<And>i. i < length buf \<Longrightarrow> b ! i = (if i \<in> E then 0 else buf ! i)"
  shows "cstr b (fst w) = wtext buf w"
proof -
  let ?q = "fst w" and ?e = "snd w"
  have s: "?q < ?e" "?e \<le> length buf" "\<And>i. ?q \<le> i \<Longrightarrow> i < ?e \<Longrightarrow> is_word (buf ! i)" using w(1) by (auto simp: span_ok_def)
  have m: "b ! i = buf ! i" "buf ! i \<noteq> 0" if "?q \<le> i" "i < ?e" for i
    using b(2) [of i] E [of i] s that by (auto simp: is_word_def)
  have "drop ?q b = take (?e - ?q) (drop ?q b) @ drop ?e b" using s by (metis append_take_drop_id drop_drop le_add_diff_inverse2 less_imp_le)
  moreover have "take (?e - ?q) (drop ?q b) = wtext buf w"
    using s m b(1) by (intro nth_equalityI) (auto simp: wtext_def)
  moreover have "takeWhile (\<lambda>c. c \<noteq> 0) (wtext buf w @ drop ?e b) = wtext buf w @ takeWhile (\<lambda>c. c \<noteq> 0) (drop ?e b)"
    using m s by (intro takeWhile_append2) (auto simp: wtext_def in_set_conv_nth)
  moreover have "takeWhile (\<lambda>c. c \<noteq> 0) (drop ?e b) = []"
    using b w(2) s(2) by (cases "?e < length buf") (auto simp: Cons_nth_drop_Suc [symmetric])
  ultimately show ?thesis by (simp add: cstr_def)
qed

lemma ends_not_word: "cmd_ok buf c \<Longrightarrow> e \<in> word_ends c \<Longrightarrow> e < length buf \<Longrightarrow> \<not> is_word (buf ! e)"
  by (induction c) (auto simp: span_ok_def)

lemma view_words:
  assumes "cmd_ok buf c" "word_ends c \<subseteq> E" "\<And>e. e \<in> E \<Longrightarrow> e < length buf \<Longrightarrow> \<not> is_word (buf ! e)"
    "length b = length buf" "\<And>i. i < length buf \<Longrightarrow> b ! i = (if i \<in> E then 0 else buf ! i)"
  shows "view b c = words buf c"
  using assms(1,2) by (induction c) (auto intro!: cstr_word [OF _ _ assms(3-5)])

lemma nulterminate_view: "cmd_ok buf c \<Longrightarrow> view (nulterminate c buf) c = words buf c"
  using ends_not_word by (intro view_words [where E = "word_ends c"]) (auto simp: nulterminate_nth)

definition word_ok :: "u8 list \<Rightarrow> bool" where
  "word_ok w \<longleftrightarrow> w \<noteq> [] \<and> (\<forall>c\<in>set w. is_word c)"

fun acmd_ok :: "acmd \<Rightarrow> bool" where
  "acmd_ok (AExec ws) \<longleftrightarrow> (\<forall>w\<in>set ws. word_ok w) \<and> length ws < MAXARGS"
| "acmd_ok (ARedir c f mode fd) \<longleftrightarrow> acmd_ok c \<and> word_ok f \<and> (mode, fd) \<in> {(0, 0), (513, 1)}"
| "acmd_ok (APipe l r) \<longleftrightarrow> acmd_ok l \<and> acmd_ok r"
| "acmd_ok (AList l r) \<longleftrightarrow> acmd_ok l \<and> acmd_ok r"
| "acmd_ok (ABack c) \<longleftrightarrow> acmd_ok c"

lemma wtext_ok: "span_ok buf w \<Longrightarrow> word_ok (wtext buf w)"
  by (auto simp: word_ok_def span_ok_def wtext_def in_set_conv_nth)

lemma words_ok: "cmd_ok buf c \<Longrightarrow> acmd_ok (words buf c)"
  by (induction c) (auto simp: wtext_ok)

lemma parsecmd_view:
  assumes "0 \<notin> set buf" and "parsecmd buf = Inr (c, buf')"
  shows "acmd_ok (view buf' c) \<and> view buf' c = words buf c \<and> length buf' = length buf"
proof -
  have g: "good (4 * length buf + 4 < 4 * (length buf - 0) + 4) buf 0 (parseline (4 * length buf + 4) buf 0)"
    by (rule parser_good(1) [OF assms(1)]) simp
  obtain s where p: "parseline (4 * length buf + 4) buf 0 = Inr (c, s)" "buf' = nulterminate c buf"
    using assms(2) by (auto simp: parsecmd_Inr)
  then have "cmd_ok buf c" using g by simp
  then show ?thesis using p(2) by (simp add: nulterminate_view words_ok nulterminate_nth)
qed

text \<open>
  C38: Every command the parser returns is well typed: when \<open>parsecmd\<close> succeeds, the strings that
  \<open>runcmd\<close> finds in \<open>argv\<close> and \<open>file\<close> after \<open>nulterminate\<close> are exactly the words of the line, none is
  empty or contains white space or one of the symbols, a command has fewer than \<open>MAXARGS\<close> arguments,
  so that its \<open>argv\<close> is terminated by a null pointer, and a redirection is of descriptor 0 for
  reading or of descriptor 1 for writing.
\<close>

theorem parsecmd_typed:
  assumes "0 \<notin> set buf" and "parsecmd buf = Inr (c, buf')"
  shows "acmd_ok (view buf' c) \<and> view buf' c = words buf c \<and> length buf' = length buf"
  by (rule parsecmd_view [OF assms])

theorem parsecmd_typed_witness:
  "parsecmd [108, 115, 60, 102] = Inr (Redircmd (Execcmd [(0, 2)]) (3, 4) 0 0, [108, 115, 0, 102]) \<and>
   view [108, 115, 0, 102] (Redircmd (Execcmd [(0, 2)]) (3, 4) 0 0) = ARedir (AExec [[108, 115]]) [102] 0 0"
proof -
  have p: "parsecmd [108, 115, 60, 102] = Inr (Redircmd (Execcmd [(0, 2)]) (3, 4) 0 0, [108, 115, 0, 102])" by code_simp
  then show ?thesis using parsecmd_typed [OF _ p] by (simp add: wtext_def)
qed

section \<open>Printing and parsing\<close>

text \<open>
  A printer: level 0 is what \<open>parseexec\<close> reads, 1 \<open>parsepipe\<close>, 2 the part of \<open>parseline\<close> in front of
  a semicolon and 3 \<open>parseline\<close>; a command that does not fit is put into parentheses.
\<close>

definition paren :: "bool \<Rightarrow> u8 list \<Rightarrow> u8 list" where
  "paren b t = (if b then [40] @ t @ [41] else t)"

definition redir_text :: "u8 list \<Rightarrow> int \<Rightarrow> u8 list" where
  "redir_text f mode = (if mode = 0 then 60 else 62) # f @ [32]"

fun show_cmd :: "nat \<Rightarrow> acmd \<Rightarrow> u8 list" where
  "show_cmd k (AExec ws) = concat (map (\<lambda>w. w @ [32]) ws)"
| "show_cmd k (ARedir c f mode fd) = show_cmd 0 c @ redir_text f mode"
| "show_cmd k (APipe l r) = paren (k < 1) (show_cmd 0 l @ [124] @ show_cmd 1 r)"
| "show_cmd k (ABack c) = paren (k < 2) (show_cmd 2 c @ [38])"
| "show_cmd k (AList l r) = paren (k < 3) (show_cmd 2 l @ [59] @ show_cmd 3 r)"

text \<open>The tokens, from the rest of the line.\<close>

definition starts :: "u8 list \<Rightarrow> u8 list \<Rightarrow> bool" where
  "starts toks r \<longleftrightarrow> r \<noteq> [] \<and> hd r \<in> set toks"

lemma at_rest:
  assumes "drop s buf = r" "r = [] \<or> \<not> is_ws (hd r)"
  shows "skip_ws buf s = s" "char_at buf s = (if r = [] then 0 else hd r)"
  using assms by (cases r; auto simp: skip_ws_drop char_at_drop)+

lemma peek_rest:
  assumes "drop s buf = r" "r = [] \<or> \<not> is_ws (hd r)" "0 \<notin> set buf" "0 \<notin> set toks"
  shows "peek buf s toks = (starts toks r, s)"
proof -
  have "r \<noteq> [] \<Longrightarrow> hd r \<noteq> 0" using assms(1,3) by (metis hd_in_set in_set_dropD)
  then show ?thesis using at_rest [OF assms(1,2)] strchr_mem [OF assms(4)] by (auto simp: peek_def starts_def Let_def)
qed

lemma get_symbol:
  assumes "drop s buf = c # r" "c \<in> {124, 40, 41, 59, 38, 60}"
  obtains s' where "gettoken buf s = (c, s, s + 1, s')" "drop s' buf = dropWhile is_ws r"
proof -
  have "\<not> is_ws c" using assms(2) by (auto simp: is_ws_def whitespace_def)
  then have a: "skip_ws buf s = s" "char_at buf s = c" using at_rest [OF assms(1)] by auto
  have "drop (s + 1) buf = r" using assms(1) by (metis Suc_eq_plus1 drop_Suc list.sel(3) tl_drop)
  then have "drop (skip_ws buf (s + 1)) buf = dropWhile is_ws r" by (simp add: drop_skip_ws)
  moreover have "gettoken buf s = (c, s, s + 1, skip_ws buf (s + 1))" using a assms(2) by (auto simp: gettoken_def token_def Let_def)
  ultimately show ?thesis by (rule that [rotated])
qed

lemma get_greater:
  assumes "drop s buf = 62 # r" "r \<noteq> []" "hd r \<noteq> 62"
  obtains s' where "gettoken buf s = (62, s, s + 1, s')" "drop s' buf = dropWhile is_ws r"
proof -
  have a: "skip_ws buf s = s" "char_at buf s = 62" using at_rest [OF assms(1)] by (auto simp: is_ws_def whitespace_def)
  have d: "drop (s + 1) buf = r" using assms(1) by (metis Suc_eq_plus1 drop_Suc list.sel(3) tl_drop)
  then have "char_at buf (s + 1) \<noteq> 62" using assms(2,3) by (cases r) (auto simp: char_at_drop)
  then have "gettoken buf s = (62, s, s + 1, skip_ws buf (s + 1))" using a by (simp add: gettoken_def token_def Let_def)
  moreover have "drop (skip_ws buf (s + 1)) buf = dropWhile is_ws r" using d by (simp add: drop_skip_ws)
  ultimately show ?thesis by (rule that)
qed

lemma get_word:
  assumes "drop s buf = w @ 32 # r" "word_ok w" "0 \<notin> set buf"
  obtains s' where "gettoken buf s = (97, s, s + length w, s')" "drop s' buf = dropWhile is_ws r" "wtext buf (s, s + length w) = w"
proof -
  obtain c w' where w: "w = c # w'" using assms(2) by (cases w) (auto simp: word_ok_def)
  then have c: "is_word c" using assms(2) by (simp add: word_ok_def)
  then have a: "skip_ws buf s = s" "char_at buf s = c" using at_rest [OF assms(1)] w by (auto simp: is_word_def is_ws_def)
  have "takeWhile is_word (w @ 32 # r) = w"
    using assms(2) by (subst takeWhile_append2) (auto simp: word_ok_def is_word_def whitespace_def)
  then have sw: "skip_word buf s = s + length w" using skip_word_drop [OF assms(3), of s] assms(1) by simp
  have "token buf s = (97, s + length w)" using a c sw by (auto simp: token_def is_word_def symbols_def)
  then have g: "gettoken buf s = (97, s, s + length w, skip_ws buf (s + length w))" using a by (simp add: gettoken_def)
  have "drop (s + length w) buf = 32 # r" using assms(1) by (metis add.commute append_eq_conv_conj drop_drop)
  then have "drop (skip_ws buf (s + length w)) buf = dropWhile is_ws r" by (simp add: drop_skip_ws is_ws_def whitespace_def)
  moreover have "wtext buf (s, s + length w) = w" using assms(1) by (simp add: wtext_def)
  ultimately show ?thesis using g by (intro that)
qed

text \<open>Redirections.\<close>

type_synonym redir = "u8 list \<times> int \<times> int"

definition redirs_text :: "redir list \<Rightarrow> u8 list" where
  "redirs_text rs = concat (map (\<lambda>(f, mode, fd). redir_text f mode) rs)"

definition redirs_ok :: "redir list \<Rightarrow> bool" where
  "redirs_ok rs \<longleftrightarrow> (\<forall>(f, mode, fd)\<in>set rs. word_ok f \<and> (mode, fd) \<in> {(0, 0), (513, 1)})"

definition wrap :: "acmd \<Rightarrow> redir list \<Rightarrow> acmd" where
  "wrap = foldl (\<lambda>c (f, mode, fd). ARedir c f mode fd)"

lemma redirs_simps [simp]:
  "redirs_text [] = []" "redirs_text ((f, mode, fd) # rs) = redir_text f mode @ redirs_text rs"
  "redirs_ok []" "redirs_ok ((f, mode, fd) # rs) \<longleftrightarrow> word_ok f \<and> (mode, fd) \<in> {(0, 0), (513, 1)} \<and> redirs_ok rs"
  "wrap c [] = c" "wrap c ((f, mode, fd) # rs) = wrap (ARedir c f mode fd) rs"
  by (auto simp: redirs_text_def redirs_ok_def wrap_def)

text \<open>The rest of the line behind a command: nothing, or one of the symbols that end it.\<close>

definition follow :: "u8 list \<Rightarrow> u8 list \<Rightarrow> bool" where
  "follow toks post \<longleftrightarrow> post = [] \<or> hd post \<in> set toks"

lemma follow_mono: "follow xs post \<Longrightarrow> set xs \<subseteq> set ys \<Longrightarrow> follow ys post"
  by (auto simp: follow_def)

lemma follow_not:
  assumes "follow [124, 41, 38, 59] post"
  shows "post = [] \<or> \<not> is_ws (hd post)" "\<not> starts [60, 62] post" "\<not> starts [40] post"
  using assms by (auto simp: follow_def starts_def is_ws_def whitespace_def)

lemma redirs_start: "rs \<noteq> [] \<Longrightarrow> redirs_text rs \<noteq> [] \<and> hd (redirs_text rs) \<in> {60, 62}"
  by (cases rs) (auto simp: redir_text_def split: if_splits)

lemma redirs_not_ws:
  assumes "follow [124, 41, 38, 59] post"
  shows "dropWhile is_ws (redirs_text rs @ post) = redirs_text rs @ post" "redirs_text rs @ post = [] \<or> \<not> is_ws (hd (redirs_text rs @ post))"
proof -
  show "redirs_text rs @ post = [] \<or> \<not> is_ws (hd (redirs_text rs @ post))"
    using follow_not(1) [OF assms] redirs_start [of rs] by (cases "rs = []") (auto simp: is_ws_def whitespace_def)
  then show "dropWhile is_ws (redirs_text rs @ post) = redirs_text rs @ post" by (cases "redirs_text rs @ post") auto
qed

lemma word_hd: "word_ok w \<Longrightarrow> w \<noteq> [] \<and> is_word (hd w) \<and> \<not> is_ws (hd w) \<and> hd w \<notin> {60, 62, 124, 41, 38, 59, 40}"
  by (auto simp: word_ok_def is_word_def is_ws_def symbols_def)

lemma dropWhile_word: "word_ok w \<Longrightarrow> dropWhile is_ws (w @ r) = w @ r"
  using word_hd [of w] by (cases w) auto

lemma parseredirs_show:
  assumes nz: "0 \<notin> set buf" and "drop s buf = redirs_text rs @ post" "redirs_ok rs" "follow [124, 41, 38, 59] post"
  obtains c' s' where "parseredirs c buf s = Inr (c', s')" "drop s' buf = post" "words buf c' = wrap (words buf c) rs"
  using assms(2,3)
proof (induction rs arbitrary: c s thesis)
  case Nil
  have "peek buf s [60, 62] = (False, s)"
    using peek_rest [OF Nil(2) redirs_not_ws(2) [OF assms(4)] nz, of "[60, 62]"] follow_not(2) [OF assms(4)] by simp
  then have "parseredirs c buf s = Inr (c, s)" by (subst parseredirs.simps) simp
  then show ?case using Nil(1,2) by simp
next
  case (Cons x rs)
  obtain f mode fd where x: "x = (f, mode, fd)" by (cases x)
  then have ok: "word_ok f" "(mode, fd) \<in> {(0, 0), (513, 1)}" "redirs_ok rs" using Cons.prems(3) by auto
  define tok :: u8 where "tok = (if mode = 0 then 60 else 62)"
  have d: "drop s buf = tok # f @ 32 # redirs_text rs @ post" using Cons.prems(2) by (simp add: x redir_text_def tok_def)
  have "starts [60, 62] (redirs_text (x # rs) @ post)" using redirs_start [of "x # rs"] by (auto simp: starts_def)
  then have p: "peek buf s [60, 62] = (True, s)"
    using peek_rest [OF Cons.prems(2) redirs_not_ws(2) [OF assms(4)] nz, of "[60, 62]"] by simp
  obtain s1 where g1: "gettoken buf s = (tok, s, s + 1, s1)" "drop s1 buf = dropWhile is_ws (f @ 32 # redirs_text rs @ post)"
  proof (cases "mode = 0")
    case True
    then show ?thesis using get_symbol [OF d] that by (auto simp: tok_def)
  next
    case False
    then have "drop s buf = 62 # f @ 32 # redirs_text rs @ post" using d by (simp add: tok_def)
    from get_greater [OF this] show ?thesis using that False word_hd [OF ok(1)] by (auto simp: tok_def)
  qed
  have d1: "drop s1 buf = f @ 32 # redirs_text rs @ post" using g1(2) dropWhile_word [OF ok(1)] by simp
  from get_word [OF d1 ok(1) nz] obtain s2 where g2: "gettoken buf s1 = (97, s1, s1 + length f, s2)"
    "drop s2 buf = redirs_text rs @ post" "wtext buf (s1, s1 + length f) = f" using redirs_not_ws(1) [OF assms(4)] by metis
  let ?c = "if tok = 60 then Redircmd c (s1, s1 + length f) 0 0 else Redircmd c (s1, s1 + length f) 513 1"
  have e: "parseredirs c buf s = parseredirs ?c buf s2" using p g1(1) g2(1) by (subst parseredirs.simps) simp
  have w: "words buf ?c = ARedir (words buf c) f mode fd" using ok(2) g2(3) by (auto simp: tok_def)
  show ?case
  proof (rule Cons.IH [OF _ g2(2) ok(3), of ?c])
    fix c' s' assume "parseredirs ?c buf s2 = Inr (c', s')" "drop s' buf = post" "words buf c' = wrap (words buf ?c) rs"
    then show thesis using Cons.prems(1) e w x by simp
  qed
qed

lemma args_stop:
  assumes nz: "0 \<notin> set buf" and "drop s buf = post" "follow [124, 41, 38, 59] post"
  obtains s' where "args_loop argc c buf s = Inr (c, s')" "drop s' buf = post"
proof -
  note f = follow_not(1) [OF assms(3)]
  have p: "peek buf s [124, 41, 38, 59] = (starts [124, 41, 38, 59] post, s)" using peek_rest [OF assms(2) f nz, of "[124, 41, 38, 59]"] by simp
  show ?thesis
  proof (cases "post = []")
    case True
    then have "gettoken buf s = (0, s, s, s)" using at_rest [OF assms(2) f] by (simp add: gettoken_def token_def)
    then have "args_loop argc c buf s = Inr (c, s)" using p True by (subst args_loop.simps) (simp add: starts_def)
    then show ?thesis using assms(2) by (rule that)
  next
    case False
    then have "args_loop argc c buf s = Inr (c, s)" using p assms(3) by (subst args_loop.simps) (simp add: starts_def follow_def)
    then show ?thesis using assms(2) by (rule that)
  qed
qed

definition words_text :: "u8 list list \<Rightarrow> u8 list" where
  "words_text ws = concat (map (\<lambda>w. w @ [32]) ws)"

lemma args_show:
  assumes nz: "0 \<notin> set buf" and "drop s buf = words_text ws @ redirs_text rs @ post" "\<forall>w\<in>set ws. word_ok w" "ws \<noteq> []"
    "redirs_ok rs" "follow [124, 41, 38, 59] post" "length us + length ws < MAXARGS"
  obtains c s' where "args_loop (length us) (Execcmd us) buf s = Inr (c, s')" "drop s' buf = post"
    "words buf c = wrap (AExec (map (wtext buf) us @ ws)) rs"
  using assms(2,3,4,7)
proof (induction ws arbitrary: us s thesis)
  case (Cons w ws)
  have ok: "word_ok w" using Cons.prems(3) by simp
  have d: "drop s buf = w @ 32 # words_text ws @ redirs_text rs @ post" using Cons.prems(2) by (simp add: words_text_def)
  have nw: "w @ 32 # words_text ws @ redirs_text rs @ post \<noteq> []" "\<not> is_ws (hd (w @ 32 # words_text ws @ redirs_text rs @ post))"
    using word_hd [OF ok] by auto
  have p: "peek buf s [124, 41, 38, 59] = (False, s)"
    using peek_rest [OF d _ nz, of "[124, 41, 38, 59]"] nw word_hd [OF ok] by (auto simp: starts_def)
  have nx: "dropWhile is_ws (words_text ws @ redirs_text rs @ post) = words_text ws @ redirs_text rs @ post"
    using redirs_not_ws(1) [OF assms(6)] Cons.prems(3) by (cases ws) (auto simp: words_text_def dropWhile_word)
  from get_word [OF d ok nz] obtain s1 where g: "gettoken buf s = (97, s, s + length w, s1)"
    "drop s1 buf = words_text ws @ redirs_text rs @ post" "wtext buf (s, s + length w) = w" using nx by metis
  let ?us = "us @ [(s, s + length w)]"
  have e: "args_loop (length us) (Execcmd us) buf s = rbind (parseredirs (Execcmd ?us) buf s1) (\<lambda>(ret, s). args_loop (length ?us) ret buf s)"
    using p g(1) Cons.prems(5) by (subst args_loop.simps) simp
  show ?case
  proof (cases "ws = []")
    case True
    from parseredirs_show [OF nz _ assms(5,6), of s1 "Execcmd ?us"] g(2) True obtain c' s' where
      r: "parseredirs (Execcmd ?us) buf s1 = Inr (c', s')" "drop s' buf = post" "words buf c' = wrap (words buf (Execcmd ?us)) rs"
      by (auto simp: words_text_def)
    obtain s2 where "args_loop (length ?us) c' buf s' = Inr (c', s2)" "drop s2 buf = post" by (rule args_stop [OF nz r(2) assms(6)])
    then show ?thesis using Cons.prems(1) e r True g(3) by simp
  next
    case False
    then obtain v vs where v: "ws = v # vs" by (cases ws) auto
    then have "peek buf s1 [60, 62] = (False, s1)"
      using peek_rest [OF g(2) _ nz, of "[60, 62]"] word_hd [of v] Cons.prems(3) by (auto simp: starts_def words_text_def)
    then have "parseredirs (Execcmd ?us) buf s1 = Inr (Execcmd ?us, s1)" by (subst parseredirs.simps) simp
    then have e2: "args_loop (length us) (Execcmd us) buf s = args_loop (length ?us) (Execcmd ?us) buf s1" using e by simp
    show ?thesis
    proof (rule Cons.IH [OF _ g(2), of ?us])
      fix c s' assume "args_loop (length ?us) (Execcmd ?us) buf s1 = Inr (c, s')" "drop s' buf = post" "words buf c = wrap (AExec (map (wtext buf) ?us @ ws)) rs"
      then show thesis using Cons.prems(1) e2 g(3) by simp
    qed (use Cons.prems False in auto)
  qed
qed simp

text \<open>Printed commands do not begin with white space.\<close>

lemma show_start:
  assumes "acmd_ok a" "post = [] \<or> \<not> is_ws (hd post)"
  shows "show_cmd k a @ post = [] \<or> \<not> is_ws (hd (show_cmd k a @ post))"
  using assms
proof (induction a arbitrary: k post)
  case (AExec ws)
  then show ?case using word_hd by (cases ws) auto
next
  case (ARedir a f mode fd)
  have "\<not> is_ws (hd (redir_text f mode @ post))" by (simp add: redir_text_def is_ws_def whitespace_def)
  then show ?case using ARedir.IH [of "redir_text f mode @ post" 0] ARedir.prems(1) by simp
next
  case (APipe l r)
  show ?case
  proof (cases "k < 1")
    case False
    then have e: "show_cmd k (APipe l r) @ post = show_cmd 0 l @ 124 # show_cmd 1 r @ post" by (simp add: paren_def)
    show ?thesis unfolding e by (rule APipe.IH(1)) (use APipe.prems in \<open>auto simp: is_ws_def whitespace_def\<close>)
  qed (simp add: paren_def is_ws_def whitespace_def)
next
  case (AList l r)
  show ?case
  proof (cases "k < 3")
    case False
    then have e: "show_cmd k (AList l r) @ post = show_cmd 2 l @ 59 # show_cmd 3 r @ post" by (simp add: paren_def)
    show ?thesis unfolding e by (rule AList.IH(1)) (use AList.prems in \<open>auto simp: is_ws_def whitespace_def\<close>)
  qed (simp add: paren_def is_ws_def whitespace_def)
next
  case (ABack c)
  show ?case
  proof (cases "k < 2")
    case False
    then have e: "show_cmd k (ABack c) @ post = show_cmd 2 c @ 38 # post" by (simp add: paren_def)
    show ?thesis unfolding e by (rule ABack.IH) (use ABack.prems in \<open>auto simp: is_ws_def whitespace_def\<close>)
  qed (simp add: paren_def is_ws_def whitespace_def)
qed

lemma show_drop_ws:
  assumes "acmd_ok a" "post = [] \<or> \<not> is_ws (hd post)"
  shows "dropWhile is_ws (show_cmd k a @ post) = show_cmd k a @ post"
  using show_start [OF assms, of k] by (cases "show_cmd k a @ post") auto

text \<open>What each procedure makes of a printed command.\<close>

definition reads0 :: "u8 list \<Rightarrow> acmd \<Rightarrow> bool" where
  "reads0 buf a \<longleftrightarrow> (\<forall>rs post s d. redirs_ok rs \<and> follow [124, 41, 38, 59] post \<and> drop s buf = show_cmd 0 a @ redirs_text rs @ post \<and>
     4 * length (drop s buf) + 2 \<le> d \<longrightarrow> (\<exists>c s'. parseexec d buf s = Inr (c, s') \<and> drop s' buf = post \<and> words buf c = wrap a rs))"

definition reads1 :: "u8 list \<Rightarrow> acmd \<Rightarrow> bool" where
  "reads1 buf a \<longleftrightarrow> (\<forall>post s d. follow [41, 38, 59] post \<and> drop s buf = show_cmd 1 a @ post \<and> 4 * length (drop s buf) + 3 \<le> d \<longrightarrow>
     (\<exists>c s'. parsepipe d buf s = Inr (c, s') \<and> drop s' buf = post \<and> words buf c = a))"

definition reads2 :: "u8 list \<Rightarrow> acmd \<Rightarrow> bool" where
  "reads2 buf a \<longleftrightarrow> (\<forall>n post s d. follow [41, 59] post \<and> drop s buf = show_cmd 2 a @ replicate n 38 @ post \<and> 4 * length (drop s buf) + 3 \<le> d \<longrightarrow>
     (\<exists>c s1 c' s'. parsepipe d buf s = Inr (c, s1) \<and> back_loop c buf s1 = (c', s') \<and> drop s' buf = post \<and> words buf c' = (ABack ^^ n) a))"

definition reads3 :: "u8 list \<Rightarrow> acmd \<Rightarrow> bool" where
  "reads3 buf a \<longleftrightarrow> (\<forall>post s d. follow [41] post \<and> drop s buf = show_cmd 3 a @ post \<and> 4 * length (drop s buf) + 4 \<le> d \<longrightarrow>
     (\<exists>c s'. parseline d buf s = Inr (c, s') \<and> drop s' buf = post \<and> words buf c = a))"

lemma reads1_if_0:
  assumes "0 \<notin> set buf" "reads0 buf a" "show_cmd 1 a = show_cmd 0 a"
  shows "reads1 buf a"
  unfolding reads1_def
proof (intro allI impI, elim conjE)
  fix post s d assume h: "follow [41, 38, 59] post" "drop s buf = show_cmd 1 a @ post" "4 * length (drop s buf) + 3 \<le> d"
  obtain e where d: "d = Suc e" using h(3) by (cases d) auto
  have f: "follow [124, 41, 38, 59] post" using h(1) by (rule follow_mono) auto
  obtain c s' where c: "parseexec e buf s = Inr (c, s')" "drop s' buf = post" "words buf c = a"
    using assms(2) [unfolded reads0_def, rule_format, of "[]" post s e] h f d assms(3) by auto
  have "\<not> starts [124] post" using h(1) by (auto simp: starts_def follow_def)
  then have "peek buf s' [124] = (False, s')" using peek_rest [OF c(2) follow_not(1) [OF f] assms(1), of "[124]"] by simp
  then show "\<exists>c s'. parsepipe d buf s = Inr (c, s') \<and> drop s' buf = post \<and> words buf c = a" using c by (simp add: d)
qed

lemma back_show:
  assumes nz: "0 \<notin> set buf" and "drop s buf = replicate n 38 @ post" "follow [41, 59] post"
  obtains c' s' where "back_loop c buf s = (c', s')" "drop s' buf = post" "words buf c' = (ABack ^^ n) (words buf c)"
  using assms(2)
proof (induction n arbitrary: c s thesis)
  case 0
  have "\<not> starts [38] post" "post = [] \<or> \<not> is_ws (hd post)" using assms(3) by (auto simp: starts_def follow_def is_ws_def whitespace_def)
  then have "peek buf s [38] = (False, s)" using peek_rest [of s buf post "[38]"] 0(2) nz by simp
  then have "back_loop c buf s = (c, s)" by (subst back_loop.simps) simp
  then show ?case using 0 by simp
next
  case (Suc n)
  have d: "drop s buf = 38 # replicate n 38 @ post" using Suc.prems(2) by simp
  have "peek buf s [38] = (True, s)" using peek_rest [OF d _ nz, of "[38]"] by (simp add: starts_def is_ws_def whitespace_def)
  moreover obtain s1 where g: "gettoken buf s = (38, s, s + 1, s1)" "drop s1 buf = dropWhile is_ws (replicate n 38 @ post)"
    by (rule get_symbol [OF d]) auto
  ultimately have e: "back_loop c buf s = back_loop (Backcmd c) buf s1" by (subst back_loop.simps) simp
  have "dropWhile is_ws (replicate n 38 @ post) = replicate n 38 @ post"
    using assms(3) by (cases n; cases post) (auto simp: follow_def is_ws_def whitespace_def)
  then have d1: "drop s1 buf = replicate n 38 @ post" using g(2) by simp
  show ?case
  proof (rule Suc.IH [OF _ d1, of "Backcmd c"])
    fix c' s' assume "back_loop (Backcmd c) buf s1 = (c', s')" "drop s' buf = post" "words buf c' = (ABack ^^ n) (words buf (Backcmd c))"
    then show thesis using Suc.prems(1) e by (simp add: funpow_swap1)
  qed
qed

lemma reads2_if_1:
  assumes "0 \<notin> set buf" "reads1 buf a" "show_cmd 2 a = show_cmd 1 a"
  shows "reads2 buf a"
  unfolding reads2_def
proof (intro allI impI, elim conjE)
  fix n post s d assume h: "follow [41, 59] post" "drop s buf = show_cmd 2 a @ replicate n 38 @ post" "4 * length (drop s buf) + 3 \<le> d"
  have "follow [41, 38, 59] (replicate n 38 @ post)" using h(1) by (cases n) (auto simp: follow_def)
  then obtain c s1 where c: "parsepipe d buf s = Inr (c, s1)" "drop s1 buf = replicate n 38 @ post" "words buf c = a"
    using assms(2) [unfolded reads1_def, rule_format, of "replicate n 38 @ post" s d] h assms(3) by auto
  obtain c' s' where "back_loop c buf s1 = (c', s')" "drop s' buf = post" "words buf c' = (ABack ^^ n) (words buf c)"
    by (rule back_show [OF assms(1) c(2) h(1)])
  then show "\<exists>c s1 c' s'. parsepipe d buf s = Inr (c, s1) \<and> back_loop c buf s1 = (c', s') \<and> drop s' buf = post \<and> words buf c' = (ABack ^^ n) a"
    using c by auto
qed

lemma reads3_if_2:
  assumes "0 \<notin> set buf" "reads2 buf a" "show_cmd 3 a = show_cmd 2 a"
  shows "reads3 buf a"
  unfolding reads3_def
proof (intro allI impI, elim conjE)
  fix post s d assume h: "follow [41] post" "drop s buf = show_cmd 3 a @ post" "4 * length (drop s buf) + 4 \<le> d"
  obtain e where d: "d = Suc e" using h(3) by (cases d) auto
  have f: "follow [41, 59] post" "follow [124, 41, 38, 59] post" using h(1) by (auto simp: follow_def)
  obtain c s1 c' s' where c: "parsepipe e buf s = Inr (c, s1)" "back_loop c buf s1 = (c', s')" "drop s' buf = post" "words buf c' = a"
    using assms(2) [unfolded reads2_def, rule_format, of post s 0 e] h f d assms(3) by auto
  have "\<not> starts [59] post" using h(1) by (auto simp: starts_def follow_def)
  then have "peek buf s' [59] = (False, s')" using peek_rest [OF c(3) follow_not(1) [OF f(2)] assms(1), of "[59]"] by simp
  then show "\<exists>c s'. parseline d buf s = Inr (c, s') \<and> drop s' buf = post \<and> words buf c = a" using c by (simp add: d)
qed

text \<open>A command in parentheses.\<close>

lemma reads0_if_3:
  assumes nz: "0 \<notin> set buf" and r3: "reads3 buf a" and ok: "acmd_ok a" and sh: "show_cmd 0 a = 40 # show_cmd 3 a @ [41]"
  shows "reads0 buf a"
  unfolding reads0_def
proof (intro allI impI, elim conjE)
  fix rs post s d
  assume h: "redirs_ok rs" "follow [124, 41, 38, 59] post" "drop s buf = show_cmd 0 a @ redirs_text rs @ post" "4 * length (drop s buf) + 2 \<le> d"
  have ds: "drop s buf = 40 # show_cmd 3 a @ 41 # redirs_text rs @ post" using h(3) sh by simp
  obtain e where d: "d = Suc (Suc e)" using h(4) by (metis Suc_le_D add_2_eq_Suc' Suc_le_mono)
  have p: "peek buf s [40] = (True, s)" using peek_rest [OF ds _ nz, of "[40]"] by (simp add: starts_def is_ws_def whitespace_def)
  obtain s1 where g: "gettoken buf s = (40, s, s + 1, s1)" "drop s1 buf = dropWhile is_ws (show_cmd 3 a @ 41 # redirs_text rs @ post)"
    by (rule get_symbol [OF ds]) auto
  have d1: "drop s1 buf = show_cmd 3 a @ 41 # redirs_text rs @ post" using g(2) show_drop_ws [OF ok] by (simp add: is_ws_def whitespace_def)
  then have "4 * length (drop s1 buf) + 4 \<le> e" using h(4) ds d by simp
  then obtain c s2 where c: "parseline e buf s1 = Inr (c, s2)" "drop s2 buf = 41 # redirs_text rs @ post" "words buf c = a"
    using r3 [unfolded reads3_def, rule_format, of "41 # redirs_text rs @ post" s1 e] d1 by (auto simp: follow_def)
  have p2: "peek buf s2 [41] = (True, s2)" using peek_rest [OF c(2) _ nz, of "[41]"] by (simp add: starts_def is_ws_def whitespace_def)
  obtain s3 where g2: "gettoken buf s2 = (41, s2, s2 + 1, s3)" "drop s3 buf = dropWhile is_ws (redirs_text rs @ post)"
    by (rule get_symbol [OF c(2)]) auto
  then have d3: "drop s3 buf = redirs_text rs @ post" using redirs_not_ws(1) [OF h(2)] by simp
  obtain c' s' where "parseredirs c buf s3 = Inr (c', s')" "drop s' buf = post" "words buf c' = wrap (words buf c) rs"
    by (rule parseredirs_show [OF nz d3 h(1,2)])
  then show "\<exists>c s'. parseexec d buf s = Inr (c, s') \<and> drop s' buf = post \<and> words buf c = wrap a rs"
    using p p2 g(1) g2(1) c by (simp add: d)
qed

lemma reads0_exec:
  assumes nz: "0 \<notin> set buf" and ok: "acmd_ok (AExec ws)"
  shows "reads0 buf (AExec ws)"
  unfolding reads0_def
proof (intro allI impI, elim conjE)
  fix rs post s d
  assume h: "redirs_ok rs" "follow [124, 41, 38, 59] post" "drop s buf = show_cmd 0 (AExec ws) @ redirs_text rs @ post" "4 * length (drop s buf) + 2 \<le> d"
  obtain e where d: "d = Suc e" using h(4) by (cases d) auto
  have ds: "drop s buf = words_text ws @ redirs_text rs @ post" using h(3) by (simp add: words_text_def)
  show "\<exists>c s'. parseexec d buf s = Inr (c, s') \<and> drop s' buf = post \<and> words buf c = wrap (AExec ws) rs"
  proof (cases ws)
    case Nil
    then have dr: "drop s buf = redirs_text rs @ post" using ds by (simp add: words_text_def)
    have "\<not> starts [40] (redirs_text rs @ post)"
      using follow_not(3) [OF h(2)] redirs_start [of rs] by (cases "rs = []") (auto simp: starts_def)
    then have p: "peek buf s [40] = (False, s)" using peek_rest [OF dr redirs_not_ws(2) [OF h(2)] nz, of "[40]"] by simp
    obtain c s1 where c: "parseredirs (Execcmd []) buf s = Inr (c, s1)" "drop s1 buf = post" "words buf c = wrap (words buf (Execcmd [])) rs"
      by (rule parseredirs_show [OF nz dr h(1,2)])
    obtain s2 where "args_loop 0 c buf s1 = Inr (c, s2)" "drop s2 buf = post" by (rule args_stop [OF nz c(2) h(2)])
    then show ?thesis using p c Nil by (simp add: d)
  next
    case (Cons w vs)
    then have w: "word_ok w" using ok by simp
    have nw: "\<not> is_ws (hd (words_text ws @ redirs_text rs @ post))" "hd (words_text ws @ redirs_text rs @ post) \<notin> {40, 60, 62}"
      using word_hd [OF w] Cons by (auto simp: words_text_def)
    have p: "peek buf s [40] = (False, s)" "peek buf s [60, 62] = (False, s)"
      using peek_rest [OF ds _ nz, of "[40]"] peek_rest [OF ds _ nz, of "[60, 62]"] nw by (auto simp: starts_def)
    then have r: "parseredirs (Execcmd []) buf s = Inr (Execcmd [], s)" by (subst parseredirs.simps) simp
    obtain c s' where "args_loop (length []) (Execcmd []) buf s = Inr (c, s')" "drop s' buf = post"
      "words buf c = wrap (AExec (map (wtext buf) [] @ ws)) rs"
      by (rule args_show [OF nz ds _ _ h(1,2), of "[]"]) (use ok Cons in auto)
    then show ?thesis using p r by (simp add: d)
  qed
qed

lemma reads0_redir:
  assumes "reads0 buf a" "word_ok f" "(mode, fd) \<in> {(0, 0), (513, 1)}"
  shows "reads0 buf (ARedir a f mode fd)"
  unfolding reads0_def
proof (intro allI impI, elim conjE)
  fix rs post s d
  assume h: "redirs_ok rs" "follow [124, 41, 38, 59] post" "drop s buf = show_cmd 0 (ARedir a f mode fd) @ redirs_text rs @ post" "4 * length (drop s buf) + 2 \<le> d"
  then show "\<exists>c s'. parseexec d buf s = Inr (c, s') \<and> drop s' buf = post \<and> words buf c = wrap (ARedir a f mode fd) rs"
    using assms(1) [unfolded reads0_def, rule_format, of "(f, mode, fd) # rs" post s d] assms(2,3) by simp
qed

lemma reads1_pipe:
  assumes nz: "0 \<notin> set buf" and l: "reads0 buf l" and r: "reads1 buf r" and ok: "acmd_ok r"
  shows "reads1 buf (APipe l r)"
  unfolding reads1_def
proof (intro allI impI, elim conjE)
  fix post s d assume h: "follow [41, 38, 59] post" "drop s buf = show_cmd 1 (APipe l r) @ post" "4 * length (drop s buf) + 3 \<le> d"
  obtain e where d: "d = Suc e" using h(3) by (cases d) auto
  have ds: "drop s buf = show_cmd 0 l @ 124 # show_cmd 1 r @ post" using h(2) by (simp add: paren_def)
  then obtain c s1 where c: "parseexec e buf s = Inr (c, s1)" "drop s1 buf = 124 # show_cmd 1 r @ post" "words buf c = l"
    using l [unfolded reads0_def, rule_format, of "[]" "124 # show_cmd 1 r @ post" s e] h(3) d by (auto simp: follow_def)
  have p: "peek buf s1 [124] = (True, s1)" using peek_rest [OF c(2) _ nz, of "[124]"] by (simp add: starts_def is_ws_def whitespace_def)
  obtain s2 where g: "gettoken buf s1 = (124, s1, s1 + 1, s2)" "drop s2 buf = dropWhile is_ws (show_cmd 1 r @ post)"
    by (rule get_symbol [OF c(2)]) auto
  have "post = [] \<or> \<not> is_ws (hd post)" using h(1) by (auto simp: follow_def is_ws_def whitespace_def)
  then have d2: "drop s2 buf = show_cmd 1 r @ post" using g(2) show_drop_ws [OF ok] by simp
  then obtain c' s' where "parsepipe e buf s2 = Inr (c', s')" "drop s' buf = post" "words buf c' = r"
    using r [unfolded reads1_def, rule_format, of post s2 e] h(1,3) ds d by auto
  then show "\<exists>c s'. parsepipe d buf s = Inr (c, s') \<and> drop s' buf = post \<and> words buf c = APipe l r"
    using c p g(1) by (simp add: d)
qed

lemma reads2_back:
  assumes "reads2 buf c"
  shows "reads2 buf (ABack c)"
  unfolding reads2_def
proof (intro allI impI, elim conjE)
  fix n post s d assume h: "follow [41, 59] post" "drop s buf = show_cmd 2 (ABack c) @ replicate n 38 @ post" "4 * length (drop s buf) + 3 \<le> d"
  then show "\<exists>b s1 c' s'. parsepipe d buf s = Inr (b, s1) \<and> back_loop b buf s1 = (c', s') \<and> drop s' buf = post \<and> words buf c' = (ABack ^^ n) (ABack c)"
    using assms [unfolded reads2_def, rule_format, of post s "Suc n" d] by (simp add: paren_def funpow_swap1)
qed

lemma reads3_list:
  assumes nz: "0 \<notin> set buf" and l: "reads2 buf l" and r: "reads3 buf r" and ok: "acmd_ok r"
  shows "reads3 buf (AList l r)"
  unfolding reads3_def
proof (intro allI impI, elim conjE)
  fix post s d assume h: "follow [41] post" "drop s buf = show_cmd 3 (AList l r) @ post" "4 * length (drop s buf) + 4 \<le> d"
  obtain e where d: "d = Suc e" using h(3) by (cases d) auto
  have ds: "drop s buf = show_cmd 2 l @ 59 # show_cmd 3 r @ post" using h(2) by (simp add: paren_def)
  then obtain b s0 c s1 where c: "parsepipe e buf s = Inr (b, s0)" "back_loop b buf s0 = (c, s1)" "drop s1 buf = 59 # show_cmd 3 r @ post" "words buf c = l"
    using l [unfolded reads2_def, rule_format, of "59 # show_cmd 3 r @ post" s 0 e] h(3) d by (auto simp: follow_def)
  have p: "peek buf s1 [59] = (True, s1)" using peek_rest [OF c(3) _ nz, of "[59]"] by (simp add: starts_def is_ws_def whitespace_def)
  obtain s2 where g: "gettoken buf s1 = (59, s1, s1 + 1, s2)" "drop s2 buf = dropWhile is_ws (show_cmd 3 r @ post)"
    by (rule get_symbol [OF c(3)]) auto
  have "post = [] \<or> \<not> is_ws (hd post)" using h(1) by (auto simp: follow_def is_ws_def whitespace_def)
  then have d2: "drop s2 buf = show_cmd 3 r @ post" using g(2) show_drop_ws [OF ok] by simp
  then obtain c' s' where "parseline e buf s2 = Inr (c', s')" "drop s' buf = post" "words buf c' = r"
    using r [unfolded reads3_def, rule_format, of post s2 e] h(1,3) ds d by auto
  then show "\<exists>c s'. parseline d buf s = Inr (c, s') \<and> drop s' buf = post \<and> words buf c = AList l r"
    using c p g(1) by (simp add: d)
qed

lemma reads_all:
  assumes nz: "0 \<notin> set buf" and "acmd_ok a"
  shows "reads0 buf a \<and> reads1 buf a \<and> reads2 buf a \<and> reads3 buf a"
  using assms(2)
proof (induction a)
  case (AExec ws)
  then have "reads0 buf (AExec ws)" by (rule reads0_exec [OF nz])
  moreover from reads1_if_0 [OF nz this] have "reads1 buf (AExec ws)" by simp
  moreover from reads2_if_1 [OF nz this] have "reads2 buf (AExec ws)" by simp
  moreover from reads3_if_2 [OF nz this] have "reads3 buf (AExec ws)" by simp
  ultimately show ?case by blast
next
  case (ARedir a f mode fd)
  then have "reads0 buf (ARedir a f mode fd)" by (intro reads0_redir) auto
  moreover from reads1_if_0 [OF nz this] have "reads1 buf (ARedir a f mode fd)" by simp
  moreover from reads2_if_1 [OF nz this] have "reads2 buf (ARedir a f mode fd)" by simp
  moreover from reads3_if_2 [OF nz this] have "reads3 buf (ARedir a f mode fd)" by simp
  ultimately show ?case by blast
next
  case (APipe l r)
  then have "reads1 buf (APipe l r)" by (intro reads1_pipe [OF nz]) auto
  moreover from reads2_if_1 [OF nz this] have "reads2 buf (APipe l r)" by (simp add: paren_def)
  moreover from reads3_if_2 [OF nz this] have "reads3 buf (APipe l r)" by (simp add: paren_def)
  moreover from reads0_if_3 [OF nz this APipe.prems] have "reads0 buf (APipe l r)" by (simp add: paren_def)
  ultimately show ?case by blast
next
  case (AList l r)
  then have "reads3 buf (AList l r)" by (intro reads3_list [OF nz]) auto
  moreover from reads0_if_3 [OF nz this AList.prems] have "reads0 buf (AList l r)" by (simp add: paren_def)
  moreover from reads1_if_0 [OF nz this] have "reads1 buf (AList l r)" by (simp add: paren_def)
  moreover from reads2_if_1 [OF nz this] have "reads2 buf (AList l r)" by (simp add: paren_def)
  ultimately show ?case by blast
next
  case (ABack c)
  then have "reads2 buf (ABack c)" by (intro reads2_back) auto
  moreover from reads3_if_2 [OF nz this] have "reads3 buf (ABack c)" by (simp add: paren_def)
  moreover from reads0_if_3 [OF nz this ABack.prems] have "reads0 buf (ABack c)" by (simp add: paren_def)
  moreover from reads1_if_0 [OF nz this] have "reads1 buf (ABack c)" by (simp add: paren_def)
  ultimately show ?case by blast
qed

lemma show_no_nul: "acmd_ok a \<Longrightarrow> 0 \<notin> set (show_cmd k a)"
  by (induction a arbitrary: k) (auto simp: paren_def redir_text_def word_ok_def is_word_def)

text \<open>
  C36: The parser inverts the printer: for every well-formed command, with any nesting of lists,
  pipes, redirections, background commands and parentheses, parsing its printed text gives a command
  tree whose strings, as \<open>runcmd\<close> finds them after \<open>nulterminate\<close>, are those of the command.
\<close>

theorem parse_show:
  assumes "acmd_ok a"
  shows "\<exists>c buf'. parsecmd (show_cmd 3 a) = Inr (c, buf') \<and> view buf' c = a"
proof -
  let ?t = "show_cmd 3 a"
  have nz: "0 \<notin> set ?t" using show_no_nul [OF assms] .
  then have r: "reads3 ?t a" using reads_all assms by blast
  then obtain c s where c: "parseline (4 * length ?t + 4) ?t 0 = Inr (c, s)" "drop s ?t = []" "words ?t c = a"
    using r [unfolded reads3_def, rule_format, of "[]" 0 "4 * length ?t + 4"] by (auto simp: follow_def)
  have g: "good (4 * length ?t + 4 < 4 * (length ?t - 0) + 4) ?t 0 (parseline (4 * length ?t + 4) ?t 0)"
    by (rule parser_good(1) [OF nz]) simp
  then have ok: "cmd_ok ?t c" "s \<le> length ?t" using c(1) by auto
  have "skip_ws ?t s = length ?t" using c(2) ok(2) by (simp add: skip_ws_drop)
  then have "parsecmd ?t = Inr (c, nulterminate c ?t)" using c(1) by (simp add: parsecmd_Inr)
  then show ?thesis using nulterminate_view [OF ok(1)] c(3) by auto
qed

theorem parse_show_witness:
  "\<exists>c buf'. parsecmd [40, 108, 115, 32, 59, 119, 99, 32, 38, 41, 62, 102, 32] = Inr (c, buf') \<and>
     view buf' c = ARedir (AList (AExec [[108, 115]]) (ABack (AExec [[119, 99]]))) [102] 513 1"
  using parse_show [of "ARedir (AList (AExec [[108, 115]]) (ABack (AExec [[119, 99]]))) [102] 513 1"]
  by (simp add: word_ok_def is_word_def whitespace_def symbols_def MAXARGS_def paren_def redir_text_def)

end
