(* ===== verification/Runcmd.thy ===== *)
theory Runcmd
  imports Sh
begin

text \<open>
  \<open>runcmd\<close> of \<open>sh.c\<close>: the processes a command is run by, the descriptors they pass on and the programs
  they start. A process is the list of what it does up to its exit; descriptor tables are those
  of the kernel, where a new descriptor is the lowest free one. Which calls of \<open>open\<close>, \<open>fork\<close> and
  \<open>pipe\<close> succeed is an argument.
\<close>

section \<open>Definitions\<close>

text \<open>What a descriptor stands for; a pipe has the number of its call.\<close>

datatype desc = Inherited nat | FileD "u8 list" int | PipeR nat | PipeW nat

type_synonym fdtab = "desc option list"

definition close_fd :: "nat \<Rightarrow> fdtab \<Rightarrow> fdtab" where
  "close_fd n t = t[n := None]"

definition new_fd :: "desc \<Rightarrow> fdtab \<Rightarrow> (nat \<times> fdtab) option" where
  "new_fd d t = map_option (\<lambda>i. (i, t[i := Some d])) (find (\<lambda>i. t ! i = None) [0..<length t])"

definition dup_fd :: "nat \<Rightarrow> fdtab \<Rightarrow> fdtab" where
  "dup_fd n t = (case t ! n of None \<Rightarrow> t | Some d \<Rightarrow> (case new_fd d t of None \<Rightarrow> t | Some (_, t') \<Rightarrow> t'))"

text \<open>\<open>ok n\<close>: whether the \<open>n\<close>th call of \<open>fork\<close> or \<open>pipe\<close> succeeds, the calls of a child counted first.\<close>

record shell_env =
  can_open :: "u8 list \<Rightarrow> int \<Rightarrow> bool"
  ok :: "nat \<Rightarrow> bool"

text \<open>
  A call of \<open>exec\<close> (which returns only to print a message), a child, a \<open>wait\<close> with the descriptors
  open at that time, and a message.
\<close>

datatype sev = Launch "u8 list list" fdtab | Spawn "sev list" | Waits fdtab | Says string

fun runcmd :: "shell_env \<Rightarrow> u8 list \<Rightarrow> cmd \<Rightarrow> fdtab \<Rightarrow> nat \<Rightarrow> sev list \<times> nat" where
  "runcmd e buf (Execcmd ws) t n =
     (if ws = [] then [] else [Launch (map (\<lambda>w. cstr buf (fst w)) ws) t], n)"
| "runcmd e buf (Redircmd c f mode fd) t n =
     (if can_open e (cstr buf (fst f)) mode then
        case new_fd (FileD (cstr buf (fst f)) mode) (close_fd (nat fd) t) of
          None \<Rightarrow> ([Says ''open failed''], n)
        | Some (_, t) \<Rightarrow> runcmd e buf c t n
      else ([Says ''open failed''], n))"
| "runcmd e buf (Listcmd l r) t n =
     (if ok e n then
        let (ls, n) = runcmd e buf l t (n + 1); (rs, n) = runcmd e buf r t n in (Spawn ls # Waits t # rs, n)
      else ([Says ''fork''], n + 1))"
| "runcmd e buf (Pipecmd l r) t n =
     (case Option.bind (new_fd (PipeR n) t) (\<lambda>(p0, t). map_option (\<lambda>(p1, t). (p0, p1, t)) (new_fd (PipeW n) t)) of
        None \<Rightarrow> ([Says ''pipe''], n + 1)
      | Some (p0, p1, t) \<Rightarrow>
          if \<not> ok e n then ([Says ''pipe''], n + 1)
          else if \<not> ok e (n + 1) then ([Says ''fork''], n + 2)
          else let (ls, m) = runcmd e buf l (close_fd p1 (close_fd p0 (dup_fd p1 (close_fd 1 t)))) (n + 2) in
            if \<not> ok e m then ([Spawn ls, Says ''fork''], m + 1)
            else let (rs, m) = runcmd e buf r (close_fd p1 (close_fd p0 (dup_fd p0 (close_fd 0 t)))) (m + 1);
                     t = close_fd p1 (close_fd p0 t)
              in ([Spawn ls, Spawn rs, Waits t, Waits t], m))"
| "runcmd e buf (Backcmd c) t n =
     (if ok e n then let (cs, n) = runcmd e buf c t (n + 1) in ([Spawn cs], n)
      else ([Says ''fork''], n + 1))"

section \<open>What is started, and with which descriptors\<close>

fun launches :: "sev list \<Rightarrow> (u8 list list \<times> fdtab) list" where
  "launches [] = []"
| "launches (Launch a t # es) = (a, t) # launches es"
| "launches (Spawn s # es) = launches s @ launches es"
| "launches (Waits t # es) = launches es"
| "launches (Says m # es) = launches es"

fun waits :: "sev list \<Rightarrow> fdtab list" where
  "waits [] = []"
| "waits (Launch a t # es) = waits es"
| "waits (Spawn s # es) = waits s @ waits es"
| "waits (Waits t # es) = t # waits es"
| "waits (Says m # es) = waits es"

text \<open>
  What a command means: the programs in the order of the line, with the descriptors each gets. A
  redirection replaces one descriptor, a pipe the output of its left side and the input of its right
  side. The numbers of the pipes are those of \<open>runcmd\<close>.
\<close>

fun wiring :: "(u8 list \<Rightarrow> int \<Rightarrow> bool) \<Rightarrow> acmd \<Rightarrow> fdtab \<Rightarrow> nat \<Rightarrow> (u8 list list \<times> fdtab) list \<times> nat" where
  "wiring op (AExec ws) t n = (if ws = [] then [] else [(ws, t)], n)"
| "wiring op (ARedir c f mode fd) t n = (if op f mode then wiring op c (t[nat fd := Some (FileD f mode)]) n else ([], n))"
| "wiring op (AList l r) t n = (let (a, n) = wiring op l t (n + 1); (b, n) = wiring op r t n in (a @ b, n))"
| "wiring op (APipe l r) t n =
     (let (a, m) = wiring op l (t[1 := Some (PipeW n)]) (n + 2); (b, m) = wiring op r (t[0 := Some (PipeR n)]) (m + 1)
      in (a @ b, m))"
| "wiring op (ABack c) t n = wiring op c t (n + 1)"

text \<open>The three standard descriptors and no other are open.\<close>

definition std_fds :: "fdtab \<Rightarrow> bool" where
  "std_fds t \<longleftrightarrow> length t = 16 \<and> (\<forall>i < 16. t ! i = None \<longleftrightarrow> 3 \<le> i)"

lemma std_fds_upd: "std_fds t \<Longrightarrow> i < 3 \<Longrightarrow> std_fds (t[i := Some d])"
  by (auto simp: std_fds_def nth_list_update)

lemma new_fd_lowest:
  assumes "i < length t" "t ! i = None" "\<And>j. j < i \<Longrightarrow> t ! j \<noteq> None"
  shows "new_fd d t = Some (i, t[i := Some d])"
proof -
  have "find (\<lambda>i. t ! i = None) [0..<length t] = Some i" using assms by (auto simp: find_Some_iff)
  then show ?thesis by (simp add: new_fd_def)
qed

text \<open>The lowest free descriptor: the one just closed, or the first two behind the standard ones.\<close>

lemma std_reopen: "std_fds t \<Longrightarrow> i < 3 \<Longrightarrow> new_fd d (close_fd i t) = Some (i, t[i := Some d])"
  using new_fd_lowest [of i "close_fd i t" d] by (auto simp: std_fds_def close_fd_def simp del: not_None_eq)

definition with_pipe :: "nat \<Rightarrow> fdtab \<Rightarrow> fdtab" where
  "with_pipe n t = t[3 := Some (PipeR n), 4 := Some (PipeW n)]"

lemma dup_lowest:
  assumes "t ! n = Some d" "i < length t" "t ! i = None" "\<And>j. j < i \<Longrightarrow> t ! j \<noteq> None"
  shows "dup_fd n t = t[i := Some d]"
  using new_fd_lowest [OF assms(2-4), of d] assms(1) by (simp add: dup_fd_def)

lemma std_pipe:
  assumes "std_fds t"
  shows "new_fd (PipeR n) t = Some (3, t[3 := Some (PipeR n)])"
    "new_fd (PipeW n) (t[3 := Some (PipeR n)]) = Some (4, with_pipe n t)"
    "close_fd 4 (close_fd 3 (dup_fd 4 (close_fd 1 (with_pipe n t)))) = t[1 := Some (PipeW n)]"
    "close_fd 4 (close_fd 3 (dup_fd 3 (close_fd 0 (with_pipe n t)))) = t[0 := Some (PipeR n)]"
    "close_fd 4 (close_fd 3 (with_pipe n t)) = t"
proof -
  have t: "length t = 16" "\<And>i. i < 16 \<Longrightarrow> t ! i = None \<longleftrightarrow> 3 \<le> i" using assms by (auto simp: std_fds_def)
  have t34: "t ! 3 = None" "t ! 4 = None" using t(2) by auto
  show "new_fd (PipeR n) t = Some (3, t[3 := Some (PipeR n)])" using t by (intro new_fd_lowest) auto
  show "new_fd (PipeW n) (t[3 := Some (PipeR n)]) = Some (4, with_pipe n t)"
    unfolding with_pipe_def by (rule new_fd_lowest) (use t in \<open>auto simp: nth_list_update simp del: not_None_eq\<close>)
  have "dup_fd 4 (close_fd 1 (with_pipe n t)) = (close_fd 1 (with_pipe n t))[1 := Some (PipeW n)]"
    by (rule dup_lowest) (use t in \<open>auto simp: with_pipe_def close_fd_def nth_list_update simp del: not_None_eq\<close>)
  then show "close_fd 4 (close_fd 3 (dup_fd 4 (close_fd 1 (with_pipe n t)))) = t[1 := Some (PipeW n)]"
    using t(1) t34 by (auto simp: with_pipe_def close_fd_def nth_list_update intro!: nth_equalityI)
  have "dup_fd 3 (close_fd 0 (with_pipe n t)) = (close_fd 0 (with_pipe n t))[0 := Some (PipeR n)]"
    by (rule dup_lowest) (use t in \<open>auto simp: with_pipe_def close_fd_def nth_list_update simp del: not_None_eq\<close>)
  then show "close_fd 4 (close_fd 3 (dup_fd 3 (close_fd 0 (with_pipe n t)))) = t[0 := Some (PipeR n)]"
    using t(1) t34 by (auto simp: with_pipe_def close_fd_def nth_list_update intro!: nth_equalityI)
  show "close_fd 4 (close_fd 3 (with_pipe n t)) = t"
    using t(1) t34 by (auto simp: with_pipe_def close_fd_def nth_list_update intro!: nth_equalityI)
qed

lemma runcmd_sound:
  assumes "\<forall>n. ok e n"
  shows "std_fds t \<Longrightarrow> acmd_ok (view buf c) \<Longrightarrow> runcmd e buf c t n = (es, m) \<Longrightarrow>
    wiring (can_open e) (view buf c) t n = (launches es, m) \<and> (\<forall>w\<in>set (waits es). std_fds w)"
proof (induction c arbitrary: t n es m)
  case (Redircmd c f mode fd)
  have fd: "nat fd < 3" using Redircmd.prems(2) by auto
  show ?case using Redircmd.prems Redircmd.IH [OF std_fds_upd [OF Redircmd.prems(1) fd]] std_reopen [OF Redircmd.prems(1) fd]
    by (auto split: if_splits)
next
  case (Pipecmd l r)
  obtain ls k where l: "runcmd e buf l (t[1 := Some (PipeW n)]) (n + 2) = (ls, k)" by fastforce
  obtain rs k' where r: "runcmd e buf r (t[0 := Some (PipeR n)]) (k + 1) = (rs, k')" by fastforce
  have "es = [Spawn ls, Spawn rs, Waits t, Waits t]" "m = k'"
    using Pipecmd.prems(3) assms l r by (simp_all add: std_pipe [OF Pipecmd.prems(1)] std_pipe(3) [OF Pipecmd.prems(1), simplified])
  then show ?case
    using Pipecmd.IH(1) [OF std_fds_upd [OF Pipecmd.prems(1)] _ l] Pipecmd.IH(2) [OF std_fds_upd [OF Pipecmd.prems(1)] _ r] Pipecmd.prems(1,2)
    by auto
next
  case (Listcmd l r)
  obtain ls k where l: "runcmd e buf l t (n + 1) = (ls, k)" by fastforce
  obtain rs k' where r: "runcmd e buf r t k = (rs, k')" by fastforce
  have "es = Spawn ls # Waits t # rs" "m = k'" using Listcmd.prems(3) assms l r by simp_all
  then show ?case using Listcmd.IH(1) [OF Listcmd.prems(1) _ l] Listcmd.IH(2) [OF Listcmd.prems(1) _ r] Listcmd.prems(1,2) by auto
next
  case (Backcmd c)
  obtain ls k where l: "runcmd e buf c t (n + 1) = (ls, k)" by fastforce
  then show ?case using Backcmd.IH [OF Backcmd.prems(1) _ l] Backcmd.prems assms by auto
qed auto


lemma std_demo: "std_fds (Some a # Some b # Some c # replicate 13 None)"
  by (auto simp: std_fds_def nth_Cons split: nat.splits)


end
