(* ===== verification/Bio.thy ===== *)
theory Bio
  imports Prelude
begin

text \<open>
  Sleep locks (\<open>sleeplock.c\<close>), the buffer cache (\<open>bio.c\<close>) and the disk under it
  (\<open>memide.c\<close>, the synchronous driver). Buffers are named by their index in
  \<open>bcache.buf\<close>; \<open>lru\<close> is the doubly linked list as the sequence of indices from
  \<open>head.next\<close> to \<open>head.prev\<close>. The two bits of \<open>flags\<close> are two booleans. A block is its
  bytes as a function of the offset, of which the code uses 0 to 511. Every operation runs as one
  process until it returns: a lock that is taken makes it \<open>Sleeps\<close>. \<open>wakes\<close> records the
  channels passed to \<open>wakeup\<close> and \<open>dwrites\<close> the blocks written to the disk, oldest first.
\<close>

section \<open>Sleep locks\<close>

record sleeplock =
  sl_locked :: bool
  sl_pid :: int

definition initsleeplock :: sleeplock where
  "initsleeplock = \<lparr>sl_locked = False, sl_pid = 0\<rparr>"

definition acquiresleep :: "chan \<Rightarrow> int \<Rightarrow> sleeplock \<Rightarrow> sleeplock res" where
  "acquiresleep ch pid lk =
     (if sl_locked lk then Inl (Sleeps ch) else Inr (lk\<lparr>sl_locked := True, sl_pid := pid\<rparr>))"

definition releasesleep :: "sleeplock \<Rightarrow> sleeplock" where
  "releasesleep lk = lk\<lparr>sl_locked := False, sl_pid := 0\<rparr>"

definition holdingsleep :: "sleeplock \<Rightarrow> bool" where
  "holdingsleep lk = sl_locked lk"

section \<open>Buffers and the disk\<close>

type_synonym block = "nat \<Rightarrow> u8"

definition BSIZE :: nat where "BSIZE = 512"
definition NBUF :: nat where "NBUF = 30"

record buf =
  b_valid :: bool
  b_dirty :: bool
  b_dev :: u32
  b_blockno :: u32
  b_lock :: sleeplock
  b_refcnt :: u32
  b_data :: block

record bstate =
  bufs :: "buf list"
  lru :: "nat list"
  disk :: "u32 \<Rightarrow> block"
  disksize :: u32
  dwrites :: "(u32 \<times> block) list"
  wakes :: "chan list"
  curpid :: int

text \<open>\<open>memide.c\<close>\<close>

definition ideinit :: "u64 \<Rightarrow> 'z bstate_scheme \<Rightarrow> 'z bstate_scheme" where
  "ideinit img_size s = s\<lparr>disksize := ucast img_size div 512\<rparr>"

definition iderw :: "nat \<Rightarrow> 'z bstate_scheme \<Rightarrow> 'z bstate_scheme res" where
  "iderw i s =
     (let b = bufs s ! i in
      if \<not> holdingsleep (b_lock b) then Inl (Panic ''iderw: buf not locked'')
      else if b_valid b \<and> \<not> b_dirty b then Inl (Panic ''iderw: nothing to do'')
      else if b_dev b \<noteq> 1 then Inl (Panic ''iderw: request not for disk 1'')
      else if b_blockno b \<ge> disksize s then Inl (Panic ''iderw: block out of range'')
      else if b_dirty b then
        Inr (s\<lparr>bufs := (bufs s)[i := b\<lparr>b_dirty := False, b_valid := True\<rparr>],
               disk := (disk s)(b_blockno b := b_data b),
               dwrites := dwrites s @ [(b_blockno b, b_data b)]\<rparr>)
      else Inr (s\<lparr>bufs := (bufs s)[i := b\<lparr>b_data := disk s (b_blockno b), b_valid := True\<rparr>]\<rparr>))"

section \<open>The cache\<close>

text \<open>\<open>binit\<close> inserts each buffer at the head; the buffers are zero before.\<close>

definition zero_buf :: buf where
  "zero_buf = \<lparr>b_valid = False, b_dirty = False, b_dev = 0, b_blockno = 0, b_lock = initsleeplock,
     b_refcnt = 0, b_data = \<lambda>_. 0\<rparr>"

fun binit_loop :: "nat \<Rightarrow> nat \<Rightarrow> 'z bstate_scheme \<Rightarrow> 'z bstate_scheme" where
  "binit_loop i 0 s = s"
| "binit_loop i (Suc n) s =
     binit_loop (Suc i) n (s\<lparr>bufs := upd_at i (\<lambda>b. b\<lparr>b_lock := initsleeplock\<rparr>) (bufs s), lru := i # lru s\<rparr>)"

definition binit :: "'z bstate_scheme \<Rightarrow> 'z bstate_scheme" where
  "binit s = binit_loop 0 NBUF (s\<lparr>lru := []\<rparr>)"

definition lock_buf :: "nat \<Rightarrow> 'z bstate_scheme \<Rightarrow> (nat \<times> 'z bstate_scheme) res" where
  "lock_buf i s = rbind (acquiresleep (Ch_buflock i) (curpid s) (b_lock (bufs s ! i)))
     (\<lambda>lk. Inr (i, s\<lparr>bufs := (bufs s)[i := (bufs s ! i)\<lparr>b_lock := lk\<rparr>]\<rparr>))"

definition bget :: "u32 \<Rightarrow> u32 \<Rightarrow> 'z bstate_scheme \<Rightarrow> (nat \<times> 'z bstate_scheme) res" where
  "bget dev blockno s =
     (case find (\<lambda>i. b_dev (bufs s ! i) = dev \<and> b_blockno (bufs s ! i) = blockno) (lru s) of
        Some i \<Rightarrow>
          lock_buf i (s\<lparr>bufs := (bufs s)[i := (bufs s ! i)\<lparr>b_refcnt := b_refcnt (bufs s ! i) + 1\<rparr>]\<rparr>)
      | None \<Rightarrow>
         (case find (\<lambda>i. b_refcnt (bufs s ! i) = 0 \<and> \<not> b_dirty (bufs s ! i)) (rev (lru s)) of
            Some i \<Rightarrow>
              lock_buf i (s\<lparr>bufs := (bufs s)[i := (bufs s ! i)\<lparr>b_dev := dev, b_blockno := blockno,
                 b_valid := False, b_dirty := False, b_refcnt := 1\<rparr>]\<rparr>)
          | None \<Rightarrow> Inl (Panic ''bget: no buffers'')))"

definition bread :: "u32 \<Rightarrow> u32 \<Rightarrow> 'z bstate_scheme \<Rightarrow> (nat \<times> 'z bstate_scheme) res" where
  "bread dev blockno s =
     rbind (bget dev blockno s) (\<lambda>(i, s).
       if \<not> b_valid (bufs s ! i) then rbind (iderw i s) (\<lambda>s. Inr (i, s)) else Inr (i, s))"

definition bwrite :: "nat \<Rightarrow> 'z bstate_scheme \<Rightarrow> 'z bstate_scheme res" where
  "bwrite i s =
     (if \<not> holdingsleep (b_lock (bufs s ! i)) then Inl (Panic ''bwrite'')
      else iderw i (s\<lparr>bufs := (bufs s)[i := (bufs s ! i)\<lparr>b_dirty := True\<rparr>]\<rparr>))"

definition brelse :: "nat \<Rightarrow> 'z bstate_scheme \<Rightarrow> 'z bstate_scheme res" where
  "brelse i s =
     (if \<not> holdingsleep (b_lock (bufs s ! i)) then Inl (Panic ''brelse'')
      else let s = s\<lparr>bufs := (bufs s)[i := (bufs s ! i)\<lparr>b_lock := releasesleep (b_lock (bufs s ! i))\<rparr>],
                     wakes := wakes s @ [Ch_buflock i]\<rparr>;
               s = s\<lparr>bufs := (bufs s)[i := (bufs s ! i)\<lparr>b_refcnt := b_refcnt (bufs s ! i) - 1\<rparr>]\<rparr>
           in Inr (if b_refcnt (bufs s ! i) = 0 then s\<lparr>lru := i # remove1 i (lru s)\<rparr> else s))"

text \<open>What the callers do with a buffer they hold: change its data, and set \<open>B_DIRTY\<close>.\<close>

definition set_data :: "nat \<Rightarrow> block \<Rightarrow> 'z bstate_scheme \<Rightarrow> 'z bstate_scheme" where
  "set_data i d s = s\<lparr>bufs := (bufs s)[i := (bufs s ! i)\<lparr>b_data := d\<rparr>]\<rparr>"

definition pin_buf :: "nat \<Rightarrow> 'z bstate_scheme \<Rightarrow> 'z bstate_scheme" where
  "pin_buf i s = s\<lparr>bufs := (bufs s)[i := (bufs s ! i)\<lparr>b_dirty := True\<rparr>]\<rparr>"

definition buf_data :: "'z bstate_scheme \<Rightarrow> nat \<Rightarrow> block" where
  "buf_data s i = b_data (bufs s ! i)"

section \<open>What the cache represents\<close>

text \<open>\<open>cached s i b\<close>: buffer \<open>i\<close> is the valid copy of block \<open>b\<close> of the disk.\<close>

definition cached :: "'z bstate_scheme \<Rightarrow> nat \<Rightarrow> u32 \<Rightarrow> bool" where
  "cached s i b \<longleftrightarrow> i < length (bufs s) \<and> b_dev (bufs s ! i) = 1 \<and> b_blockno (bufs s ! i) = b \<and> b_valid (bufs s ! i)"

definition holds :: "'z bstate_scheme \<Rightarrow> nat \<Rightarrow> u32 \<Rightarrow> bool" where
  "holds s i b \<longleftrightarrow> cached s i b \<and> sl_locked (b_lock (bufs s ! i))"

definition blk :: "'z bstate_scheme \<Rightarrow> u32 \<Rightarrow> block" where
  "blk s b = (case find (\<lambda>i. cached s i b) [0..<length (bufs s)] of Some i \<Rightarrow> b_data (bufs s ! i) | None \<Rightarrow> disk s b)"

definition held :: "'z bstate_scheme \<Rightarrow> u32 set" where
  "held s = {b. \<exists>i. holds s i b}"

definition dirty :: "'z bstate_scheme \<Rightarrow> u32 set" where
  "dirty s = {b. \<exists>i. cached s i b \<and> b_dirty (bufs s ! i)}"

definition buf_ok :: "'z bstate_scheme \<Rightarrow> buf \<Rightarrow> bool" where
  "buf_ok s b \<longleftrightarrow> (b_valid b \<longrightarrow> b_dev b = 1 \<and> b_blockno b < disksize s) \<and>
     (b_dev b \<noteq> 0 \<longrightarrow> b_valid b) \<and> (b_dirty b \<longrightarrow> b_valid b) \<and> (sl_locked (b_lock b) \<longrightarrow> b_valid b) \<and>
     b_refcnt b = (if sl_locked (b_lock b) then 1 else 0) \<and>
     (b_valid b \<and> \<not> b_dirty b \<and> \<not> sl_locked (b_lock b) \<longrightarrow> b_data b = disk s (b_blockno b))"

definition cache_ok :: "'z bstate_scheme \<Rightarrow> bool" where
  "cache_ok s \<longleftrightarrow> length (bufs s) = NBUF \<and> distinct (lru s) \<and> set (lru s) = {..<NBUF} \<and>
     (\<forall>i<NBUF. buf_ok s (bufs s ! i)) \<and>
     (\<forall>i j b. cached s i b \<longrightarrow> cached s j b \<longrightarrow> i = j)"

lemma find_SomeD: "find P xs = Some x \<Longrightarrow> P x \<and> x \<in> set xs"
  by (induction xs) (auto split: if_splits)

lemma cache_okD:
  assumes "cache_ok s"
  shows "length (bufs s) = NBUF" "distinct (lru s)" "set (lru s) = {..<NBUF}" "i < NBUF \<Longrightarrow> buf_ok s (bufs s ! i)"
    "cached s i b \<Longrightarrow> cached s j b \<Longrightarrow> i = j"
  using assms unfolding cache_ok_def by blast+

lemma cached_less: "cached s i b \<Longrightarrow> i < length (bufs s)"
  by (simp add: cached_def)

lemma blk_cached: "cache_ok s \<Longrightarrow> cached s i b \<Longrightarrow> blk s b = b_data (bufs s ! i)"
proof -
  assume ok: "cache_ok s" and c: "cached s i b"
  then have "find (\<lambda>i. cached s i b) [0..<length (bufs s)] = Some i"
    using cache_okD(5) [OF ok c] cached_less [OF c] c unfolding find_upt_Some by blast
  then show ?thesis by (simp add: blk_def)
qed

lemma blk_uncached: "\<forall>i. \<not> cached s i b \<Longrightarrow> blk s b = disk s b"
proof -
  assume "\<forall>i. \<not> cached s i b"
  then have "find (\<lambda>i. cached s i b) [0..<length (bufs s)] = None" by (simp add: find_None_iff)
  then show ?thesis by (simp add: blk_def)
qed

text \<open>
  All operations replace one buffer by one that caches block \<open>b\<close>, and may change that
  block of the disk and the order of the list.
\<close>

lemma buf_update:
  assumes ok: "cache_ok s" and i: "i < NBUF" and s': "bufs s' = (bufs s)[i := x]" "disksize s' = disksize s"
      "distinct (lru s')" "set (lru s') = set (lru s)" "\<And>c. c \<noteq> b \<Longrightarrow> disk s' c = disk s c"
    and x: "buf_ok s' x" "b_valid x" "b_blockno x = b"
    and old: "cached s i b \<or> (\<forall>j. \<not> cached s j b) \<and> \<not> sl_locked (b_lock (bufs s ! i)) \<and> \<not> b_dirty (bufs s ! i)"
  shows "cache_ok s'"
    and "cached s' j c \<longleftrightarrow> (if j = i then c = b else cached s j c)"
    and "holds s' j c \<longleftrightarrow> (if j = i then c = b \<and> sl_locked (b_lock x) else holds s j c)"
    and "blk s' = (blk s)(b := b_data x)"
    and "held s' = (if sl_locked (b_lock x) then insert b (held s) else held s - {b})"
    and "dirty s' = (if b_dirty x then insert b (dirty s) else dirty s - {b})"
proof -
  note l = cache_okD [OF ok]
  have dev: "b_dev x = 1" using x by (simp add: buf_ok_def)
  have c: "cached s' j c \<longleftrightarrow> (if j = i then c = b else cached s j c)" for j c
    using i l(1) s'(1) x dev by (auto simp: cached_def nth_list_update)
  then show "cached s' j c \<longleftrightarrow> (if j = i then c = b else cached s j c)" .
  have only: "\<not> cached s j b" if "j \<noteq> i" for j using old l(5) that by blast
  have hold: "holds s' j c \<longleftrightarrow> (if j = i then c = b \<and> sl_locked (b_lock x) else holds s j c)" for j c
    using c [of j c] i l(1) s'(1) by (auto simp: holds_def nth_list_update)
  then show "holds s' j c \<longleftrightarrow> (if j = i then c = b \<and> sl_locked (b_lock x) else holds s j c)" .
  have bok: "buf_ok s' (bufs s' ! j)" if j: "j < NBUF" for j
  proof (cases "j = i")
    case False
    then have same: "bufs s' ! j = bufs s ! j" using s'(1) by simp
    have "b_valid (bufs s ! j) \<Longrightarrow> b_blockno (bufs s ! j) \<noteq> b"
      using only [OF False] l(4) [OF j] j l(1) by (auto simp: cached_def buf_ok_def)
    then show ?thesis using l(4) [OF j] s'(2,5) unfolding same by (auto simp: buf_ok_def)
  qed (use i l(1) s'(1) x in simp)
  have uniq: "j = k" if "cached s' j e" "cached s' k e" for j k e
  proof (cases "j = i \<or> k = i")
    case True
    then show ?thesis using that only unfolding c by (metis (full_types))
  next
    case False
    then show ?thesis using that l(5) [of j e k] unfolding c by simp
  qed
  show ok': "cache_ok s'"
    unfolding cache_ok_def using l(1,3) s'(1,3,4) bok uniq by simp
  show "blk s' = (blk s)(b := b_data x)"
  proof
    fix e
    show "blk s' e = ((blk s)(b := b_data x)) e"
    proof (cases "e = b")
      case True
      have "blk s' b = b_data (bufs s' ! i)" using blk_cached [OF ok'] c [of i b] by simp
      then show ?thesis using True i l(1) s'(1) by simp
    next
      case False
      show ?thesis
      proof (cases "\<exists>j. j \<noteq> i \<and> cached s j e")
        case True
        then obtain j where j: "j \<noteq> i" "cached s j e" by blast
        then show ?thesis using blk_cached [OF ok' , of j e] blk_cached [OF ok j(2)] c [of j e] False s'(1) by simp
      next
        case none: False
        then have "blk s' e = disk s e" using blk_uncached [of s' e] c s'(5) False by metis
        moreover have "blk s e = disk s e"
        proof (cases "cached s i e")
          case True
          then have "\<not> cached s i b" using False by (auto simp: cached_def)
          with old l(4) [OF i] True show ?thesis
            using blk_cached [OF ok True] by (auto simp: buf_ok_def cached_def)
        next
          case False
          then show ?thesis using none blk_uncached [of s e] by metis
        qed
        ultimately show ?thesis using False by simp
      qed
    qed
  qed
  have old_h: "\<not> holds s i e" if "e \<noteq> b" for e using old that by (auto simp: holds_def cached_def)
  show "held s' = (if sl_locked (b_lock x) then insert b (held s) else held s - {b})"
    using old_h only unfolding held_def hold by (auto simp: holds_def) (metis)+
  have old_d: "\<not> (cached s i e \<and> b_dirty (bufs s ! i))" if "e \<noteq> b" for e using old that by (auto simp: cached_def)
  have new_d: "cached s' j e \<and> b_dirty (bufs s' ! j) \<longleftrightarrow> (if j = i then e = b \<and> b_dirty x else cached s j e \<and> b_dirty (bufs s ! j))" for j e
    using c [of j e] i l(1) s'(1) by (auto simp: nth_list_update)
  show "dirty s' = (if b_dirty x then insert b (dirty s) else dirty s - {b})"
    using old_d only unfolding dirty_def new_d by auto (metis)+
qed

lemma buf_ok_bufs [simp]: "buf_ok (s\<lparr>bufs := y\<rparr>) x = buf_ok s x"
  by (simp add: buf_ok_def)

lemma buf_update_same:
  fixes s :: "'z bstate_scheme" and x :: buf
  assumes ok: "cache_ok s" and i: "i < NBUF"
    and x: "buf_ok s x" "b_valid x" "b_blockno x = b"
    and old: "cached s i b \<or> (\<forall>j. \<not> cached s j b) \<and> \<not> sl_locked (b_lock (bufs s ! i)) \<and> \<not> b_dirty (bufs s ! i)"
  defines "s' \<equiv> s\<lparr>bufs := (bufs s)[i := x]\<rparr>"
  shows "cache_ok s'"
    and "holds s' j c \<longleftrightarrow> (if j = i then c = b \<and> sl_locked (b_lock x) else holds s j c)"
    and "blk s' = (blk s)(b := b_data x)"
    and "held s' = (if sl_locked (b_lock x) then insert b (held s) else held s - {b})"
    and "dirty s' = (if b_dirty x then insert b (dirty s) else dirty s - {b})"
proof -
  have s': "bufs s' = (bufs s)[i := x]" "disksize s' = disksize s" "distinct (lru s')" "set (lru s') = set (lru s)"
    "\<And>c. c \<noteq> b \<Longrightarrow> disk s' c = disk s c" "buf_ok s' x"
    using cache_okD(2) [OF ok] x(1) by (simp_all add: s'_def)
  note up = buf_update [OF ok i s' x(2,3) old]
  show "cache_ok s'" by (rule up(1))
  show "holds s' j c \<longleftrightarrow> (if j = i then c = b \<and> sl_locked (b_lock x) else holds s j c)" by (rule up(3))
  show "blk s' = (blk s)(b := b_data x)" by (rule up(4))
  show "held s' = (if sl_locked (b_lock x) then insert b (held s) else held s - {b})" by (rule up(5))
  show "dirty s' = (if b_dirty x then insert b (dirty s) else dirty s - {b})" by (rule up(6))
qed

section \<open>The operations on the represented blocks\<close>

lemma holdsD: "cache_ok s \<Longrightarrow> holds s i b \<Longrightarrow> i < NBUF \<and> cached s i b \<and> sl_locked (b_lock (bufs s ! i)) \<and> b_blockno (bufs s ! i) = b \<and>
    b_valid (bufs s ! i) \<and> buf_ok s (bufs s ! i) \<and> length (bufs s) = NBUF"
  by (auto simp: holds_def cached_def cache_ok_def)

lemma held_clean: "cache_ok s \<Longrightarrow> b \<notin> held s \<Longrightarrow> b \<notin> dirty s \<Longrightarrow> blk s b = disk s b"
proof (cases "\<exists>i. cached s i b")
  case True
  assume a: "cache_ok s" "b \<notin> held s" "b \<notin> dirty s"
  from True obtain i where i: "cached s i b" by blast
  then have "i < NBUF" using cached_less cache_okD(1) [OF a(1)] by metis
  from cache_okD(4) [OF a(1) this] i a(2,3) show ?thesis
    unfolding blk_cached [OF a(1) i] by (auto simp: buf_ok_def held_def holds_def dirty_def cached_def)
qed (use blk_uncached in blast)

lemma spare_buf:
  assumes ok: "cache_ok s" and card: "card (held s \<union> dirty s) < NBUF"
  shows "\<exists>i. find (\<lambda>i. b_refcnt (bufs s ! i) = 0 \<and> \<not> b_dirty (bufs s ! i)) (rev (lru s)) = Some i \<and> i < NBUF \<and>
    \<not> sl_locked (b_lock (bufs s ! i)) \<and> \<not> b_dirty (bufs s ! i)"
proof (rule ccontr)
  assume none: "\<not> ?thesis"
  let ?f = "\<lambda>i. b_blockno (bufs s ! i)"
  have busy: "sl_locked (b_lock (bufs s ! i)) \<or> b_dirty (bufs s ! i)" if "i < NBUF" for i
  proof (rule ccontr)
    assume n: "\<not> ?thesis"
    then have "b_refcnt (bufs s ! i) = 0" using cache_okD(4) [OF ok that] by (simp add: buf_ok_def)
    moreover have "i \<in> set (rev (lru s))" using cache_okD(3) [OF ok] that by simp
    ultimately obtain j where j: "find (\<lambda>i. b_refcnt (bufs s ! i) = 0 \<and> \<not> b_dirty (bufs s ! i)) (rev (lru s)) = Some j"
      using n by (metis (mono_tags, lifting) find_None_iff not_None_eq)
    then have "j \<in> set (rev (lru s))" and p: "b_refcnt (bufs s ! j) = 0 \<and> \<not> b_dirty (bufs s ! j)"
      using find_SomeD [OF j] by simp_all
    then have "j < NBUF" using cache_okD(3) [OF ok] by simp
    moreover from this p have "\<not> sl_locked (b_lock (bufs s ! j))" using cache_okD(4) [OF ok] by (force simp: buf_ok_def)
    ultimately show False using none j p by blast
  qed
  have cached: "cached s i (?f i)" if "i < NBUF" for i
    using busy [OF that] cache_okD(4) [OF ok that] cache_okD(1) [OF ok] that by (auto simp: buf_ok_def cached_def)
  have "?f ` {..<NBUF} \<subseteq> held s \<union> dirty s"
    using busy cached by (auto simp: held_def holds_def dirty_def)
  moreover have "inj_on ?f {..<NBUF}"
    using cached cache_okD(5) [OF ok] by (intro inj_onI) (metis lessThan_iff)
  moreover have "finite (held s \<union> dirty s)"
  proof (rule finite_subset)
    show "held s \<union> dirty s \<subseteq> ?f ` {..<NBUF}"
      using cache_okD(1) [OF ok] by (auto simp: held_def holds_def dirty_def cached_def)
  qed simp
  ultimately have "NBUF \<le> card (held s \<union> dirty s)"
    using card_mono [of "held s \<union> dirty s" "?f ` {..<NBUF}"] by (simp add: card_image)
  then show False using card by simp
qed

lemma bread_ok:
  fixes s :: "'z bstate_scheme"
  assumes ok: "cache_ok s" and b: "b < disksize s" "b \<notin> held s" and card: "b \<in> dirty s \<or> card (held s \<union> dirty s) < NBUF"
  shows "\<exists>i s'. bread 1 b s = Inr (i, s') \<and> cache_ok s' \<and> holds s' i b \<and> blk s' = blk s \<and> disk s' = disk s \<and>
    dirty s' = dirty s \<and> dwrites s' = dwrites s \<and> disksize s' = disksize s \<and> bstate.more s' = bstate.more s \<and>
    held s' = insert b (held s) \<and> (\<forall>j c. holds s j c \<longrightarrow> holds s' j c)"
proof -
  note l = cache_okD [OF ok]
  let ?P = "\<lambda>i. b_dev (bufs s ! i) = 1 \<and> b_blockno (bufs s ! i) = b"
  have unheld: "\<not> holds s i b" for i using b(2) by (auto simp: held_def)
  show ?thesis
  proof (cases "find ?P (lru s)")
    case (Some i)
    from find_SomeD [OF this] have "i \<in> set (lru s)" and P: "?P i" by auto
    then have i: "i < NBUF" using l(3) by simp
    have c: "cached s i b" using P i l(1) l(4) [OF i] by (auto simp: cached_def buf_ok_def)
    then have u: "\<not> sl_locked (b_lock (bufs s ! i))" using unheld [of i] by (simp add: holds_def)
    then have r: "b_refcnt (bufs s ! i) = 0" using l(4) [OF i] by (simp add: buf_ok_def)
    let ?x = "(bufs s ! i)\<lparr>b_refcnt := 1, b_lock := (b_lock (bufs s ! i))\<lparr>sl_locked := True, sl_pid := curpid s\<rparr>\<rparr>"
    let ?s = "s\<lparr>bufs := (bufs s)[i := ?x]\<rparr>"
    have "bread 1 b s = Inr (i, ?s)"
      using Some u r i l(1) c by (simp add: bread_def bget_def lock_buf_def acquiresleep_def cached_def)
    moreover have x: "buf_ok s ?x" "b_valid ?x" "b_blockno ?x = b"
      using l(4) [OF i] c by (auto simp: buf_ok_def cached_def)
    note up = buf_update_same [OF ok i x disjI1 [OF c]]
    moreover have "b \<in> dirty s \<longleftrightarrow> b_dirty (bufs s ! i)" using c l(5) [OF c] unfolding dirty_def by blast
    moreover have "(blk s)(b := b_data (bufs s ! i)) = blk s" using blk_cached [OF ok c] by auto
    moreover have "j \<noteq> i" if "holds s j c" for j c using that u by (auto simp: holds_def)
    ultimately show ?thesis by (intro exI [of _ i] exI [of _ ?s]) auto
  next
    case None
    have un: "\<forall>j. \<not> cached s j b"
      using None l(1,3) by (auto simp: find_None_iff cached_def)
    then have "card (held s \<union> dirty s) < NBUF" using card by (auto simp: dirty_def)
    then obtain i where f: "find (\<lambda>i. b_refcnt (bufs s ! i) = 0 \<and> \<not> b_dirty (bufs s ! i)) (rev (lru s)) = Some i"
      and i: "i < NBUF" and u: "\<not> sl_locked (b_lock (bufs s ! i))" "\<not> b_dirty (bufs s ! i)"
      using spare_buf [OF ok] by blast
    let ?x = "(bufs s ! i)\<lparr>b_dev := 1, b_blockno := b, b_dirty := False, b_refcnt := 1,
       b_lock := (b_lock (bufs s ! i))\<lparr>sl_locked := True, sl_pid := curpid s\<rparr>, b_data := disk s b, b_valid := True\<rparr>"
    let ?s = "s\<lparr>bufs := (bufs s)[i := ?x]\<rparr>"
    have "bread 1 b s = Inr (i, ?s)"
      using None f u i l(1) b(1) by (simp add: bread_def bget_def lock_buf_def acquiresleep_def iderw_def holdingsleep_def Let_def not_le)
    moreover have x: "buf_ok s ?x" "b_valid ?x" "b_blockno ?x = b"
      using b(1) by (auto simp: buf_ok_def)
    have "(\<forall>j. \<not> cached s j b) \<and> \<not> sl_locked (b_lock (bufs s ! i)) \<and> \<not> b_dirty (bufs s ! i)" using un u by blast
    note up = buf_update_same [OF ok i x disjI2 [OF this]]
    moreover have "b \<notin> dirty s" using un by (auto simp: dirty_def)
    moreover have "(blk s)(b := disk s b) = blk s" using blk_uncached [OF un] by auto
    moreover have "j \<noteq> i" if "holds s j c" for j c using that u by (auto simp: holds_def)
    ultimately show ?thesis by (intro exI [of _ i] exI [of _ ?s]) auto
  qed
qed

lemma brelse_ok:
  fixes s :: "'z bstate_scheme"
  assumes ok: "cache_ok s" and h: "holds s i b" and clean: "b \<in> dirty s \<or> blk s b = disk s b"
  shows "\<exists>s'. brelse i s = Inr s' \<and> cache_ok s' \<and> blk s' = blk s \<and> disk s' = disk s \<and>
    dirty s' = dirty s \<and> dwrites s' = dwrites s \<and> disksize s' = disksize s \<and> bstate.more s' = bstate.more s \<and>
    held s' = held s - {b} \<and> (\<forall>j c. holds s j c \<and> c \<noteq> b \<longrightarrow> holds s' j c)"
proof -
  note l = cache_okD [OF ok] and d = holdsD [OF ok h]
  then have i: "i < NBUF" and c: "cached s i b" and bok: "buf_ok s (bufs s ! i)" by auto
  let ?x = "(bufs s ! i)\<lparr>b_lock := releasesleep (b_lock (bufs s ! i)), b_refcnt := 0\<rparr>"
  let ?s = "s\<lparr>bufs := (bufs s)[i := ?x], wakes := wakes s @ [Ch_buflock i], lru := i # remove1 i (lru s)\<rparr>"
  have "b_refcnt (bufs s ! i) = 1" using bok d by (simp add: buf_ok_def)
  then have "brelse i s = Inr ?s"
    using d by (simp add: brelse_def holdingsleep_def Let_def)
  moreover have di: "b \<in> dirty s \<longleftrightarrow> b_dirty (bufs s ! i)" using c l(5) [OF c] unfolding dirty_def by blast
  have x: "buf_ok ?s ?x" "b_valid ?x" "b_blockno ?x = b"
    using bok d clean di blk_cached [OF ok c] by (auto simp: buf_ok_def releasesleep_def)
  have "distinct (lru ?s)" "set (lru ?s) = set (lru s)"
    using l(2,3) i by (auto simp: set_remove1_eq)
  note up = buf_update [of s i ?s ?x b, OF ok i _ _ this _ x disjI1 [OF c]]
  have "cache_ok ?s" "\<And>j e. holds ?s j e \<longleftrightarrow> (if j = i then e = b \<and> sl_locked (b_lock ?x) else holds s j e)"
    "blk ?s = (blk s)(b := b_data ?x)" "held ?s = (if sl_locked (b_lock ?x) then insert b (held s) else held s - {b})"
    "dirty ?s = (if b_dirty ?x then insert b (dirty s) else dirty s - {b})"
    using up by simp_all
  moreover have "e = b" if "holds s i e" for e using that d by (auto simp: holds_def cached_def)
  moreover have "(blk s)(b := b_data (bufs s ! i)) = blk s" using blk_cached [OF ok c] by auto
  ultimately show ?thesis using di by (intro exI [of _ ?s]) (auto simp: releasesleep_def)
qed

lemma same_holds:
  assumes "cache_ok s" "holds s i b" and x: "sl_locked (b_lock x)"
    and "\<And>j e. holds s' j e \<longleftrightarrow> (if j = i then e = b \<and> sl_locked (b_lock x) else holds s j e)"
  shows "holds s' = holds s"
proof (intro ext)
  fix j e
  have "holds s i e \<longleftrightarrow> e = b" using assms(2) by (auto simp: holds_def cached_def)
  then show "holds s' j e = holds s j e" unfolding assms(4) using x by simp
qed

lemma bwrite_ok:
  fixes s :: "'z bstate_scheme"
  assumes ok: "cache_ok s" and h: "holds s i b"
  shows "\<exists>s'. bwrite i s = Inr s' \<and> cache_ok s' \<and> blk s' = blk s \<and> disk s' = (disk s)(b := blk s b) \<and>
    dirty s' = dirty s - {b} \<and> dwrites s' = dwrites s @ [(b, blk s b)] \<and> disksize s' = disksize s \<and>
    bstate.more s' = bstate.more s \<and> held s' = held s \<and> holds s' = holds s"
proof -
  note l = cache_okD [OF ok] and d = holdsD [OF ok h]
  then have i: "i < NBUF" and c: "cached s i b" and bok: "buf_ok s (bufs s ! i)" by auto
  let ?x = "(bufs s ! i)\<lparr>b_dirty := False, b_valid := True\<rparr>"
  let ?s = "s\<lparr>bufs := (bufs s)[i := ?x], disk := (disk s)(b := blk s b), dwrites := dwrites s @ [(b, blk s b)]\<rparr>"
  have "b_dev (bufs s ! i) = 1" "b < disksize s" using bok d by (auto simp: buf_ok_def)
  then have w: "bwrite i s = Inr ?s"
    using d blk_cached [OF ok c] by (simp add: bwrite_def iderw_def holdingsleep_def Let_def not_le)
  have x: "buf_ok ?s ?x" "b_valid ?x" "b_blockno ?x = b"
    using bok d by (auto simp: buf_ok_def)
  have dl: "distinct (lru ?s)" using l(2) by simp
  note up = buf_update [of s i ?s ?x b, OF ok i _ _ dl _ _ x disjI1 [OF c]]
  have "cache_ok ?s" "\<And>j e. holds ?s j e \<longleftrightarrow> (if j = i then e = b \<and> sl_locked (b_lock ?x) else holds s j e)"
    "blk ?s = (blk s)(b := b_data ?x)" "held ?s = (if sl_locked (b_lock ?x) then insert b (held s) else held s - {b})"
    "dirty ?s = (if b_dirty ?x then insert b (dirty s) else dirty s - {b})"
    using up by simp_all
  note up' = this same_holds [OF ok h _ this(2)]
  have "insert b (held s) = held s" using h by (auto simp: held_def)
  moreover have "(blk s)(b := b_data (bufs s ! i)) = blk s" using blk_cached [OF ok c] by auto
  ultimately show ?thesis using d up' w by (intro exI [of _ ?s]) simp
qed

lemma set_data_ok:
  assumes ok: "cache_ok s" and h: "holds s i b"
  shows "cache_ok (set_data i v s) \<and> blk (set_data i v s) = (blk s)(b := v) \<and> disk (set_data i v s) = disk s \<and>
    dirty (set_data i v s) = dirty s \<and> dwrites (set_data i v s) = dwrites s \<and> disksize (set_data i v s) = disksize s \<and>
    bstate.more (set_data i v s) = bstate.more s \<and> held (set_data i v s) = held s \<and> holds (set_data i v s) = holds s"
proof -
  note l = cache_okD [OF ok] and d = holdsD [OF ok h]
  then have i: "i < NBUF" and c: "cached s i b" and bok: "buf_ok s (bufs s ! i)" by auto
  let ?x = "(bufs s ! i)\<lparr>b_data := v\<rparr>"
  have x: "buf_ok s ?x" "b_valid ?x" "b_blockno ?x = b" using bok d by (auto simp: buf_ok_def)
  note up = buf_update_same [OF ok i x disjI1 [OF c], folded set_data_def]
  moreover note same_holds [OF ok h _ up(2)]
  moreover have "insert b (held s) = held s" using h by (auto simp: held_def)
  moreover have di: "b \<in> dirty s \<longleftrightarrow> b_dirty (bufs s ! i)" using c l(5) [OF c] unfolding dirty_def by blast
  moreover have "(if b \<in> dirty s then insert b (dirty s) else dirty s - {b}) = dirty s" by auto
  ultimately show ?thesis using d by (simp add: set_data_def [of i v s])
qed

lemma pin_buf_ok:
  assumes ok: "cache_ok s" and h: "holds s i b"
  shows "cache_ok (pin_buf i s) \<and> blk (pin_buf i s) = blk s \<and> disk (pin_buf i s) = disk s \<and>
    dirty (pin_buf i s) = insert b (dirty s) \<and> dwrites (pin_buf i s) = dwrites s \<and> disksize (pin_buf i s) = disksize s \<and>
    bstate.more (pin_buf i s) = bstate.more s \<and> held (pin_buf i s) = held s \<and> holds (pin_buf i s) = holds s"
proof -
  note l = cache_okD [OF ok] and d = holdsD [OF ok h]
  then have i: "i < NBUF" and c: "cached s i b" and bok: "buf_ok s (bufs s ! i)" by auto
  let ?x = "(bufs s ! i)\<lparr>b_dirty := True\<rparr>"
  have x: "buf_ok s ?x" "b_valid ?x" "b_blockno ?x = b" using bok d by (auto simp: buf_ok_def)
  note up = buf_update_same [OF ok i x disjI1 [OF c], folded pin_buf_def]
  moreover note same_holds [OF ok h _ up(2)]
  moreover have "insert b (held s) = held s" using h by (auto simp: held_def)
  moreover have "(blk s)(b := b_data (bufs s ! i)) = blk s" using blk_cached [OF ok c] by auto
  ultimately show ?thesis using d by (simp add: pin_buf_def [of i s])
qed

lemma buf_data_ok: "cache_ok s \<Longrightarrow> holds s i b \<Longrightarrow> buf_data s i = blk s b"
  by (auto simp: buf_data_def holds_def blk_cached)

lemma finite_held_dirty: "finite (held s \<union> dirty s)"
proof (rule finite_subset)
  show "held s \<union> dirty s \<subseteq> (\<lambda>i. b_blockno (bufs s ! i)) ` {..<length (bufs s)}"
    by (auto simp: held_def holds_def dirty_def cached_def)
qed simp

section \<open>The interface of the cache\<close>

text \<open>
  What \<open>log.c\<close> and \<open>fs.c\<close> rely on. \<open>view\<close> is the contents of the blocks as the
  kernel sees them, \<open>dsk\<close> what is on the disk, \<open>dirt\<close> the blocks pinned by the log and
  \<open>hld\<close> those a process holds; \<open>rest\<close> is the state the cache does not touch.
\<close>

locale block_cache =
  fixes get :: "u32 \<Rightarrow> 's \<Rightarrow> (nat \<times> 's) res" and put :: "nat \<Rightarrow> 's \<Rightarrow> 's res" and wr :: "nat \<Rightarrow> 's \<Rightarrow> 's res"
    and setd :: "nat \<Rightarrow> block \<Rightarrow> 's \<Rightarrow> 's" and pin :: "nat \<Rightarrow> 's \<Rightarrow> 's" and data :: "'s \<Rightarrow> nat \<Rightarrow> block"
    and ok :: "'s \<Rightarrow> bool" and hold :: "'s \<Rightarrow> nat \<Rightarrow> u32 \<Rightarrow> bool" and view dsk :: "'s \<Rightarrow> u32 \<Rightarrow> block"
    and hld dirt :: "'s \<Rightarrow> u32 set" and trace :: "'s \<Rightarrow> (u32 \<times> block) list" and nblk :: "'s \<Rightarrow> u32" and rest :: "'s \<Rightarrow> 'r"
  assumes get: "ok s \<Longrightarrow> b < nblk s \<Longrightarrow> b \<notin> hld s \<Longrightarrow> b \<in> dirt s \<or> card (hld s \<union> dirt s) < NBUF \<Longrightarrow>
      \<exists>i s'. get b s = Inr (i, s') \<and> ok s' \<and> hold s' i b \<and> view s' = view s \<and> dsk s' = dsk s \<and> dirt s' = dirt s \<and>
        trace s' = trace s \<and> nblk s' = nblk s \<and> rest s' = rest s \<and> hld s' = insert b (hld s) \<and> (\<forall>j c. hold s j c \<longrightarrow> hold s' j c)"
    and put: "ok s \<Longrightarrow> hold s i b \<Longrightarrow> b \<in> dirt s \<or> view s b = dsk s b \<Longrightarrow>
      \<exists>s'. put i s = Inr s' \<and> ok s' \<and> view s' = view s \<and> dsk s' = dsk s \<and> dirt s' = dirt s \<and>
        trace s' = trace s \<and> nblk s' = nblk s \<and> rest s' = rest s \<and> hld s' = hld s - {b} \<and> (\<forall>j c. hold s j c \<and> c \<noteq> b \<longrightarrow> hold s' j c)"
    and wr: "ok s \<Longrightarrow> hold s i b \<Longrightarrow>
      \<exists>s'. wr i s = Inr s' \<and> ok s' \<and> view s' = view s \<and> dsk s' = (dsk s)(b := view s b) \<and> dirt s' = dirt s - {b} \<and>
        trace s' = trace s @ [(b, view s b)] \<and> nblk s' = nblk s \<and> rest s' = rest s \<and> hld s' = hld s \<and> hold s' = hold s"
    and setd: "ok s \<Longrightarrow> hold s i b \<Longrightarrow>
      ok (setd i v s) \<and> view (setd i v s) = (view s)(b := v) \<and> dsk (setd i v s) = dsk s \<and> dirt (setd i v s) = dirt s \<and>
        trace (setd i v s) = trace s \<and> nblk (setd i v s) = nblk s \<and> rest (setd i v s) = rest s \<and> hld (setd i v s) = hld s \<and>
        hold (setd i v s) = hold s"
    and pin: "ok s \<Longrightarrow> hold s i b \<Longrightarrow>
      ok (pin i s) \<and> view (pin i s) = view s \<and> dsk (pin i s) = dsk s \<and> dirt (pin i s) = insert b (dirt s) \<and>
        trace (pin i s) = trace s \<and> nblk (pin i s) = nblk s \<and> rest (pin i s) = rest s \<and> hld (pin i s) = hld s \<and>
        hold (pin i s) = hold s"
    and data: "ok s \<Longrightarrow> hold s i b \<Longrightarrow> data s i = view s b"
    and clean: "ok s \<Longrightarrow> b \<notin> hld s \<Longrightarrow> b \<in> dirt s \<or> view s b = dsk s b"
begin

text \<open>\<open>bread\<close>, a look at the data, \<open>brelse\<close>.\<close>

lemma read_block:
  assumes "ok s" "b < nblk s" "b \<notin> hld s" "b \<in> dirt s \<or> card (hld s \<union> dirt s) < NBUF"
  obtains i s1 s2 where "get b s = Inr (i, s1)" "data s1 i = view s b" "put i s1 = Inr s2" "ok s2" "view s2 = view s"
    "dsk s2 = dsk s" "dirt s2 = dirt s" "trace s2 = trace s" "nblk s2 = nblk s" "rest s1 = rest s" "rest s2 = rest s" "hld s2 = hld s"
    "\<And>j c. hold s j c \<Longrightarrow> c \<noteq> b \<Longrightarrow> hold s2 j c"
proof -
  from get [OF assms] obtain i s1 where 1: "get b s = Inr (i, s1)" "ok s1" "hold s1 i b" "view s1 = view s" "dsk s1 = dsk s"
    "dirt s1 = dirt s" "trace s1 = trace s" "nblk s1 = nblk s" "rest s1 = rest s" "hld s1 = insert b (hld s)"
    "\<forall>j c. hold s j c \<longrightarrow> hold s1 j c" by blast
  have "b \<in> dirt s1 \<or> view s1 b = dsk s1 b" using clean [OF assms(1,3)] 1 by simp
  from put [OF 1(2,3) this] obtain s2 where 2: "put i s1 = Inr s2" "ok s2" "view s2 = view s1" "dsk s2 = dsk s1"
    "dirt s2 = dirt s1" "trace s2 = trace s1" "nblk s2 = nblk s1" "rest s2 = rest s1" "hld s2 = hld s1 - {b}"
    "\<forall>j c. hold s1 j c \<and> c \<noteq> b \<longrightarrow> hold s2 j c" by blast
  show ?thesis using that [of i s1 s2] 1 2 data [OF 1(2,3)] assms(3) by auto
qed

text \<open>\<open>bread\<close>, new data, \<open>bwrite\<close>, \<open>brelse\<close>.\<close>

lemma write_block:
  assumes "ok s" "b < nblk s" "b \<notin> hld s" "b \<in> dirt s \<or> card (hld s \<union> dirt s) < NBUF"
  obtains i s1 s2 s3 where "get b s = Inr (i, s1)" "data s1 i = view s b" "wr i (setd i v s1) = Inr s2" "put i s2 = Inr s3" "ok s3"
    "view s3 = (view s)(b := v)" "dsk s3 = (dsk s)(b := v)" "dirt s3 = dirt s - {b}" "trace s3 = trace s @ [(b, v)]"
    "nblk s3 = nblk s" "rest s1 = rest s" "rest s3 = rest s" "hld s3 = hld s" "\<And>j c. hold s j c \<Longrightarrow> c \<noteq> b \<Longrightarrow> hold s3 j c"
proof -
  from get [OF assms] obtain i s1 where 1: "get b s = Inr (i, s1)" "ok s1" "hold s1 i b" "view s1 = view s" "dsk s1 = dsk s"
    "dirt s1 = dirt s" "trace s1 = trace s" "nblk s1 = nblk s" "rest s1 = rest s" "hld s1 = insert b (hld s)"
    "\<forall>j c. hold s j c \<longrightarrow> hold s1 j c" by blast
  note d = setd [OF 1(2,3), of v]
  then have ok: "ok (setd i v s1)" "hold (setd i v s1) i b" using 1(3) by simp_all
  from wr [OF ok] obtain s2 where 2: "wr i (setd i v s1) = Inr s2" "ok s2" "view s2 = view (setd i v s1)"
    "dsk s2 = (dsk (setd i v s1))(b := view (setd i v s1) b)" "dirt s2 = dirt (setd i v s1) - {b}"
    "trace s2 = trace (setd i v s1) @ [(b, view (setd i v s1) b)]" "nblk s2 = nblk (setd i v s1)" "rest s2 = rest (setd i v s1)"
    "hld s2 = hld (setd i v s1)" "hold s2 = hold (setd i v s1)" by blast
  have "hold s2 i b" "b \<in> dirt s2 \<or> view s2 b = dsk s2 b" using 2 ok(2) by simp_all
  from put [OF 2(2) this] obtain s3 where 3: "put i s2 = Inr s3" "ok s3" "view s3 = view s2" "dsk s3 = dsk s2"
    "dirt s3 = dirt s2" "trace s3 = trace s2" "nblk s3 = nblk s2" "rest s3 = rest s2" "hld s3 = hld s2 - {b}"
    "\<forall>j c. hold s2 j c \<and> c \<noteq> b \<longrightarrow> hold s3 j c" by blast
  show ?thesis using that [of i s1 s2 s3] 1 2 3 d data [OF 1(2,3)] assms(3) by auto
qed

text \<open>Two buffers at once, and copying the one into the other.\<close>

lemma get_two:
  assumes "ok s" "a < nblk s" "c < nblk s" "a \<noteq> c" "a \<notin> hld s" "c \<notin> hld s"
    "a \<in> dirt s \<or> card (hld s \<union> dirt s) < NBUF" "c \<in> dirt s \<or> card (insert a (hld s \<union> dirt s)) < NBUF"
  obtains i s1 j s2 where "get a s = Inr (i, s1)" "get c s1 = Inr (j, s2)" "ok s2" "hold s2 i a" "hold s2 j c" "view s2 = view s"
    "dsk s2 = dsk s" "dirt s2 = dirt s" "trace s2 = trace s" "nblk s2 = nblk s" "rest s1 = rest s" "rest s2 = rest s"
    "hld s2 = insert a (insert c (hld s))"
proof -
  from get [OF assms(1,2,5,7)] obtain i s1 where 1: "get a s = Inr (i, s1)" "ok s1" "hold s1 i a" "view s1 = view s" "dsk s1 = dsk s"
    "dirt s1 = dirt s" "trace s1 = trace s" "nblk s1 = nblk s" "rest s1 = rest s" "hld s1 = insert a (hld s)" by blast
  have "c < nblk s1" "c \<notin> hld s1" "c \<in> dirt s1 \<or> card (hld s1 \<union> dirt s1) < NBUF" using assms 1 by simp_all
  from get [OF 1(2) this] obtain j s2 where 2: "get c s1 = Inr (j, s2)" "ok s2" "hold s2 j c" "view s2 = view s1" "dsk s2 = dsk s1"
    "dirt s2 = dirt s1" "trace s2 = trace s1" "nblk s2 = nblk s1" "rest s2 = rest s1" "hld s2 = insert c (hld s1)"
    "\<forall>j c. hold s1 j c \<longrightarrow> hold s2 j c" by blast
  show ?thesis using that [of i s1 j s2] 1 2 by auto
qed

lemma copy_back:
  assumes "ok s" "hold s i w" "hold s j r" "w \<noteq> r" "r \<in> dirt s \<or> view s r = dsk s r"
  obtains s1 s2 s3 where "wr i (setd i (data s j) s) = Inr s1" "put j s1 = Inr s2" "put i s2 = Inr s3" "ok s3"
    "view s3 = (view s)(w := view s r)" "dsk s3 = (dsk s)(w := view s r)" "dirt s3 = dirt s - {w}"
    "trace s3 = trace s @ [(w, view s r)]" "nblk s3 = nblk s" "rest s3 = rest s" "hld s3 = hld s - {w, r}"
proof -
  let ?v = "view s r"
  have d: "data s j = ?v" by (rule data [OF assms(1,3)])
  note sd = setd [OF assms(1,2), of ?v]
  then have ok: "ok (setd i ?v s)" "hold (setd i ?v s) i w" using assms(2) by simp_all
  from wr [OF ok] obtain s1 where 1: "wr i (setd i ?v s) = Inr s1" "ok s1" "view s1 = view (setd i ?v s)"
    "dsk s1 = (dsk (setd i ?v s))(w := view (setd i ?v s) w)" "dirt s1 = dirt (setd i ?v s) - {w}"
    "trace s1 = trace (setd i ?v s) @ [(w, view (setd i ?v s) w)]" "nblk s1 = nblk (setd i ?v s)" "rest s1 = rest (setd i ?v s)"
    "hld s1 = hld (setd i ?v s)" "hold s1 = hold (setd i ?v s)" by blast
  have h1: "hold s1 j r" "r \<in> dirt s1 \<or> view s1 r = dsk s1 r" using 1 sd assms(3,4,5) by auto
  from put [OF 1(2) h1] obtain s2 where 2: "put j s1 = Inr s2" "ok s2" "view s2 = view s1" "dsk s2 = dsk s1"
    "dirt s2 = dirt s1" "trace s2 = trace s1" "nblk s2 = nblk s1" "rest s2 = rest s1" "hld s2 = hld s1 - {r}"
    "\<forall>j c. hold s1 j c \<and> c \<noteq> r \<longrightarrow> hold s2 j c" by blast
  have h2: "hold s2 i w" "w \<in> dirt s2 \<or> view s2 w = dsk s2 w" using 1 2 sd assms(2,4) by auto
  from put [OF 2(2) h2] obtain s3 where 3: "put i s2 = Inr s3" "ok s3" "view s3 = view s2" "dsk s3 = dsk s2"
    "dirt s3 = dirt s2" "trace s3 = trace s2" "nblk s3 = nblk s2" "rest s3 = rest s2" "hld s3 = hld s2 - {w}" by blast
  show ?thesis using that [of s1 s2 s3] 1 2 3 sd d by auto
qed

end

interpretation bc: block_cache "bread 1" brelse bwrite set_data pin_buf buf_data cache_ok holds blk disk held dirty dwrites disksize bstate.more
proof (unfold_locales, goal_cases)
  case (1 s b)
  then show ?case by (rule bread_ok)
next
  case (2 s i b)
  then show ?case by (rule brelse_ok)
next
  case (3 s i b)
  then show ?case by (rule bwrite_ok)
next
  case (4 s i b v)
  then show ?case by (rule set_data_ok)
next
  case (5 s i b)
  then show ?case by (rule pin_buf_ok)
next
  case (6 s i b)
  then show ?case by (rule buf_data_ok)
next
  case (7 s b)
  then show ?case using held_clean by blast
qed

section \<open>Initialisation\<close>

lemma binit_loop_eq:
  "bufs s = replicate NBUF zero_buf \<Longrightarrow> i + n \<le> NBUF \<Longrightarrow> binit_loop i n s = s\<lparr>lru := rev [i..<i + n] @ lru s\<rparr>"
proof (induction n arbitrary: i s)
  case (Suc n)
  have u: "upd_at i (\<lambda>b. b\<lparr>b_lock := initsleeplock\<rparr>) (bufs s) = bufs s"
    using Suc.prems by (auto simp: upd_at_def list_eq_iff_nth_eq nth_list_update zero_buf_def)
  have "[i..<i + Suc n] = i # [Suc i..<Suc i + n]" by (simp add: upt_conv_Cons)
  moreover have "binit_loop i (Suc n) s = binit_loop (Suc i) n (s\<lparr>lru := i # lru s\<rparr>)"
    unfolding binit_loop.simps u by simp
  ultimately show ?case
    using Suc.prems Suc.IH [of "s\<lparr>lru := i # lru s\<rparr>" "Suc i"] by (simp del: upt_Suc binit_loop.simps)
qed simp

lemma binit_ok:
  assumes "bufs s = replicate NBUF zero_buf"
  shows "cache_ok (binit s)" "held (binit s) = {}" "dirty (binit s) = {}" "blk (binit s) = disk s"
    "binit s = s\<lparr>lru := rev [0..<NBUF]\<rparr>"
proof -
  show e: "binit s = s\<lparr>lru := rev [0..<NBUF]\<rparr>"
    using assms binit_loop_eq [of "s\<lparr>lru := []\<rparr>" 0 NBUF] by (simp add: binit_def)
  have none: "\<not> cached (binit s) i b" for i b
    unfolding e cached_def using assms by (auto simp: zero_buf_def)
  then show "held (binit s) = {}" "dirty (binit s) = {}" by (auto simp: held_def dirty_def holds_def)
  show "cache_ok (binit s)"
    unfolding cache_ok_def using none assms by (auto simp: e buf_ok_def zero_buf_def initsleeplock_def)
  show "blk (binit s) = disk s" using none by (intro ext) (simp add: blk_uncached e)
qed

section \<open>The cache is transparent\<close>

text \<open>
  C28: Refinement. In a consistent cache, \<open>bread\<close> of a block that nobody holds and that is pinned in the cache,
  or for which a buffer is to spare, gives a
  buffer with the block's current contents, from the cache or from the disk. Released unchanged,
  it leaves every block and the disk as they were; changed, written with \<open>bwrite\<close> and released,
  it changes exactly this block, in the cache and on the disk, by one disk write. No call panics.
\<close>

theorem cache_transparent:
  assumes "cache_ok s" and "b < disksize s" and "b \<notin> held s" and "b \<in> dirty s \<or> card (held s \<union> dirty s) < NBUF"
  shows "\<exists>i s1. bread 1 b s = Inr (i, s1) \<and> buf_data s1 i = blk s b \<and>
    (\<exists>s2. brelse i s1 = Inr s2 \<and> cache_ok s2 \<and> blk s2 = blk s \<and> disk s2 = disk s \<and> held s2 = held s \<and> dirty s2 = dirty s) \<and>
    (\<exists>s2 s3. bwrite i (set_data i v s1) = Inr s2 \<and> brelse i s2 = Inr s3 \<and> cache_ok s3 \<and> blk s3 = (blk s)(b := v) \<and>
       disk s3 = (disk s)(b := v) \<and> dwrites s3 = dwrites s @ [(b, v)] \<and> held s3 = held s \<and> dirty s3 = dirty s - {b})"
  by (rule bc.read_block [OF assms], rule bc.write_block [OF assms, of v]) auto

definition boot_disk :: "(u32 \<Rightarrow> block) \<Rightarrow> bstate" where
  "boot_disk d = binit \<lparr>bufs = replicate NBUF zero_buf, lru = [], disk = d, disksize = 2000, dwrites = [], wakes = [], curpid = 1\<rparr>"

theorem cache_transparent_witness:
  "\<exists>i s1 s2 s3. bread 1 7 (boot_disk (\<lambda>_ _. 0)) = Inr (i, s1) \<and> bwrite i (set_data i (\<lambda>_. 5) s1) = Inr s2 \<and> brelse i s2 = Inr s3 \<and>
     disk s3 7 = (\<lambda>_. 5) \<and> disk s3 8 = (\<lambda>_. 0)"
proof -
  let ?s = "\<lparr>bufs = replicate NBUF zero_buf, lru = [], disk = \<lambda>_ _. 0, disksize = 2000, dwrites = [], wakes = [], curpid = 1\<rparr> :: bstate"
  have b: "bufs ?s = replicate NBUF zero_buf" by simp
  note i = binit_ok [OF b]
  have "7 < disksize (binit ?s)" unfolding i(5) by simp
  moreover have "7 \<notin> held (binit ?s)" "7 \<in> dirty (binit ?s) \<or> card (held (binit ?s) \<union> dirty (binit ?s)) < NBUF"
    using i(2,3) by (simp_all add: NBUF_def)
  moreover have "disk (binit ?s) = (\<lambda>_ _. 0)" unfolding i(5) by simp
  ultimately show ?thesis using cache_transparent [OF i(1), of 7 "\<lambda>_. 5"] unfolding boot_disk_def by auto
qed

end
