(* ===== verification/Log.thy ===== *)
theory Log
  imports Bio Strings
begin

text \<open>
  The write-ahead log of \<open>log.c\<close>, on top of the buffer cache. \<open>lh_n\<close> and \<open>lh_block\<close> are
  the in-memory header \<open>log.lh\<close>; the header on disk is the words at offsets 0 (the count) and
  4, 8, ... (the block numbers) of block \<open>log.start\<close>. An access past \<open>LOGSIZE\<close> entries is
  \<open>OutOfBounds\<close>. \<open>begin_op\<close> that has to wait is \<open>Sleeps Ch_log\<close>. The superblock and
  \<open>readsb\<close> of \<open>fs.c\<close>, which \<open>initlog\<close> calls, are here as well.
\<close>

section \<open>The superblock\<close>

record superblock =
  sb_size :: u32
  sb_nblocks :: u32
  sb_ninodes :: u32
  sb_nlog :: u32
  sb_logstart :: u32
  sb_inodestart :: u32
  sb_bmapstart :: u32

definition decode_sb :: "block \<Rightarrow> superblock" where
  "decode_sb d = \<lparr>sb_size = ld32 d 0, sb_nblocks = ld32 d 4, sb_ninodes = ld32 d 8, sb_nlog = ld32 d 12,
     sb_logstart = ld32 d 16, sb_inodestart = ld32 d 20, sb_bmapstart = ld32 d 24\<rparr>"

definition readsb :: "int \<Rightarrow> 'z bstate_scheme \<Rightarrow> (superblock \<times> 'z bstate_scheme) res" where
  "readsb dev s =
     rbind (bread (uint_of_int dev) 1 s) (\<lambda>(bp, s).
     let sb = decode_sb (buf_data s bp) in
     rbind (brelse bp s) (\<lambda>s. Inr (sb, s)))"

section \<open>State\<close>

definition MAXOPBLOCKS :: int where "MAXOPBLOCKS = 10"
definition LOGSIZE :: nat where "LOGSIZE = 30"

record lstate = bstate +
  log_start :: int
  log_size :: int
  log_outstanding :: int
  log_committing :: bool
  log_dev :: int
  lh_n :: int
  lh_block :: "int list"

text \<open>\<open>bread(log.dev, log.start + k)\<close>\<close>

definition log_bread :: "int \<Rightarrow> 'z lstate_scheme \<Rightarrow> (nat \<times> 'z lstate_scheme) res" where
  "log_bread k s = bread (uint_of_int (log_dev s)) (uint_of_int (s32 (log_start s + k))) s"

text \<open>\<open>bread(log.dev, log.lh.block[tail])\<close>\<close>

definition home_bread :: "nat \<Rightarrow> 'z lstate_scheme \<Rightarrow> (nat \<times> 'z lstate_scheme) res" where
  "home_bread tail s =
     (if tail < LOGSIZE then bread (uint_of_int (log_dev s)) (uint_of_int (lh_block s ! tail)) s else Inl OutOfBounds)"

section \<open>Installing and recovering\<close>

definition install_one :: "nat \<Rightarrow> 'z lstate_scheme \<Rightarrow> 'z lstate_scheme res" where
  "install_one tail s =
     rbind (log_bread (int tail + 1) s) (\<lambda>(lbuf, s).
     rbind (home_bread tail s) (\<lambda>(dbuf, s).
     rbind (bwrite dbuf (set_data dbuf (buf_data s lbuf) s)) (\<lambda>s.
     rbind (brelse lbuf s) (brelse dbuf))))"

definition install_trans :: "'z lstate_scheme \<Rightarrow> 'z lstate_scheme res" where
  "install_trans s = for_range 0 (nat (lh_n s)) install_one s"

definition read_head :: "'z lstate_scheme \<Rightarrow> 'z lstate_scheme res" where
  "read_head s =
     rbind (log_bread 0 s) (\<lambda>(b, s).
     let d = buf_data s b; n = int_of_uint (ld32 d 0) in
     rbind (for_range 0 (nat n) (\<lambda>i s.
         if i < LOGSIZE then Inr (s\<lparr>lh_block := (lh_block s)[i := int_of_uint (ld32 d (4 + 4 * i))]\<rparr>) else Inl OutOfBounds)
       (s\<lparr>lh_n := n\<rparr>)) (brelse b))"

definition head_data :: "'z lstate_scheme \<Rightarrow> block \<Rightarrow> block res" where
  "head_data s d =
     for_range 0 (nat (lh_n s)) (\<lambda>i d.
       if i < LOGSIZE then Inr (st32 (4 + 4 * i) (uint_of_int (lh_block s ! i)) d) else Inl OutOfBounds)
     (st32 0 (uint_of_int (lh_n s)) d)"

definition write_head :: "'z lstate_scheme \<Rightarrow> 'z lstate_scheme res" where
  "write_head s =
     rbind (log_bread 0 s) (\<lambda>(b, s).
     rbind (head_data s (buf_data s b)) (\<lambda>d.
     rbind (bwrite b (set_data b d s)) (brelse b)))"

definition recover_from_log :: "'z lstate_scheme \<Rightarrow> 'z lstate_scheme res" where
  "recover_from_log s =
     rbind (read_head s) (\<lambda>s.
     rbind (install_trans s) (\<lambda>s.
     write_head (s\<lparr>lh_n := 0\<rparr>)))"

text \<open>\<open>sizeof(struct logheader)\<close> is 4 + 4 * LOGSIZE.\<close>

definition initlog :: "int \<Rightarrow> 'z lstate_scheme \<Rightarrow> 'z lstate_scheme res" where
  "initlog dev s =
     (if 4 + 4 * LOGSIZE \<ge> BSIZE then Inl (Panic ''initlog: too big logheader'')
      else rbind (readsb dev s) (\<lambda>(sb, s).
        recover_from_log (s\<lparr>log_start := int_of_uint (sb_logstart sb), log_size := int_of_uint (sb_nlog sb), log_dev := dev\<rparr>)))"

section \<open>Transactions\<close>

definition begin_op :: "'z lstate_scheme \<Rightarrow> 'z lstate_scheme res" where
  "begin_op s =
     (if log_committing s then Inl (Sleeps Ch_log)
      else if s32 (lh_n s + (log_outstanding s + 1) * MAXOPBLOCKS) > int LOGSIZE then Inl (Sleeps Ch_log)
      else Inr (s\<lparr>log_outstanding := s32 (log_outstanding s + 1)\<rparr>))"

definition write_log_one :: "nat \<Rightarrow> 'z lstate_scheme \<Rightarrow> 'z lstate_scheme res" where
  "write_log_one tail s =
     rbind (log_bread (int tail + 1) s) (\<lambda>(to, s).
     rbind (home_bread tail s) (\<lambda>(from, s).
     rbind (bwrite to (set_data to (buf_data s from) s)) (\<lambda>s.
     rbind (brelse from s) (brelse to))))"

definition write_log :: "'z lstate_scheme \<Rightarrow> 'z lstate_scheme res" where
  "write_log s = for_range 0 (nat (lh_n s)) write_log_one s"

definition commit :: "'z lstate_scheme \<Rightarrow> 'z lstate_scheme res" where
  "commit s =
     (if lh_n s > 0 then
        rbind (write_log s) (\<lambda>s.
        rbind (write_head s) (\<lambda>s.
        rbind (install_trans s) (\<lambda>s.
        write_head (s\<lparr>lh_n := 0\<rparr>))))
      else Inr s)"

definition end_op :: "'z lstate_scheme \<Rightarrow> 'z lstate_scheme res" where
  "end_op s =
     (let s = s\<lparr>log_outstanding := s32 (log_outstanding s - 1)\<rparr> in
      if log_committing s then Inl (Panic ''log.committing'')
      else if log_outstanding s = 0 then
        rbind (commit (s\<lparr>log_committing := True\<rparr>)) (\<lambda>s.
        Inr (s\<lparr>log_committing := False, wakes := wakes s @ [Ch_log]\<rparr>))
      else Inr (s\<lparr>wakes := wakes s @ [Ch_log]\<rparr>))"

text \<open>The slot of the block in the header: its entry if it is logged already, else the next free one.\<close>

definition log_slot :: "u32 \<Rightarrow> 'z lstate_scheme \<Rightarrow> nat" where
  "log_slot b s = (case find (\<lambda>i. uint_of_int (lh_block s ! i) = b) [0..<nat (lh_n s)] of Some i \<Rightarrow> i | None \<Rightarrow> nat (lh_n s))"

definition log_write :: "nat \<Rightarrow> 'z lstate_scheme \<Rightarrow> 'z lstate_scheme res" where
  "log_write b s =
     (if lh_n s \<ge> int LOGSIZE \<or> lh_n s \<ge> s32 (log_size s - 1) then Inl (Panic ''too big a transaction'')
      else if log_outstanding s < 1 then Inl (Panic ''log_write outside of trans'')
      else let blockno = b_blockno (bufs s ! b); i = log_slot blockno s;
               s = s\<lparr>lh_block := (lh_block s)[i := int_of_uint blockno]\<rparr>;
               s = (if int i = lh_n s then s\<lparr>lh_n := s32 (lh_n s + 1)\<rparr> else s)
           in Inr (pin_buf b s))"

section \<open>Geometry\<close>

text \<open>
  The blocks of the log area, the header first, and the blocks named by the in-memory header.
\<close>

definition lblk :: "'z lstate_scheme \<Rightarrow> nat \<Rightarrow> u32" where
  "lblk s k = uint_of_int (s32 (log_start s + int k))"

definition log_area :: "'z lstate_scheme \<Rightarrow> u32 set" where
  "log_area s = lblk s ` {..<nat (log_size s)}"

definition logged :: "'z lstate_scheme \<Rightarrow> u32 list" where
  "logged s = map uint_of_int (take (nat (lh_n s)) (lh_block s))"

definition log_geom :: "'z lstate_scheme \<Rightarrow> bool" where
  "log_geom s \<longleftrightarrow> log_dev s = 1 \<and> 0 \<le> log_start s \<and> 0 < log_size s \<and> log_size s \<le> int LOGSIZE \<and>
     log_start s + log_size s \<le> uint (disksize s) \<and> uint (disksize s) < 2147483648"

definition head_ok :: "'z lstate_scheme \<Rightarrow> bool" where
  "head_ok s \<longleftrightarrow> 0 \<le> lh_n s \<and> lh_n s < log_size s \<and> log_size s \<le> int LOGSIZE \<and> length (lh_block s) = LOGSIZE \<and>
     distinct (logged s) \<and> (\<forall>b\<in>set (logged s). b < disksize s \<and> b \<notin> log_area s)"

lemma lblk_uint: "log_geom s \<Longrightarrow> int k < log_size s \<Longrightarrow> uint (lblk s k) = log_start s + int k"
proof -
  assume a: "log_geom s" "int k < log_size s"
  define x where "x = log_start s + int k"
  have x: "0 \<le> x" "x < 2147483648" using a by (auto simp: log_geom_def x_def)
  then have "lblk s k = word_of_int x" by (simp add: lblk_def uint_of_int_def s32_eq flip: x_def)
  then show ?thesis using x by (simp add: uint_word_of_int flip: x_def)
qed

lemma lblk_less: "log_geom s \<Longrightarrow> int k < log_size s \<Longrightarrow> lblk s k < disksize s"
  by (simp add: word_less_def lblk_uint log_geom_def)

lemma lblk_inj: "log_geom s \<Longrightarrow> int j < log_size s \<Longrightarrow> int k < log_size s \<Longrightarrow> lblk s j = lblk s k \<Longrightarrow> j = k"
  by (metis add_left_cancel lblk_uint of_nat_eq_iff)

lemma lblk_area: "int k < log_size s \<Longrightarrow> lblk s k \<in> log_area s"
  by (auto simp: log_area_def)

lemma head_okD:
  assumes "head_ok s"
  shows "length (logged s) = nat (lh_n s)" "nat (lh_n s) < NBUF" "int (nat (lh_n s)) = lh_n s" "lh_n s < log_size s" "distinct (logged s)"
    "k < nat (lh_n s) \<Longrightarrow> logged s ! k = uint_of_int (lh_block s ! k)"
    "k < nat (lh_n s) \<Longrightarrow> logged s ! k < disksize s \<and> logged s ! k \<notin> log_area s"
    "length (lh_block s) = LOGSIZE" "nat (lh_n s) < LOGSIZE"
proof -
  show l: "length (logged s) = nat (lh_n s)" "nat (lh_n s) < LOGSIZE"
    using assms by (auto simp: head_ok_def logged_def NBUF_def LOGSIZE_def)
  show "nat (lh_n s) < NBUF" "int (nat (lh_n s)) = lh_n s" "lh_n s < log_size s" "distinct (logged s)" "length (lh_block s) = LOGSIZE"
    using assms by (auto simp: head_ok_def NBUF_def LOGSIZE_def)
  show "logged s ! k < disksize s \<and> logged s ! k \<notin> log_area s" if "k < nat (lh_n s)"
    using assms l that nth_mem [of k "logged s"] by (auto simp: head_ok_def)
  show "logged s ! k = uint_of_int (lh_block s ! k)" if "k < nat (lh_n s)"
    using that l(1) by (simp add: logged_def)
qed

text \<open>The fields of the log, apart from the cache below it.\<close>

lemma log_rest:
  assumes "bstate.more s = bstate.more (t :: 'z lstate_scheme)"
  shows "log_start s = log_start t" "log_size s = log_size t" "log_outstanding s = log_outstanding t"
    "log_committing s = log_committing t" "log_dev s = log_dev t" "lh_n s = lh_n t" "lh_block s = lh_block t"
    "lstate.more s = lstate.more t" "lblk s = lblk t" "log_area s = log_area t" "logged s = logged t"
proof -
  show f: "log_start s = log_start t" "log_size s = log_size t" "log_outstanding s = log_outstanding t"
    "log_committing s = log_committing t" "log_dev s = log_dev t" "lh_n s = lh_n t" "lh_block s = lh_block t"
    "lstate.more s = lstate.more t"
    using assms by (cases s; cases t; simp)+
  show l: "lblk s = lblk t" by (rule ext) (simp add: lblk_def f)
  show "log_area s = log_area t" "logged s = logged t" by (simp_all add: log_area_def logged_def f l)
qed

lemma log_rest_ok:
  assumes "bstate.more s = bstate.more (t :: 'z lstate_scheme)" "disksize s = disksize t"
  shows "log_geom s = log_geom t" "head_ok s = head_ok t"
  using assms(2) by (simp_all add: log_geom_def head_ok_def log_rest [OF assms(1)])

section \<open>Copying between the log and the home blocks\<close>

lemma log_bread_eq: "log_geom s \<Longrightarrow> log_bread (int k) s = bread 1 (lblk s k) s"
  by (simp add: log_bread_def lblk_def log_geom_def uint_of_int_def)

lemma home_bread_eq: "log_geom s \<Longrightarrow> head_ok s \<Longrightarrow> k < nat (lh_n s) \<Longrightarrow> home_bread k s = bread 1 (logged s ! k) s"
  using head_okD(6) [of s k] head_okD(9) [of s] by (simp add: home_bread_def log_geom_def uint_of_int_def)

text \<open>What a sequence of block writes makes of a disk.\<close>

fun apply_writes :: "(u32 \<times> block) list \<Rightarrow> (u32 \<Rightarrow> block) \<Rightarrow> u32 \<Rightarrow> block" where
  "apply_writes [] m = m"
| "apply_writes ((b, d) # ws) m = apply_writes ws (m(b := d))"

lemma apply_writes_append [simp]: "apply_writes (ws @ vs) m = apply_writes vs (apply_writes ws m)"
  by (induction ws arbitrary: m) auto

definition steps_to :: "'z lstate_scheme \<Rightarrow> (u32 \<times> block) list \<Rightarrow> 'z lstate_scheme \<Rightarrow> bool" where
  "steps_to s ws t \<longleftrightarrow> cache_ok t \<and> held t = {} \<and> bstate.more t = bstate.more s \<and> disksize t = disksize s \<and>
     dwrites t = dwrites s @ ws \<and> dirty t = dirty s - fst ` set ws \<and>
     blk t = apply_writes ws (blk s) \<and> disk t = apply_writes ws (disk s)"

lemma steps_to_refl: "cache_ok s \<Longrightarrow> held s = {} \<Longrightarrow> steps_to s [] s"
  by (simp add: steps_to_def)

lemma steps_to_trans: "steps_to s ws t \<Longrightarrow> steps_to t vs u \<Longrightarrow> steps_to s (ws @ vs) u"
  by (auto simp: steps_to_def)

definition log_ready :: "'z lstate_scheme \<Rightarrow> bool" where
  "log_ready s \<longleftrightarrow> cache_ok s \<and> held s = {} \<and> log_geom s \<and> head_ok s \<and> dirty s \<subseteq> set (logged s)"

lemma log_readyD:
  assumes "log_ready s" "k < nat (lh_n s)"
  shows "lblk s (Suc k) < disksize s" "logged s ! k < disksize s" "lblk s (Suc k) \<noteq> logged s ! k" "lblk s (Suc k) \<notin> dirty s"
    "card (dirty s) < NBUF" "logged s ! k \<notin> log_area s"
proof -
  have g: "log_geom s" and h: "head_ok s" and d: "dirty s \<subseteq> set (logged s)" using assms(1) by (auto simp: log_ready_def)
  have k: "int (Suc k) < log_size s" using head_okD(3,4) [OF h] assms(2) by linarith
  note hd = head_okD(7) [OF h assms(2)]
  show "lblk s (Suc k) < disksize s" by (rule lblk_less [OF g k])
  show "logged s ! k < disksize s" "logged s ! k \<notin> log_area s" using hd by simp_all
  show "lblk s (Suc k) \<noteq> logged s ! k" using hd lblk_area [OF k] by auto
  show "lblk s (Suc k) \<notin> dirty s" using d h lblk_area [OF k] by (auto simp: head_ok_def)
  have "card (dirty s) \<le> card (set (logged s))" using d by (simp add: card_mono)
  also have "\<dots> \<le> length (logged s)" by (rule card_length)
  finally show "card (dirty s) < NBUF" using head_okD(1,2) [OF h] by simp
qed

lemma write_log_one_ok:
  assumes r: "log_ready s" and k: "k < nat (lh_n s)" and d: "logged s ! k \<in> dirty s"
  shows "\<exists>t. write_log_one k s = Inr t \<and> steps_to s [(lblk s (Suc k), blk s (logged s ! k))] t"
proof -
  note rd = log_readyD [OF r k]
  have ok: "cache_ok s" and h: "held s = {}" and g: "log_geom s" "head_ok s" using r by (auto simp: log_ready_def)
  obtain i s1 j s2 where 1: "bread 1 (lblk s (Suc k)) s = Inr (i, s1)" "bread 1 (logged s ! k) s1 = Inr (j, s2)" "cache_ok s2"
    "holds s2 i (lblk s (Suc k))" "holds s2 j (logged s ! k)" "blk s2 = blk s" "disk s2 = disk s" "dirty s2 = dirty s"
    "dwrites s2 = dwrites s" "disksize s2 = disksize s" "bstate.more s1 = bstate.more s" "bstate.more s2 = bstate.more s"
    "held s2 = insert (lblk s (Suc k)) (insert (logged s ! k) (held s))"
    by (rule bc.get_two [OF ok rd(1,2,3)]) (use h d rd(5) in auto)
  have rs: "logged s ! k \<in> dirty s2 \<or> blk s2 (logged s ! k) = disk s2 (logged s ! k)" using d 1 by simp
  obtain t1 t2 t where 2: "bwrite i (set_data i (buf_data s2 j) s2) = Inr t1" "brelse j t1 = Inr t2" "brelse i t2 = Inr t" "cache_ok t"
    "blk t = (blk s2)(lblk s (Suc k) := blk s2 (logged s ! k))" "disk t = (disk s2)(lblk s (Suc k) := blk s2 (logged s ! k))"
    "dirty t = dirty s2 - {lblk s (Suc k)}" "dwrites t = dwrites s2 @ [(lblk s (Suc k), blk s2 (logged s ! k))]"
    "disksize t = disksize s2" "bstate.more t = bstate.more s2" "held t = held s2 - {lblk s (Suc k), logged s ! k}"
    by (rule bc.copy_back [OF 1(3,4,5) rd(3) rs]) auto
  have nh: "nat (lh_n s1) = nat (lh_n s)" "logged s1 = logged s" using log_rest [OF 1(11)] by simp_all
  have g1: "log_geom s1" "head_ok s1"
    using bc.get [OF ok rd(1)] 1(1) h rd(5) log_rest_ok [OF 1(11)] g by auto
  have "log_bread (int k + 1) s = Inr (i, s1)" using log_bread_eq [OF g(1), of "Suc k"] 1(1) by (simp add: add.commute)
  moreover have "home_bread k s1 = Inr (j, s2)" using home_bread_eq [OF g1] nh k 1(2) by simp
  ultimately have "write_log_one k s = Inr t" by (simp add: write_log_one_def 2(1,2,3))
  moreover have "held t = {}" using 2(11) 1(13) h by auto
  then have "steps_to s [(lblk s (Suc k), blk s (logged s ! k))] t"
    using 1 2 by (simp add: steps_to_def)
  ultimately show ?thesis by blast
qed

lemma install_one_ok:
  assumes r: "log_ready s" and k: "k < nat (lh_n s)" and d: "logged s ! k \<in> dirty s \<or> Suc (card (dirty s)) < NBUF"
  shows "\<exists>t. install_one k s = Inr t \<and> steps_to s [(logged s ! k, blk s (lblk s (Suc k)))] t"
proof -
  note rd = log_readyD [OF r k]
  have ok: "cache_ok s" and h: "held s = {}" and g: "log_geom s" "head_ok s" using r by (auto simp: log_ready_def)
  have "finite (dirty s)" using finite_held_dirty [of s] by simp
  then have cd: "logged s ! k \<in> dirty s \<or> card (insert (lblk s (Suc k)) (held s \<union> dirty s)) < NBUF"
    using d rd(4) h by simp
  obtain i s1 j s2 where 1: "bread 1 (lblk s (Suc k)) s = Inr (i, s1)" "bread 1 (logged s ! k) s1 = Inr (j, s2)" "cache_ok s2"
    "holds s2 i (lblk s (Suc k))" "holds s2 j (logged s ! k)" "blk s2 = blk s" "disk s2 = disk s" "dirty s2 = dirty s"
    "dwrites s2 = dwrites s" "disksize s2 = disksize s" "bstate.more s1 = bstate.more s" "bstate.more s2 = bstate.more s"
    "held s2 = insert (lblk s (Suc k)) (insert (logged s ! k) (held s))"
    by (rule bc.get_two [OF ok rd(1,2,3) _ _ _ cd]) (use h rd(5) in auto)
  have rs: "lblk s (Suc k) \<in> dirty s2 \<or> blk s2 (lblk s (Suc k)) = disk s2 (lblk s (Suc k))"
    using bc.clean [OF ok, of "lblk s (Suc k)"] h 1 by simp
  obtain t1 t2 t where 2: "bwrite j (set_data j (buf_data s2 i) s2) = Inr t1" "brelse i t1 = Inr t2" "brelse j t2 = Inr t" "cache_ok t"
    "blk t = (blk s2)(logged s ! k := blk s2 (lblk s (Suc k)))" "disk t = (disk s2)(logged s ! k := blk s2 (lblk s (Suc k)))"
    "dirty t = dirty s2 - {logged s ! k}" "dwrites t = dwrites s2 @ [(logged s ! k, blk s2 (lblk s (Suc k)))]"
    "disksize t = disksize s2" "bstate.more t = bstate.more s2" "held t = held s2 - {logged s ! k, lblk s (Suc k)}"
    by (rule bc.copy_back [OF 1(3,5,4) rd(3) [symmetric] rs]) auto
  have nh: "nat (lh_n s1) = nat (lh_n s)" "logged s1 = logged s" using log_rest [OF 1(11)] by simp_all
  have g1: "log_geom s1" "head_ok s1"
    using bc.get [OF ok rd(1)] 1(1) h rd(5) log_rest_ok [OF 1(11)] g by auto
  have "log_bread (int k + 1) s = Inr (i, s1)" using log_bread_eq [OF g(1), of "Suc k"] 1(1) by (simp add: add.commute)
  moreover have "home_bread k s1 = Inr (j, s2)" using home_bread_eq [OF g1] nh k 1(2) by simp
  ultimately have "install_one k s = Inr t" by (simp add: install_one_def 2(1,2,3))
  moreover have "held t = {}" using 2(11) 1(13) h by auto
  then have "steps_to s [(logged s ! k, blk s (lblk s (Suc k)))] t"
    using 1 2 by (simp add: steps_to_def)
  ultimately show ?thesis by blast
qed

section \<open>The header block\<close>

text \<open>The cache does not depend on the fields above it.\<close>

lemma cache_frame:
  assumes "bufs s = bufs t" "lru s = lru t" "disk s = disk t" "disksize s = disksize t"
  shows "cache_ok s = cache_ok t" "held s = held t" "dirty s = dirty t" "blk s = blk t" "holds s = holds t" "buf_data s = buf_data t"
proof -
  have c: "cached s i b = cached t i b" for i b using assms(1) by (simp add: cached_def)
  have "buf_ok s x = buf_ok t x" for x using assms(3,4) by (simp add: buf_ok_def)
  with c show "cache_ok s = cache_ok t" using assms by (simp add: cache_ok_def)
  show h: "holds s = holds t" using assms(1) c by (intro ext) (simp add: holds_def)
  show "held s = held t" "dirty s = dirty t" using assms(1) c h by (simp_all add: held_def dirty_def)
  show "blk s = blk t" "buf_data s = buf_data t"
    using assms(1,3) c by (simp_all add: fun_eq_iff blk_def buf_data_def split: option.split)
qed

lemma cache_lh_n [simp]:
  "cache_ok (s\<lparr>lh_n := x\<rparr>) = cache_ok s" "held (s\<lparr>lh_n := x\<rparr>) = held s" "dirty (s\<lparr>lh_n := x\<rparr>) = dirty s"
  "blk (s\<lparr>lh_n := x\<rparr>) = blk s" "holds (s\<lparr>lh_n := x\<rparr>) = holds s"
  by (rule cache_frame; simp)+

lemma cache_lh_block [simp]:
  "cache_ok (s\<lparr>lh_block := x\<rparr>) = cache_ok s" "held (s\<lparr>lh_block := x\<rparr>) = held s" "dirty (s\<lparr>lh_block := x\<rparr>) = dirty s"
  "blk (s\<lparr>lh_block := x\<rparr>) = blk s" "holds (s\<lparr>lh_block := x\<rparr>) = holds s"
  by (rule cache_frame; simp)+

definition encodes :: "block \<Rightarrow> u32 list \<Rightarrow> bool" where
  "encodes d bs \<longleftrightarrow> ld32 d 0 = word_of_nat (length bs) \<and> (\<forall>k<length bs. ld32 d (4 + 4 * k) = bs ! k)"

lemma head_data_ok:
  assumes "head_ok s"
  shows "\<exists>e. head_data s d = Inr e \<and> encodes e (logged s)"
proof -
  let ?n = "nat (lh_n s)"
  let ?P = "\<lambda>j e. ld32 e 0 = uint_of_int (lh_n s) \<and> (\<forall>k<j. ld32 e (4 + 4 * k) = uint_of_int (lh_block s ! k))"
  have "\<exists>e. head_data s d = Inr e \<and> ?P (0 + ?n) e"
    unfolding head_data_def
  proof (rule for_range_inv)
    fix j e assume "j < 0 + ?n" "?P j e"
    then show "\<exists>e'. (if j < LOGSIZE then Inr (st32 (4 + 4 * j) (uint_of_int (lh_block s ! j)) e) else Inl OutOfBounds) = Inr e' \<and> ?P (Suc j) e'"
      using head_okD(9) [OF assms] by (auto simp: ld32_st32_other_nat less_Suc_eq)
  qed simp
  then obtain e where e: "head_data s d = Inr e" "?P ?n e" by auto
  have "uint_of_int (lh_n s) = word_of_nat ?n" using head_okD(3) [OF assms] by (metis of_int_of_nat_eq uint_of_int_def)
  then have "encodes e (logged s)" using e(2) head_okD(1,6) [OF assms] by (simp add: encodes_def)
  with e(1) show ?thesis by blast
qed

lemma write_head_ok:
  assumes ok: "cache_ok s" "held s = {}" and g: "log_geom s" "head_ok s" and c: "card (dirty s) < NBUF"
  shows "\<exists>t hb. write_head s = Inr t \<and> steps_to s [(lblk s 0, hb)] t \<and> encodes hb (logged s)"
proof -
  have l: "lblk s 0 < disksize s" using g by (intro lblk_less) (auto simp: log_geom_def)
  obtain hb where hb: "head_data s (blk s (lblk s 0)) = Inr hb" "encodes hb (logged s)" using head_data_ok [OF g(2)] by blast
  have pre: "lblk s 0 \<notin> held s" "lblk s 0 \<in> dirty s \<or> card (held s \<union> dirty s) < NBUF" using ok c by simp_all
  obtain i s1 s2 t where 1: "bread 1 (lblk s 0) s = Inr (i, s1)" "buf_data s1 i = blk s (lblk s 0)" "bwrite i (set_data i hb s1) = Inr s2"
    "brelse i s2 = Inr t" "cache_ok t" "blk t = (blk s)(lblk s 0 := hb)" "disk t = (disk s)(lblk s 0 := hb)"
    "dirty t = dirty s - {lblk s 0}" "dwrites t = dwrites s @ [(lblk s 0, hb)]" "disksize t = disksize s"
    "bstate.more s1 = bstate.more s" "bstate.more t = bstate.more s" "held t = held s"
    by (rule bc.write_block [OF ok(1) l pre, of hb]) auto
  have "head_data s1 d = head_data s d" for d unfolding head_data_def log_rest(6,7) [OF 1(11)] by (rule refl)
  then have "write_head s = Inr t" using log_bread_eq [OF g(1), of 0] 1(1,2,3,4) hb(1) by (simp add: write_head_def)
  moreover have "steps_to s [(lblk s 0, hb)] t" using 1 ok(2) by (simp add: steps_to_def)
  ultimately show ?thesis using hb(2) by blast
qed

lemma read_head_ok:
  assumes ok: "cache_ok s" "held s = {}" and g: "log_geom s" and c: "card (dirty s) < NBUF"
    and e: "encodes (blk s (lblk s 0)) bs" "length bs < LOGSIZE" and l: "length (lh_block s) = LOGSIZE"
  shows "\<exists>t. read_head s = Inr t \<and> cache_ok t \<and> held t = {} \<and> blk t = blk s \<and> disk t = disk s \<and> dirty t = dirty s \<and>
    disksize t = disksize s \<and> dwrites t = dwrites s \<and> log_start t = log_start s \<and> log_size t = log_size s \<and> log_dev t = log_dev s \<and>
    lh_n t = int (length bs) \<and> length (lh_block t) = LOGSIZE \<and> logged t = bs"
proof -
  have b: "lblk s 0 < disksize s" using g by (intro lblk_less) (auto simp: log_geom_def)
  have pre: "lblk s 0 \<notin> held s" "lblk s 0 \<in> dirty s \<or> card (held s \<union> dirty s) < NBUF" using ok c by simp_all
  from bc.get [OF ok(1) b pre] obtain i s1 where 1: "bread 1 (lblk s 0) s = Inr (i, s1)" "cache_ok s1" "holds s1 i (lblk s 0)"
    "blk s1 = blk s" "disk s1 = disk s" "dirty s1 = dirty s" "dwrites s1 = dwrites s" "disksize s1 = disksize s"
    "bstate.more s1 = bstate.more s" "held s1 = insert (lblk s 0) (held s)" by blast
  let ?d = "blk s (lblk s 0)" and ?n = "length bs"
  have d: "buf_data s1 i = ?d" using bc.data [OF 1(2,3)] 1(4) by simp
  have n: "int_of_uint (ld32 ?d 0) = int ?n"
    using e by (simp add: encodes_def int_of_uint_def LOGSIZE_def signed_of_nat signed_take_bit_int_eq_self)
  let ?s = "s1\<lparr>lh_n := int ?n\<rparr>"
  let ?P = "\<lambda>j t. \<exists>xs. t = ?s\<lparr>lh_block := xs\<rparr> \<and> length xs = LOGSIZE \<and> (\<forall>k<j. xs ! k = int_of_uint (ld32 ?d (4 + 4 * k)))"
  have "\<exists>t. for_range 0 ?n (\<lambda>i s.
         if i < LOGSIZE then Inr (s\<lparr>lh_block := (lh_block s)[i := int_of_uint (ld32 ?d (4 + 4 * i))]\<rparr>) else Inl OutOfBounds) ?s = Inr t \<and> ?P (0 + ?n) t"
  proof (rule for_range_inv)
    show "?P 0 ?s" using l log_rest(7) [OF 1(9)] by (intro exI [of _ "lh_block s1"]) simp
    fix j t assume j: "j < 0 + ?n" "?P j t"
    then obtain xs where xs: "t = ?s\<lparr>lh_block := xs\<rparr>" "length xs = LOGSIZE" "\<forall>k<j. xs ! k = int_of_uint (ld32 ?d (4 + 4 * k))" by blast
    let ?xs = "xs[j := int_of_uint (ld32 ?d (4 + 4 * j))]"
    have "\<forall>k<Suc j. ?xs ! k = int_of_uint (ld32 ?d (4 + 4 * k))"
      using xs j(1) e(2) by (auto simp: nth_list_update less_Suc_eq)
    then show "\<exists>t'. (if j < LOGSIZE then Inr (t\<lparr>lh_block := (lh_block t)[j := int_of_uint (ld32 ?d (4 + 4 * j))]\<rparr>) else Inl OutOfBounds) = Inr t' \<and> ?P (Suc j) t'"
      using xs j(1) e(2) by (intro exI [of _ "?s\<lparr>lh_block := ?xs\<rparr>"] conjI exI [of _ ?xs]) simp_all
  qed
  then obtain xs where xs: "for_range 0 ?n (\<lambda>i s.
         if i < LOGSIZE then Inr (s\<lparr>lh_block := (lh_block s)[i := int_of_uint (ld32 ?d (4 + 4 * i))]\<rparr>) else Inl OutOfBounds) ?s = Inr (?s\<lparr>lh_block := xs\<rparr>)"
    "length xs = LOGSIZE" "\<forall>k<?n. xs ! k = int_of_uint (ld32 ?d (4 + 4 * k))" by auto
  let ?t = "?s\<lparr>lh_block := xs\<rparr>"
  have "cache_ok ?t" "holds ?t i (lblk s 0)" "lblk s 0 \<in> dirty ?t \<or> blk ?t (lblk s 0) = disk ?t (lblk s 0)"
    using 1 bc.clean [OF ok(1) pre(1)] by simp_all
  from bc.put [OF this] obtain t where 2: "brelse i ?t = Inr t" "cache_ok t" "blk t = blk ?t" "disk t = disk ?t" "dirty t = dirty ?t"
    "dwrites t = dwrites ?t" "disksize t = disksize ?t" "bstate.more t = bstate.more ?t" "held t = held ?t - {lblk s 0}" by blast
  have "read_head s = Inr t" using log_bread_eq [OF g, of 0] 1(1) d n xs(1) 2(1) by (simp add: read_head_def)
  moreover have "logged t = bs"
    using xs(2,3) e log_rest(6,7) [OF 2(8)]
    by (intro nth_equalityI) (auto simp: logged_def encodes_def int_of_uint_def uint_of_int_def)
  ultimately show ?thesis
    using 1 2 ok(2) xs(2) log_rest [OF 2(8)] log_rest [OF 1(9)] by (intro exI [of _ t]) simp
qed

section \<open>Whole transactions\<close>

lemma apply_writes_other: "b \<notin> fst ` set ws \<Longrightarrow> apply_writes ws m b = m b"
  by (induction ws arbitrary: m) auto

lemma apply_writes_map:
  assumes "inj_on f (set ks)" "distinct ks" "k \<in> set ks"
  shows "apply_writes (map (\<lambda>k. (f k, g k)) ks) m (f k) = g k"
  using assms
proof (induction ks arbitrary: m)
  case (Cons j ks)
  show ?case
  proof (cases "k = j")
    case True
    then have "f k \<notin> fst ` set (map (\<lambda>k. (f k, g k)) ks)" using Cons.prems by (auto simp: inj_on_def)
    then show ?thesis using True by (simp add: apply_writes_other)
  qed (use Cons in \<open>auto simp: inj_on_def\<close>)
qed simp

lemma steps_to_ready: "log_ready s \<Longrightarrow> steps_to s ws t \<Longrightarrow> log_ready t"
  using log_rest(11) [of t s] log_rest_ok [of t s] by (auto simp: log_ready_def steps_to_def)

lemma write_log_ok:
  assumes r: "log_ready s" and d: "dirty s = set (logged s)"
  shows "\<exists>t. write_log s = Inr t \<and> steps_to s (map (\<lambda>k. (lblk s (Suc k), blk s (logged s ! k))) [0..<nat (lh_n s)]) t"
proof -
  let ?W = "\<lambda>j. map (\<lambda>k. (lblk s (Suc k), blk s (logged s ! k))) [0..<j]"
  have h: "head_ok s" using r by (simp add: log_ready_def)
  have "\<exists>t. write_log s = Inr t \<and> steps_to s (?W (0 + nat (lh_n s))) t"
    unfolding write_log_def
  proof (rule for_range_inv)
    show "steps_to s (?W 0) s" using r by (simp add: steps_to_refl log_ready_def)
    fix j t assume j: "j < 0 + nat (lh_n s)" and t: "steps_to s (?W j) t"
    have m: "bstate.more t = bstate.more s" using t by (simp add: steps_to_def)
    note lr = log_rest [OF m]
    have area: "lblk s (Suc k) \<in> log_area s" if "k < nat (lh_n s)" for k
      using that head_okD(3,4) [OF h] by (intro lblk_area) linarith
    have lj: "logged s ! j \<in> set (logged s)" "logged s ! j \<notin> log_area s"
      using j head_okD(1) [OF h] head_okD(7) [OF h, of j] by (auto intro: nth_mem)
    then have nj: "logged s ! j \<notin> fst ` set (?W j)" using area j by auto
    then have "logged t ! j \<in> dirty t" using t lj d lr by (auto simp: steps_to_def)
    then obtain u where u: "write_log_one j t = Inr u" "steps_to t [(lblk t (Suc j), blk t (logged t ! j))] u"
      using write_log_one_ok [OF steps_to_ready [OF r t], of j] j lr(6) by auto
    have "blk t (logged s ! j) = blk s (logged s ! j)" using t nj by (simp add: steps_to_def apply_writes_other)
    then have "steps_to s (?W (Suc j)) u" using steps_to_trans [OF t u(2)] lr by simp
    then show "\<exists>u. write_log_one j t = Inr u \<and> steps_to s (?W (Suc j)) u" using u(1) by blast
  qed
  then show ?thesis by simp
qed

lemma install_trans_ok:
  assumes r: "log_ready s" and d: "dirty s = set (logged s) \<or> dirty s = {}"
  shows "\<exists>t. install_trans s = Inr t \<and> steps_to s (map (\<lambda>k. (logged s ! k, blk s (lblk s (Suc k)))) [0..<nat (lh_n s)]) t"
proof -
  let ?W = "\<lambda>j. map (\<lambda>k. (logged s ! k, blk s (lblk s (Suc k)))) [0..<j]"
  have h: "head_ok s" using r by (simp add: log_ready_def)
  have "\<exists>t. install_trans s = Inr t \<and> steps_to s (?W (0 + nat (lh_n s))) t"
    unfolding install_trans_def
  proof (rule for_range_inv)
    show "steps_to s (?W 0) s" using r by (simp add: steps_to_refl log_ready_def)
    fix j t assume j: "j < 0 + nat (lh_n s)" and t: "steps_to s (?W j) t"
    have m: "bstate.more t = bstate.more s" using t by (simp add: steps_to_def)
    note lr = log_rest [OF m]
    have lj: "logged s ! j \<in> set (logged s)" using j head_okD(1) [OF h] by auto
    have nj: "logged s ! j \<notin> fst ` set (?W j)"
      using j head_okD(1,5) [OF h] by (auto simp: nth_eq_iff_index_eq)
    have "logged t ! j \<in> dirty t \<or> Suc (card (dirty t)) < NBUF"
      using d t lj nj lr by (auto simp: steps_to_def NBUF_def)
    then obtain u where u: "install_one j t = Inr u" "steps_to t [(logged t ! j, blk t (lblk t (Suc j)))] u"
      using install_one_ok [OF steps_to_ready [OF r t], of j] j lr(6) by auto
    have "lblk s (Suc j) \<in> log_area s" using j head_okD(3,4) [OF h] by (intro lblk_area) linarith
    then have "lblk s (Suc j) \<notin> fst ` set (?W j)" using j head_okD(7) [OF h] by force
    then have "blk t (lblk s (Suc j)) = blk s (lblk s (Suc j))" using t by (simp add: steps_to_def apply_writes_other)
    then have "steps_to s (?W (Suc j)) u" using steps_to_trans [OF t u(2)] lr by simp
    then show "\<exists>u. install_one j t = Inr u \<and> steps_to s (?W (Suc j)) u" using u(1) by blast
  qed
  then show ?thesis by simp
qed

lemma clear_head:
  assumes "log_geom s" "length (lh_block s) = LOGSIZE"
  shows "log_geom (s\<lparr>lh_n := 0\<rparr>)" "head_ok (s\<lparr>lh_n := 0\<rparr>)" "logged (s\<lparr>lh_n := 0\<rparr>) = []" "lblk (s\<lparr>lh_n := 0\<rparr>) = lblk s"
    "log_area (s\<lparr>lh_n := 0\<rparr>) = log_area s"
proof -
  show l: "logged (s\<lparr>lh_n := 0\<rparr>) = []" by (simp add: logged_def)
  show g: "log_geom (s\<lparr>lh_n := 0\<rparr>)" using assms(1) by (simp add: log_geom_def)
  show "head_ok (s\<lparr>lh_n := 0\<rparr>)" using assms unfolding head_ok_def l by (simp add: log_geom_def NBUF_def)
  show b: "lblk (s\<lparr>lh_n := 0\<rparr>) = lblk s" by (rule ext) (simp add: lblk_def)
  show "log_area (s\<lparr>lh_n := 0\<rparr>) = log_area s" by (simp add: log_area_def b)
qed

text \<open>The writes of a commit, with \<open>n\<close> the size of the transaction: log, header, home blocks, header.\<close>

definition commit_writes :: "'z lstate_scheme \<Rightarrow> block \<Rightarrow> block \<Rightarrow> (u32 \<times> block) list" where
  "commit_writes s hb h0 = map (\<lambda>k. (lblk s (Suc k), blk s (logged s ! k))) [0..<nat (lh_n s)] @ [(lblk s 0, hb)] @
     map (\<lambda>k. (logged s ! k, blk s (logged s ! k))) [0..<nat (lh_n s)] @ [(lblk s 0, h0)]"

lemma commit_ok:
  assumes r: "log_ready s" and d: "dirty s = set (logged s)" and n: "lh_n s > 0"
  shows "\<exists>t hb h0. commit s = Inr t \<and> encodes hb (logged s) \<and> encodes h0 [] \<and> cache_ok t \<and> held t = {} \<and> dirty t = {} \<and>
    dwrites t = dwrites s @ commit_writes s hb h0 \<and> disk t = apply_writes (commit_writes s hb h0) (disk s) \<and>
    blk t = apply_writes (commit_writes s hb h0) (blk s) \<and> lh_n t = 0"
proof -
  have g: "log_geom s" and h: "head_ok s" using r by (auto simp: log_ready_def)
  let ?n = "nat (lh_n s)"
  let ?W1 = "map (\<lambda>k. (lblk s (Suc k), blk s (logged s ! k))) [0..<?n]"
  obtain s1 where s1: "write_log s = Inr s1" "steps_to s ?W1 s1" using write_log_ok [OF r d] by blast
  note r1 = steps_to_ready [OF r s1(2)]
  have m1: "bstate.more s1 = bstate.more s" using s1(2) by (simp add: steps_to_def)
  note lr1 = log_rest [OF m1]
  have sz: "int (Suc k) < log_size s" if "k < ?n" for k using that head_okD(3,4) [OF h] by linarith
  note area = lblk_area [OF sz]
  have home: "b \<notin> log_area s" if "b \<in> set (logged s)" for b using that h by (auto simp: head_ok_def)
  have d1: "dirty s1 = set (logged s)" using s1(2) d area home by (fastforce simp: steps_to_def)
  have "card (dirty s1) < NBUF" unfolding d1 using head_okD(1,2,5) [OF h] by (simp add: distinct_card)
  then obtain s2 hb where s2: "write_head s1 = Inr s2" "steps_to s1 [(lblk s1 0, hb)] s2" "encodes hb (logged s1)"
    using write_head_ok r1 by (metis log_ready_def)
  note r2 = steps_to_ready [OF r1 s2(2)]
  have m2: "bstate.more s2 = bstate.more s1" using s2(2) by (simp add: steps_to_def)
  note lr2 = log_rest [OF m2]
  have s0: "int 0 < log_size s" using g by (simp add: log_geom_def)
  note l0 = lblk_area [OF s0]
  have d2: "dirty s2 = set (logged s2)" using s2(2) d1 l0 home lr1 lr2 by (fastforce simp: steps_to_def)
  let ?W2 = "map (\<lambda>k. (logged s2 ! k, blk s2 (lblk s2 (Suc k)))) [0..<nat (lh_n s2)]"
  obtain s3 where s3: "install_trans s2 = Inr s3" "steps_to s2 ?W2 s3" using install_trans_ok [OF r2] d2 by blast
  have m3: "bstate.more s3 = bstate.more s2" using s3(2) by (simp add: steps_to_def)
  note lr3 = log_rest [OF m3]
  have s13: "steps_to s (?W1 @ [(lblk s 0, hb)] @ ?W2) s3"
    using steps_to_trans [OF s1(2) steps_to_trans [OF s2(2) s3(2)]] lr1 by simp
  have "inj_on (\<lambda>k. lblk s (Suc k)) (set [0..<?n])"
    using head_okD(3,4) [OF h] by (intro inj_onI) (auto dest!: lblk_inj [OF g, rotated 2])
  then have "blk s1 (lblk s (Suc k)) = blk s (logged s ! k)" if "k < ?n" for k
    using s1(2) that apply_writes_map [of "\<lambda>k. lblk s (Suc k)" "[0..<?n]" k "\<lambda>k. blk s (logged s ! k)"] by (simp add: steps_to_def)
  moreover have "lblk s (Suc k) \<noteq> lblk s 0" if "k < ?n" for k
    using lblk_inj [OF g sz [OF that], of 0] s0 by auto
  ultimately have W2: "?W2 = map (\<lambda>k. (logged s ! k, blk s (logged s ! k))) [0..<?n]"
    using s2(2) lr1 lr2 by (simp add: steps_to_def)
  have "set (logged s) = (!) (logged s) ` {0..<?n}" using head_okD(1) [OF h] by (auto simp: set_conv_nth)
  then have "fst ` set ?W2 = set (logged s)" unfolding W2 by (simp add: image_image)
  then have d3: "dirty s3 = {}" using s3(2) d2 lr1(11) lr2(11) unfolding steps_to_def by simp
  let ?s3 = "s3\<lparr>lh_n := 0\<rparr>"
  have "length (lh_block s3) = LOGSIZE" "log_geom s3"
    using head_okD(8) [OF h] steps_to_ready [OF r2 s3(2)] lr1 lr2 lr3 by (auto simp: log_ready_def)
  note ch = clear_head [OF this(2,1)]
  have "\<exists>t h0. write_head ?s3 = Inr t \<and> steps_to ?s3 [(lblk ?s3 0, h0)] t \<and> encodes h0 (logged ?s3)"
    using s3(2) d3 ch by (intro write_head_ok) (simp_all add: steps_to_def NBUF_def)
  then obtain t h0 where t: "write_head ?s3 = Inr t" "steps_to ?s3 [(lblk s 0, h0)] t" "encodes h0 []"
    using ch lr1 lr2 lr3 by auto
  have "commit s = Inr t" using n s1(1) s2(1) s3(1) t(1) by (simp add: commit_def)
  moreover have "lh_n t = 0" using log_rest(6) [of t ?s3] t(2) by (simp add: steps_to_def)
  moreover have "commit_writes s hb h0 = (?W1 @ [(lblk s 0, hb)] @ ?W2) @ [(lblk s 0, h0)]" unfolding W2 by (simp add: commit_writes_def)
  ultimately show ?thesis using t s2(3) lr1 s13 d3 by (intro exI [of _ t] exI [of _ hb] exI [of _ h0]) (simp add: steps_to_def)
qed

section \<open>Crashes\<close>

text \<open>
  A machine that has just booted: the cache is empty and the superblock has been read. Nothing
  is assumed about the in-memory header.
\<close>

definition booted :: "'z lstate_scheme \<Rightarrow> 'y lstate_scheme \<Rightarrow> (u32 \<Rightarrow> block) \<Rightarrow> bool" where
  "booted s r d \<longleftrightarrow> cache_ok r \<and> held r = {} \<and> dirty r = {} \<and> disk r = d \<and> disksize r = disksize s \<and>
     log_start r = log_start s \<and> log_size r = log_size s \<and> log_dev r = log_dev s \<and> length (lh_block r) = LOGSIZE"

lemma booted_geom:
  assumes "booted s r d"
  shows "log_geom r = log_geom s" "lblk r = lblk s" "log_area r = log_area s" "blk r = d"
proof -
  show b: "lblk r = lblk s" using assms by (intro ext) (simp add: booted_def lblk_def)
  show "log_geom r = log_geom s" "log_area r = log_area s" using assms b by (simp_all add: booted_def log_geom_def log_area_def)
  show "blk r = d" using assms bc.clean [of r] by (intro ext) (auto simp: booted_def)
qed

lemma recover_ok:
  assumes b: "booted s r d" and g: "log_geom s" and e: "encodes (d (lblk s 0)) bs"
    and bs: "length bs < NBUF" "int (length bs) < log_size s" "distinct bs" "\<forall>b\<in>set bs. b < disksize s \<and> b \<notin> log_area s"
  shows "\<exists>u. recover_from_log r = Inr u \<and> cache_ok u \<and> held u = {} \<and> dirty u = {} \<and> encodes (disk u (lblk s 0)) [] \<and>
    (\<forall>k<length bs. disk u (bs ! k) = d (lblk s (Suc k))) \<and> (\<forall>b. b \<notin> log_area s \<and> b \<notin> set bs \<longrightarrow> disk u b = d b)"
proof -
  note bg = booted_geom [OF b]
  have L: "length bs < LOGSIZE" using bs(1) by (simp add: NBUF_def LOGSIZE_def)
  have "\<exists>t. read_head r = Inr t \<and> cache_ok t \<and> held t = {} \<and> blk t = blk r \<and> disk t = disk r \<and> dirty t = dirty r \<and>
    disksize t = disksize r \<and> dwrites t = dwrites r \<and> log_start t = log_start r \<and> log_size t = log_size r \<and> log_dev t = log_dev r \<and>
    lh_n t = int (length bs) \<and> length (lh_block t) = LOGSIZE \<and> logged t = bs"
    using b g e bg L by (intro read_head_ok) (simp_all add: booted_def NBUF_def)
  then obtain t where t: "read_head r = Inr t" "cache_ok t" "held t = {}" "blk t = d" "disk t = d" "dirty t = {}"
    "disksize t = disksize s" "log_start t = log_start s" "log_size t = log_size s" "log_dev t = log_dev s"
    "lh_n t = int (length bs)" "length (lh_block t) = LOGSIZE" "logged t = bs"
    using b bg by (auto simp: booted_def)
  have lt: "lblk t = lblk s" using t by (intro ext) (simp add: lblk_def)
  then have at: "log_area t = log_area s" "log_geom t" using t g by (simp_all add: log_area_def log_geom_def)
  have "log_size s \<le> int LOGSIZE" using g by (simp add: log_geom_def)
  then have rt: "log_ready t" using t at bs by (simp add: log_ready_def head_ok_def)
  let ?W = "map (\<lambda>k. (bs ! k, d (lblk s (Suc k)))) [0..<length bs]"
  obtain u1 where u1: "install_trans t = Inr u1" "steps_to t ?W u1"
    using install_trans_ok [OF rt] t lt by auto
  have m1: "bstate.more u1 = bstate.more t" using u1(2) by (simp add: steps_to_def)
  note lr = log_rest [OF m1]
  have gu: "log_geom u1" "length (lh_block u1) = LOGSIZE"
    using steps_to_ready [OF rt u1(2)] t lr by (auto simp: log_ready_def)
  note ch = clear_head [OF gu]
  have "\<exists>u h0. write_head (u1\<lparr>lh_n := 0\<rparr>) = Inr u \<and> steps_to (u1\<lparr>lh_n := 0\<rparr>) [(lblk (u1\<lparr>lh_n := 0\<rparr>) 0, h0)] u \<and> encodes h0 (logged (u1\<lparr>lh_n := 0\<rparr>))"
    using u1(2) t ch by (intro write_head_ok) (simp_all add: steps_to_def NBUF_def)
  then obtain u h0 where u: "write_head (u1\<lparr>lh_n := 0\<rparr>) = Inr u" "steps_to (u1\<lparr>lh_n := 0\<rparr>) [(lblk s 0, h0)] u" "encodes h0 []"
    using ch lr lt by auto
  have du: "disk u = (apply_writes ?W d)(lblk s 0 := h0)" "cache_ok u" "held u = {}" "dirty u = {}"
    using u(2) u1(2) t by (simp_all add: steps_to_def)
  have l0: "lblk s 0 \<in> log_area s" using g by (intro lblk_area) (simp add: log_geom_def)
  have "disk u (bs ! k) = d (lblk s (Suc k))" if "k < length bs" for k
  proof -
    have "bs ! k \<noteq> lblk s 0" using bs(4) l0 that nth_mem by metis
    moreover have "inj_on ((!) bs) (set [0..<length bs])" using bs(3) by (auto intro: inj_on_nth)
    ultimately show ?thesis using du(1) apply_writes_map [of "(!) bs" "[0..<length bs]" k "\<lambda>k. d (lblk s (Suc k))"] that by simp
  qed
  moreover have "disk u b = d b" if "b \<notin> log_area s" "b \<notin> set bs" for b
  proof -
    have "b \<noteq> lblk s 0" "b \<notin> fst ` set ?W" using that l0 by auto
    then show ?thesis using du(1) by (simp add: apply_writes_other)
  qed
  moreover have "recover_from_log r = Inr u" using t(1) u1(1) u(1) by (simp add: recover_from_log_def)
  ultimately show ?thesis using du u(3) by (intro exI [of _ u]) simp
qed

text \<open>The disk at the three kinds of crash points of a commit: before, at and after the header is on disk.\<close>

definition log_part :: "'z lstate_scheme \<Rightarrow> (u32 \<times> block) list" where
  "log_part s = map (\<lambda>k. (lblk s (Suc k), blk s (logged s ! k))) [0..<nat (lh_n s)]"

definition home_part :: "'z lstate_scheme \<Rightarrow> (u32 \<times> block) list" where
  "home_part s = map (\<lambda>k. (logged s ! k, blk s (logged s ! k))) [0..<nat (lh_n s)]"

lemma commit_writes_parts: "commit_writes s hb h0 = log_part s @ (lblk s 0, hb) # home_part s @ [(lblk s 0, h0)]"
  by (simp add: commit_writes_def log_part_def home_part_def)

lemma set_log_part:
  assumes "log_ready s" "b \<in> fst ` set (log_part s)"
  shows "b \<in> log_area s" "b \<noteq> lblk s 0"
proof -
  have g: "log_geom s" and h: "head_ok s" using assms(1) by (auto simp: log_ready_def)
  obtain k where k: "k < nat (lh_n s)" "b = lblk s (Suc k)" using assms(2) by (auto simp: log_part_def)
  have z: "int (Suc k) < log_size s" "int 0 < log_size s" using k(1) head_okD(3,4) [OF h] by linarith+
  show "b \<in> log_area s" using k(2) lblk_area [OF z(1)] by simp
  show "b \<noteq> lblk s 0" using k(2) lblk_inj [OF g z] by auto
qed

lemma set_home_part:
  assumes "log_ready s" "b \<in> fst ` set (home_part s)"
  shows "b \<in> set (logged s)" "b \<notin> log_area s"
proof -
  have h: "head_ok s" using assms(1) by (simp add: log_ready_def)
  show l: "b \<in> set (logged s)" using assms(2) head_okD(1) [OF h] by (auto simp: home_part_def)
  show "b \<notin> log_area s" using h l by (simp add: head_ok_def)
qed

lemma apply_log_part:
  assumes "log_ready s" "k < nat (lh_n s)"
  shows "apply_writes (log_part s) m (lblk s (Suc k)) = blk s (logged s ! k)"
proof -
  have g: "log_geom s" and h: "head_ok s" using assms(1) by (auto simp: log_ready_def)
  have sz: "int (Suc k) < log_size s" if "k < nat (lh_n s)" for k using that head_okD(3,4) [OF h] by linarith
  have "inj_on (\<lambda>k. lblk s (Suc k)) (set [0..<nat (lh_n s)])"
    using lblk_inj [OF g sz sz] by (intro inj_onI) auto
  from apply_writes_map [OF this] assms(2) show ?thesis by (simp add: log_part_def)
qed

lemma apply_home_part:
  assumes "log_ready s" "b \<in> set (logged s)"
  shows "apply_writes (home_part s) m b = blk s b"
proof -
  have h: "head_ok s" using assms(1) by (auto simp: log_ready_def)
  obtain k where k: "k < nat (lh_n s)" "b = logged s ! k" using assms(2) head_okD(1) [OF h] by (auto simp: in_set_conv_nth)
  have "inj_on ((!) (logged s)) (set [0..<nat (lh_n s)])" using head_okD(1,5) [OF h] by (auto intro: inj_on_nth)
  from apply_writes_map [OF this] k show ?thesis by (simp add: home_part_def)
qed

text \<open>Booting from a disk whose log is empty, and from one whose header names the transaction.\<close>

lemma recover_empty:
  fixes q :: "'y lstate_scheme"
  assumes "booted s q d" "log_geom s" "encodes (d (lblk s 0)) []"
  shows "\<exists>u. recover_from_log q = Inr u \<and> encodes (disk u (lblk s 0)) [] \<and> (\<forall>b. b \<notin> log_area s \<longrightarrow> disk u b = d b)"
proof -
  have "0 < log_size s" using assms(2) by (simp add: log_geom_def)
  then show ?thesis using recover_ok [OF assms] by (auto simp: NBUF_def)
qed

lemma recover_committed:
  fixes q :: "'y lstate_scheme"
  assumes r: "log_ready s" and clean: "\<forall>b. b \<notin> set (logged s) \<longrightarrow> disk s b = blk s b" and hb: "encodes hb (logged s)"
    and b: "booted s q (apply_writes (log_part s @ (lblk s 0, hb) # take j (home_part s)) (disk s))" (is "booted s q ?d")
  shows "\<exists>u. recover_from_log q = Inr u \<and> encodes (disk u (lblk s 0)) [] \<and> (\<forall>b. b \<notin> log_area s \<longrightarrow> disk u b = blk s b)"
proof -
  have g: "log_geom s" and h: "head_ok s" using r by (auto simp: log_ready_def)
  have l0: "lblk s 0 \<in> log_area s" using g by (intro lblk_area) (simp add: log_geom_def)
  have tH: "fst ` set (take j (home_part s)) \<subseteq> fst ` set (home_part s)" by (simp add: image_mono set_take_subset)
  have keep: "?d b = ((apply_writes (log_part s) (disk s))(lblk s 0 := hb)) b" if "b \<in> log_area s \<or> b \<notin> set (logged s)" for b
  proof -
    have "b \<notin> fst ` set (take j (home_part s))" using that tH set_home_part [OF r] by blast
    then show ?thesis by (simp add: apply_writes_other del: fun_upd_apply)
  qed
  have lg: "?d (lblk s (Suc i)) = blk s (logged s ! i)" if "i < nat (lh_n s)" for i
  proof -
    have "lblk s (Suc i) \<in> fst ` set (log_part s)" using that by (simp add: log_part_def image_image)
    then show ?thesis using keep set_log_part [OF r] apply_log_part [OF r that] by simp
  qed
  have bs: "length (logged s) < NBUF" "int (length (logged s)) < log_size s" "distinct (logged s)" "\<forall>b\<in>set (logged s). b < disksize s \<and> b \<notin> log_area s"
    using h head_okD(1,2,3,4) [OF h] by (auto simp: head_ok_def)
  have "encodes (?d (lblk s 0)) (logged s)" using keep l0 hb by simp
  from recover_ok [OF b g this bs] obtain u where u: "recover_from_log q = Inr u" "encodes (disk u (lblk s 0)) []"
    "\<forall>k<length (logged s). disk u (logged s ! k) = ?d (lblk s (Suc k))" "\<forall>b. b \<notin> log_area s \<and> b \<notin> set (logged s) \<longrightarrow> disk u b = ?d b"
    by blast
  have "disk u b = blk s b" if "b \<notin> log_area s" for b
  proof (cases "b \<in> set (logged s)")
    case True
    then show ?thesis using u(3) lg head_okD(1) [OF h] by (auto simp: in_set_conv_nth)
  next
    case False
    have "b \<notin> fst ` set (log_part s)" using that set_log_part(1) [OF r] by blast
    then show ?thesis using False that u(4) keep l0 clean by (auto simp: apply_writes_other)
  qed
  then show ?thesis using u(1,2) by blast
qed

lemma commit_final:
  assumes r: "log_ready s" and clean: "\<forall>b. b \<notin> set (logged s) \<longrightarrow> disk s b = blk s b" and b: "b \<notin> log_area s"
  shows "apply_writes (commit_writes s hb h0) (disk s) b = blk s b"
proof -
  have l0: "lblk s 0 \<in> log_area s" using r by (intro lblk_area) (simp add: log_ready_def log_geom_def)
  show ?thesis
  proof (cases "b \<in> set (logged s)")
    case True
    then show ?thesis using b l0 apply_home_part [OF r True] unfolding commit_writes_parts by auto
  next
    case False
    then have "b \<notin> fst ` set (commit_writes s hb h0)"
      using b l0 set_log_part(1) [OF r] set_home_part(1) [OF r] unfolding commit_writes_parts by auto
    then show ?thesis using clean False by (simp add: apply_writes_other)
  qed
qed

lemma crash_during_commit:
  fixes q :: "'y lstate_scheme"
  assumes r: "log_ready s" and clean: "\<forall>b. b \<notin> set (logged s) \<longrightarrow> disk s b = blk s b" and e: "encodes (disk s (lblk s 0)) []"
    and hb: "encodes hb (logged s)" "encodes h0 []"
    and k: "k \<le> length (commit_writes s hb h0)" and b: "booted s q (apply_writes (take k (commit_writes s hb h0)) (disk s))"
  shows "\<exists>u. recover_from_log q = Inr u \<and> encodes (disk u (lblk s 0)) [] \<and>
        (\<forall>b. b \<notin> log_area s \<longrightarrow> disk u b = (if k \<le> nat (lh_n s) then disk s b else blk s b))"
proof -
  let ?n = "nat (lh_n s)" and ?W = "commit_writes s hb h0"
  have g: "log_geom s" using r by (simp add: log_ready_def)
  have len: "length (log_part s) = ?n" "length (home_part s) = ?n" by (simp_all add: log_part_def home_part_def)
  have "length ?W = Suc (Suc (?n + ?n))" using len unfolding commit_writes_parts by simp
  then have "k = Suc (?n + (k - Suc ?n)) \<and> k - Suc ?n \<le> ?n" if "\<not> k \<le> ?n" "k \<noteq> length ?W" using that k by linarith
  then consider "k \<le> ?n" | j where "k = Suc (?n + j)" "j \<le> ?n" | "k = length ?W" by blast
  then show ?thesis
  proof cases
    case 1
    then have w: "take k ?W = take k (log_part s)" using len unfolding commit_writes_parts by simp
    have "fst ` set (take k (log_part s)) \<subseteq> fst ` set (log_part s)" by (simp add: image_mono set_take_subset)
    then have "apply_writes (take k (log_part s)) (disk s) b = disk s b" if "b = lblk s 0 \<or> b \<notin> log_area s" for b
      using that set_log_part [OF r] by (intro apply_writes_other) blast
    then show ?thesis using recover_empty [OF b g] e 1 unfolding w by simp
  next
    case (2 j)
    then have w: "take k ?W = log_part s @ (lblk s 0, hb) # take j (home_part s)" using len unfolding commit_writes_parts by simp
    show ?thesis using recover_committed [OF r clean hb(1) b [unfolded w]] 2 by simp
  next
    case 3
    then have w: "take k ?W = ?W" "\<not> k \<le> ?n" using len unfolding commit_writes_parts by auto
    have "apply_writes ?W (disk s) (lblk s 0) = h0" unfolding commit_writes_parts by simp
    then show ?thesis using recover_empty [OF b g] hb(2) commit_final [OF r clean] w by simp
  qed
qed

section \<open>Transactions in progress\<close>

text \<open>A file system call is between \<open>begin_op\<close> and \<open>end_op\<close>: the dirty buffers are the logged blocks.\<close>

definition in_txn :: "'z lstate_scheme \<Rightarrow> bool" where
  "in_txn s \<longleftrightarrow> cache_ok s \<and> log_geom s \<and> head_ok s \<and> dirty s = set (logged s) \<and> 1 \<le> log_outstanding s"

lemma cache_outstanding [simp]:
  "cache_ok (s\<lparr>log_outstanding := x\<rparr>) = cache_ok s" "held (s\<lparr>log_outstanding := x\<rparr>) = held s" "dirty (s\<lparr>log_outstanding := x\<rparr>) = dirty s"
  "blk (s\<lparr>log_outstanding := x\<rparr>) = blk s" "holds (s\<lparr>log_outstanding := x\<rparr>) = holds s"
  by (rule cache_frame; simp)+

lemma log_slot_eq:
  assumes "head_ok s"
  shows "if b \<in> set (logged s) then log_slot b s < nat (lh_n s) \<and> logged s ! log_slot b s = b else log_slot b s = nat (lh_n s)"
proof (cases "find (\<lambda>i. uint_of_int (lh_block s ! i) = b) [0..<nat (lh_n s)]")
  case None
  then have "b \<notin> set (logged s)" using head_okD(1,6) [OF assms] by (auto simp: find_None_iff in_set_conv_nth)
  then show ?thesis using None by (simp add: log_slot_def)
next
  case (Some i)
  then have "i < nat (lh_n s)" "logged s ! i = b" using head_okD(6) [OF assms, of i] by (auto simp: find_upt_Some)
  then show ?thesis using Some head_okD(1) [OF assms] by (auto simp: log_slot_def intro: nth_mem)
qed

lemma log_write_ok:
  fixes s :: "'z lstate_scheme"
  assumes t: "in_txn s" and h: "holds s i b" and room: "lh_n s + 1 < log_size s" and home: "b \<notin> log_area s"
  shows "\<exists>s'. log_write i s = Inr s' \<and> in_txn s' \<and> blk s' = blk s \<and> disk s' = disk s \<and> disksize s' = disksize s \<and>
    dwrites s' = dwrites s \<and> held s' = held s \<and> holds s' = holds s \<and> lstate.more s' = lstate.more s \<and> log_start s' = log_start s \<and>
    log_size s' = log_size s \<and> log_outstanding s' = log_outstanding s \<and> log_area s' = log_area s \<and>
    logged s' = (if b \<in> set (logged s) then logged s else logged s @ [b])"
proof -
  have ok: "cache_ok s" and g: "log_geom s" and hd: "head_ok s" and d: "dirty s = set (logged s)" using t by (auto simp: in_txn_def)
  note hD = head_okD [OF hd] and bD = holdsD [OF ok h]
  have blockno: "b_blockno (bufs s ! i) = b" and bl: "b < disksize s" using bD by (auto simp: buf_ok_def)
  have n: "lh_n s < int LOGSIZE" "\<not> lh_n s \<ge> s32 (log_size s - 1)" "s32 (lh_n s + 1) = lh_n s + 1" "0 \<le> lh_n s"
    using room g hd by (auto simp: log_geom_def LOGSIZE_def s32_eq head_ok_def)
  define s1 where "s1 = s\<lparr>lh_block := (lh_block s)[log_slot b s := int_of_uint b]\<rparr>"
  define s2 where "s2 = (if int (log_slot b s) = lh_n s1 then s1\<lparr>lh_n := s32 (lh_n s1 + 1)\<rparr> else s1)"
  have w: "log_write i s = Inr (pin_buf i s2)"
    using n t blockno by (simp add: log_write_def Let_def s1_def s2_def in_txn_def)
  have c2: "cache_ok s2" "holds s2 = holds s" "blk s2 = blk s" "held s2 = held s" "dirty s2 = dirty s" "disk s2 = disk s"
    "disksize s2 = disksize s" "dwrites s2 = dwrites s" "lstate.more s2 = lstate.more s" "log_start s2 = log_start s" "log_size s2 = log_size s"
    "log_outstanding s2 = log_outstanding s" "log_dev s2 = log_dev s" "length (lh_block s2) = length (lh_block s)"
    using ok by (simp_all add: s2_def s1_def)
  have lg: "logged s2 = (if b \<in> set (logged s) then logged s else logged s @ [b])"
      "lh_n s2 = (if b \<in> set (logged s) then lh_n s else lh_n s + 1)"
  proof -
    have ui: "uint_of_int (int_of_uint b) = b" by (simp add: uint_of_int_def int_of_uint_def)
    note sl = log_slot_eq [OF hd, of b]
    show "lh_n s2 = (if b \<in> set (logged s) then lh_n s else lh_n s + 1)"
      using sl n(3,4) by (auto simp: s2_def s1_def split: if_splits)
    show "logged s2 = (if b \<in> set (logged s) then logged s else logged s @ [b])"
    proof (cases "b \<in> set (logged s)")
      case True
      then have "logged s2 = (logged s)[log_slot b s := b]"
        using sl n(4) by (simp add: logged_def s2_def s1_def take_update_swap map_update ui) linarith
      then show ?thesis using True sl by (metis list_update_id)
    next
      case False
      then have "logged s2 = take (nat (lh_n s)) (map uint_of_int (lh_block s)) @ [b]"
        using sl n hD(8,9) by (simp add: logged_def s2_def s1_def nat_add_distrib take_Suc_conv_app_nth map_update ui take_map)
      then show ?thesis using False by (simp add: logged_def take_map)
    qed
  qed
  have a2: "log_area s2 = log_area s" "log_geom s2" using c2 g by (simp_all add: log_area_def lblk_def log_geom_def)
  have h2: "head_ok s2"
    using hd c2 a2 lg room home bl by (auto simp: head_ok_def)
  have hold2: "holds s2 i b" using h c2(2) by simp
  note p = pin_buf_ok [OF c2(1) hold2]
  then have m: "bstate.more (pin_buf i s2) = bstate.more s2" "disksize (pin_buf i s2) = disksize s2" by simp_all
  note lr = log_rest [OF m(1)] and lo = log_rest_ok [OF m]
  have "dirty (pin_buf i s2) = set (logged (pin_buf i s2))" using p c2 d lr lg by auto
  then have "in_txn (pin_buf i s2)" using p lo a2 h2 t c2 lr by (simp add: in_txn_def)
  then show ?thesis using w p c2 lr lg a2 by (intro exI [of _ "pin_buf i s2"]) simp
qed

lemma in_txn_same:
  assumes "in_txn s" "cache_ok t" "dirty t = dirty s" "disksize t = disksize s" "bstate.more t = bstate.more s"
  shows "in_txn t" "logged t = logged s" "lh_n t = lh_n s" "log_size t = log_size s" "log_area t = log_area s" "lstate.more t = lstate.more s"
    "log_outstanding t = log_outstanding s"
  using assms log_rest [OF assms(5)] log_rest_ok [OF assms(5,4)] by (simp_all add: in_txn_def)

text \<open>\<open>bread\<close>, a change of the data, \<open>log_write\<close>, \<open>brelse\<close>: how \<open>fs.c\<close> changes a block.\<close>

lemma txn_modify:
  fixes s :: "'z lstate_scheme"
  assumes t: "in_txn s" and b: "b < disksize s" "b \<notin> held s" "b \<notin> log_area s" and room: "lh_n s + 1 < log_size s"
    and c: "b \<in> dirty s \<or> card (held s \<union> dirty s) < NBUF"
  obtains i s1 s2 s3 where "bread 1 b s = Inr (i, s1)" "buf_data s1 i = blk s b" "bstate.more s1 = bstate.more s"
    "log_write i (set_data i v s1) = Inr s2" "brelse i s2 = Inr s3" "in_txn s3" "blk s3 = (blk s)(b := v)" "disk s3 = disk s"
    "disksize s3 = disksize s" "dwrites s3 = dwrites s" "held s3 = held s" "lstate.more s3 = lstate.more s" "log_size s3 = log_size s"
    "log_area s3 = log_area s" "logged s3 = (if b \<in> set (logged s) then logged s else logged s @ [b])" "log_outstanding s3 = log_outstanding s"
    "lstate.more s2 = lstate.more s" "log_start s3 = log_start s"
proof -
  have ok: "cache_ok s" using t by (simp add: in_txn_def)
  from bc.get [OF ok b(1,2) c] obtain i s1 where 1: "bread 1 b s = Inr (i, s1)" "cache_ok s1" "holds s1 i b" "blk s1 = blk s"
    "disk s1 = disk s" "dirty s1 = dirty s" "dwrites s1 = dwrites s" "disksize s1 = disksize s" "bstate.more s1 = bstate.more s"
    "held s1 = insert b (held s)" by blast
  note sd = set_data_ok [OF 1(2,3), of v]
  let ?s = "set_data i v s1"
  have m: "bstate.more ?s = bstate.more s" using sd 1 by simp
  note it = in_txn_same [OF t _ _ _ m]
  have t': "in_txn ?s" "lh_n ?s + 1 < log_size ?s" "b \<notin> log_area ?s" "holds ?s i b"
    using sd 1 it room b(3) by simp_all
  from log_write_ok [OF t'(1,4,2,3)] obtain s2 where 2: "log_write i ?s = Inr s2" "in_txn s2" "blk s2 = blk ?s" "disk s2 = disk ?s"
    "disksize s2 = disksize ?s" "dwrites s2 = dwrites ?s" "held s2 = held ?s" "holds s2 = holds ?s" "lstate.more s2 = lstate.more ?s"
    "log_size s2 = log_size ?s" "log_outstanding s2 = log_outstanding ?s" "log_area s2 = log_area ?s"
    "logged s2 = (if b \<in> set (logged ?s) then logged ?s else logged ?s @ [b])" "log_start s2 = log_start ?s" by blast
  have l2: "b \<in> set (logged s2)" using 2(13) by simp
  have h2: "cache_ok s2" "holds s2 i b" "b \<in> dirty s2 \<or> blk s2 b = disk s2 b"
    using 2 t'(4) l2 by (auto simp: in_txn_def)
  from bc.put [OF h2] obtain s3 where 3: "brelse i s2 = Inr s3" "cache_ok s3" "blk s3 = blk s2" "disk s3 = disk s2" "dirty s3 = dirty s2"
    "dwrites s3 = dwrites s2" "disksize s3 = disksize s2" "bstate.more s3 = bstate.more s2" "held s3 = held s2 - {b}" by blast
  note i3 = in_txn_same [OF 2(2) 3(2,5,7,8)]
  show ?thesis
    by (rule that [of i s1 s2 s3]) (use 1 2 3 sd it i3 bc.data [OF 1(2,3)] b(2) log_rest(1) [OF 3(8)] log_rest(1) [OF m] in \<open>simp_all\<close>)
qed

lemma txn_read:
  fixes s :: "'z lstate_scheme"
  assumes t: "in_txn s" and b: "b < disksize s" "b \<notin> held s" and c: "b \<in> dirty s \<or> card (held s \<union> dirty s) < NBUF"
  obtains i s1 s2 where "bread 1 b s = Inr (i, s1)" "buf_data s1 i = blk s b" "bstate.more s1 = bstate.more s"
    "brelse i s1 = Inr s2" "in_txn s2" "blk s2 = blk s" "disk s2 = disk s" "disksize s2 = disksize s" "dwrites s2 = dwrites s"
    "held s2 = held s" "bstate.more s2 = bstate.more s" "dirty s2 = dirty s"
proof -
  have ok: "cache_ok s" using t by (simp add: in_txn_def)
  obtain i s1 s2 where 1: "bread 1 b s = Inr (i, s1)" "buf_data s1 i = blk s b" "brelse i s1 = Inr s2" "cache_ok s2" "blk s2 = blk s"
    "disk s2 = disk s" "dirty s2 = dirty s" "dwrites s2 = dwrites s" "disksize s2 = disksize s" "bstate.more s1 = bstate.more s"
    "bstate.more s2 = bstate.more s" "held s2 = held s"
    by (rule bc.read_block [OF ok b c]) auto
  show ?thesis by (rule that [of i s1 s2]) (use 1 in_txn_same(1) [OF t 1(4,7,9,11)] in simp_all)
qed

section \<open>The commit is atomic\<close>

text \<open>
  C2: Crash safety of the log. Suppose a commit starts with no buffer held, the dirty buffers being exactly
  the blocks of the transaction, and an empty log on disk. The commit returns and leaves every
  home block on disk as the kernel saw it. If instead the machine stops after any number
  \<open>k\<close> of the disk writes of the commit, then recovery on the next boot returns and leaves
  all home blocks as before the transaction when \<open>k\<close> does not reach the header write, and
  all of them as after it otherwise; the log is empty again.
\<close>

theorem commit_crash_atomic:
  fixes s :: "'z lstate_scheme"
  assumes r: "log_ready s" and d: "dirty s = set (logged s)" and e: "encodes (disk s (lblk s 0)) []"
  shows "\<exists>t ws. commit s = Inr t \<and> dwrites t = dwrites s @ ws \<and> cache_ok t \<and> dirty t = {} \<and>
    (\<forall>b. b \<notin> log_area s \<longrightarrow> disk t b = blk s b) \<and>
    (\<forall>k (q :: 'z lstate_scheme). k \<le> length ws \<and> booted s q (apply_writes (take k ws) (disk s)) \<longrightarrow>
      (\<exists>u. recover_from_log q = Inr u \<and> encodes (disk u (lblk s 0)) [] \<and>
        (\<forall>b. b \<notin> log_area s \<longrightarrow> disk u b = (if k \<le> nat (lh_n s) then disk s b else blk s b))))"
proof -
  have g: "log_geom s" and ok: "cache_ok s" "held s = {}" using r by (auto simp: log_ready_def)
  have clean: "\<forall>b. b \<notin> set (logged s) \<longrightarrow> disk s b = blk s b" using bc.clean [OF ok(1)] ok(2) d by force
  show ?thesis
  proof (cases "lh_n s > 0")
    case False
    then have "logged s = []" by (simp add: logged_def)
    have "\<exists>u. recover_from_log q = Inr u \<and> encodes (disk u (lblk s 0)) [] \<and> (\<forall>b. b \<notin> log_area s \<longrightarrow> disk u b = disk s b)"
      if "booted s q (disk s)" for q :: "'z lstate_scheme"
      using recover_empty [OF that g e] .
    with False \<open>logged s = []\<close> show ?thesis using ok(1) d clean
      by (intro exI [of _ s] exI [of _ "[]"]) (simp add: commit_def)
  next
    case True
    obtain t hb h0 where c: "commit s = Inr t" "encodes hb (logged s)" "encodes h0 []" "cache_ok t" "dirty t = {}"
      "dwrites t = dwrites s @ commit_writes s hb h0" "disk t = apply_writes (commit_writes s hb h0) (disk s)"
      using commit_ok [OF r d True] by blast
    have "\<exists>u. recover_from_log q = Inr u \<and> encodes (disk u (lblk s 0)) [] \<and>
        (\<forall>b. b \<notin> log_area s \<longrightarrow> disk u b = (if k \<le> nat (lh_n s) then disk s b else blk s b))"
      if "k \<le> length (commit_writes s hb h0)" "booted s q (apply_writes (take k (commit_writes s hb h0)) (disk s))"
      for k and q :: "'z lstate_scheme"
      by (rule crash_during_commit [OF r clean e c(2,3) that])
    with c show ?thesis
      using commit_final [OF r clean] by (intro exI [of _ t] exI [of _ "commit_writes s hb h0"]) simp
  qed
qed

text \<open>A transaction of one block on a disk of zeros, as an instance.\<close>

definition boot_log :: lstate where
  "boot_log = binit \<lparr>bufs = replicate NBUF zero_buf, lru = [], disk = \<lambda>_ _. 0, disksize = 2000, dwrites = [], wakes = [], curpid = 1,
     log_start = 2, log_size = 30, log_outstanding = 1, log_committing = False, log_dev = 1, lh_n = 0, lh_block = replicate LOGSIZE 0\<rparr>"

lemma boot_log_fields:
  "log_start boot_log = 2" "log_size boot_log = 30" "log_outstanding boot_log = 1" "log_dev boot_log = 1" "lh_n boot_log = 0"
  "lh_block boot_log = replicate LOGSIZE 0" "disk boot_log = (\<lambda>_ _. 0)" "disksize boot_log = 2000"
  "cache_ok boot_log" "held boot_log = {}" "dirty boot_log = {}"
proof -
  show "log_start boot_log = 2" "log_size boot_log = 30" "log_outstanding boot_log = 1" "log_dev boot_log = 1" "lh_n boot_log = 0"
    "lh_block boot_log = replicate LOGSIZE 0" "disk boot_log = (\<lambda>_ _. 0)" "disksize boot_log = 2000"
    by (simp_all add: boot_log_def binit_ok(5))
  show "cache_ok boot_log" "held boot_log = {}" "dirty boot_log = {}"
    unfolding boot_log_def by (rule binit_ok; simp)+
qed

lemma boot_log_area: "log_area boot_log = {2..<32}"
proof
  have u: "uint (lblk boot_log k) = 2 + int k" if "k < 30" for k
    using that by (intro lblk_uint [of boot_log k, unfolded boot_log_fields]) (simp_all add: log_geom_def boot_log_fields LOGSIZE_def)
  then show "log_area boot_log \<subseteq> {2..<32}" by (auto simp: log_area_def boot_log_fields word_less_def word_le_def)
  show "{2..<32} \<subseteq> log_area boot_log"
  proof
    fix b :: u32 assume "b \<in> {2..<32}"
    then have b: "2 \<le> unat b" "unat b < 32" by (auto simp: word_le_nat_alt word_less_nat_alt)
    then have "uint (lblk boot_log (unat b - 2)) = uint b" using u [of "unat b - 2"] by (simp add: of_nat_diff)
    then have "b = lblk boot_log (unat b - 2)" by (simp add: word_uint_eq_iff)
    then show "b \<in> log_area boot_log" using b by (auto simp: log_area_def boot_log_fields)
  qed
qed

lemma boot_log_txn: "in_txn boot_log"
  by (simp add: in_txn_def boot_log_fields log_geom_def head_ok_def LOGSIZE_def logged_def)

theorem commit_crash_atomic_witness:
  "\<exists>s t :: lstate. logged s = [100] \<and> blk s 100 = (\<lambda>_. 7) \<and> disk s 100 = (\<lambda>_. 0) \<and> commit s = Inr t \<and> disk t 100 = (\<lambda>_. 7)"
proof -
  obtain s :: lstate where s: "in_txn s" "blk s = (blk boot_log)(100 := \<lambda>_. 7)" "disk s = disk boot_log" "held s = held boot_log"
    "log_area s = log_area boot_log" "logged s = [100]" "log_start s = log_start boot_log"
    by (rule txn_modify [OF boot_log_txn, of 100 "\<lambda>_. 7"])
      (simp_all add: boot_log_fields boot_log_area NBUF_def logged_def)
  have r: "log_ready s" "dirty s = set (logged s)" using s boot_log_fields by (simp_all add: in_txn_def log_ready_def)
  have e: "encodes (disk s (lblk s 0)) []" by (simp add: s(3) boot_log_fields encodes_def ld32_def)
  have "100 \<notin> log_area s" by (simp add: s(5) boot_log_area)
  then show ?thesis using commit_crash_atomic [OF r e] s by (auto simp: boot_log_fields)
qed

end
