(* ===== verification/Fs.thy ===== *)
theory Fs
  imports Log
begin

text \<open>
  The file system of \<open>fs.c\<close>: the block allocator, inodes and their contents, directories and
  path names, on the log and the buffer cache. Inodes are named by their index in
  \<open>icache.inode\<close>; a null inode pointer is \<open>None\<close>. \<open>I_VALID\<close> is a boolean. The table of
  device drivers, whose entries are function pointers, is the argument \<open>dv\<close> of the
  operations that may call a driver. \<open>readi\<close> returns the bytes it stores at \<open>dst\<close> and
  \<open>writei\<close> gets the bytes at \<open>src\<close>. A C string is the list of its bytes before the NUL.
\<close>

unbundle bit_operations_syntax

section \<open>Layout\<close>

definition ROOTINO :: u32 where "ROOTINO = 1"
definition ROOTDEV :: u32 where "ROOTDEV = 1"
definition NINODE :: nat where "NINODE = 50"
definition NDEV :: int where "NDEV = 10"
definition NDIRECT :: nat where "NDIRECT = 12"
definition NINDIRECT :: nat where "NINDIRECT = 128"
definition MAXFILE :: nat where "MAXFILE = NDIRECT + NINDIRECT"
definition BPB :: nat where "BPB = 4096"
definition IPB :: nat where "IPB = 8"
definition DIRSIZ :: nat where "DIRSIZ = 14"

definition T_DIR :: u16 where "T_DIR = 1"
definition T_FILE :: u16 where "T_FILE = 2"
definition T_DEV :: u16 where "T_DEV = 3"

definition iblock :: "u32 \<Rightarrow> superblock \<Rightarrow> u32" where
  "iblock i sb = i div 8 + sb_inodestart sb"

definition bblock :: "u32 \<Rightarrow> superblock \<Rightarrow> u32" where
  "bblock b sb = b div 4096 + sb_bmapstart sb"

record inode =
  i_dev :: u32
  i_inum :: u32
  i_ref :: int
  i_lock :: sleeplock
  i_valid :: bool
  i_type :: u16
  i_major :: u16
  i_minor :: u16
  i_nlink :: u16
  i_size :: u32
  i_addrs :: "u32 list"

record fstate = lstate +
  fs_sb :: superblock
  inodes :: "inode list"
  fs_cwd :: nat

record 's devsw =
  dread :: "(nat \<Rightarrow> u32 \<Rightarrow> int \<Rightarrow> 's \<Rightarrow> ((int \<times> u8 list) \<times> 's) res) option"
  dwrite :: "(nat \<Rightarrow> u32 \<Rightarrow> u8 list \<Rightarrow> int \<Rightarrow> 's \<Rightarrow> (int \<times> 's) res) option"

definition upd_inode :: "nat \<Rightarrow> (inode \<Rightarrow> inode) \<Rightarrow> 'z fstate_scheme \<Rightarrow> 'z fstate_scheme" where
  "upd_inode ip f s = s\<lparr>inodes := upd_at ip f (inodes s)\<rparr>"

section \<open>Blocks\<close>

definition bzero :: "u32 \<Rightarrow> u32 \<Rightarrow> 'z fstate_scheme \<Rightarrow> 'z fstate_scheme res" where
  "bzero dev bno s =
     rbind (bread dev bno s) (\<lambda>(bp, s).
     rbind (log_write bp (set_data bp (\<lambda>_. 0) s)) (brelse bp))"

text \<open>The inner loop of \<open>balloc\<close>: the first clear bit of the bitmap block that starts at block \<open>b\<close>.\<close>

definition bitmask :: "nat \<Rightarrow> u8" where
  "bitmask bi = push_bit (bi mod 8) 1"

definition free_bit :: "block \<Rightarrow> nat \<Rightarrow> nat \<Rightarrow> nat option" where
  "free_bit d b nblk = find (\<lambda>bi. d (bi div 8) AND bitmask bi = 0) [0..<min BPB (nblk - b)]"

function balloc_loop :: "nat \<Rightarrow> u32 \<Rightarrow> nat \<Rightarrow> 'z fstate_scheme \<Rightarrow> (u32 \<times> 'z fstate_scheme) res" where
  "balloc_loop nblk dev b s =
     (if b < nblk then
        rbind (bread dev (bblock (word_of_nat b) (fs_sb s)) s) (\<lambda>(bp, s).
        let d = buf_data s bp in
        case free_bit d b nblk of
          Some bi \<Rightarrow>
            rbind (log_write bp (set_data bp (d(bi div 8 := d (bi div 8) OR bitmask bi)) s)) (\<lambda>s.
            rbind (brelse bp s) (\<lambda>s.
            rbind (bzero dev (word_of_nat (b + bi)) s) (\<lambda>s.
            Inr (word_of_nat (b + bi), s))))
        | None \<Rightarrow> rbind (brelse bp s) (\<lambda>s. balloc_loop nblk dev (b + BPB) s))
      else Inl (Panic ''balloc: out of blocks''))"
  by pat_completeness auto

termination
  by (relation "measure (\<lambda>(nblk, _, b, _). nblk - b)") (auto simp: BPB_def)

declare balloc_loop.simps [simp del]

definition balloc :: "u32 \<Rightarrow> 'z fstate_scheme \<Rightarrow> (u32 \<times> 'z fstate_scheme) res" where
  "balloc dev s = balloc_loop (unat (sb_size (fs_sb s))) dev 0 s"

definition bfree :: "u32 \<Rightarrow> u32 \<Rightarrow> 'z fstate_scheme \<Rightarrow> 'z fstate_scheme res" where
  "bfree dev b s =
     rbind (readsb (int_of_uint dev) s) (\<lambda>(sb, s).
     let s = s\<lparr>fs_sb := sb\<rparr> in
     rbind (bread dev (bblock b sb) s) (\<lambda>(bp, s).
     let bi = unat b mod BPB; d = buf_data s bp in
     if d (bi div 8) AND bitmask bi = 0 then Inl (Panic ''freeing free block'')
     else rbind (log_write bp (set_data bp (d(bi div 8 := d (bi div 8) AND NOT (bitmask bi))) s)) (brelse bp)))"

section \<open>Inodes\<close>

definition iinit :: "int \<Rightarrow> 'z fstate_scheme \<Rightarrow> 'z fstate_scheme res" where
  "iinit dev s =
     rbind (readsb dev (s\<lparr>inodes := map (\<lambda>ip. ip\<lparr>i_lock := initsleeplock\<rparr>) (inodes s)\<rparr>)) (\<lambda>(sb, s).
     Inr (s\<lparr>fs_sb := sb\<rparr>))"

text \<open>The offset of a \<open>struct dinode\<close> in its block, reading it and writing it.\<close>

definition dip_off :: "u32 \<Rightarrow> nat" where
  "dip_off inum = unat inum mod IPB * 64"

definition iget :: "u32 \<Rightarrow> u32 \<Rightarrow> 'z fstate_scheme \<Rightarrow> (nat \<times> 'z fstate_scheme) res" where
  "iget dev inum s =
     (case first_index (\<lambda>ip. i_ref ip > 0 \<and> i_dev ip = dev \<and> i_inum ip = inum) (inodes s) of
        Some i \<Rightarrow> Inr (i, upd_inode i (\<lambda>ip. ip\<lparr>i_ref := s32 (i_ref ip + 1)\<rparr>) s)
      | None \<Rightarrow>
         (case first_index (\<lambda>ip. i_ref ip = 0) (inodes s) of
            None \<Rightarrow> Inl (Panic ''iget: no inodes'')
          | Some i \<Rightarrow> Inr (i, upd_inode i (\<lambda>ip. ip\<lparr>i_dev := dev, i_inum := inum, i_ref := 1, i_valid := False\<rparr>) s)))"

function ialloc_loop :: "nat \<Rightarrow> u32 \<Rightarrow> u16 \<Rightarrow> nat \<Rightarrow> 'z fstate_scheme \<Rightarrow> (nat \<times> 'z fstate_scheme) res" where
  "ialloc_loop ninodes dev type inum s =
     (if inum < ninodes then
        rbind (bread dev (iblock (word_of_nat inum) (fs_sb s)) s) (\<lambda>(bp, s).
        let d = buf_data s bp; o1 = dip_off (word_of_nat inum) in
        if ld16 d o1 = 0 then
          rbind (log_write bp (set_data bp (st16 o1 type (\<lambda>i. if o1 \<le> i \<and> i < o1 + 64 then 0 else d i)) s)) (\<lambda>s.
          rbind (brelse bp s) (\<lambda>s.
          iget dev (word_of_nat inum) s))
        else rbind (brelse bp s) (\<lambda>s. ialloc_loop ninodes dev type (inum + 1) s))
      else Inl (Panic ''ialloc: no inodes''))"
  by pat_completeness auto

termination
  by (relation "measure (\<lambda>(ninodes, _, _, inum, _). ninodes - inum)") auto

declare ialloc_loop.simps [simp del]

definition ialloc :: "u32 \<Rightarrow> u16 \<Rightarrow> 'z fstate_scheme \<Rightarrow> (nat \<times> 'z fstate_scheme) res" where
  "ialloc dev type s = ialloc_loop (unat (sb_ninodes (fs_sb s))) dev type 1 s"

definition put_dinode :: "nat \<Rightarrow> inode \<Rightarrow> block \<Rightarrow> block" where
  "put_dinode o1 ip d =
     (let d = st16 o1 (i_type ip) d; d = st16 (o1 + 2) (i_major ip) d; d = st16 (o1 + 4) (i_minor ip) d;
          d = st16 (o1 + 6) (i_nlink ip) d; d = st32 (o1 + 8) (i_size ip) d
      in fold (\<lambda>k d. st32 (o1 + 12 + 4 * k) (i_addrs ip ! k) d) [0..<NDIRECT + 1] d)"

definition get_dinode :: "nat \<Rightarrow> block \<Rightarrow> inode \<Rightarrow> inode" where
  "get_dinode o1 d ip = ip\<lparr>i_type := ld16 d o1, i_major := ld16 d (o1 + 2), i_minor := ld16 d (o1 + 4),
     i_nlink := ld16 d (o1 + 6), i_size := ld32 d (o1 + 8),
     i_addrs := map (\<lambda>k. ld32 d (o1 + 12 + 4 * k)) [0..<NDIRECT + 1]\<rparr>"

definition iupdate :: "nat \<Rightarrow> 'z fstate_scheme \<Rightarrow> 'z fstate_scheme res" where
  "iupdate ip s =
     (let n = inodes s ! ip in
      rbind (bread (i_dev n) (iblock (i_inum n) (fs_sb s)) s) (\<lambda>(bp, s).
      rbind (log_write bp (set_data bp (put_dinode (dip_off (i_inum n)) n (buf_data s bp)) s)) (brelse bp)))"

definition idup :: "nat \<Rightarrow> 'z fstate_scheme \<Rightarrow> nat \<times> 'z fstate_scheme" where
  "idup ip s = (ip, upd_inode ip (\<lambda>n. n\<lparr>i_ref := s32 (i_ref n + 1)\<rparr>) s)"

definition ilock :: "nat \<Rightarrow> 'z fstate_scheme \<Rightarrow> 'z fstate_scheme res" where
  "ilock ip s =
     (if i_ref (inodes s ! ip) < 1 then Inl (Panic ''ilock'')
      else rbind (acquiresleep (Ch_inodelock ip) (curpid s) (i_lock (inodes s ! ip))) (\<lambda>lk.
        let s = upd_inode ip (\<lambda>n. n\<lparr>i_lock := lk\<rparr>) s; n = inodes s ! ip in
        if i_valid n then Inr s
        else rbind (bread (i_dev n) (iblock (i_inum n) (fs_sb s)) s) (\<lambda>(bp, s).
          let d = buf_data s bp; s = upd_inode ip (get_dinode (dip_off (i_inum n)) d) s in
          rbind (brelse bp s) (\<lambda>s.
          let s = upd_inode ip (\<lambda>n. n\<lparr>i_valid := True\<rparr>) s in
          if i_type (inodes s ! ip) = 0 then Inl (Panic ''ilock: no type'') else Inr s))))"

definition iunlock :: "nat \<Rightarrow> 'z fstate_scheme \<Rightarrow> 'z fstate_scheme res" where
  "iunlock ip s =
     (if \<not> holdingsleep (i_lock (inodes s ! ip)) \<or> i_ref (inodes s ! ip) < 1 then Inl (Panic ''iunlock'')
      else Inr ((upd_inode ip (\<lambda>n. n\<lparr>i_lock := releasesleep (i_lock n)\<rparr>) s)\<lparr>wakes := wakes s @ [Ch_inodelock ip]\<rparr>))"

section \<open>Inode contents\<close>

definition bmap :: "nat \<Rightarrow> u32 \<Rightarrow> 'z fstate_scheme \<Rightarrow> (u32 \<times> 'z fstate_scheme) res" where
  "bmap ip bn s =
     (if unat bn < NDIRECT then
        let addr = i_addrs (inodes s ! ip) ! unat bn in
        if addr = 0 then
          rbind (balloc (i_dev (inodes s ! ip)) s) (\<lambda>(addr, s).
          Inr (addr, upd_inode ip (\<lambda>n. n\<lparr>i_addrs := (i_addrs n)[unat bn := addr]\<rparr>) s))
        else Inr (addr, s)
      else let bn = bn - 12 in
        if unat bn < NINDIRECT then
          rbind (let addr = i_addrs (inodes s ! ip) ! NDIRECT in
                 if addr = 0 then
                   rbind (balloc (i_dev (inodes s ! ip)) s) (\<lambda>(addr, s).
                   Inr (addr, upd_inode ip (\<lambda>n. n\<lparr>i_addrs := (i_addrs n)[NDIRECT := addr]\<rparr>) s))
                 else Inr (addr, s)) (\<lambda>(addr, s).
          rbind (bread (i_dev (inodes s ! ip)) addr s) (\<lambda>(bp, s).
          let addr = ld32 (buf_data s bp) (4 * unat bn) in
          rbind (if addr = 0 then
                   rbind (balloc (i_dev (inodes s ! ip)) s) (\<lambda>(addr, s).
                   rbind (log_write bp (set_data bp (st32 (4 * unat bn) addr (buf_data s bp)) s)) (\<lambda>s. Inr (addr, s)))
                 else Inr (addr, s)) (\<lambda>(addr, s).
          rbind (brelse bp s) (\<lambda>s. Inr (addr, s)))))
        else Inl (Panic ''bmap: out of range''))"

definition itrunc :: "nat \<Rightarrow> 'z fstate_scheme \<Rightarrow> 'z fstate_scheme res" where
  "itrunc ip s =
     rbind (for_range 0 NDIRECT (\<lambda>i s.
         let n = inodes s ! ip in
         if i_addrs n ! i \<noteq> 0 then
           rbind (bfree (i_dev n) (i_addrs n ! i) s) (\<lambda>s. Inr (upd_inode ip (\<lambda>n. n\<lparr>i_addrs := (i_addrs n)[i := 0]\<rparr>) s))
         else Inr s) s) (\<lambda>s.
     rbind (let n = inodes s ! ip in
         if i_addrs n ! NDIRECT \<noteq> 0 then
           rbind (bread (i_dev n) (i_addrs n ! NDIRECT) s) (\<lambda>(bp, s).
           let d = buf_data s bp in
           rbind (for_range 0 NINDIRECT (\<lambda>j s.
               if ld32 d (4 * j) \<noteq> 0 then bfree (i_dev n) (ld32 d (4 * j)) s else Inr s) s) (\<lambda>s.
           rbind (brelse bp s) (\<lambda>s.
           rbind (bfree (i_dev n) (i_addrs n ! NDIRECT) s) (\<lambda>s.
           Inr (upd_inode ip (\<lambda>n. n\<lparr>i_addrs := (i_addrs n)[NDIRECT := 0]\<rparr>) s)))))
         else Inr s) (\<lambda>s.
     iupdate ip (upd_inode ip (\<lambda>n. n\<lparr>i_size := 0\<rparr>) s)))"

definition iput :: "nat \<Rightarrow> 'z fstate_scheme \<Rightarrow> 'z fstate_scheme res" where
  "iput ip s =
     (let n = inodes s ! ip in
      rbind (if i_ref n = 1 \<and> i_valid n \<and> i_nlink n = 0 then
               rbind (itrunc ip s) (\<lambda>s.
               rbind (iupdate ip (upd_inode ip (\<lambda>n. n\<lparr>i_type := 0\<rparr>) s)) (\<lambda>s.
               Inr (upd_inode ip (\<lambda>n. n\<lparr>i_valid := False\<rparr>) s)))
             else Inr s) (\<lambda>s.
      Inr (upd_inode ip (\<lambda>n. n\<lparr>i_ref := s32 (i_ref n - 1)\<rparr>) s)))"

definition iunlockput :: "nat \<Rightarrow> 'z fstate_scheme \<Rightarrow> 'z fstate_scheme res" where
  "iunlockput ip s = rbind (iunlock ip s) (iput ip)"

record stat =
  st_type :: u16
  st_dev :: u32
  st_ino :: u32
  st_nlink :: u16
  st_size :: u32

definition stati :: "inode \<Rightarrow> stat" where
  "stati ip = \<lparr>st_type = i_type ip, st_dev = i_dev ip, st_ino = i_inum ip, st_nlink = i_nlink ip, st_size = i_size ip\<rparr>"

section \<open>Reading and writing\<close>

definition fs_chunk :: "u32 \<Rightarrow> nat \<Rightarrow> nat" where
  "fs_chunk off n = min n (512 - unat off mod 512)"

function readi_loop :: "nat \<Rightarrow> u32 \<Rightarrow> nat \<Rightarrow> 'z fstate_scheme \<Rightarrow> (u8 list \<times> 'z fstate_scheme) res" where
  "readi_loop ip off n s =
     (if 0 < n then
        rbind (bmap ip (off div 512) s) (\<lambda>(b, s).
        rbind (bread (i_dev (inodes s ! ip)) b s) (\<lambda>(bp, s).
        let m = fs_chunk off n; bs = map (\<lambda>k. buf_data s bp (unat off mod 512 + k)) [0..<m] in
        rbind (brelse bp s) (\<lambda>s.
        rbind (readi_loop ip (off + word_of_nat m) (n - m) s) (\<lambda>(cs, s). Inr (bs @ cs, s)))))
      else Inr ([], s))"
  by pat_completeness auto

termination
  by (relation "measure (\<lambda>(_, _, n, _). n)") (auto simp: fs_chunk_def)

declare readi_loop.simps [simp del]

definition dev_entry :: "'s devsw list \<Rightarrow> u16 \<Rightarrow> 's devsw option" where
  "dev_entry dv major = (if sint major < 0 \<or> sint major \<ge> NDEV then None else Some (dv ! unat major))"

definition readi :: "'z fstate_scheme devsw list \<Rightarrow> nat \<Rightarrow> u32 \<Rightarrow> u32 \<Rightarrow> 'z fstate_scheme \<Rightarrow> ((int \<times> u8 list) \<times> 'z fstate_scheme) res" where
  "readi dv ip off n s =
     (let i = inodes s ! ip in
      if i_type i = T_DEV then
        (case Option.bind (dev_entry dv (i_major i)) dread of
           None \<Rightarrow> Inr ((-1, []), s)
         | Some f \<Rightarrow> f ip off (int_of_uint n) s)
      else if off > i_size i \<or> off + n < off then Inr ((-1, []), s)
      else let n = (if off + n > i_size i then i_size i - off else n) in
        rbind (readi_loop ip off (unat n) s) (\<lambda>(bs, s). Inr ((int_of_uint n, bs), s)))"

function writei_loop :: "nat \<Rightarrow> u8 list \<Rightarrow> u32 \<Rightarrow> nat \<Rightarrow> 'z fstate_scheme \<Rightarrow> (u32 \<times> 'z fstate_scheme) res" where
  "writei_loop ip src off n s =
     (if 0 < n then
        rbind (bmap ip (off div 512) s) (\<lambda>(b, s).
        rbind (bread (i_dev (inodes s ! ip)) b s) (\<lambda>(bp, s).
        let m = fs_chunk off n; o1 = unat off mod 512; d = buf_data s bp in
        rbind (log_write bp (set_data bp (\<lambda>k. if o1 \<le> k \<and> k < o1 + m then src ! (k - o1) else d k) s)) (\<lambda>s.
        rbind (brelse bp s) (\<lambda>s.
        writei_loop ip (drop m src) (off + word_of_nat m) (n - m) s))))
      else Inr (off, s))"
  by pat_completeness auto

termination
  by (relation "measure (\<lambda>(_, _, _, n, _). n)") (auto simp: fs_chunk_def)

declare writei_loop.simps [simp del]

definition writei :: "'z fstate_scheme devsw list \<Rightarrow> nat \<Rightarrow> u8 list \<Rightarrow> u32 \<Rightarrow> u32 \<Rightarrow> 'z fstate_scheme \<Rightarrow> (int \<times> 'z fstate_scheme) res" where
  "writei dv ip src off n s =
     (let i = inodes s ! ip in
      if i_type i = T_DEV then
        (case Option.bind (dev_entry dv (i_major i)) dwrite of
           None \<Rightarrow> Inr (-1, s)
         | Some f \<Rightarrow> f ip off src (int_of_uint n) s)
      else if off > i_size i \<or> off + n < off then Inr (-1, s)
      else if off + n > word_of_nat (MAXFILE * BSIZE) then Inr (-1, s)
      else rbind (writei_loop ip src off (unat n) s) (\<lambda>(off, s).
        rbind (if n > 0 \<and> off > i_size (inodes s ! ip)
               then iupdate ip (upd_inode ip (\<lambda>i. i\<lparr>i_size := off\<rparr>) s) else Inr s) (\<lambda>s.
        Inr (int_of_uint n, s))))"

section \<open>Directories\<close>

definition DIRENT :: nat where "DIRENT = 16"

definition de_inum :: "u8 list \<Rightarrow> u16" where
  "de_inum de = ld16 ((!) de) 0"

definition de_name :: "u8 list \<Rightarrow> nat \<Rightarrow> u8" where
  "de_name de i = de ! (2 + i)"

definition mk_dirent :: "u16 \<Rightarrow> (nat \<Rightarrow> u8) \<Rightarrow> u8 list" where
  "mk_dirent inum name = [ucast inum, ucast (drop_bit 8 inum)] @ map name [0..<DIRSIZ]"

definition namecmp :: "(nat \<Rightarrow> u8) \<Rightarrow> (nat \<Rightarrow> u8) \<Rightarrow> int" where
  "namecmp s t = strncmp s t 14"

function dirlookup_loop :: "'z fstate_scheme devsw list \<Rightarrow> nat \<Rightarrow> (nat \<Rightarrow> u8) \<Rightarrow> nat \<Rightarrow> nat \<Rightarrow> 'z fstate_scheme \<Rightarrow>
    ((nat \<times> u32) option \<times> 'z fstate_scheme) res" where
  "dirlookup_loop dv dp name dsize off s =
     (if off < dsize then
        rbind (readi dv dp (word_of_nat off) 16 s) (\<lambda>((r, de), s).
        if r \<noteq> 16 then Inl (Panic ''dirlookup read'')
        else if de_inum de = 0 then dirlookup_loop dv dp name dsize (off + DIRENT) s
        else if namecmp name (de_name de) = 0 then
          rbind (iget (i_dev (inodes s ! dp)) (ucast (de_inum de)) s) (\<lambda>(ip, s). Inr (Some (ip, word_of_nat off), s))
        else dirlookup_loop dv dp name dsize (off + DIRENT) s)
      else Inr (None, s))"
  by pat_completeness auto

termination
  by (relation "measure (\<lambda>(_, _, _, dsize, off, _). dsize - off)") (auto simp: DIRENT_def)

declare dirlookup_loop.simps [simp del]

definition dirlookup :: "'z fstate_scheme devsw list \<Rightarrow> nat \<Rightarrow> (nat \<Rightarrow> u8) \<Rightarrow> 'z fstate_scheme \<Rightarrow>
    ((nat \<times> u32) option \<times> 'z fstate_scheme) res" where
  "dirlookup dv dp name s =
     (if i_type (inodes s ! dp) \<noteq> T_DIR then Inl (Panic ''dirlookup not DIR'')
      else dirlookup_loop dv dp name (unat (i_size (inodes s ! dp))) 0 s)"

function free_dirent :: "'z fstate_scheme devsw list \<Rightarrow> nat \<Rightarrow> nat \<Rightarrow> nat \<Rightarrow> 'z fstate_scheme \<Rightarrow> (nat \<times> 'z fstate_scheme) res" where
  "free_dirent dv dp dsize off s =
     (if off < dsize then
        rbind (readi dv dp (word_of_nat off) 16 s) (\<lambda>((r, de), s).
        if r \<noteq> 16 then Inl (Panic ''dirlink read'')
        else if de_inum de = 0 then Inr (off, s)
        else free_dirent dv dp dsize (off + DIRENT) s)
      else Inr (off, s))"
  by pat_completeness auto

termination
  by (relation "measure (\<lambda>(_, _, dsize, off, _). dsize - off)") (auto simp: DIRENT_def)

declare free_dirent.simps [simp del]

definition dirlink :: "'z fstate_scheme devsw list \<Rightarrow> nat \<Rightarrow> (nat \<Rightarrow> u8) \<Rightarrow> u32 \<Rightarrow> 'z fstate_scheme \<Rightarrow> (int \<times> 'z fstate_scheme) res" where
  "dirlink dv dp name inum s =
     rbind (dirlookup dv dp name s) (\<lambda>(r, s). case r of
         Some (ip, _) \<Rightarrow> rbind (iput ip s) (\<lambda>s. Inr (-1, s))
       | None \<Rightarrow>
         rbind (free_dirent dv dp (unat (i_size (inodes s ! dp))) 0 s) (\<lambda>(off, s).
         rbind (writei dv dp (mk_dirent (ucast inum) (strncpy name 14 (\<lambda>_. 0))) (word_of_nat off) 16 s) (\<lambda>(r, s).
         if r \<noteq> 16 then Inl (Panic ''dirlink'') else Inr (0, s))))"

section \<open>Paths\<close>

definition skipelem :: "u8 list \<Rightarrow> (nat \<Rightarrow> u8) \<Rightarrow> (u8 list \<times> (nat \<Rightarrow> u8)) option" where
  "skipelem path name =
     (let path = dropWhile (\<lambda>c. c = 47) path in
      if path = [] then None
      else let elem = takeWhile (\<lambda>c. c \<noteq> 47) path; path = dropWhile (\<lambda>c. c \<noteq> 47) path; len = length elem;
               name = (if len \<ge> DIRSIZ then (\<lambda>i. if i < DIRSIZ then elem ! i else name i)
                       else (\<lambda>i. if i < len then elem ! i else name i)(len := 0))
           in Some (dropWhile (\<lambda>c. c = 47) path, name))"

lemma skipelem_shorter: "skipelem path name = Some (rest, name') \<Longrightarrow> length rest < length path"
proof -
  assume "skipelem path name = Some (rest, name')"
  then have ne: "dropWhile (\<lambda>c. c = 47) path \<noteq> []" and
    r: "rest = dropWhile (\<lambda>c. c = 47) (dropWhile (\<lambda>c. c \<noteq> 47) (dropWhile (\<lambda>c. c = 47) path))"
    by (auto simp: skipelem_def Let_def split: if_splits)
  obtain c cs where c: "dropWhile (\<lambda>c. c = 47) path = c # cs" "c \<noteq> 47"
    using ne hd_dropWhile [OF ne] by (cases "dropWhile (\<lambda>c. c = 47) path") auto
  have "length rest \<le> length cs"
    unfolding r c(1) using c(2) length_dropWhile_le [of "\<lambda>c. c = 47" "dropWhile (\<lambda>c. c \<noteq> 47) cs"] length_dropWhile_le [of "\<lambda>c. c \<noteq> 47" cs] by simp
  also have "\<dots> < length path" using c(1) length_dropWhile_le [of "\<lambda>c. c = 47" path] by simp
  finally show ?thesis .
qed

function namex_loop :: "'z fstate_scheme devsw list \<Rightarrow> nat \<Rightarrow> u8 list \<Rightarrow> bool \<Rightarrow> (nat \<Rightarrow> u8) \<Rightarrow> 'z fstate_scheme \<Rightarrow>
    ((nat option \<times> (nat \<Rightarrow> u8)) \<times> 'z fstate_scheme) res" where
  "namex_loop dv ip path parent name s =
     (case skipelem path name of
        None \<Rightarrow>
          if parent then rbind (iput ip s) (\<lambda>s. Inr ((None, name), s)) else Inr ((Some ip, name), s)
      | Some (path', name') \<Rightarrow>
          rbind (ilock ip s) (\<lambda>s.
          if i_type (inodes s ! ip) \<noteq> T_DIR then rbind (iunlockput ip s) (\<lambda>s. Inr ((None, name'), s))
          else if parent \<and> path' = [] then rbind (iunlock ip s) (\<lambda>s. Inr ((Some ip, name'), s))
          else rbind (dirlookup dv ip name' s) (\<lambda>(r, s). case r of
              None \<Rightarrow> rbind (iunlockput ip s) (\<lambda>s. Inr ((None, name'), s))
            | Some (nxt, _) \<Rightarrow> rbind (iunlockput ip s) (\<lambda>s. namex_loop dv nxt path' parent name' s))))"
  by pat_completeness auto

termination
  by (relation "measure (\<lambda>(_, _, path, _, _, _). length path)") (auto dest: skipelem_shorter)

declare namex_loop.simps [simp del]

definition namex :: "'z fstate_scheme devsw list \<Rightarrow> u8 list \<Rightarrow> bool \<Rightarrow> (nat \<Rightarrow> u8) \<Rightarrow> 'z fstate_scheme \<Rightarrow>
    ((nat option \<times> (nat \<Rightarrow> u8)) \<times> 'z fstate_scheme) res" where
  "namex dv path parent name s =
     rbind (if path \<noteq> [] \<and> hd path = 47 then iget ROOTDEV ROOTINO s else Inr (idup (fs_cwd s) s)) (\<lambda>(ip, s).
     namex_loop dv ip path parent name s)"

definition namei :: "'z fstate_scheme devsw list \<Rightarrow> u8 list \<Rightarrow> 'z fstate_scheme \<Rightarrow> (nat option \<times> 'z fstate_scheme) res" where
  "namei dv path s = rbind (namex dv path False (\<lambda>_. 0) s) (\<lambda>((ip, _), s). Inr (ip, s))"

definition nameiparent :: "'z fstate_scheme devsw list \<Rightarrow> u8 list \<Rightarrow> (nat \<Rightarrow> u8) \<Rightarrow> 'z fstate_scheme \<Rightarrow>
    ((nat option \<times> (nat \<Rightarrow> u8)) \<times> 'z fstate_scheme) res" where
  "nameiparent dv path name s = namex dv path True name s"

end
