(* ===== verification/Ring.thy ===== *)
theory Ring
  imports Prelude
begin

text \<open>
  Ring buffers with free-running unsigned counters, as \<open>pipe.c\<close> and \<open>console.c\<close> use them:
  \<open>data[w++ % N]\<close> stores and \<open>data[r++ % N]\<close> loads, where the 32-bit counters wrap. The
  interface \<open>fifo\<close> is the abstract queue both are proved to implement.
\<close>

section \<open>The content of a ring\<close>

definition ring_at :: "u8 list \<Rightarrow> u32 \<Rightarrow> u8" where
  "ring_at xs i = xs ! (unat i mod length xs)"

definition ring_put :: "u8 list \<Rightarrow> u32 \<Rightarrow> u8 \<Rightarrow> u8 list" where
  "ring_put xs i b = xs[unat i mod length xs := b]"

definition ring_seq :: "u8 list \<Rightarrow> u32 \<Rightarrow> u32 \<Rightarrow> u8 list" where
  "ring_seq xs r w = map (\<lambda>k. ring_at xs (r + of_nat k)) [0..<unat (w - r)]"

lemma length_ring_seq [simp]: "length (ring_seq xs r w) = unat (w - r)"
  by (simp add: ring_seq_def)

lemma length_ring_put [simp]: "length (ring_put xs i b) = length xs"
  by (simp add: ring_put_def)

lemma ring_seq_empty [simp]: "ring_seq xs r r = []"
  by (simp add: ring_seq_def)

text \<open>The size of the array divides \<open>2 ^ 32\<close>, so that the wrap-around keeps positions; half the range is enough here.\<close>

definition ring_ok :: "u8 list \<Rightarrow> bool" where
  "ring_ok xs \<longleftrightarrow> 0 < length xs \<and> length xs dvd 2 ^ 31"

lemma ring_ok_length: "ring_ok xs \<Longrightarrow> length xs dvd 2 ^ 32 \<and> length xs \<le> 2 ^ 31"
  unfolding ring_ok_def by (auto intro: dvd_imp_le dvd_trans le_imp_power_dvd)

lemma unat_add_mod:
  assumes "n dvd 2 ^ 32"
  shows "unat (i + j :: u32) mod n = (unat i + unat j) mod n"
  using assms by (simp add: unat_word_ariths mod_mod_cancel)

lemma ring_pos_inj:
  assumes ok: "ring_ok xs" and k: "k < length xs" "m < length xs"
    and eq: "unat (r + of_nat k :: u32) mod length xs = unat (r + of_nat m :: u32) mod length xs"
  shows "k = m"
proof -
  have d: "length xs dvd 2 ^ 32" "length xs \<le> 2 ^ 31" using ring_ok_length [OF ok] by auto
  then have u: "unat (of_nat k :: u32) = k" "unat (of_nat m :: u32) = m"
    using k by (simp_all add: unat_of_nat)
  have "(unat r + k) mod length xs = (unat r + m) mod length xs"
    using eq unat_add_mod [OF d(1), of r "of_nat k"] unat_add_mod [OF d(1), of r "of_nat m"] by (simp add: u)
  then have "length xs dvd k - m" "length xs dvd m - k"
    using mod_eq_dvd_iff_nat [of "unat r + m" "unat r + k" "length xs"]
      mod_eq_dvd_iff_nat [of "unat r + k" "unat r + m" "length xs"] by (cases "m \<le> k"; simp)+
  then have "k - m = 0" "m - k = 0" using k by (auto dest!: dvd_imp_le)
  then show ?thesis by simp
qed

lemma ring_seq_put:
  assumes ok: "ring_ok xs" and room: "unat (w - r) < length xs"
  shows "ring_seq (ring_put xs w b) r (w + 1) = ring_seq xs r w @ [b]"
proof -
  let ?n = "unat (w - r)"
  have "?n < 2 ^ 31" using room ring_ok_length [OF ok] by simp
  moreover have "?n = 2 ^ 32 - 1" if "w - r + 1 = 0"
  proof -
    from that have "w - r = - 1" by (simp add: eq_neg_iff_add_eq_0)
    then show ?thesis by (simp add: unsigned_minus_1_eq_mask mask_eq_exp_minus_1)
  qed
  ultimately have "1 + (w - r) \<noteq> 0" by (auto simp: add.commute)
  then have "unat (1 + (w - r)) = Suc ?n" by (rule unatSuc)
  moreover have "1 + (w - r) = w + 1 - r" by simp
  ultimately have n: "unat (w + 1 - r) = Suc ?n" by (simp only:)
  have w: "w = r + of_nat ?n" by simp
  have same: "ring_at (ring_put xs w b) (r + of_nat k) = ring_at xs (r + of_nat k)" if "k < ?n" for k
  proof -
    have "unat (r + of_nat k :: u32) mod length xs \<noteq> unat w mod length xs"
      using ring_pos_inj [OF ok, of k ?n r] that room w by auto
    then show ?thesis by (simp add: ring_at_def ring_put_def)
  qed
  have last: "ring_at (ring_put xs w b) (r + of_nat ?n) = b"
    using ok w by (simp add: ring_at_def ring_put_def ring_ok_def)
  show ?thesis using same last by (simp add: ring_seq_def n)
qed

lemma unat_diff_step: "r \<noteq> w \<Longrightarrow> unat (w - r) = Suc (unat (w - (r + 1)))" for r w :: u32
proof -
  assume "r \<noteq> w"
  then have x: "w - r \<noteq> 0" by simp
  then have "unat (w - r - 1) = unat (w - r) - 1" by (rule unat_minus_one)
  moreover have "0 < unat (w - r)" using x by (simp add: unat_gt_0)
  ultimately show ?thesis by (simp add: diff_diff_add)
qed

lemma ring_seq_get:
  assumes "r \<noteq> w"
  shows "ring_seq xs r w = ring_at xs r # ring_seq xs (r + 1) w"
proof -
  have "ring_seq xs r w = map (\<lambda>k. ring_at xs (r + of_nat k)) (0 # map Suc [0..<unat (w - (r + 1))])"
    unfolding ring_seq_def unat_diff_step [OF assms] by (simp only: upt_conv_Cons map_Suc_upt)
  then show ?thesis by (simp add: ring_seq_def comp_def add.assoc)
qed

lemma ring_seq_unput:
  assumes "r \<noteq> w"
  shows "ring_seq xs r (w - 1) = butlast (ring_seq xs r w)"
proof -
  have "unat (w - r) = Suc (unat (w - 1 - r))" using unat_diff_step [OF assms] by (simp add: algebra_simps)
  then show ?thesis by (simp add: ring_seq_def butlast_append)
qed

lemma ring_seq_split:
  assumes "unat (m - r) \<le> unat (w - r)"
  shows "ring_seq xs r w = ring_seq xs r m @ ring_seq xs m w"
proof -
  have n: "unat (w - m) = unat (w - r) - unat (m - r)"
  proof -
    have "w - m = (w - r) - (m - r)" by simp
    then show ?thesis using assms by (simp only: unat_sub word_le_nat_alt)
  qed
  have "ring_seq xs m w = map (\<lambda>k. ring_at xs (r + of_nat k)) [unat (m - r)..<unat (w - r)]"
  proof (rule nth_equalityI)
    show "length (ring_seq xs m w) = length (map (\<lambda>k. ring_at xs (r + of_nat k)) [unat (m - r)..<unat (w - r)])"
      by (simp add: n)
    fix i assume "i < length (ring_seq xs m w)"
    then have i: "i < unat (w - r) - unat (m - r)" by (simp add: n)
    have "m + of_nat i = r + of_nat (unat (m - r) + i)" by simp
    with i show "ring_seq xs m w ! i = map (\<lambda>k. ring_at xs (r + of_nat k)) [unat (m - r)..<unat (w - r)] ! i"
      by (simp add: ring_seq_def n)
  qed
  moreover have "[0..<unat (w - r)] = [0..<unat (m - r)] @ [unat (m - r)..<unat (w - r)]"
    using assms upt_add_eq_append [of 0 "unat (m - r)" "unat (w - r) - unat (m - r)"] by simp
  ultimately show ?thesis by (simp add: ring_seq_def)
qed

section \<open>The queue interface\<close>

text \<open>
  A bounded queue of bytes: \<open>contents\<close> abstracts a state to the bytes it holds, oldest first.
  The two loops move bytes until the queue is full or empty.
\<close>

fun put_loop :: "('s \<Rightarrow> bool) \<Rightarrow> (u8 \<Rightarrow> 's \<Rightarrow> 's) \<Rightarrow> u8 list \<Rightarrow> 's \<Rightarrow> u8 list \<times> 's" where
  "put_loop isfull put [] s = ([], s)"
| "put_loop isfull put (b # bs) s = (if isfull s then (b # bs, s) else put_loop isfull put bs (put b s))"

fun get_loop :: "('s \<Rightarrow> bool) \<Rightarrow> ('s \<Rightarrow> u8 \<times> 's) \<Rightarrow> nat \<Rightarrow> 's \<Rightarrow> u8 list \<times> 's" where
  "get_loop isempty get 0 s = ([], s)"
| "get_loop isempty get (Suc n) s =
     (if isempty s then ([], s)
      else let (b, s) = get s; (bs, s) = get_loop isempty get n s in (b # bs, s))"

locale fifo =
  fixes contents :: "'s \<Rightarrow> u8 list" and inv :: "'s \<Rightarrow> bool" and cap :: nat
    and isfull :: "'s \<Rightarrow> bool" and isempty :: "'s \<Rightarrow> bool"
    and put :: "u8 \<Rightarrow> 's \<Rightarrow> 's" and get :: "'s \<Rightarrow> u8 \<times> 's"
  assumes bounded: "inv s \<Longrightarrow> length (contents s) \<le> cap"
    and full_iff: "inv s \<Longrightarrow> isfull s \<longleftrightarrow> length (contents s) = cap"
    and empty_iff: "inv s \<Longrightarrow> isempty s \<longleftrightarrow> contents s = []"
    and put_contents: "inv s \<Longrightarrow> \<not> isfull s \<Longrightarrow> contents (put b s) = contents s @ [b]"
    and put_inv: "inv s \<Longrightarrow> \<not> isfull s \<Longrightarrow> inv (put b s)"
    and get_contents: "inv s \<Longrightarrow> \<not> isempty s \<Longrightarrow> contents s = fst (get s) # contents (snd (get s))"
    and get_inv: "inv s \<Longrightarrow> \<not> isempty s \<Longrightarrow> inv (snd (get s))"
begin

lemma put_loop_contents:
  assumes "inv s" and "put_loop isfull put bs s = (rest, s')"
  shows "inv s' \<and> rest = drop (length bs - length rest) bs \<and> length rest \<le> length bs \<and>
    contents s' = contents s @ take (length bs - length rest) bs \<and> (rest \<noteq> [] \<longrightarrow> isfull s')"
  using assms
proof (induction bs arbitrary: s)
  case (Cons b bs)
  show ?case
  proof (cases "isfull s")
    case True
    with Cons.prems have "rest = b # bs" "s' = s" by simp_all
    with True Cons.prems(1) show ?thesis by simp
  next
    case False
    with Cons.prems have p: "put_loop isfull put bs (put b s) = (rest, s')" by simp
    from Cons.IH [OF put_inv [OF Cons.prems(1) False] p]
    show ?thesis by (simp add: put_contents [OF Cons.prems(1) False] Suc_diff_le)
  qed
qed simp

lemma get_loop_contents:
  assumes "inv s" and "get_loop isempty get n s = (bs, s')"
  shows "inv s' \<and> contents s = bs @ contents s' \<and> length bs = min n (length (contents s))"
  using assms
proof (induction n arbitrary: s bs s')
  case 0
  then show ?case by simp
next
  case (Suc n)
  show ?case
  proof (cases "isempty s")
    case True
    then have "bs = []" "s' = s" using Suc.prems(2) by simp_all
    moreover have "contents s = []" using True empty_iff [OF Suc.prems(1)] by blast
    ultimately show ?thesis using Suc.prems(1) by simp
  next
    case False
    define b where "b = fst (get s)"
    define t where "t = snd (get s)"
    define cs where "cs = fst (get_loop isempty get n t)"
    have l: "get_loop isempty get n t = (cs, s')" and bs: "bs = b # cs"
      using Suc.prems(2) False by (simp_all add: cs_def b_def t_def case_prod_unfold Let_def prod_eq_iff)
    have "inv t" "contents s = b # contents t"
      unfolding b_def t_def by (rule get_inv [OF Suc.prems(1) False], rule get_contents [OF Suc.prems(1) False])
    then have "length bs = min (Suc n) (length (contents s))" "contents s = bs @ contents s'" "inv s'"
      using Suc.IH [OF \<open>inv t\<close> l] by (simp_all only: bs list.size append_Cons min_Suc_Suc add_Suc_right add_0_right)
    then show ?thesis by blast
  qed
qed

end

end
