(* ===== verification/Pipe.thy ===== *)
theory Pipe
  imports Sysproc Ring
begin

text \<open>
  The pipes of \<open>pipe.c\<close>. A pipe is a ring buffer of 512 bytes with two free-running 32-bit
  counters. \<open>k\<close> names the pipe object in the channels its users sleep on, \<open>c\<close> is the CPU.
  A call of \<open>pipewrite\<close> or \<open>piperead\<close> is cut at its calls of \<open>sleep\<close>: a round runs from
  the acquisition of the lock to a return (\<open>Some\<close> value) or to the next sleep (\<open>None\<close>),
  after which the same call continues with another round. Allocation of the page and of the two
  file structures belongs to the file table.
\<close>

section \<open>Definitions\<close>

definition PIPESIZE :: nat where "PIPESIZE = 512"

record pipe =
  pdata :: "u8 list"
  nread :: u32
  nwrite :: u32
  readopen :: int
  writeopen :: int

text \<open>What \<open>pipealloc\<close> stores in the fresh page; the data bytes are whatever the page held.\<close>

definition pipe_init :: "u8 list \<Rightarrow> pipe" where
  "pipe_init page = \<lparr>pdata = page, nread = 0, nwrite = 0, readopen = 1, writeopen = 1\<rparr>"

definition pipe_full :: "pipe \<Rightarrow> bool" where
  "pipe_full p \<longleftrightarrow> nwrite p = nread p + of_nat PIPESIZE"

definition pipe_empty :: "pipe \<Rightarrow> bool" where
  "pipe_empty p \<longleftrightarrow> nread p = nwrite p"

definition pipe_put :: "u8 \<Rightarrow> pipe \<Rightarrow> pipe" where
  "pipe_put b p = p\<lparr>pdata := ring_put (pdata p) (nwrite p) b, nwrite := nwrite p + 1\<rparr>"

definition pipe_get :: "pipe \<Rightarrow> u8 \<times> pipe" where
  "pipe_get p = (ring_at (pdata p) (nread p), p\<lparr>nread := nread p + 1\<rparr>)"

text \<open>Whether both ends are closed now, so that the page is freed, with the new pipe.\<close>

definition pipeclose :: "nat \<Rightarrow> bool \<Rightarrow> pipe \<Rightarrow> 'z pstate_scheme \<Rightarrow> bool \<times> pipe \<times> 'z pstate_scheme" where
  "pipeclose k writable p s =
     (let (p, s) = (if writable then (p\<lparr>writeopen := 0\<rparr>, wakeup (Ch_pipe_nread k) s)
                    else (p\<lparr>readopen := 0\<rparr>, wakeup (Ch_pipe_nwrite k) s))
      in (readopen p = 0 \<and> writeopen p = 0, p, s))"

text \<open>\<open>bs\<close> are the bytes \<open>addr[i..n-1]\<close> still to be written.\<close>

definition pipewrite_round ::
    "nat \<Rightarrow> nat \<Rightarrow> int \<Rightarrow> u8 list \<Rightarrow> pipe \<Rightarrow> 'z pstate_scheme \<Rightarrow> (int option \<times> u8 list \<times> pipe \<times> 'z pstate_scheme) res" where
  "pipewrite_round k c n bs p s =
     with_cur c s (\<lambda>i cur.
       let (rest, p) = put_loop pipe_full pipe_put bs p in
       if rest = [] then Inr (Some n, [], p, wakeup (Ch_pipe_nread k) s)
       else if readopen p = 0 \<or> killed cur \<noteq> 0 then Inr (Some (-1), rest, p, s)
       else rbind (sleep (Ch_pipe_nwrite k) (Some OtherLock) c (upd_cpu c pushcli (wakeup (Ch_pipe_nread k) s)))
              (\<lambda>s. Inr (None, rest, p, s)))"

definition piperead_round ::
    "nat \<Rightarrow> nat \<Rightarrow> int \<Rightarrow> pipe \<Rightarrow> 'z pstate_scheme \<Rightarrow> (int option \<times> u8 list \<times> pipe \<times> 'z pstate_scheme) res" where
  "piperead_round k c n p s =
     with_cur c s (\<lambda>i cur.
       if pipe_empty p \<and> writeopen p \<noteq> 0
       then if killed cur \<noteq> 0 then Inr (Some (-1), [], p, s)
            else rbind (sleep (Ch_pipe_nread k) (Some OtherLock) c (upd_cpu c pushcli s))
                   (\<lambda>s. Inr (None, [], p, s))
       else let (bs, p) = get_loop pipe_empty pipe_get (nat n) p
            in Inr (Some (int (length bs)), bs, p, wakeup (Ch_pipe_nwrite k) s))"

section \<open>A pipe is a queue\<close>

definition pipe_bytes :: "pipe \<Rightarrow> u8 list" where
  "pipe_bytes p = ring_seq (pdata p) (nread p) (nwrite p)"

definition pipe_ok :: "pipe \<Rightarrow> bool" where
  "pipe_ok p \<longleftrightarrow> length (pdata p) = PIPESIZE \<and> unat (nwrite p - nread p) \<le> PIPESIZE"

lemma ring_ok_pipe: "length xs = PIPESIZE \<Longrightarrow> ring_ok xs"
proof -
  have "(2 :: nat) ^ 31 = 512 * 4194304" by simp
  then have "(512 :: nat) dvd 2 ^ 31" by (metis dvd_triv_left)
  then show "length xs = PIPESIZE \<Longrightarrow> ring_ok xs" unfolding ring_ok_def PIPESIZE_def by (metis zero_less_numeral)
qed

lemma pipe_full_iff: "pipe_full p \<longleftrightarrow> unat (nwrite p - nread p) = PIPESIZE"
proof -
  have "pipe_full p \<longleftrightarrow> nwrite p - nread p = of_nat PIPESIZE"
    by (simp add: pipe_full_def) (metis add.commute diff_eq_eq)
  also have "\<dots> \<longleftrightarrow> unat (nwrite p - nread p) = PIPESIZE"
    by (simp add: word_unat_eq_iff PIPESIZE_def)
  finally show ?thesis .
qed

lemma pipe_put_ok:
  assumes "pipe_ok p" and "\<not> pipe_full p"
  shows "pipe_bytes (pipe_put b p) = pipe_bytes p @ [b] \<and> pipe_ok (pipe_put b p)"
proof -
  have room: "unat (nwrite p - nread p) < length (pdata p)" and ok: "ring_ok (pdata p)"
    using assms by (auto simp: pipe_ok_def pipe_full_iff ring_ok_pipe)
  have b: "pipe_bytes (pipe_put b p) = pipe_bytes p @ [b]"
    using ring_seq_put [OF ok room] by (simp add: pipe_bytes_def pipe_put_def)
  then have "length (pipe_bytes (pipe_put b p)) = length (pipe_bytes p) + 1" by simp
  then have "unat (nwrite (pipe_put b p) - nread (pipe_put b p)) = unat (nwrite p - nread p) + 1"
    by (simp add: pipe_bytes_def)
  with b room assms(1) show ?thesis by (simp add: pipe_ok_def pipe_put_def)
qed

lemma pipe_get_ok:
  assumes "pipe_ok p" and "\<not> pipe_empty p"
  shows "pipe_bytes p = fst (pipe_get p) # pipe_bytes (snd (pipe_get p)) \<and> pipe_ok (snd (pipe_get p))"
  using assms ring_seq_get [of "nread p" "nwrite p" "pdata p"] unat_diff_step [of "nread p" "nwrite p"]
  by (simp add: pipe_bytes_def pipe_get_def pipe_empty_def pipe_ok_def)

interpretation pipeq: fifo pipe_bytes pipe_ok PIPESIZE pipe_full pipe_empty pipe_put pipe_get
proof unfold_locales
  fix s assume "pipe_ok s"
  then show "length (pipe_bytes s) \<le> PIPESIZE" "pipe_full s \<longleftrightarrow> length (pipe_bytes s) = PIPESIZE"
    by (simp_all add: pipe_bytes_def pipe_ok_def pipe_full_iff)
  have "length (pipe_bytes s) = unat (nwrite s - nread s)" by (simp add: pipe_bytes_def)
  then show "pipe_empty s \<longleftrightarrow> pipe_bytes s = []"
    by (simp add: pipe_empty_def flip: length_0_conv) (auto simp: unat_eq_0)
qed (simp_all add: pipe_put_ok pipe_get_ok)

lemma pipe_ok_init: "length page = PIPESIZE \<Longrightarrow> pipe_ok (pipe_init page) \<and> pipe_bytes (pipe_init page) = []"
  by (simp add: pipe_ok_def pipe_init_def pipe_bytes_def)

lemma pipe_ok_flags [simp]:
  "pipe_ok (p\<lparr>writeopen := v\<rparr>) = pipe_ok p" "pipe_ok (p\<lparr>readopen := v\<rparr>) = pipe_ok p"
  "pipe_bytes (p\<lparr>writeopen := v\<rparr>) = pipe_bytes p" "pipe_bytes (p\<lparr>readopen := v\<rparr>) = pipe_bytes p"
  by (simp_all add: pipe_ok_def pipe_bytes_def)


lemma pipewrite_round_bytes:
  assumes ok: "pipe_ok p" and w: "pipewrite_round k c n bs p s = Inr (v, rest, p', s')"
  shows "pipe_ok p' \<and> pipe_bytes p' = pipe_bytes p @ take (length bs - length rest) bs \<and>
    rest = drop (length bs - length rest) bs \<and> (rest \<noteq> [] \<longrightarrow> pipe_full p')"
proof -
  obtain rest1 p1 where l: "put_loop pipe_full pipe_put bs p = (rest1, p1)"
    by (cases "put_loop pipe_full pipe_put bs p")
  have "rest = rest1" "p' = p1"
    using w by (auto simp: pipewrite_round_def with_cur_def l split: option.splits if_splits)
  with pipeq.put_loop_contents [OF ok l] show ?thesis by blast
qed

lemma piperead_round_bytes:
  assumes ok: "pipe_ok p" and r: "piperead_round k c n p s = Inr (v, bs, p', s')"
  shows "pipe_ok p' \<and> pipe_bytes p = bs @ pipe_bytes p' \<and>
    (v \<noteq> None \<and> v \<noteq> Some (-1) \<longrightarrow> v = Some (int (length bs)) \<and> length bs = min (nat n) (length (pipe_bytes p)))"
proof -
  obtain bs1 p1 where l: "get_loop pipe_empty pipe_get (nat n) p = (bs1, p1)"
    by (cases "get_loop pipe_empty pipe_get (nat n) p")
  from r have "bs = [] \<and> p' = p \<and> (v = None \<or> v = Some (-1)) \<or> bs = bs1 \<and> p' = p1 \<and> v = Some (int (length bs))"
    by (auto simp: piperead_round_def with_cur_def l split: option.splits if_splits)
  then show ?thesis
  proof
    assume "bs = [] \<and> p' = p \<and> (v = None \<or> v = Some (-1))"
    with ok show ?thesis by auto
  next
    assume "bs = bs1 \<and> p' = p1 \<and> v = Some (int (length bs))"
    with pipeq.get_loop_contents [OF ok l] show ?thesis by blast
  qed
qed

lemma pipeclose_bytes:
  "pipeclose k w p s = (freed, p', s') \<Longrightarrow> pipe_ok p' = pipe_ok p \<and> pipe_bytes p' = pipe_bytes p"
  by (auto simp: pipeclose_def Let_def split: if_splits)

section \<open>The life of a pipe\<close>

text \<open>
  Rounds of any writers and readers and closes in any order, with the bytes written and read so
  far. The process table is arbitrary at every step: whatever happens between two rounds.
\<close>

inductive pipe_run :: "pipe \<Rightarrow> u8 list \<Rightarrow> u8 list \<Rightarrow> bool" where
  start: "length page = PIPESIZE \<Longrightarrow> pipe_run (pipe_init page) [] []"
| writes: "pipe_run p w r \<Longrightarrow> pipewrite_round k c n bs p (s :: pstate) = Inr (v, rest, p', s') \<Longrightarrow>
    pipe_run p' (w @ take (length bs - length rest) bs) r"
| reads: "pipe_run p w r \<Longrightarrow> piperead_round k c n p (s :: pstate) = Inr (v, bs, p', s') \<Longrightarrow> pipe_run p' w (r @ bs)"
| closes: "pipe_run p w r \<Longrightarrow> pipeclose k wr p (s :: pstate) = (freed, p', s') \<Longrightarrow> pipe_run p' w r"

lemma pipe_run_queue: "pipe_run p w r \<Longrightarrow> pipe_ok p \<and> w = r @ pipe_bytes p"
proof (induction rule: pipe_run.induct)
  case (start page)
  then show ?case by (simp add: pipe_ok_init)
next
  case (writes p w r k c n bs s v rest p' s')
  then show ?case using pipewrite_round_bytes [of p k c n bs s v rest p' s'] by simp
next
  case (reads p w r k c n s v bs p' s')
  then show ?case using piperead_round_bytes [of p k c n s v bs p' s'] by simp
next
  case (closes p w r k wr s freed p' s')
  then show ?case using pipeclose_bytes [of k wr p s freed p' s'] by simp
qed

lemma cpu_popcli_ptable: "cpu_popcli c s = Inr s' \<Longrightarrow> ptable s' = ptable s"
  by (auto simp: cpu_popcli_def)

lemma sched_ptable:
  assumes "sched held kc c i s = Inr s'" and "q \<in> set (ptable s')"
  shows "\<exists>q0\<in>set (ptable s). chan q = chan q0 \<and> state q = state q0"
proof -
  have "ptable s' = upd_at i (\<lambda>p. p\<lparr>kctx := kc, saved_intena := intena (cpus s ! c)\<rparr>) (ptable s)"
    using assms(1) by (auto simp: sched_def scheduler_back_def dest!: cpu_popcli_ptable split: if_splits)
  with assms(2) show ?thesis by (force simp: in_set_conv_nth nth_upd_at split: if_splits)
qed

lemma sleep_ptable:
  assumes "sleep ch lk c s = Inr s'" and "q \<in> set (ptable s')"
  shows "chan q = Some ch \<or> (\<exists>q0\<in>set (ptable s). chan q = chan q0 \<and> state q = state q0)"
proof -
  obtain i s1 where s1: "ptable s1 = ptable s"
      "sched True At_sleep c i (upd_proc i (\<lambda>p. p\<lparr>chan := Some ch, state := SLEEPING\<rparr>) s1) = Inr s'"
    using assms(1) by (auto simp: sleep_def dest!: cpu_popcli_ptable split: option.splits if_splits)
  from sched_ptable [OF s1(2) assms(2)] show ?thesis
    by (force simp: in_set_conv_nth nth_upd_at s1(1) split: if_splits)
qed

lemma pipewrite_sleeps:
  assumes "pipewrite_round k c n bs p s = Inr (None, rest, p', s')" and "q \<in> set (ptable s')"
  shows "\<not> (state q = SLEEPING \<and> chan q = Some (Ch_pipe_nread k))"
proof -
  have "sleep (Ch_pipe_nwrite k) (Some OtherLock) c (upd_cpu c pushcli (wakeup (Ch_pipe_nread k) s)) = Inr s'"
    using assms(1) by (auto simp: pipewrite_round_def with_cur_def case_prod_unfold Let_def split: option.splits if_splits)
  from sleep_ptable [OF this assms(2)] show ?thesis
    by (auto simp: wakeup_def wakeup1_def split: if_splits)
qed

section \<open>The properties of pipes\<close>

text \<open>
  C31: A pipe is a queue: over any interleaving of write rounds, read rounds and closes, the bytes
  read so far followed by the bytes in the ring are exactly the bytes written so far, in order,
  and the ring never holds more than 512, also after the 32-bit counters have wrapped around.
\<close>

theorem pipe_is_queue:
  assumes "pipe_run p w r"
  shows "w = r @ pipe_bytes p \<and> length (pipe_bytes p) \<le> PIPESIZE"
  using pipe_run_queue [OF assms] pipeq.bounded by blast

lemma demo_write:
  "\<exists>p s'. pipewrite_round 0 0 2 [104, 105] (pipe_init (replicate PIPESIZE 0)) demo_agent = Inr (Some 2, [], p, s')"
  by (simp add: pipewrite_round_def with_cur_def demo_agent_facts(1) pipe_full_def pipe_init_def pipe_put_def PIPESIZE_def)

theorem pipe_is_queue_witness: "\<exists>p. pipe_run p [104, 105] [] \<and> pipe_bytes p = [104, 105]"
proof -
  obtain p s' where w: "pipewrite_round 0 0 2 [104, 105] (pipe_init (replicate PIPESIZE 0)) demo_agent = Inr (Some 2, [], p, s')"
    using demo_write by blast
  have "pipe_run p [104, 105] []"
    using pipe_run.writes [OF pipe_run.start w] by simp
  then show ?thesis using pipe_is_queue [of p "[104, 105]" "[]"] by auto
qed

text \<open>
  C34: The outcome of a round is determined by the state of the queue: a write that has not
  stored all its bytes leaves the ring full, and sleeps only after waking the readers; a read
  returns 0 for a positive request only at the end of file, when the ring is empty and the write
  end is closed, and otherwise returns as many bytes as are there, up to the request.
\<close>

theorem pipe_rounds:
  assumes "pipe_run p w r"
  shows "(pipewrite_round k c n bs p s = Inr (v, rest, p', s') \<longrightarrow>
            (rest \<noteq> [] \<longrightarrow> length (pipe_bytes p') = PIPESIZE) \<and>
            (v = None \<longrightarrow> (\<forall>q\<in>set (ptable s'). \<not> (state q = SLEEPING \<and> chan q = Some (Ch_pipe_nread k))))) \<and>
         (piperead_round k c n p s = Inr (Some m, bs, p', s') \<and> m \<noteq> -1 \<longrightarrow>
            m = int (min (nat n) (length (pipe_bytes p))) \<and> (m = 0 \<and> 0 < n \<longrightarrow> pipe_bytes p = [] \<and> writeopen p = 0))"
proof (intro conjI impI)
  have ok: "pipe_ok p" using pipe_run_queue [OF assms] by blast
  assume w: "pipewrite_round k c n bs p s = Inr (v, rest, p', s')"
  show "rest \<noteq> [] \<Longrightarrow> length (pipe_bytes p') = PIPESIZE"
    using pipewrite_round_bytes [OF ok w] pipeq.full_iff by blast
  show "v = None \<Longrightarrow> \<forall>q\<in>set (ptable s'). \<not> (state q = SLEEPING \<and> chan q = Some (Ch_pipe_nread k))"
    using pipewrite_sleeps w by blast
next
  have ok: "pipe_ok p" using pipe_run_queue [OF assms] by blast
  assume r: "piperead_round k c n p s = Inr (Some m, bs, p', s') \<and> m \<noteq> -1"
  then have "Some m = Some (int (length bs)) \<and> length bs = min (nat n) (length (pipe_bytes p))"
    using piperead_round_bytes [OF ok, of k c n s "Some m" bs p' s'] by blast
  then show m: "m = int (min (nat n) (length (pipe_bytes p)))" by (simp only: option.inject)
  assume z: "m = 0 \<and> 0 < n"
  with m show "pipe_bytes p = []" by (auto simp: min_def split: if_splits)
  then have "pipe_empty p" using pipeq.empty_iff [OF ok] by blast
  with r show "writeopen p = 0"
    by (auto simp: piperead_round_def with_cur_def split: option.splits if_splits)
qed

theorem pipe_rounds_witness:
  "\<exists>p s'. piperead_round 0 0 5 p demo_agent = Inr (Some 0, [], p, s') \<and> pipe_bytes p = [] \<and> writeopen p = 0"
proof -
  let ?p = "(pipe_init (replicate PIPESIZE 0))\<lparr>writeopen := 0\<rparr>"
  have run: "pipe_run ?p [] []"
    by (rule pipe_run.closes [OF pipe_run.start [of "replicate PIPESIZE 0"],
          of 0 True demo_agent False _ "wakeup (Ch_pipe_nread 0) demo_agent"])
      (simp_all add: pipeclose_def pipe_init_def)
  have r: "piperead_round 0 0 5 ?p demo_agent = Inr (Some 0, [], ?p, wakeup (Ch_pipe_nwrite 0) demo_agent)"
    by (simp add: piperead_round_def with_cur_def demo_agent_facts(1) pipe_empty_def pipe_init_def numeral_eq_Suc)
  have "pipe_bytes ?p = [] \<and> writeopen ?p = 0"
    using conjunct2 [OF pipe_rounds [OF run, of 0 0 5 "[]" demo_agent None "[]" ?p "wakeup (Ch_pipe_nwrite 0) demo_agent" 0]] r
    by (simp add: pipe_init_def)
  with r show ?thesis by blast
qed

end
