(* ===== verification/Kalloc.thy ===== *)
theory Kalloc
  imports Proc
begin

text \<open>
  The physical page allocator of \<open>kalloc.c\<close>: a free list threaded through the free pages
  themselves. \<open>pm\<close> is memory at kernel virtual addresses; \<open>kend\<close> is the linker's \<open>end\<close>.
  The lock is not a field, each operation is one critical section of it. The first section has
  the page arithmetic of \<open>mmu.h\<close> and the lemmas on which bytes a load or store in a page
  touches, which the page tables use as well.
\<close>

unbundle bit_operations_syntax

section \<open>Pages\<close>

definition PHYSTOP :: u64 where "PHYSTOP = 0xE000000"

definition pgroundup :: "u64 \<Rightarrow> u64" where
  "pgroundup a = (a + (PGSIZE - 1)) AND NOT (PGSIZE - 1)"

lemma PGSIZE_mask: "PGSIZE - 1 = mask 12"
  by (simp add: PGSIZE_def mask_eq_exp_minus_1)

lemma unat_and_not_mask: "unat (a AND NOT (PGSIZE - 1)) = unat a div 4096 * 4096"
proof -
  have "a AND NOT (PGSIZE - 1) = push_bit 12 (drop_bit 12 a)"
    unfolding PGSIZE_mask by (rule bit_eqI) (auto simp: bit_simps)
  moreover have "unat (push_bit 12 (drop_bit 12 a)) = unat a div 4096 * 4096"
    using unsigned_less [of a, where ?'a = nat] div_times_less_eq_dividend [of "unat a" 4096]
    by (simp add: push_bit_eq_mult drop_bit_eq_div unat_word_ariths unat_div)
  ultimately show ?thesis by simp
qed

definition pgrounddown :: "u64 \<Rightarrow> u64" where
  "pgrounddown a = a AND NOT (PGSIZE - 1)"

section \<open>The allocator\<close>

record memst =
  pm :: mem
  freelist :: u64
  use_lock :: int
  kend :: u64

definition kfree :: "u64 \<Rightarrow> memst \<Rightarrow> memst res" where
  "kfree v s =
     (if v mod PGSIZE \<noteq> 0 \<or> v < kend s \<or> v2p v \<ge> PHYSTOP then Inl (Panic ''kfree'')
      else let s = s\<lparr>pm := memset v 1 PGSIZE (pm s)\<rparr>
           in Inr (s\<lparr>pm := st64 v (freelist s) (pm s), freelist := v\<rparr>))"

definition kalloc :: "memst \<Rightarrow> (u64 \<times> memst) res" where
  "kalloc s =
     (let r = freelist s in
      if r \<noteq> 0 then Inr (r, s\<lparr>freelist := ld64 (pm s) r\<rparr>) else Inl (Panic ''Out of memory!''))"

lemma kfree_range: "kfree v s = Inr t \<Longrightarrow> KERNBASE \<le> v \<and> v < KERNBASE + PHYSTOP"
proof -
  assume "kfree v s = Inr t"
  then have "v - KERNBASE < PHYSTOP" by (auto simp: kfree_def v2p_def not_le split: if_splits)
  then show ?thesis using unsigned_less [of v, where ?'a = nat]
    by (simp add: KERNBASE_def PHYSTOP_def word_less_nat_alt word_le_nat_alt unat_sub_if' split: if_splits)
qed

function freerange_loop :: "u64 \<Rightarrow> u64 \<Rightarrow> memst \<Rightarrow> memst res" where
  "freerange_loop p vend s =
     (if p + PGSIZE \<le> vend then rbind (kfree p s) (\<lambda>s. freerange_loop (p + PGSIZE) vend s) else Inr s)"
  by pat_completeness auto

termination
proof (relation "measure (\<lambda>(p, _, _). unat (KERNBASE + PHYSTOP) - unat p)")
  fix p vend :: u64 and s t
  assume "kfree p s = Inr t"
  from kfree_range [OF this] show "((p + PGSIZE, vend, t), p, vend, s) \<in> measure (\<lambda>(p, _, _). unat (KERNBASE + PHYSTOP) - unat p)"
    by (simp add: KERNBASE_def PHYSTOP_def PGSIZE_def word_less_nat_alt word_le_nat_alt unat_word_ariths) linarith
qed simp

declare freerange_loop.simps [simp del]

definition freerange :: "u64 \<Rightarrow> u64 \<Rightarrow> memst \<Rightarrow> memst res" where
  "freerange vstart vend s = freerange_loop (pgroundup vstart) vend s"

definition kinit1 :: "u64 \<Rightarrow> u64 \<Rightarrow> memst \<Rightarrow> memst res" where
  "kinit1 vstart vend s = freerange vstart vend (s\<lparr>use_lock := 0, freelist := 0\<rparr>)"

definition kinit2 :: "memst \<Rightarrow> memst" where
  "kinit2 s = s\<lparr>use_lock := 1\<rparr>"

section \<open>Bytes of a page\<close>

text \<open>The number of the page an address lies in.\<close>

definition pgno :: "u64 \<Rightarrow> nat" where
  "pgno a = unat a div 4096"

lemma unat_lt64: "unat (x :: u64) < 18446744073709551616"
  using unsigned_less [of x, where ?'a = nat] by simp

lemma unat_PGSIZE [simp]: "unat PGSIZE = 4096"
  by (simp add: PGSIZE_def)

lemma pgsize_mod: "v mod PGSIZE = 0 \<longleftrightarrow> unat v mod 4096 = 0"
  by (simp add: PGSIZE_def word_unat_eq_iff unat_mod)

lemma in_page: "v mod PGSIZE = 0 \<Longrightarrow> x - v < PGSIZE \<longleftrightarrow> pgno x = pgno v"
proof -
  assume "v mod PGSIZE = 0"
  then obtain k where k: "unat v = 4096 * k" by (auto simp: pgsize_mod)
  note b = unat_lt64 [of x] unat_lt64 [of v]
  show ?thesis
  proof (cases "unat v \<le> unat x")
    case True
    then have "unat (x - v) = unat x - unat v" by (simp add: unat_sub word_le_nat_alt)
    with True k show ?thesis by (auto simp: word_less_nat_alt pgno_def)
  next
    case False
    then have "unat (x - v) = unat x + 2 ^ 64 - unat v" by (simp add: unat_sub_if')
    moreover have "k \<le> 4503599627370495" using b k by simp
    ultimately show ?thesis using False k b by (auto simp: word_less_nat_alt pgno_def)
  qed
qed

lemma pgno_inj: "v mod PGSIZE = 0 \<Longrightarrow> w mod PGSIZE = 0 \<Longrightarrow> pgno v = pgno w \<longleftrightarrow> v = w"
proof -
  assume "v mod PGSIZE = 0" "w mod PGSIZE = 0"
  then obtain j k where "unat v = 4096 * j" "unat w = 4096 * k" by (auto simp: pgsize_mod elim!: dvdE)
  then show ?thesis by (simp add: pgno_def word_unat_eq_iff)
qed

lemma memset_page: "v mod PGSIZE = 0 \<Longrightarrow> memset v c PGSIZE m x = (if pgno x = pgno v then ucast c else m x)"
  by (simp add: memset_eq in_page)

text \<open>An aligned group of eight bytes lies in one page.\<close>

definition al8 :: "u64 \<Rightarrow> bool" where
  "al8 a \<longleftrightarrow> unat a mod 8 = 0"

lemma al8_page: "v mod PGSIZE = 0 \<Longrightarrow> al8 v"
  by (auto simp: pgsize_mod al8_def)

lemma al8_unat: "al8 a \<Longrightarrow> k < 8 \<Longrightarrow> unat (a + of_nat k) = unat a + k"
proof -
  assume "al8 a" "k < 8"
  then have "unat a + k < 18446744073709551616" using unat_lt64 [of a] by (auto simp: al8_def)
  with \<open>k < 8\<close> show ?thesis by (simp add: unat_word_ariths unat_of_nat)
qed

lemma al8_pgno: "al8 a \<Longrightarrow> k < 8 \<Longrightarrow> pgno (a + of_nat k) = pgno a"
proof -
  assume a: "al8 a" "k < 8"
  then obtain j where "unat a = 8 * j" by (auto simp: al8_def)
  with al8_unat [OF a] a(2) show ?thesis by (simp add: pgno_def)
qed

lemma st32_at: "st32 a v m x \<noteq> m x \<Longrightarrow> \<exists>k<4. x = a + of_nat k"
proof -
  assume "st32 a v m x \<noteq> m x"
  then have "x = a \<or> x = a + 1 \<or> x = a + 2 \<or> x = a + 3" by (auto simp: st32_def split: if_splits)
  then show ?thesis
    by (elim disjE) (auto intro: exI [of _ 0] exI [of _ 1] exI [of _ 2] exI [of _ 3])
qed

lemma st64_at: "st64 a v m x \<noteq> m x \<Longrightarrow> \<exists>k<8. x = a + of_nat k"
proof -
  assume "st64 a v m x \<noteq> m x"
  then have "st32 (a + 4) (ucast (drop_bit 32 v)) (st32 a (ucast v) m) x \<noteq> st32 a (ucast v) m x \<or> st32 a (ucast v) m x \<noteq> m x"
    by (auto simp: st64_def)
  then show ?thesis
  proof
    assume "st32 (a + 4) (ucast (drop_bit 32 v)) (st32 a (ucast v) m) x \<noteq> st32 a (ucast v) m x"
    then obtain k where "k < 4" "x = a + 4 + of_nat k" using st32_at by blast
    then show ?thesis by (intro exI [of _ "4 + k"]) (simp add: add.assoc)
  next
    assume "st32 a (ucast v) m x \<noteq> m x"
    then obtain k where "k < 4" "x = a + of_nat k" using st32_at by blast
    then show ?thesis by (intro exI [of _ k]) simp
  qed
qed

lemma ld64_cong: "(\<And>k. k < 8 \<Longrightarrow> m (a + of_nat k) = m' (a + of_nat k)) \<Longrightarrow> ld64 m a = ld64 m' (a :: u64)"
proof -
  assume eq: "\<And>k. k < 8 \<Longrightarrow> m (a + of_nat k) = m' (a + of_nat k)"
  show ?thesis
    using eq [of 0] eq [of 1] eq [of 2] eq [of 3] eq [of 4] eq [of 5] eq [of 6] eq [of 7]
    by (simp add: ld64_def ld32_def add.assoc)
qed

lemma st64_other_page: "al8 a \<Longrightarrow> pgno x \<noteq> pgno a \<Longrightarrow> st64 a v m x = m x"
  using st64_at al8_pgno by metis

lemma ld64_other_page: "al8 a \<Longrightarrow> (\<And>x. pgno x = pgno a \<Longrightarrow> m x = m' x) \<Longrightarrow> ld64 m a = ld64 m' a"
  by (rule ld64_cong) (simp add: al8_pgno)

lemma ld64_st64_other:
  assumes "al8 a" and "al8 b" and "a \<noteq> b"
  shows "ld64 (st64 a v m) b = ld64 m b"
proof (rule ld64_cong)
  fix k :: nat assume k: "k < 8"
  show "st64 a v m (b + of_nat k) = m (b + of_nat k)"
  proof (rule ccontr)
    assume "st64 a v m (b + of_nat k) \<noteq> m (b + of_nat k)"
    then obtain j where j: "j < 8" "b + of_nat k = a + of_nat j" using st64_at by blast
    then have "unat b + k = unat a + j" using al8_unat assms k by metis
    then have "unat b = unat a" using assms(1,2) j(1) k unfolding al8_def by presburger
    with assms(3) show False by (simp add: word_unat_eq_iff)
  qed
qed

section \<open>The free list\<close>

text \<open>\<open>chain m p xs\<close>: the list that starts at \<open>p\<close> in memory \<open>m\<close> consists of the pages \<open>xs\<close>.\<close>

fun chain :: "mem \<Rightarrow> u64 \<Rightarrow> u64 list \<Rightarrow> bool" where
  "chain m p [] \<longleftrightarrow> p = 0"
| "chain m p (x # xs) \<longleftrightarrow> p = x \<and> x \<noteq> 0 \<and> chain m (ld64 m x) xs"

definition kpage :: "u64 \<Rightarrow> u64 \<Rightarrow> bool" where
  "kpage e v \<longleftrightarrow> v mod PGSIZE = 0 \<and> e \<le> v \<and> v2p v < PHYSTOP"

definition kmem_ok :: "memst \<Rightarrow> u64 list \<Rightarrow> bool" where
  "kmem_ok s xs \<longleftrightarrow> KERNBASE \<le> kend s \<and> chain (pm s) (freelist s) xs \<and> distinct xs \<and> (\<forall>x\<in>set xs. kpage (kend s) x)"

lemma chain_other_page:
  assumes "\<forall>x\<in>set xs. x mod PGSIZE = 0" and "\<And>x y. x \<in> set xs \<Longrightarrow> pgno y = pgno x \<Longrightarrow> m' y = m y"
  shows "chain m' p xs = chain m p xs"
  using assms
proof (induction xs arbitrary: p)
  case (Cons x xs)
  have "ld64 m' x = ld64 m x"
    by (rule ld64_other_page [OF al8_page]) (use Cons.prems(1) Cons.prems(2) [of x] in simp_all)
  moreover have "chain m' q xs = chain m q xs" for q
    using Cons.prems by (intro Cons.IH) auto
  ultimately show ?case by simp
qed simp

lemma kfree_ok:
  assumes ok: "kmem_ok s xs" and v: "kpage (kend s) v" "v \<notin> set xs"
  obtains s' where "kfree v s = Inr s'" "kmem_ok s' (v # xs)" "kend s' = kend s"
    "\<And>y. pgno y \<noteq> pgno v \<Longrightarrow> pm s' y = pm s y"
proof -
  let ?m = "st64 v (freelist s) (memset v 1 PGSIZE (pm s))"
  let ?s = "s\<lparr>pm := ?m, freelist := v\<rparr>"
  have al: "v mod PGSIZE = 0" using v by (simp add: kpage_def)
  note al = al al8_page [OF al]
  have other: "?m y = pm s y" if "pgno y \<noteq> pgno v" for y
    using that al by (simp add: st64_other_page memset_page)
  have pages: "\<forall>x\<in>set xs. x mod PGSIZE = 0" "\<forall>x\<in>set xs. x \<noteq> v"
    using ok v(2) by (auto simp: kmem_ok_def kpage_def)
  have "chain ?m (freelist s) xs = chain (pm s) (freelist s) xs"
  proof (rule chain_other_page [OF pages(1)])
    fix x y assume "x \<in> set xs" "pgno y = pgno x"
    then show "?m y = pm s y" using pgno_inj al(1) pages other by metis
  qed
  moreover have "v \<noteq> 0" using ok v(1) by (auto simp: kmem_ok_def kpage_def KERNBASE_def)
  ultimately have "kmem_ok ?s (v # xs)" using ok v by (simp add: kmem_ok_def)
  moreover have "kfree v s = Inr ?s" using v by (simp add: kfree_def kpage_def not_less not_le)
  ultimately show ?thesis using other by (intro that [of ?s]) simp_all
qed

lemma kalloc_ok:
  assumes "kmem_ok s (x # xs)"
  obtains s' where "kalloc s = Inr (x, s')" "kmem_ok s' xs" "kend s' = kend s" "pm s' = pm s"
  using assms by (intro that [of "s\<lparr>freelist := ld64 (pm s) x\<rparr>"]) (simp_all add: kalloc_def kmem_ok_def)

lemma kalloc_none: "kmem_ok s [] \<Longrightarrow> kalloc s = Inl (Panic ''Out of memory!'')"
  by (simp add: kalloc_def kmem_ok_def)

section \<open>The interface of a page allocator\<close>

text \<open>
  What the callers of the allocator rely on, for a free list \<open>xs\<close> that is a ghost of the state:
  a page that is handed out is not free any more, and is different from every page still free.
\<close>

fun alloc_n :: "('s \<Rightarrow> (u64 \<times> 's) res) \<Rightarrow> nat \<Rightarrow> 's \<Rightarrow> (u64 list \<times> 's) res" where
  "alloc_n alloc 0 s = Inr ([], s)"
| "alloc_n alloc (Suc n) s =
     rbind (alloc s) (\<lambda>(p, s). rbind (alloc_n alloc n s) (\<lambda>(ps, s). Inr (p # ps, s)))"

locale page_allocator =
  fixes alloc :: "'s \<Rightarrow> (u64 \<times> 's) res" and free :: "u64 \<Rightarrow> 's \<Rightarrow> 's res"
    and frees :: "'s \<Rightarrow> u64 list \<Rightarrow> bool" and page :: "'s \<Rightarrow> u64 \<Rightarrow> bool" and other :: "'s \<Rightarrow> u64 \<Rightarrow> u8"
  assumes alloc_head: "frees s (x # xs) \<Longrightarrow>
      \<exists>s'. alloc s = Inr (x, s') \<and> frees s' xs \<and> page s' = page s \<and> other s' = other s"
    and alloc_empty: "frees s [] \<Longrightarrow> \<exists>e. alloc s = Inl e"
    and free_page: "frees s xs \<Longrightarrow> page s v \<Longrightarrow> v \<notin> set xs \<Longrightarrow>
      \<exists>s'. free v s = Inr s' \<and> frees s' (v # xs) \<and> page s' = page s \<and> (\<forall>y. pgno y \<noteq> pgno v \<longrightarrow> other s' y = other s y)"
    and frees_pages: "frees s xs \<Longrightarrow> distinct xs \<and> (\<forall>x\<in>set xs. page s x)"
begin

lemma alloc_n_pages:
  assumes "frees s xs" and "n \<le> length xs"
  shows "\<exists>s'. alloc_n alloc n s = Inr (take n xs, s') \<and> frees s' (drop n xs) \<and> page s' = page s \<and> other s' = other s"
  using assms
proof (induction n arbitrary: s xs)
  case (Suc n)
  then obtain x ys where xs: "xs = x # ys" by (cases xs) auto
  obtain s1 where s1: "alloc s = Inr (x, s1)" "frees s1 ys" "page s1 = page s" "other s1 = other s"
    using alloc_head Suc.prems(1) xs by blast
  from Suc.IH [OF s1(2)] Suc.prems(2) xs s1 show ?case by auto
qed simp

lemma alloc_n_distinct:
  assumes "frees s xs" and "n \<le> length xs"
  shows "\<exists>ps s'. alloc_n alloc n s = Inr (ps, s') \<and> length ps = n \<and> distinct ps \<and> (\<forall>p\<in>set ps. page s p)"
  using alloc_n_pages [OF assms] frees_pages [OF assms(1)] assms(2)
  by (auto dest!: in_set_takeD)

lemma alloc_free_back:
  assumes "frees s (x # xs)"
  shows "\<exists>s1 s2. alloc s = Inr (x, s1) \<and> free x s1 = Inr s2 \<and> frees s2 (x # xs) \<and>
    (\<forall>y. pgno y \<noteq> pgno x \<longrightarrow> other s2 y = other s y)"
proof -
  obtain s1 where s1: "alloc s = Inr (x, s1)" "frees s1 xs" "page s1 = page s" "other s1 = other s"
    using alloc_head assms by blast
  moreover have "x \<notin> set xs" "page s1 x" using frees_pages [OF assms] s1(3) by auto
  ultimately show ?thesis using free_page [OF s1(2)] by metis
qed

end

interpretation kmem: page_allocator kalloc kfree kmem_ok "\<lambda>s. kpage (kend s)" pm
proof (unfold_locales, goal_cases)
  case (1 s x xs)
  from kalloc_ok [OF this] show ?case by metis
next
  case (2 s)
  from kalloc_none [OF this] show ?case by blast
next
  case (3 s xs v)
  from kfree_ok [OF this] show ?case by metis
next
  case (4 s xs)
  then show ?case by (simp add: kmem_ok_def)
qed

section \<open>Boot\<close>

text \<open>The pages from \<open>p\<close> upwards, in the order the boot loop frees them.\<close>

definition pages_from :: "u64 \<Rightarrow> nat \<Rightarrow> u64 list" where
  "pages_from p n = map (\<lambda>i. p + of_nat i * PGSIZE) [0..<n]"

lemma pages_from_Suc: "pages_from p (Suc n) = p # pages_from (p + PGSIZE) n"
proof -
  have "[0..<Suc n] = 0 # map Suc [0..<n]" by (simp add: upt_conv_Cons map_Suc_upt del: upt_Suc)
  then show ?thesis by (simp add: pages_from_def algebra_simps)
qed

lemma freerange_loop_ok:
  assumes "kmem_ok s xs" and "p mod PGSIZE = 0" and "kend s \<le> p" and "\<forall>x\<in>set xs. x < p"
    and "p \<le> KERNBASE + PHYSTOP" and "unat vend div 4096 = pgno p + n" and "vend \<le> KERNBASE + PHYSTOP"
  shows "\<exists>s'. freerange_loop p vend s = Inr s' \<and> kmem_ok s' (rev (pages_from p n) @ xs) \<and> kend s' = kend s"
  using assms
proof (induction n arbitrary: p s xs)
  case 0
  have "\<not> p + PGSIZE \<le> vend"
    using 0 by (auto simp: pgno_def word_le_nat_alt unat_word_ariths pgsize_mod KERNBASE_def PHYSTOP_def elim!: dvdE)
  then show ?case using 0 by (simp add: freerange_loop.simps [of p vend s] pages_from_def)
next
  case (Suc n)
  obtain k where k: "unat p = 4096 * k" using Suc.prems(2) by (auto simp: pgsize_mod elim!: dvdE)
  have up: "unat (p + PGSIZE) = unat p + 4096"
    using Suc.prems(5) by (simp add: word_le_nat_alt unat_word_ariths KERNBASE_def PHYSTOP_def)
  have le: "p + PGSIZE \<le> vend"
    using Suc.prems(6) up k by (simp add: word_le_nat_alt pgno_def)
  have "KERNBASE \<le> p" using Suc.prems(1,3) by (auto simp: kmem_ok_def)
  then have "v2p p < PHYSTOP"
    using le up Suc.prems(7) by (simp add: v2p_def word_le_nat_alt word_less_nat_alt unat_sub KERNBASE_def PHYSTOP_def)
  then have "kpage (kend s) p" "p \<notin> set xs" using Suc.prems by (auto simp: kpage_def)
  from kfree_ok [OF Suc.prems(1) this] obtain s1 where
    s1: "kfree p s = Inr s1" "kmem_ok s1 (p # xs)" "kend s1 = kend s" by blast
  have "p < p + PGSIZE" using up by (simp add: word_less_nat_alt)
  then have "\<exists>s'. freerange_loop (p + PGSIZE) vend s1 = Inr s' \<and>
      kmem_ok s' (rev (pages_from (p + PGSIZE) n) @ p # xs) \<and> kend s' = kend s1"
    using Suc.prems s1 le up k by (intro Suc.IH) (auto simp: pgsize_mod pgno_def)
  then show ?case using s1 le by (auto simp: freerange_loop.simps [of p vend s] pages_from_Suc)
qed

text \<open>
  Boot. When the image ends at \<open>e\<close> inside the kernel's half of the address space,
  \<open>kinit1(end, P2V(PHYSTOP))\<close> does not panic and the free list it leaves is exactly the pages between
  the end of the image rounded up and the top of physical memory, the highest first, whatever
  the memory held before.
\<close>

theorem kinit1_frees_all:
  assumes "KERNBASE \<le> kend s" and "kend s \<le> p2v PHYSTOP"
  shows "\<exists>s'. kinit1 (kend s) (p2v PHYSTOP) s = Inr s' \<and>
    kmem_ok s' (rev (pages_from (pgroundup (kend s)) (unat (p2v PHYSTOP - pgroundup (kend s)) div 4096)))"
proof -
  let ?s = "s\<lparr>use_lock := 0, freelist := 0\<rparr>" and ?p = "pgroundup (kend s)"
  have e: "unat (kend s) \<le> unat (p2v PHYSTOP)" "unat (p2v PHYSTOP) = 4096 * 4503565267689472" "unat KERNBASE = 0xFFFF800000000000"
    using assms by (simp_all add: word_le_nat_alt p2v_def PHYSTOP_def KERNBASE_def)
  have u: "unat ?p = (unat (kend s) + 4095) div 4096 * 4096"
    unfolding pgroundup_def unat_and_not_mask using e by (simp add: unat_word_ariths PGSIZE_def)
  have le: "kend s \<le> ?p" "?p \<le> p2v PHYSTOP" using u e by (simp_all add: word_le_nat_alt)
  have "\<exists>s'. freerange_loop ?p (p2v PHYSTOP) ?s = Inr s' \<and>
      kmem_ok s' (rev (pages_from ?p (unat (p2v PHYSTOP - ?p) div 4096)) @ []) \<and> kend s' = kend ?s"
    using le assms u e by (intro freerange_loop_ok) (auto simp: kmem_ok_def pgsize_mod pgno_def p2v_def add.commute unat_sub)
  then show ?thesis by (auto simp: kinit1_def freerange_def)
qed

lemma ld64_zero [simp]: "ld64 (\<lambda>_. 0) a = 0"
  by (simp add: ld64_def ld32_def)

theorem kinit1_frees_all_witness:
  "\<exists>s'. kinit1 (p2v 0xDFFF123) (p2v PHYSTOP) \<lparr>pm = \<lambda>_. 0, freelist = 0, use_lock = 0, kend = p2v 0xDFFF123\<rparr> = Inr s' \<and>
    kmem_ok s' (rev (pages_from (pgroundup (p2v 0xDFFF123)) (unat (p2v PHYSTOP - pgroundup (p2v 0xDFFF123)) div 4096)))"
  using kinit1_frees_all [of "\<lparr>pm = \<lambda>_. 0, freelist = 0, use_lock = 0, kend = p2v 0xDFFF123\<rparr>"]
  by (simp add: p2v_def PHYSTOP_def KERNBASE_def)

text \<open>
  C30: Refinement. The free list in memory behaves as a stack of pages: \<open>kalloc\<close> pops, leaves memory as
  it was and panics on the empty stack; \<open>kfree\<close> pushes a page that was not free, writes no byte of
  any other page, and panics on an address that is not a page between the image and \<open>PHYSTOP\<close>.
\<close>

theorem kmem_is_stack:
  assumes "kmem_ok s xs"
  shows "(case xs of [] \<Rightarrow> kalloc s = Inl (Panic ''Out of memory!'')
      | x # ys \<Rightarrow> (\<exists>s'. kalloc s = Inr (x, s') \<and> kmem_ok s' ys \<and> pm s' = pm s \<and> kend s' = kend s)) \<and>
    (if kpage (kend s) v
     then v \<notin> set xs \<longrightarrow> (\<exists>s'. kfree v s = Inr s' \<and> kmem_ok s' (v # xs) \<and> kend s' = kend s \<and>
            (\<forall>y. pgno y \<noteq> pgno v \<longrightarrow> pm s' y = pm s y))
     else kfree v s = Inl (Panic ''kfree''))"
proof -
  have "\<exists>s'. kalloc s = Inr (x, s') \<and> kmem_ok s' ys \<and> pm s' = pm s \<and> kend s' = kend s" if "xs = x # ys" for x ys
    using kalloc_ok assms that by metis
  moreover have "kfree v s = Inl (Panic ''kfree'')" if "\<not> kpage (kend s) v"
    using that unfolding kpage_def kfree_def not_le [symmetric] by (intro if_P) (simp only: de_Morgan_conj not_not)
  moreover have "\<exists>s'. kfree v s = Inr s' \<and> kmem_ok s' (v # xs) \<and> kend s' = kend s \<and>
            (\<forall>y. pgno y \<noteq> pgno v \<longrightarrow> pm s' y = pm s y)" if "kpage (kend s) v" "v \<notin> set xs"
    using kfree_ok [OF assms that] by metis
  ultimately show ?thesis using assms kalloc_none [of s] by (cases xs) simp_all
qed

theorem kmem_is_stack_witness:
  "\<exists>s'. kalloc \<lparr>pm = \<lambda>_. 0, freelist = p2v 0x200000, use_lock = 1, kend = p2v 0x100000\<rparr> = Inr (p2v 0x200000, s') \<and> kmem_ok s' []"
  using kmem_is_stack [of "\<lparr>pm = \<lambda>_. 0, freelist = p2v 0x200000, use_lock = 1, kend = p2v 0x100000\<rparr>" "[p2v 0x200000]"]
  by (simp add: kmem_ok_def kpage_def p2v_def v2p_def PHYSTOP_def KERNBASE_def PGSIZE_def) blast

end
