(* ===== verification/Vm.thy ===== *)
theory Vm
  imports Kalloc
begin

text \<open>
  The four-level page tables of \<open>vm.c\<close>, read and written as 64-bit entries of the memory of
  \<open>Kalloc\<close>. A null pointer result is \<open>None\<close>. The loops that walk a range of addresses
  end when their counter passes the bound; where the counter can wrap around before that, the loop
  starts over and never returns, which is \<open>Diverges\<close>. \<open>switchuvm\<close> belongs to the
  scheduler and \<open>loaduvm\<close> reads a file; neither is here.
\<close>

section \<open>Entries and indices\<close>

definition PTE_P :: u64 where "PTE_P = 0x001"
definition PTE_W :: u64 where "PTE_W = 0x002"
definition PTE_U :: u64 where "PTE_U = 0x004"
definition PTE_PWT :: u64 where "PTE_PWT = 0x008"
definition PTE_PCD :: u64 where "PTE_PCD = 0x010"
definition PTE_PS :: u64 where "PTE_PS = 0x080"

definition pte_addr :: "u64 \<Rightarrow> u64" where "pte_addr pte = pte AND NOT 0xFFF"
definition pte_flags :: "u64 \<Rightarrow> u64" where "pte_flags pte = pte AND 0xFFF"

definition PXMASK :: u64 where "PXMASK = 0x1FF"
definition pmx :: "u64 \<Rightarrow> u64" where "pmx va = drop_bit 39 va AND PXMASK"
definition pdpx :: "u64 \<Rightarrow> u64" where "pdpx va = drop_bit 30 va AND PXMASK"
definition pdx :: "u64 \<Rightarrow> u64" where "pdx va = drop_bit 21 va AND PXMASK"
definition ptx :: "u64 \<Rightarrow> u64" where "ptx va = drop_bit 12 va AND PXMASK"

definition NPDENTRIES :: nat where "NPDENTRIES = 512"

text \<open>\<open>&t[i]\<close> of a table of 64-bit entries.\<close>

definition entry :: "u64 \<Rightarrow> u64 \<Rightarrow> u64" where
  "entry t i = t + 8 * i"

section \<open>Kernel page table\<close>

definition setupkvm :: "u64 \<Rightarrow> memst \<Rightarrow> (u64 \<times> memst) res" where
  "setupkvm kpdpt s =
     rbind (kalloc s) (\<lambda>(pml4, s).
     let s = s\<lparr>pm := memset pml4 0 PGSIZE (pm s)\<rparr>;
         s = s\<lparr>pm := st64 (entry pml4 256) (v2p kpdpt OR PTE_P OR PTE_W) (pm s)\<rparr>
     in Inr (pml4, s))"

text \<open>\<open>kvmalloc\<close> returns \<open>kpml4\<close>, \<open>kpdpt\<close> and what \<open>switchkvm\<close> loads into \<open>cr3\<close>.\<close>

definition switchkvm :: "u64 \<Rightarrow> u64" where
  "switchkvm kpml4 = v2p kpml4"

definition kvmalloc :: "memst \<Rightarrow> (u64 \<times> u64 \<times> u64 \<times> memst) res" where
  "kvmalloc s =
     rbind (kalloc s) (\<lambda>(kpml4, s).
     let s = s\<lparr>pm := memset kpml4 0 PGSIZE (pm s)\<rparr> in
     rbind (kalloc s) (\<lambda>(kpdpt, s).
     let s = s\<lparr>pm := memset kpdpt 0 PGSIZE (pm s)\<rparr>;
         s = s\<lparr>pm := st64 (entry kpml4 (pmx KERNBASE)) (v2p kpdpt OR PTE_P OR PTE_W) (pm s)\<rparr>;
         s = s\<lparr>pm := st64 (entry kpdpt 0) (0 OR PTE_PS OR PTE_P OR PTE_W) (pm s)\<rparr>;
         s = s\<lparr>pm := st64 (entry kpdpt 3) (0xC0000000 OR PTE_PS OR PTE_P OR PTE_W OR PTE_PWT OR PTE_PCD) (pm s)\<rparr>
     in Inr (kpml4, kpdpt, switchkvm kpml4, s)))"

section \<open>Walking and mapping\<close>

text \<open>One level of \<open>walkpgdir\<close>: the table an entry points to, created if asked for.\<close>

definition walk_level :: "u64 \<Rightarrow> bool \<Rightarrow> memst \<Rightarrow> (u64 option \<times> memst) res" where
  "walk_level e alloc s =
     (if ld64 (pm s) e AND PTE_P \<noteq> 0 then Inr (Some (p2v (pte_addr (ld64 (pm s) e))), s)
      else if \<not> alloc then Inr (None, s)
      else rbind (kalloc s) (\<lambda>(t, s).
        if t = 0 then Inr (None, s)
        else let s = s\<lparr>pm := memset t 0 PGSIZE (pm s)\<rparr>
             in Inr (Some t, s\<lparr>pm := st64 e (v2p t OR PTE_P OR PTE_W OR PTE_U) (pm s)\<rparr>)))"

definition walkpgdir :: "u64 \<Rightarrow> u64 \<Rightarrow> bool \<Rightarrow> memst \<Rightarrow> (u64 option \<times> memst) res" where
  "walkpgdir pml4 va alloc s =
     rbind (walk_level (entry pml4 (pmx va)) alloc s) (\<lambda>(pdp, s). case pdp of None \<Rightarrow> Inr (None, s) | Some pdp \<Rightarrow>
     rbind (walk_level (entry pdp (pdpx va)) alloc s) (\<lambda>(pd, s). case pd of None \<Rightarrow> Inr (None, s) | Some pd \<Rightarrow>
     rbind (walk_level (entry pd (pdx va)) alloc s) (\<lambda>(pgtab, s). case pgtab of None \<Rightarrow> Inr (None, s) | Some pgtab \<Rightarrow>
     Inr (Some (entry pgtab (ptx va)), s))))"

fun mappages_loop :: "nat \<Rightarrow> u64 \<Rightarrow> u64 \<Rightarrow> u64 \<Rightarrow> u64 \<Rightarrow> int \<Rightarrow> memst \<Rightarrow> (int \<times> memst) res" where
  "mappages_loop 0 pgd a last_a pa perm s = Inl Diverges"
| "mappages_loop (Suc n) pgd a last_a pa perm s =
     rbind (walkpgdir pgd a True s) (\<lambda>(pte, s). case pte of None \<Rightarrow> Inr (-1, s) | Some pte \<Rightarrow>
       if ld64 (pm s) pte AND PTE_P \<noteq> 0 then Inl (Panic ''remap'')
       else let s = s\<lparr>pm := st64 pte (pa OR word_of_int perm OR PTE_P) (pm s)\<rparr> in
         if a = last_a then Inr (0, s)
         else mappages_loop n pgd (a + PGSIZE) last_a (pa + PGSIZE) perm s)"

text \<open>The number of pages from \<open>a\<close> up to \<open>last\<close> bounds the iterations, see \<open>mappages_returns\<close>.\<close>

definition mappages :: "u64 \<Rightarrow> u64 \<Rightarrow> u64 \<Rightarrow> u64 \<Rightarrow> int \<Rightarrow> memst \<Rightarrow> (int \<times> memst) res" where
  "mappages pgd va n pa perm s =
     (let a = pgrounddown va; last_a = pgrounddown (va + n - 1)
      in mappages_loop (Suc (unat (last_a - a) div 4096)) pgd a last_a pa perm s)"

definition inituvm :: "u64 \<Rightarrow> u64 \<Rightarrow> u32 \<Rightarrow> memst \<Rightarrow> memst res" where
  "inituvm pgd init n s =
     (if n \<ge> 4096 then Inl (Panic ''inituvm: more than a page'')
      else rbind (kalloc s) (\<lambda>(mem, s).
        let s = s\<lparr>pm := memset mem 0 PGSIZE (pm s)\<rparr> in
        rbind (mappages pgd PGSIZE PGSIZE (v2p mem) 6 s) (\<lambda>(_, s).
        Inr (s\<lparr>pm := memmove mem init n (pm s)\<rparr>))))"

section \<open>Growing, shrinking and freeing\<close>

lemma page_up: "unat a + 4096 < 2 ^ 64 \<Longrightarrow> unat (a + PGSIZE) = unat a + 4096"
  by (simp add: unat_word_ariths)

lemma page_up_nowrap: "\<not> a + PGSIZE < a \<Longrightarrow> unat (a + PGSIZE) = unat a + 4096"
  using no_olen_add_nat [of a PGSIZE] by (simp add: not_less page_up)

function dealloc_loop :: "u64 \<Rightarrow> u64 \<Rightarrow> u64 \<Rightarrow> memst \<Rightarrow> memst res" where
  "dealloc_loop pgd a oldsz s =
     (if a < oldsz then
        rbind (walkpgdir pgd a False s) (\<lambda>(pte, s).
        rbind (case pte of
            None \<Rightarrow> Inr s
          | Some pte \<Rightarrow>
              if ld64 (pm s) pte AND PTE_P \<noteq> 0 then
                let pa = pte_addr (ld64 (pm s) pte) in
                if pa = 0 then Inl (Panic ''kfree'')
                else rbind (kfree (p2v pa) s) (\<lambda>s. Inr (s\<lparr>pm := st64 pte 0 (pm s)\<rparr>))
              else Inr s) (\<lambda>s.
        if a + PGSIZE < a then Inl Diverges else dealloc_loop pgd (a + PGSIZE) oldsz s))
      else Inr s)"
  by pat_completeness auto

termination
proof (relation "measure (\<lambda>(_, a, _, _). 2 ^ 64 - unat a)", goal_cases)
  case (2 pgd a oldsz s)
  then show ?case using unsigned_less [of a, where ?'a = nat] page_up_nowrap [of a] by simp
qed simp

declare dealloc_loop.simps [simp del]

definition deallocuvm :: "u64 \<Rightarrow> u64 \<Rightarrow> u64 \<Rightarrow> memst \<Rightarrow> (u64 \<times> memst) res" where
  "deallocuvm pgd oldsz newsz s =
     (if newsz \<ge> oldsz then Inr (oldsz, s)
      else rbind (dealloc_loop pgd (pgroundup newsz) oldsz s) (\<lambda>s. Inr (newsz, s)))"

text \<open>The loop of \<open>allocuvm\<close>, which has checked that \<open>newsz\<close> lies below \<open>KERNBASE\<close>.\<close>

function alloc_loop :: "u64 \<Rightarrow> u64 \<Rightarrow> u64 \<Rightarrow> u64 \<Rightarrow> memst \<Rightarrow> (u64 \<times> memst) res" where
  "alloc_loop pgd a oldsz newsz s =
     (if a < newsz \<and> newsz < KERNBASE then
        rbind (kalloc s) (\<lambda>(mem, s).
        if mem = 0 then rbind (deallocuvm pgd newsz oldsz s) (\<lambda>(_, s). Inr (0, s))
        else let s = s\<lparr>pm := memset mem 0 PGSIZE (pm s)\<rparr> in
          rbind (mappages pgd a PGSIZE (v2p mem) 6 s) (\<lambda>(r, s).
          if r < 0 then rbind (deallocuvm pgd newsz oldsz s) (\<lambda>(_, s). rbind (kfree mem s) (\<lambda>s. Inr (0, s)))
          else alloc_loop pgd (a + PGSIZE) oldsz newsz s))
      else Inr (newsz, s))"
  by pat_completeness auto

termination
proof (relation "measure (\<lambda>(_, a, _, _, _). 2 ^ 64 - unat a)", goal_cases)
  case (2 pgd a oldsz newsz s)
  then show ?case using page_up [of a] by (elim conjE) (simp add: word_less_nat_alt KERNBASE_def)
qed simp

declare alloc_loop.simps [simp del]

definition allocuvm :: "u64 \<Rightarrow> u64 \<Rightarrow> u64 \<Rightarrow> memst \<Rightarrow> (u64 \<times> memst) res" where
  "allocuvm pgd oldsz newsz s =
     (if newsz \<ge> KERNBASE then Inr (0, s)
      else if newsz < oldsz then Inr (oldsz, s)
      else alloc_loop pgd (pgroundup oldsz) oldsz newsz s)"

text \<open>The four nested loops of \<open>freevm\<close>, the innermost first.\<close>

definition present :: "memst \<Rightarrow> u64 \<Rightarrow> nat \<Rightarrow> bool" where
  "present s t i \<longleftrightarrow> ld64 (pm s) (entry t (of_nat i)) AND PTE_P \<noteq> 0"

definition table_of :: "memst \<Rightarrow> u64 \<Rightarrow> nat \<Rightarrow> u64" where
  "table_of s t i = p2v (pte_addr (ld64 (pm s) (entry t (of_nat i))))"

definition free_pt :: "u64 \<Rightarrow> memst \<Rightarrow> memst res" where
  "free_pt pt s = rbind (for_range 0 NPDENTRIES (\<lambda>l s.
       if present s pt l then kfree (table_of s pt l) s else Inr s) s) (kfree pt)"

definition free_pd :: "u64 \<Rightarrow> memst \<Rightarrow> memst res" where
  "free_pd pd s = rbind (for_range 0 NPDENTRIES (\<lambda>k s.
       if present s pd k then free_pt (table_of s pd k) s else Inr s) s) (kfree pd)"

definition free_pdp :: "u64 \<Rightarrow> memst \<Rightarrow> memst res" where
  "free_pdp pdp s = rbind (for_range 0 NPDENTRIES (\<lambda>j s.
       if present s pdp j then free_pd (table_of s pdp j) s else Inr s) s) (kfree pdp)"

definition freevm :: "u64 \<Rightarrow> memst \<Rightarrow> memst res" where
  "freevm pml4 s =
     (if pml4 = 0 then Inl (Panic ''freevm: no pgd'')
      else rbind (for_range 0 (NPDENTRIES div 2) (\<lambda>i s.
        if present s pml4 i then free_pdp (table_of s pml4 i) s else Inr s) s) (kfree pml4))"

definition clearpteu :: "u64 \<Rightarrow> u64 \<Rightarrow> memst \<Rightarrow> memst res" where
  "clearpteu pgd uva s =
     rbind (walkpgdir pgd uva False s) (\<lambda>(pte, s). case pte of
         None \<Rightarrow> Inl (Panic ''clearpteu'')
       | Some pte \<Rightarrow> Inr (s\<lparr>pm := st64 pte (ld64 (pm s) pte AND NOT PTE_U) (pm s)\<rparr>))"

section \<open>Copying an address space\<close>

text \<open>\<open>flags\<close> is passed as \<open>mappages\<close>' \<open>int perm\<close>.\<close>

definition perm_of :: "u64 \<Rightarrow> int" where
  "perm_of flags = sint (ucast flags :: u32)"

function copy_loop :: "u64 \<Rightarrow> u64 \<Rightarrow> u64 \<Rightarrow> u32 \<Rightarrow> memst \<Rightarrow> (u64 option \<times> memst) res" where
  "copy_loop pgd d i n s =
     (if i < ucast n then
        rbind (walkpgdir pgd i False s) (\<lambda>(pte, s). case pte of
            None \<Rightarrow> Inl (Panic ''copyuvm: pte should exist'')
          | Some pte \<Rightarrow>
            if ld64 (pm s) pte AND PTE_P = 0 then Inl (Panic ''copyuvm: page not present'')
            else let pa = pte_addr (ld64 (pm s) pte); flags = pte_flags (ld64 (pm s) pte) in
              rbind (kalloc s) (\<lambda>(mem, s).
              if mem = 0 then rbind (freevm d s) (\<lambda>s. Inr (None, s))
              else let s = s\<lparr>pm := memmove mem (p2v pa) 4096 (pm s)\<rparr> in
                rbind (mappages d i PGSIZE (v2p mem) (perm_of flags) s) (\<lambda>(r, s).
                if r < 0 then rbind (freevm d s) (\<lambda>s. Inr (None, s))
                else copy_loop pgd d (i + PGSIZE) n s)))
      else Inr (Some d, s))"
  by pat_completeness auto

termination
proof (relation "measure (\<lambda>(_, _, i, _, _). 2 ^ 64 - unat i)", goal_cases)
  case (2 pgd d i n s)
  have "unat (ucast n :: u64) < 2 ^ 32"
    using unsigned_less [of n, where ?'a = nat] by (simp add: unsigned_ucast_eq take_bit_eq_mod)
  with 2 show ?case using page_up [of i] by (simp add: word_less_nat_alt)
qed simp

declare copy_loop.simps [simp del]

definition copyuvm :: "u64 \<Rightarrow> u64 \<Rightarrow> u32 \<Rightarrow> memst \<Rightarrow> (u64 option \<times> memst) res" where
  "copyuvm kpdpt pgd n s =
     rbind (setupkvm kpdpt s) (\<lambda>(d, s). if d = 0 then Inr (None, s) else copy_loop pgd d PGSIZE n s)"

definition uva2ka :: "u64 \<Rightarrow> u64 \<Rightarrow> memst \<Rightarrow> (u64 option) res" where
  "uva2ka pgd uva s =
     rbind (walkpgdir pgd uva False s) (\<lambda>(pte, s). case pte of
         None \<Rightarrow> Inl NullPointer
       | Some pte \<Rightarrow>
         if ld64 (pm s) pte AND PTE_P = 0 then Inr None
         else if ld64 (pm s) pte AND PTE_U = 0 then Inr None
         else Inr (Some (p2v (pte_addr (ld64 (pm s) pte)))))"

lemma pgrounddown_off: "unat (va - pgrounddown va) < 4096"
proof -
  have "unat (pgrounddown va) = unat va div 4096 * 4096"
    unfolding pgrounddown_def by (rule unat_and_not_mask)
  moreover have "unat va - unat va div 4096 * 4096 = unat va mod 4096"
    by (simp add: minus_div_mult_eq_mod)
  moreover have "unat va div 4096 * 4096 \<le> unat va" by simp
  ultimately show ?thesis by (simp add: unat_sub word_le_nat_alt)
qed

text \<open>Bytes stored at consecutive addresses, and those read back from there.\<close>

fun put_bytes :: "u64 \<Rightarrow> u8 list \<Rightarrow> mem \<Rightarrow> mem" where
  "put_bytes a [] m = m"
| "put_bytes a (b # bs) m = put_bytes (a + 1) bs (m(a := b))"

definition get_bytes :: "mem \<Rightarrow> u64 \<Rightarrow> nat \<Rightarrow> u8 list" where
  "get_bytes m a n = map (\<lambda>i. m (a + word_of_nat i)) [0..<n]"

lemma copyout_step: "0 < unat (PGSIZE - (va - pgrounddown va))"
  using pgrounddown_off [of va] by (simp add: unat_sub word_le_nat_alt)

text \<open>
  \<open>bs\<close> are the \<open>len\<close> bytes at \<open>buf\<close>, kernel or old user memory that the pages of
  \<open>pgd\<close> do not share.
\<close>

function copyout :: "u64 \<Rightarrow> u64 \<Rightarrow> u8 list \<Rightarrow> memst \<Rightarrow> (int \<times> memst) res" where
  "copyout pgd va bs s =
     (if bs \<noteq> [] then
        let va0 = pgrounddown va in
        rbind (uva2ka pgd va0 s) (\<lambda>pa0. case pa0 of
            None \<Rightarrow> Inr (-1, s)
          | Some pa0 \<Rightarrow>
            let n = unat (PGSIZE - (va - va0)); n = (if n > length bs then length bs else n);
                s = s\<lparr>pm := put_bytes (pa0 + (va - va0)) (take n bs) (pm s)\<rparr>
            in copyout pgd (va0 + PGSIZE) (drop n bs) s)
      else Inr (0, s))"
  by pat_completeness auto

termination
  by (relation "measure (\<lambda>(_, _, bs, _). length bs)") (use copyout_step in auto)

declare copyout.simps [simp del]

end
