(* ===== verification/Pagetable.thy ===== *)
theory Pagetable
  imports Vm
begin

text \<open>
  What the page tables of \<open>Vm\<close> mean: the user half of a page table is a tree of table pages
  disjoint from the free list, \<open>pte_of\<close> reads the entry of an address from it, and
  \<open>mappages\<close> changes exactly the entries of the range it maps.
\<close>

unbundle bit_operations_syntax

section \<open>Arithmetic of entries\<close>

lemma pte_table:
  assumes "t mod PGSIZE = 0"
  shows "(v2p t OR PTE_P OR PTE_W OR PTE_U) AND PTE_P \<noteq> 0"
    and "p2v (pte_addr (v2p t OR PTE_P OR PTE_W OR PTE_U)) = t"
proof -
  have "unat (v2p t) mod 4096 = 0"
  proof -
    obtain k where k: "unat t = 4096 * k" using assms by (auto simp: pgsize_mod elim!: dvdE)
    have "unat t < 2 ^ 64" using unsigned_less [of t, where ?'a = nat] by simp
    then show ?thesis using k by (auto simp: v2p_def KERNBASE_def unat_sub_if')
  qed
  then have "take_bit 12 (v2p t) = 0"
    by (simp add: word_unat_eq_iff take_bit_eq_mod unat_mod)
  then have low: "\<not> bit (v2p t) n" if "n < 12" for n
    using that by (metis bit_take_bit_iff bit_0_eq bot_apply bot_bool_def)
  have seven: "PTE_P OR PTE_W OR PTE_U = mask 3"
    by (simp add: PTE_P_def PTE_W_def PTE_U_def mask_eq_exp_minus_1)
  have not12: "NOT (0xFFF :: u64) = NOT (mask 12)" by (simp add: mask_eq_exp_minus_1)
  have "bit ((v2p t OR mask 3) AND 1) 0" by (simp add: bit_simps)
  then show "(v2p t OR PTE_P OR PTE_W OR PTE_U) AND PTE_P \<noteq> 0"
    unfolding or.assoc seven by (auto simp: PTE_P_def)
  have "(v2p t OR mask 3) AND NOT (mask 12) = v2p t"
  proof (rule bit_eqI)
    fix n show "bit ((v2p t OR mask 3) AND NOT (mask 12)) n \<longleftrightarrow> bit (v2p t) n"
      using low [of n] bit_imp_le_length [of "v2p t" n] by (cases "n < 12") (auto simp: bit_simps)
  qed
  then show "p2v (pte_addr (v2p t OR PTE_P OR PTE_W OR PTE_U)) = t"
    unfolding or.assoc seven pte_addr_def not12 by simp
qed

lemma entry_unat: "t mod PGSIZE = 0 \<Longrightarrow> i < 512 \<Longrightarrow> unat (entry t i) = unat t + 8 * unat i"
proof -
  assume "t mod PGSIZE = 0" and i: "i < 512"
  then obtain k where k: "unat t = 4096 * k" by (auto simp: pgsize_mod elim!: dvdE)
  have "unat t < 2 ^ 64" using unsigned_less [of t, where ?'a = nat] by simp
  with k have "unat t + 4095 < 2 ^ 64" by simp
  with i show ?thesis by (simp add: entry_def unat_word_ariths word_less_nat_alt)
qed

lemma entry_al8: "t mod PGSIZE = 0 \<Longrightarrow> i < 512 \<Longrightarrow> al8 (entry t i)"
  using al8_page [of t] by (auto simp: al8_def entry_unat)

lemma entry_pgno: "t mod PGSIZE = 0 \<Longrightarrow> i < 512 \<Longrightarrow> pgno (entry t i) = pgno t"
proof -
  assume a: "t mod PGSIZE = 0" "i < 512"
  then obtain k where "unat t = 4096 * k" by (auto simp: pgsize_mod elim!: dvdE)
  with entry_unat [OF a] a(2) show ?thesis by (simp add: pgno_def word_less_nat_alt)
qed

lemma entry_inj:
  assumes "t mod PGSIZE = 0" "i < 512" "u mod PGSIZE = 0" "j < 512" "entry t i = entry u j"
  shows "t = u \<and> i = j"
proof -
  have "t = u" using assms entry_pgno pgno_inj by metis
  moreover from this have "8 * unat i = 8 * unat j" using assms entry_unat by (metis add_left_cancel)
  ultimately show ?thesis by (simp add: word_unat_eq_iff)
qed

lemma unat_index: "unat (x AND PXMASK) = unat x mod 512"
proof -
  have "PXMASK = mask 9" by (simp add: PXMASK_def mask_eq_exp_minus_1)
  then have "x AND PXMASK = take_bit 9 x" by (simp only: take_bit_eq_mask)
  then have "x AND PXMASK = x mod 512" by (simp add: take_bit_eq_mod)
  then show ?thesis by (simp add: unat_mod)
qed

lemma index_less: "pmx va < 512" "pdpx va < 512" "pdx va < 512" "ptx va < 512"
proof -
  have "x AND PXMASK < 512" for x :: u64
    by (simp add: unat_index word_less_nat_alt)
  then show "pmx va < 512" "pdpx va < 512" "pdx va < 512" "ptx va < 512"
    by (simp_all add: pmx_def pdpx_def pdx_def ptx_def)
qed

section \<open>The tree of tables\<close>

definition table_at :: "mem \<Rightarrow> u64 \<Rightarrow> u64 option" where
  "table_at m e = (if ld64 m e AND PTE_P \<noteq> 0 then Some (p2v (pte_addr (ld64 m e))) else None)"

fun table :: "mem \<Rightarrow> u64 \<Rightarrow> u64 list \<Rightarrow> u64 option" where
  "table m t [] = Some t"
| "table m t (i # p) = (case table_at m (entry t i) of None \<Rightarrow> None | Some u \<Rightarrow> table m u p)"

lemma table_append: "table m t (p @ q) = (case table m t p of None \<Rightarrow> None | Some u \<Rightarrow> table m u q)"
  by (induction p arbitrary: t) (auto split: option.split)

text \<open>Paths to the tables of the user half: at most three indices, the first below 256.\<close>

definition upath :: "u64 list \<Rightarrow> bool" where
  "upath p \<longleftrightarrow> length p \<le> 3 \<and> (\<forall>i\<in>set p. i < 512) \<and> (case p of [] \<Rightarrow> True | i # _ \<Rightarrow> i < 256)"

definition tree :: "mem \<Rightarrow> u64 \<Rightarrow> u64 list \<Rightarrow> bool" where
  "tree m root fr \<longleftrightarrow>
     (\<forall>p t. upath p \<longrightarrow> table m root p = Some t \<longrightarrow> t mod PGSIZE = 0 \<and> t \<notin> set fr) \<and>
     (\<forall>p q t. upath p \<longrightarrow> upath q \<longrightarrow> table m root p = Some t \<longrightarrow> table m root q = Some t \<longrightarrow> p = q)"

lemma upath_append: "upath (p @ q) \<Longrightarrow> upath p"
  by (auto simp: upath_def split: list.splits)

lemma upath_snoc: "upath (p @ [i]) \<Longrightarrow> upath p \<and> i < 512"
  using upath_append [of p "[i]"] by (simp add: upath_def)

lemma treeD:
  assumes "tree m root fr" and "upath p" and "table m root p = Some t"
  shows "t mod PGSIZE = 0" and "t \<notin> set fr"
  using assms by (auto simp: tree_def)

lemma tree_inj:
  "tree m root fr \<Longrightarrow> upath p \<Longrightarrow> upath q \<Longrightarrow> table m root p = Some t \<Longrightarrow> table m root q = Some t \<Longrightarrow> p = q"
  by (auto simp: tree_def)

text \<open>A path keeps its tables when the memory change touches none of the entries on the way.\<close>

lemma table_frame:
  assumes "\<And>p' i p'' t. p = p' @ i # p'' \<Longrightarrow> table m root p' = Some t \<Longrightarrow> ld64 m' (entry t i) = ld64 m (entry t i)"
  shows "table m' root p = table m root p"
  using assms
proof (induction p rule: rev_induct)
  case (snoc i p)
  have "table m' root p = table m root p"
    by (rule snoc.IH) (use snoc.prems in auto)
  moreover have "ld64 m' (entry t i) = ld64 m (entry t i)" if "table m root p = Some t" for t
    using snoc.prems [of p i "[]"] that by simp
  ultimately show ?case by (auto simp: table_append table_at_def split: option.split)
qed simp

text \<open>
  Linking a fresh zeroed page \<open>x\<close> at an absent entry adds exactly one table to the tree.
\<close>

definition link :: "u64 \<Rightarrow> u64 \<Rightarrow> mem \<Rightarrow> mem" where
  "link e x m = st64 e (v2p x OR PTE_P OR PTE_W OR PTE_U) (memset x 0 PGSIZE m)"

lemma ld64_memset_zero: "x mod PGSIZE = 0 \<Longrightarrow> i < 512 \<Longrightarrow> ld64 (memset x 0 PGSIZE m) (entry x i) = 0"
proof -
  assume a: "x mod PGSIZE = 0" "i < 512"
  have "ld64 (memset x 0 PGSIZE m) (entry x i) = ld64 (\<lambda>_. 0) (entry x i)"
    by (rule ld64_other_page [OF entry_al8 [OF a]]) (simp add: memset_page a entry_pgno)
  then show ?thesis by simp
qed

lemma ld64_memset_other: "x mod PGSIZE = 0 \<Longrightarrow> al8 a \<Longrightarrow> pgno a \<noteq> pgno x \<Longrightarrow> ld64 (memset x c PGSIZE m) a = ld64 m a"
  by (rule ld64_other_page) (simp_all add: memset_page)

definition linkable :: "mem \<Rightarrow> u64 \<Rightarrow> u64 \<Rightarrow> u64 list \<Rightarrow> u64 list \<Rightarrow> u64 \<Rightarrow> u64 \<Rightarrow> bool" where
  "linkable m root x fr p t i \<longleftrightarrow> tree m root (x # fr) \<and> x mod PGSIZE = 0 \<and> upath (p @ [i]) \<and>
     table m root p = Some t \<and> table_at m (entry t i) = None"

lemma linkableD:
  assumes "linkable m root x fr p t i"
  shows "tree m root (x # fr)" "x mod PGSIZE = 0" "upath (p @ [i])" "upath p" "i < 512" "table m root p = Some t"
    "t mod PGSIZE = 0" "t \<noteq> x"
proof -
  show l: "tree m root (x # fr)" "x mod PGSIZE = 0" "upath (p @ [i])" "table m root p = Some t"
    using assms unfolding linkable_def by blast+
  then show "upath p" "i < 512" using upath_snoc by blast+
  then show "t mod PGSIZE = 0" "t \<noteq> x" using treeD [OF l(1) _ l(4)] by auto
qed

lemma link_other:
  assumes L: "linkable m root x fr p t i" and q: "upath q" "j < 512" "table m root q = Some u" and "q \<noteq> p \<or> j \<noteq> i"
  shows "ld64 (link (entry t i) x m) (entry u j) = ld64 m (entry u j)"
proof -
  note l = linkableD [OF L]
  note a = treeD(1) [OF l(1) q(1,3)]
  have "u \<noteq> x" using treeD(2) [OF l(1) q(1,3)] by auto
  then have "pgno (entry u j) \<noteq> pgno x" using a q l pgno_inj entry_pgno by metis
  moreover have "entry u j \<noteq> entry t i"
    using entry_inj [of u j t i] a q l tree_inj [OF l(1) q(1) l(4)] assms(5) by blast
  ultimately show ?thesis
    using a q l by (simp add: link_def ld64_st64_other ld64_memset_other entry_al8)
qed

lemma link_new: "x mod PGSIZE = 0 \<Longrightarrow> table_at (link e x m) e = Some x"
  using pte_table [of x] by (simp add: table_at_def link_def)

lemma link_fresh:
  assumes "linkable m root x fr p t i" and "j < 512"
  shows "ld64 (link (entry t i) x m) (entry x j) = 0"
proof -
  note l = linkableD [OF assms(1)]
  then have "entry x j \<noteq> entry t i" using entry_inj [of x j t i] assms(2) by auto
  then show ?thesis
    using l assms(2) by (simp add: link_def ld64_st64_other entry_al8 ld64_memset_zero)
qed

lemma link_table_old:
  assumes L: "linkable m root x fr p t i" and "upath q" and "\<not> (\<exists>r. q = p @ i # r)"
  shows "table (link (entry t i) x m) root q = table m root q"
proof (rule table_frame)
  fix q' j q'' u assume q: "q = q' @ j # q''" "table m root q' = Some u"
  have "upath q' \<and> j < 512" using assms(2) q(1) upath_append [of "q' @ [j]" q''] upath_snoc by simp
  moreover have "q' \<noteq> p \<or> j \<noteq> i" using assms(3) q(1) by auto
  ultimately show "ld64 (link (entry t i) x m) (entry u j) = ld64 m (entry u j)"
    using link_other [OF L] q(2) by blast
qed

lemma link_table:
  assumes L: "linkable m root x fr p t i" and "upath q"
  shows "table (link (entry t i) x m) root q =
    (if q = p @ [i] then Some x else if \<exists>r. q = p @ i # r then None else table m root q)"
proof (cases "\<exists>r. q = p @ i # r")
  case True
  then obtain r where r: "q = p @ i # r" by blast
  note l = linkableD [OF L]
  have tp: "table (link (entry t i) x m) root p = Some t" using link_table_old [OF L l(4)] l(6) by auto
  show ?thesis
  proof (cases r)
    case Nil
    then show ?thesis using r tp link_new [OF l(2)] by (simp add: table_append)
  next
    case (Cons j r')
    then have "j < 512" using assms r by (auto simp: upath_def)
    then show ?thesis using r Cons tp link_new [OF l(2)] link_fresh [OF L] by (simp add: table_append table_at_def)
  qed
qed (use link_table_old [OF L assms(2)] in auto)

lemma link_tree:
  assumes L: "linkable m root x fr p t i" and "x \<notin> set fr"
  shows "tree (link (entry t i) x m) root fr"
proof -
  let ?m = "link (entry t i) x m"
  note l = linkableD [OF L]
  have old: "u mod PGSIZE = 0 \<and> u \<noteq> x \<and> u \<notin> set fr" if "upath q" "table m root q = Some u" for q u
    using treeD [OF l(1) that] by auto
  have one: "u mod PGSIZE = 0 \<and> u \<notin> set fr" if "upath q" "table ?m root q = Some u" for q u
    using that link_table [OF L that(1)] old l(2) assms(2) by (auto split: if_splits)
  have two: "q = r" if "upath q" "upath r" "table ?m root q = Some u" "table ?m root r = Some u" for q r u
    using that link_table [OF L that(1)] link_table [OF L that(2)] old tree_inj [OF l(1) that(1,2)]
    by (auto split: if_splits)
  show ?thesis unfolding tree_def using one two by blast
qed

section \<open>Walking with allocation\<close>

definition vm_ok :: "memst \<Rightarrow> u64 \<Rightarrow> u64 list \<Rightarrow> bool" where
  "vm_ok s root xs \<longleftrightarrow> kmem_ok s xs \<and> tree (pm s) root xs"

text \<open>The page table entry of an address, 0 where there is no table for it.\<close>

definition idx :: "u64 \<Rightarrow> u64 list" where
  "idx va = [pmx va, pdpx va, pdx va]"

definition pte_of :: "mem \<Rightarrow> u64 \<Rightarrow> u64 \<Rightarrow> u64" where
  "pte_of m root va = (case table m root (idx va) of None \<Rightarrow> 0 | Some t \<Rightarrow> ld64 m (entry t (ptx va)))"

definition user_va :: "u64 \<Rightarrow> bool" where
  "user_va va \<longleftrightarrow> unat va < 2 ^ 47"

lemma index_unat:
  "unat (pmx va) = pgno va div 512 div 512 div 512 mod 512" "unat (pdpx va) = pgno va div 512 div 512 mod 512"
  "unat (pdx va) = pgno va div 512 mod 512" "unat (ptx va) = pgno va mod 512"
  by (simp_all add: pmx_def pdpx_def pdx_def ptx_def unat_index unat_div drop_bit_eq_div pgno_def
      flip: div_mult2_eq)

lemma idx_upath: "user_va va \<Longrightarrow> upath (idx va)"
proof -
  assume "user_va va"
  then have "pgno va div 512 div 512 div 512 < 256" by (simp add: user_va_def pgno_def div_less_iff_less_mult flip: div_mult2_eq)
  then have "pmx va < 256" by (simp add: word_less_nat_alt index_unat)
  then show ?thesis using index_less [of va] by (simp add: upath_def idx_def)
qed

lemma idx_pgno:
  assumes "user_va va" "user_va vb"
  shows "idx va = idx vb \<and> ptx va = ptx vb \<longleftrightarrow> pgno va = pgno vb"
proof
  assume "idx va = idx vb \<and> ptx va = ptx vb"
  then have e: "pgno va div 512 div 512 div 512 mod 512 = pgno vb div 512 div 512 div 512 mod 512"
      "pgno va div 512 div 512 mod 512 = pgno vb div 512 div 512 mod 512"
      "pgno va div 512 mod 512 = pgno vb div 512 mod 512" "pgno va mod 512 = pgno vb mod 512"
    by (simp_all add: idx_def flip: index_unat)
  have "pgno v div 512 div 512 div 512 < 512" if "user_va v" for v
    using that by (simp add: user_va_def pgno_def div_less_iff_less_mult flip: div_mult2_eq)
  with e(1) assms have "pgno va div 512 div 512 div 512 = pgno vb div 512 div 512 div 512" by simp
  with e show "pgno va = pgno vb" by (metis div_mult_mod_eq)
next
  assume "pgno va = pgno vb"
  then show "idx va = idx vb \<and> ptx va = ptx vb"
    by (simp add: idx_def word_unat_eq_iff index_unat)
qed

lemma link_frame:
  "linkable m root x fr p t i \<Longrightarrow> pgno y \<noteq> pgno x \<Longrightarrow> pgno y \<noteq> pgno t \<Longrightarrow> link (entry t i) x m y = m y"
  using linkableD [of m root x fr p t i] by (simp add: link_def st64_other_page entry_al8 entry_pgno memset_page)

lemma link_kmem_ok:
  assumes ok: "kmem_ok s (x # fr)" and L: "linkable (pm s) root x fr p t i"
  shows "kmem_ok (s\<lparr>freelist := ld64 (pm s) x, pm := link (entry t i) x (pm s)\<rparr>) fr"
proof -
  note l = linkableD [OF L]
  have fr: "\<forall>z\<in>set fr. z mod PGSIZE = 0" using ok by (simp add: kmem_ok_def kpage_def)
  have ne: "z \<noteq> x \<and> z \<noteq> t" if "z \<in> set fr" for z
    using that ok treeD(2) [OF l(1,4,6)] by (auto simp: kmem_ok_def)
  have "chain (link (entry t i) x (pm s)) q fr = chain (pm s) q fr" for q
  proof (rule chain_other_page [OF fr])
    fix z y assume z: "z \<in> set fr" "pgno y = pgno z"
    then have "pgno y \<noteq> pgno x" "pgno y \<noteq> pgno t"
      using pgno_inj [of z x] pgno_inj [of z t] ne [OF z(1)] fr l(2,7) by auto
    then show "link (entry t i) x (pm s) y = pm s y" by (rule link_frame [OF L])
  qed
  then show ?thesis using ok by (simp add: kmem_ok_def)
qed

lemma link_pte_of:
  assumes L: "linkable m root x fr p t i" and "user_va va"
  shows "pte_of (link (entry t i) x m) root va = pte_of m root va"
proof -
  note up = idx_upath [OF assms(2)] and l = linkableD [OF L]
  have len: "length p < 3" using l(3) by (simp add: upath_def)
  have none: "table m root (idx va) = None" if "idx va = p @ i # r" for r
    using that L by (simp add: table_append linkable_def)
  show ?thesis
  proof (cases "\<exists>r. idx va = p @ i # r")
    case True
    then show ?thesis
      using link_table [OF L up] none link_fresh [OF L index_less(4)] by (auto simp: pte_of_def)
  next
    case False
    have "idx va \<noteq> p" using len by (auto simp: idx_def)
    then show ?thesis
      using link_table_old [OF L up False] link_other [OF L up index_less(4)]
      by (auto simp: pte_of_def split: option.split)
  qed
qed

lemma walk_level_alloc:
  assumes ok: "vm_ok s root xs" and p: "upath (p @ [i])" "table (pm s) root p = Some t" and "xs \<noteq> []"
  obtains u s' ys where "walk_level (entry t i) True s = Inr (Some u, s')" "vm_ok s' root ys"
    "table (pm s') root (p @ [i]) = Some u" "length xs \<le> Suc (length ys)" "kend s' = kend s"
    "\<forall>va. user_va va \<longrightarrow> pte_of (pm s') root va = pte_of (pm s) root va"
proof (cases "table_at (pm s) (entry t i)")
  case (Some u)
  then have "walk_level (entry t i) True s = Inr (Some u, s)"
    by (auto simp: walk_level_def table_at_def split: if_splits)
  moreover have "table (pm s) root (p @ [i]) = Some u" using p(2) Some by (simp add: table_append)
  ultimately show ?thesis using that [of u s xs] ok by simp
next
  case None
  obtain x fr where xs: "xs = x # fr" using assms(4) by (cases xs) auto
  have k: "kmem_ok s (x # fr)" and tr: "tree (pm s) root (x # fr)" using ok xs by (auto simp: vm_ok_def)
  then have x: "x mod PGSIZE = 0" "x \<noteq> 0" "freelist s = x" "x \<notin> set fr"
    by (auto simp: kmem_ok_def kpage_def)
  have L: "linkable (pm s) root x fr p t i" using tr x p None unfolding linkable_def by blast
  let ?s = "s\<lparr>freelist := ld64 (pm s) x, pm := link (entry t i) x (pm s)\<rparr>"
  have "walk_level (entry t i) True s = Inr (Some x, ?s)"
    using None x by (auto simp: walk_level_def table_at_def kalloc_def link_def split: if_splits)
  moreover have "vm_ok ?s root fr"
    using link_kmem_ok [OF k L] link_tree [OF L x(4)] by (simp add: vm_ok_def)
  ultimately show ?thesis
    using that [of x ?s fr] xs link_table [OF L p(1)] link_pte_of [OF L] by simp
qed

lemma walkpgdir_alloc:
  assumes ok: "vm_ok s root xs" and "user_va va" and "3 \<le> length xs"
  obtains u s' ys where "walkpgdir root va True s = Inr (Some (entry u (ptx va)), s')" "vm_ok s' root ys"
    "table (pm s') root (idx va) = Some u" "length xs \<le> 3 + length ys" "kend s' = kend s"
    "\<forall>va. user_va va \<longrightarrow> pte_of (pm s') root va = pte_of (pm s) root va"
proof -
  have up: "upath [pmx va, pdpx va, pdx va]" using idx_upath [OF assms(2)] by (simp add: idx_def)
  then have u1: "upath ([] @ [pmx va])" and u2: "upath ([pmx va] @ [pdpx va])" and u3: "upath ([pmx va, pdpx va] @ [pdx va])"
    by (simp_all add: upath_def)
  obtain t1 s1 ys1 where 1: "walk_level (entry root (pmx va)) True s = Inr (Some t1, s1)" "vm_ok s1 root ys1"
      "table (pm s1) root [pmx va] = Some t1" "length xs \<le> Suc (length ys1)" "kend s1 = kend s"
      "\<forall>va. user_va va \<longrightarrow> pte_of (pm s1) root va = pte_of (pm s) root va"
    by (rule walk_level_alloc [OF ok u1, of root]) (use assms(3) in \<open>auto simp del: table.simps(2)\<close>)
  obtain t2 s2 ys2 where 2: "walk_level (entry t1 (pdpx va)) True s1 = Inr (Some t2, s2)" "vm_ok s2 root ys2"
      "table (pm s2) root [pmx va, pdpx va] = Some t2" "length ys1 \<le> Suc (length ys2)" "kend s2 = kend s1"
      "\<forall>va. user_va va \<longrightarrow> pte_of (pm s2) root va = pte_of (pm s1) root va"
    by (rule walk_level_alloc [OF 1(2) u2 1(3)]) (use assms(3) 1(4) in \<open>auto simp del: table.simps(2)\<close>)
  obtain t3 s3 ys3 where 3: "walk_level (entry t2 (pdx va)) True s2 = Inr (Some t3, s3)" "vm_ok s3 root ys3"
      "table (pm s3) root [pmx va, pdpx va, pdx va] = Some t3" "length ys2 \<le> Suc (length ys3)" "kend s3 = kend s2"
      "\<forall>va. user_va va \<longrightarrow> pte_of (pm s3) root va = pte_of (pm s2) root va"
    by (rule walk_level_alloc [OF 2(2) u3 2(3)]) (use assms(3) 1(4) 2(4) in \<open>auto simp del: table.simps(2)\<close>)
  have "walkpgdir root va True s = Inr (Some (entry t3 (ptx va)), s3)"
    by (simp add: walkpgdir_def 1(1) 2(1) 3(1))
  then show ?thesis using that [of t3 s3 ys3] 1 2 3 by (simp add: idx_def del: table.simps(2))
qed

section \<open>Mapping a range\<close>

lemma leaf_store:
  fixes v :: u64
  assumes ok: "vm_ok s root xs" and va: "user_va va" and u: "table (pm s) root (idx va) = Some u"
  defines "s' \<equiv> s\<lparr>pm := st64 (entry u (ptx va)) v (pm s)\<rparr>"
  shows "vm_ok s' root xs"
    and "user_va vb \<Longrightarrow> pte_of (pm s') root vb = (if pgno vb = pgno va then v else pte_of (pm s) root vb)"
proof -
  have k: "kmem_ok s xs" and tr: "tree (pm s) root xs" using ok by (auto simp: vm_ok_def)
  note up = idx_upath [OF va]
  note a = treeD [OF tr up u]
  have other: "ld64 (pm s') (entry t j) = ld64 (pm s) (entry t j)"
    if "upath q" "table (pm s) root q = Some t" "j < 512" "q \<noteq> idx va \<or> j \<noteq> ptx va" for q t j
  proof -
    have "entry t j \<noteq> entry u (ptx va)"
      using entry_inj [of t j u "ptx va"] a treeD(1) [OF tr that(1,2)] tree_inj [OF tr that(1) up] u that index_less(4) by blast
    then show ?thesis using a treeD(1) [OF tr that(1,2)] that(3) by (simp add: s'_def ld64_st64_other entry_al8 index_less)
  qed
  have tab: "table (pm s') root q = table (pm s) root q" if "upath q" for q
  proof (rule table_frame)
    fix p i r t assume q: "q = p @ i # r" "table (pm s) root p = Some t"
    have "upath p \<and> i < 512" using that q(1) upath_append [of "p @ [i]" r] upath_snoc by simp
    moreover have "p \<noteq> idx va" using that q(1) by (auto simp: upath_def idx_def)
    ultimately show "ld64 (pm s') (entry t i) = ld64 (pm s) (entry t i)" using other q(2) by blast
  qed
  have "tree (pm s') root xs" unfolding tree_def
  proof (intro conjI allI impI)
    fix p q t assume "upath p" "upath q" "table (pm s') root p = Some t" "table (pm s') root q = Some t"
    then show "p = q" using tree_inj [OF tr] tab by metis
  qed (use tab treeD [OF tr] in auto)
  moreover have "chain (pm s') z xs = chain (pm s) z xs" for z
  proof (rule chain_other_page)
    show fr: "\<forall>x\<in>set xs. x mod PGSIZE = 0" using k by (simp add: kmem_ok_def kpage_def)
    fix x y assume x: "x \<in> set xs" "pgno y = pgno x"
    then have "pgno y \<noteq> pgno u" using fr a pgno_inj [of x u] by auto
    then show "pm s' y = pm s y" using a by (simp add: s'_def st64_other_page entry_al8 entry_pgno index_less)
  qed
  ultimately show "vm_ok s' root xs" using k by (simp add: vm_ok_def kmem_ok_def s'_def)
  assume vb: "user_va vb"
  show "pte_of (pm s') root vb = (if pgno vb = pgno va then v else pte_of (pm s) root vb)"
  proof (cases "pgno vb = pgno va")
    case True
    then have "idx vb = idx va" "ptx vb = ptx va" using idx_pgno [OF vb va] by auto
    then show ?thesis using True tab [OF up] u by (simp add: pte_of_def s'_def)
  next
    case False
    then have "idx vb \<noteq> idx va \<or> ptx vb \<noteq> ptx va" using idx_pgno [OF vb va] by auto
    then show ?thesis
      using False tab [OF idx_upath [OF vb]] other [OF idx_upath [OF vb] _ index_less(4)]
      by (auto simp: pte_of_def split: option.split)
  qed
qed

lemma pte_of_table: "table m root (idx va) = Some u \<Longrightarrow> pte_of m root va = ld64 m (entry u (ptx va))"
  by (simp add: pte_of_def)

lemma mappages_loop_ok:
  assumes "vm_ok s root xs" and "unat a + n * 4096 < 2 ^ 47" and "unat last_a = unat a + n * 4096"
    and "3 * Suc n \<le> length xs"
    and "\<forall>vb. user_va vb \<and> pgno a \<le> pgno vb \<and> pgno vb \<le> pgno a + n \<longrightarrow> pte_of (pm s) root vb AND PTE_P = 0"
  shows "\<exists>s' ys. mappages_loop (Suc n) root a last_a pa perm s = Inr (0, s') \<and> vm_ok s' root ys \<and>
    length xs \<le> 3 * Suc n + length ys \<and> kend s' = kend s \<and>
    (\<forall>vb. user_va vb \<longrightarrow> pte_of (pm s') root vb =
       (if pgno a \<le> pgno vb \<and> pgno vb \<le> pgno a + n
        then (pa + of_nat (pgno vb - pgno a) * PGSIZE) OR word_of_int perm OR PTE_P else pte_of (pm s) root vb))"
  using assms
proof (induction n arbitrary: a pa s xs)
  case (0 a pa s xs)
  have ua: "user_va a" using 0 by (simp add: user_va_def)
  obtain u s1 ys where 1: "walkpgdir root a True s = Inr (Some (entry u (ptx a)), s1)" "vm_ok s1 root ys"
    "table (pm s1) root (idx a) = Some u" "length xs \<le> 3 + length ys" "kend s1 = kend s"
    "\<forall>va. user_va va \<longrightarrow> pte_of (pm s1) root va = pte_of (pm s) root va"
    by (rule walkpgdir_alloc [OF 0(1) ua]) (use 0(4) in simp_all)
  have np: "ld64 (pm s1) (entry u (ptx a)) AND PTE_P = 0"
    using 0(5) 1(6) ua pte_of_table [OF 1(3)] by auto
  let ?s = "s1\<lparr>pm := st64 (entry u (ptx a)) (pa OR word_of_int perm OR PTE_P) (pm s1)\<rparr>"
  note st = leaf_store [OF 1(2) ua 1(3), where v = "pa OR word_of_int perm OR PTE_P"]
  have "a = last_a" using 0(3) by (simp add: word_unat_eq_iff)
  then have "mappages_loop (Suc 0) root a last_a pa perm s = Inr (0, ?s)" using 1(1) np by (simp add: Let_def)
  moreover have "pte_of (pm ?s) root vb = (if pgno a \<le> pgno vb \<and> pgno vb \<le> pgno a + 0
        then (pa + of_nat (pgno vb - pgno a) * PGSIZE) OR word_of_int perm OR PTE_P else pte_of (pm s) root vb)"
    if "user_va vb" for vb
    using st(2) [OF that] 1(6) that by auto
  ultimately show ?case using st(1) 1(4,5) by (intro exI [of _ ?s] exI [of _ ys]) simp
next
  case (Suc n a pa s xs)
  have ua: "user_va a" using Suc.prems(2) by (simp add: user_va_def)
  obtain u s1 ys where 1: "walkpgdir root a True s = Inr (Some (entry u (ptx a)), s1)" "vm_ok s1 root ys"
    "table (pm s1) root (idx a) = Some u" "length xs \<le> 3 + length ys" "kend s1 = kend s"
    "\<forall>va. user_va va \<longrightarrow> pte_of (pm s1) root va = pte_of (pm s) root va"
    by (rule walkpgdir_alloc [OF Suc.prems(1) ua]) (use Suc.prems(4) in simp_all)
  have np: "ld64 (pm s1) (entry u (ptx a)) AND PTE_P = 0"
    using Suc.prems(5) 1(3,6) ua pte_of_table [OF 1(3)] by auto
  let ?s = "s1\<lparr>pm := st64 (entry u (ptx a)) (pa OR word_of_int perm OR PTE_P) (pm s1)\<rparr>"
  note st = leaf_store [OF 1(2) ua 1(3), where v = "pa OR word_of_int perm OR PTE_P"]
  have up: "unat (a + PGSIZE) = unat a + 4096" "pgno (a + PGSIZE) = Suc (pgno a)"
    using Suc.prems(2) page_up [of a] by (simp_all add: pgno_def)
  have ne: "a \<noteq> last_a" using Suc.prems(3) by auto
  have "\<exists>s' zs. mappages_loop (Suc n) root (a + PGSIZE) last_a (pa + PGSIZE) perm ?s = Inr (0, s') \<and> vm_ok s' root zs \<and>
    length ys \<le> 3 * Suc n + length zs \<and> kend s' = kend ?s \<and>
    (\<forall>vb. user_va vb \<longrightarrow> pte_of (pm s') root vb =
       (if pgno (a + PGSIZE) \<le> pgno vb \<and> pgno vb \<le> pgno (a + PGSIZE) + n
        then (pa + PGSIZE + of_nat (pgno vb - pgno (a + PGSIZE)) * PGSIZE) OR word_of_int perm OR PTE_P else pte_of (pm ?s) root vb))"
    using Suc.prems up 1 st by (intro Suc.IH) (auto simp: algebra_simps)
  then obtain s' zs where 2: "mappages_loop (Suc n) root (a + PGSIZE) last_a (pa + PGSIZE) perm ?s = Inr (0, s')"
    "vm_ok s' root zs" "length ys \<le> 3 * Suc n + length zs" "kend s' = kend ?s"
    "\<forall>vb. user_va vb \<longrightarrow> pte_of (pm s') root vb =
       (if pgno (a + PGSIZE) \<le> pgno vb \<and> pgno vb \<le> pgno (a + PGSIZE) + n
        then (pa + PGSIZE + of_nat (pgno vb - pgno (a + PGSIZE)) * PGSIZE) OR word_of_int perm OR PTE_P else pte_of (pm ?s) root vb)"
    by blast
  have "mappages_loop (Suc (Suc n)) root a last_a pa perm s = Inr (0, s')"
    using 1(1) np ne 2(1) by (simp add: Let_def)
  moreover have "pte_of (pm s') root vb = (if pgno a \<le> pgno vb \<and> pgno vb \<le> pgno a + Suc n
        then (pa + of_nat (pgno vb - pgno a) * PGSIZE) OR word_of_int perm OR PTE_P else pte_of (pm s) root vb)"
    if "user_va vb" for vb
  proof -
    note r = 2(5) [rule_format, OF that] st(2) [OF that] 1(6) [rule_format, OF that]
    show ?thesis
    proof (cases "pgno a < pgno vb \<and> pgno vb \<le> pgno a + Suc n")
      case True
      then obtain k where k: "pgno vb = Suc (pgno a) + k" using less_iff_Suc_add [of "pgno a" "pgno vb"] by auto
      with True have "k \<le> n" by simp
      then show ?thesis unfolding r(1) up(2) k by (simp add: algebra_simps)
    next
      case False
      then show ?thesis unfolding r(1) up(2) using r(2,3) by auto
    qed
  qed
  ultimately show ?case using 2 1 by (intro exI [of _ s'] exI [of _ zs]) simp
qed

lemma unat_pgrounddown: "unat (pgrounddown va) = pgno va * 4096"
  unfolding pgrounddown_def pgno_def by (rule unat_and_not_mask)

lemma walk_level_returns: "walk_level e alloc s \<noteq> Inl Diverges"
  by (auto simp: walk_level_def kalloc_def Let_def)

lemma walkpgdir_returns: "walkpgdir pml4 va alloc s \<noteq> Inl Diverges"
  unfolding walkpgdir_def
  by (auto simp: rbind_def walk_level_returns split: sum.splits option.splits prod.splits)

lemma mappages_loop_returns:
  "last_a - a = of_nat (4096 * n) \<Longrightarrow> mappages_loop (Suc n) pgd a last_a pa perm s \<noteq> Inl Diverges"
proof (induction n arbitrary: a pa s)
  case 0
  then show ?case using walkpgdir_returns [of pgd a True s]
    by (cases "walkpgdir pgd a True s") (auto simp: Let_def split: option.splits if_splits)
next
  case (Suc n)
  then have "last_a - (a + PGSIZE) = of_nat (4096 * n)" by (simp add: algebra_simps PGSIZE_def)
  then have "mappages_loop (Suc n) pgd (a + PGSIZE) last_a (pa + PGSIZE) perm t \<noteq> Inl Diverges" for t by (rule Suc.IH)
  then show ?case using walkpgdir_returns [of pgd a True s]
    by (subst mappages_loop.simps, cases "walkpgdir pgd a True s") (auto simp: Let_def simp del: mappages_loop.simps split: option.splits if_splits)
qed

lemma pages_apart: "4096 dvd unat (pgrounddown x - pgrounddown y)"
proof -
  have "unat (pgrounddown v) = pgno v * 4096" for v by (rule unat_pgrounddown)
  moreover have "(4096 :: nat) dvd 2 ^ 64" by simp
  ultimately show ?thesis by (auto simp: unat_sub_if_size word_size intro!: dvd_diff_nat dvd_add)
qed

text \<open>The fuel of \<open>mappages\<close> is enough: the loop always returns.\<close>

lemma mappages_returns: "mappages pgd va n pa perm s \<noteq> Inl Diverges"
proof -
  let ?d = "pgrounddown (va + n - 1) - pgrounddown va"
  have "?d = of_nat (4096 * (unat ?d div 4096))" using pages_apart [of "va + n - 1" va] by simp
  then show ?thesis unfolding mappages_def Let_def by (rule mappages_loop_returns)
qed

text \<open>
  C26: Functional behaviour of \<open>mappages\<close> on a well-formed page table. For a non-empty range below
  2^47 whose pages are not mapped yet, and with three free pages per page of the range, the call
  returns 0; afterwards every page of the range is mapped to consecutive physical pages from
  \<open>pa\<close> on with the given permissions, every other user address has the entry it had before,
  and the table is still a tree disjoint from the free list.
\<close>

theorem mappages_maps:
  assumes "vm_ok s root xs" and "0 < n" and "unat va + unat n \<le> 2 ^ 47"
    and "3 * Suc (pgno (va + n - 1) - pgno va) \<le> length xs"
    and "\<forall>vb. user_va vb \<and> pgno va \<le> pgno vb \<and> pgno vb \<le> pgno (va + n - 1) \<longrightarrow> pte_of (pm s) root vb AND PTE_P = 0"
  shows "\<exists>s' ys. mappages root va n pa perm s = Inr (0, s') \<and> vm_ok s' root ys \<and>
    (\<forall>vb. user_va vb \<longrightarrow> pte_of (pm s') root vb =
       (if pgno va \<le> pgno vb \<and> pgno vb \<le> pgno (va + n - 1)
        then (pa + of_nat (pgno vb - pgno va) * PGSIZE) OR word_of_int perm OR PTE_P else pte_of (pm s) root vb))"
proof -
  let ?a = "pgrounddown va" and ?l = "pgrounddown (va + n - 1)" and ?k = "pgno (va + n - 1) - pgno va"
  have n0: "0 < unat n" using assms(2) by (simp add: word_less_nat_alt)
  have "unat (va + n) = unat va + unat n" using assms(3) by (simp add: unat_word_ariths)
  moreover from this n0 have "1 \<le> va + n" by (simp add: word_le_nat_alt)
  ultimately have end_u: "unat (va + n - 1) = unat va + unat n - 1" by (simp add: unat_sub)
  then have "pgno va \<le> pgno (va + n - 1)" using n0 by (auto simp: pgno_def intro!: div_le_mono)
  then have le: "pgno va + ?k = pgno (va + n - 1)" by simp
  have pg: "pgno ?a = pgno va" "pgno (va + n - 1) * 4096 < 2 ^ 47"
    using assms(3) end_u n0 by (auto simp: pgno_def [of ?a] pgno_def [of "va + n - 1"] unat_pgrounddown intro: le_less_trans)
  have l: "unat ?l = unat ?a + ?k * 4096" using le unfolding unat_pgrounddown by (metis add_mult_distrib)
  then have "unat (?l - ?a) div 4096 = ?k" by (simp add: unat_sub word_le_nat_alt)
  moreover have "\<exists>s' ys. mappages_loop (Suc ?k) root ?a ?l pa perm s = Inr (0, s') \<and> vm_ok s' root ys \<and>
    length xs \<le> 3 * Suc ?k + length ys \<and> kend s' = kend s \<and>
    (\<forall>vb. user_va vb \<longrightarrow> pte_of (pm s') root vb =
       (if pgno ?a \<le> pgno vb \<and> pgno vb \<le> pgno ?a + ?k
        then (pa + of_nat (pgno vb - pgno ?a) * PGSIZE) OR word_of_int perm OR PTE_P else pte_of (pm s) root vb))"
    using assms(1,4,5) l le pg unat_pgrounddown [of "va + n - 1"] by (intro mappages_loop_ok) simp_all
  ultimately show ?thesis unfolding mappages_def Let_def pg le by auto
qed

text \<open>An empty page table, and an instance with three free pages.\<close>

lemma tree_empty:
  assumes "root mod PGSIZE = 0" and "root \<notin> set fr" and "\<forall>i<256. ld64 m (entry root i) = 0"
  shows "tree m root fr"
proof -
  have one: "q = [] \<and> t = root" if "upath q" "table m root q = Some t" for q t
  proof (cases q)
    case (Cons i r)
    then have "i < 256" using that by (simp add: upath_def)
    then show ?thesis using that Cons assms(3) by (simp add: table_at_def)
  qed (use that in simp)
  show ?thesis unfolding tree_def
  proof (intro conjI allI impI)
    fix p t assume "upath p" "table m root p = Some t"
    then show "t mod PGSIZE = 0" "t \<notin> set fr" using one [of p t] assms(1,2) by simp_all
  next
    fix p q t assume "upath p" "upath q" "table m root p = Some t" "table m root q = Some t"
    then show "p = q" using one [of p t] one [of q t] by simp
  qed
qed

definition vm_demo :: memst where
  "vm_demo = \<lparr>pm = st64 (p2v 0x201000) (p2v 0x202000) (st64 (p2v 0x202000) (p2v 0x203000) (\<lambda>_. 0)),
     freelist = p2v 0x201000, use_lock = 1, kend = p2v 0x100000\<rparr>"

lemma vm_demo_root: "i < 512 \<Longrightarrow> ld64 (pm vm_demo) (entry (p2v 0x200000) i) = 0"
proof -
  assume i: "i < 512"
  have al: "al8 (p2v 0x201000)" "al8 (p2v 0x202000)" by (simp_all add: al8_def p2v_def KERNBASE_def)
  have r: "p2v 0x200000 mod PGSIZE = 0" by (simp add: p2v_def KERNBASE_def PGSIZE_def)
  have "entry (p2v 0x200000) i \<noteq> p2v 0x201000" "entry (p2v 0x200000) i \<noteq> p2v 0x202000"
    using entry_pgno [OF r i] by (auto simp: pgno_def p2v_def KERNBASE_def)
  then show ?thesis using al entry_al8 [OF r i] by (simp add: vm_demo_def ld64_st64_other)
qed

lemma vm_demo_ok: "vm_ok vm_demo (p2v 0x200000) [p2v 0x201000, p2v 0x202000, p2v 0x203000]"
proof -
  have al: "al8 (p2v 0x201000)" "al8 (p2v 0x202000)" "al8 (p2v 0x203000)"
    by (simp_all add: al8_def p2v_def KERNBASE_def)
  have pages: "p2v 0x200000 mod PGSIZE = 0" "p2v 0x201000 mod PGSIZE = 0" "p2v 0x202000 mod PGSIZE = 0"
    by (simp_all add: p2v_def KERNBASE_def PGSIZE_def)
  have ne: "p2v 0x201000 \<noteq> p2v 0x202000" "p2v 0x201000 \<noteq> p2v 0x203000" "p2v 0x202000 \<noteq> p2v 0x203000"
    "p2v 0x200000 \<noteq> p2v 0x201000" "p2v 0x200000 \<noteq> p2v 0x202000" "p2v 0x200000 \<noteq> p2v 0x203000"
    by (simp_all add: p2v_def KERNBASE_def)
  have "chain (pm vm_demo) (freelist vm_demo) [p2v 0x201000, p2v 0x202000, p2v 0x203000]"
    using al ne by (simp add: vm_demo_def ld64_st64_other) (simp add: p2v_def KERNBASE_def)
  moreover have "kpage (p2v 0x100000) (p2v 0x201000)" "kpage (p2v 0x100000) (p2v 0x202000)" "kpage (p2v 0x100000) (p2v 0x203000)"
    by (simp_all add: kpage_def p2v_def KERNBASE_def v2p_def PHYSTOP_def PGSIZE_def)
  ultimately have "kmem_ok vm_demo [p2v 0x201000, p2v 0x202000, p2v 0x203000]"
    using ne by (simp add: kmem_ok_def vm_demo_def) (simp add: p2v_def KERNBASE_def)
  moreover have "\<forall>i<256. ld64 (pm vm_demo) (entry (p2v 0x200000) i) = 0"
    using vm_demo_root by (auto simp: word_less_nat_alt)
  ultimately show ?thesis using tree_empty [OF pages(1)] ne by (simp add: vm_ok_def)
qed

theorem mappages_maps_witness:
  "\<exists>s'. mappages (p2v 0x200000) 0x1000 PGSIZE 0x400000 6 vm_demo = Inr (0, s') \<and> pte_of (pm s') (p2v 0x200000) 0x1000 = 0x400007"
proof -
  have e: "pgno (0x1000 + PGSIZE - 1) = 1" "pgno 0x1000 = 1" by (simp_all add: pgno_def PGSIZE_def)
  have "table (pm vm_demo) (p2v 0x200000) (idx vb) = None" if "user_va vb" for vb
    using vm_demo_root [OF index_less(1)] by (simp add: idx_def table_at_def)
  then have "pte_of (pm vm_demo) (p2v 0x200000) vb AND PTE_P = 0" if "user_va vb" for vb
    using that by (simp add: pte_of_def)
  then have "\<exists>s' ys. mappages (p2v 0x200000) 0x1000 PGSIZE 0x400000 6 vm_demo = Inr (0, s') \<and> vm_ok s' (p2v 0x200000) ys \<and>
    (\<forall>vb. user_va vb \<longrightarrow> pte_of (pm s') (p2v 0x200000) vb =
       (if pgno 0x1000 \<le> pgno vb \<and> pgno vb \<le> pgno (0x1000 + PGSIZE - 1)
        then (0x400000 + of_nat (pgno vb - pgno 0x1000) * PGSIZE) OR word_of_int 6 OR PTE_P else pte_of (pm vm_demo) (p2v 0x200000) vb))"
    by (intro mappages_maps [OF vm_demo_ok]) (simp_all add: e, simp_all add: PGSIZE_def pgno_def)
  moreover have "user_va 0x1000" by (simp add: user_va_def)
  ultimately show ?thesis unfolding e by (fastforce simp: e PTE_P_def)
qed

end
