(* ===== verification/File.thy ===== *)
theory File
  imports Fs Pipe Pagetable
begin

text \<open>
  The kernel state that the file layer works on, and the file table of \<open>file.c\<close> with
  \<open>pipealloc\<close>. The process table, the file system, physical memory, the open files and the
  pipes are components of one record. A call into the file system runs on its component, after
  which the wakeups it made are applied to the process table in order; a call that would block
  on the log, a buffer or an inode ends with \<open>Sleeps\<close>. User memory is physical memory seen
  through the page table of the running process. A pipe is named by the address of its page.
\<close>

section \<open>The kernel state\<close>

datatype fdtype = FD_NONE | FD_PIPE | FD_INODE

record filest =
  f_type :: fdtype
  f_ref :: int
  f_readable :: int
  f_writable :: int
  f_pipe :: nat
  f_ip :: nat
  f_off :: u32

record kern =
  ks_p :: pstate
  ks_f :: fstate
  ks_m :: memst
  ftable :: "filest list"
  pipes :: "nat \<Rightarrow> pipe"
  kpdpt :: u64

type_synonym drivers = "fstate devsw list"

text \<open>The running process, and a call into the file system on its behalf.\<close>

definition kproc :: "nat \<Rightarrow> kern \<Rightarrow> (nat \<Rightarrow> proc \<Rightarrow> 'b res) \<Rightarrow> 'b res" where
  "kproc c k f = with_cur c (ks_p k) f"

definition kupd_proc :: "nat \<Rightarrow> (proc \<Rightarrow> proc) \<Rightarrow> kern \<Rightarrow> kern" where
  "kupd_proc i f k = k\<lparr>ks_p := upd_proc i f (ks_p k)\<rparr>"

definition fs_call :: "nat \<Rightarrow> (fstate \<Rightarrow> ('a \<times> fstate) res) \<Rightarrow> kern \<Rightarrow> ('a \<times> kern) res" where
  "fs_call c f k =
     kproc c k (\<lambda>i p.
       rbind (f ((ks_f k)\<lparr>wakes := [], curpid := pid p, fs_cwd := (case cwd p of Some ip \<Rightarrow> ip | None \<Rightarrow> 0)\<rparr>)) (\<lambda>(x, s).
       Inr (x, k\<lparr>ks_f := s\<lparr>wakes := []\<rparr>, ks_p := fold wakeup (wakes s) (ks_p k)\<rparr>)))"

definition fs_do :: "nat \<Rightarrow> (fstate \<Rightarrow> fstate res) \<Rightarrow> kern \<Rightarrow> kern res" where
  "fs_do c f k = rbind (fs_call c (\<lambda>s. rbind (f s) (\<lambda>s. Inr ((), s))) k) (\<lambda>(_, k). Inr k)"

definition mem_call :: "(memst \<Rightarrow> ('a \<times> memst) res) \<Rightarrow> kern \<Rightarrow> ('a \<times> kern) res" where
  "mem_call f k = rbind (f (ks_m k)) (\<lambda>(x, m). Inr (x, k\<lparr>ks_m := m\<rparr>))"

text \<open>
  The direct-map address of the byte that the kernel reaches at \<open>va\<close> with the page table
  \<open>pgd\<close>. A page that is not present is a page fault in the kernel, which panics.
\<close>

definition utrans :: "memst \<Rightarrow> u64 \<Rightarrow> u64 \<Rightarrow> u64 res" where
  "utrans m pgd va =
     (if va < KERNBASE then
        rbind (walkpgdir pgd va False m) (\<lambda>(pte, m). case pte of
            None \<Rightarrow> Inl (Panic ''trap'')
          | Some e \<Rightarrow>
              if ld64 (pm m) e AND PTE_P = 0 then Inl (Panic ''trap'')
              else Inr (p2v (pte_addr (ld64 (pm m) e)) + (va AND 0xFFF)))
      else if va - KERNBASE < PHYSTOP then Inr va else Inl OutOfBounds)"

definition uview :: "memst \<Rightarrow> u64 \<Rightarrow> mem" where
  "uview m pgd va = (case utrans m pgd va of Inr a \<Rightarrow> pm m a | Inl _ \<Rightarrow> 0)"

fun ustore :: "u64 \<Rightarrow> u64 \<Rightarrow> u8 list \<Rightarrow> memst \<Rightarrow> memst res" where
  "ustore pgd va [] m = Inr m"
| "ustore pgd va (b # bs) m =
     rbind (utrans m pgd va) (\<lambda>a. ustore pgd (va + 1) bs (m\<lparr>pm := (pm m)(a := b)\<rparr>))"

definition umapped :: "memst \<Rightarrow> u64 \<Rightarrow> u64 \<Rightarrow> nat \<Rightarrow> bool" where
  "umapped m pgd va n \<longleftrightarrow> list_all (\<lambda>i. \<not> isl (utrans m pgd (va + word_of_nat i))) [0..<n]"

definition kstore :: "proc \<Rightarrow> u64 \<Rightarrow> u8 list \<Rightarrow> kern \<Rightarrow> kern res" where
  "kstore p va bs k = rbind (ustore (pgdir p) va bs (ks_m k)) (\<lambda>m. Inr (k\<lparr>ks_m := m\<rparr>))"

definition kview :: "proc \<Rightarrow> kern \<Rightarrow> mem" where
  "kview p k = uview (ks_m k) (pgdir p)"

definition upd_file :: "nat \<Rightarrow> (filest \<Rightarrow> filest) \<Rightarrow> kern \<Rightarrow> kern" where
  "upd_file i f k = k\<lparr>ftable := upd_at i f (ftable k)\<rparr>"

section \<open>The file table\<close>

definition NFILE :: nat where "NFILE = 100"

definition filealloc :: "kern \<Rightarrow> nat option \<times> kern" where
  "filealloc k =
     (case first_index (\<lambda>f. f_ref f = 0) (ftable k) of
        Some i \<Rightarrow> (Some i, upd_file i (\<lambda>f. f\<lparr>f_ref := 1\<rparr>) k)
      | None \<Rightarrow> (None, k))"

definition filedup :: "nat \<Rightarrow> kern \<Rightarrow> (nat \<times> kern) res" where
  "filedup i k =
     (if f_ref (ftable k ! i) < 1 then Inl (Panic ''filedup'')
      else Inr (i, upd_file i (\<lambda>f. f\<lparr>f_ref := s32 (f_ref f + 1)\<rparr>) k))"

text \<open>\<open>pipeclose\<close> on the pipe of the file, freeing its page when both ends are closed.\<close>

definition kpipeclose :: "nat \<Rightarrow> bool \<Rightarrow> kern \<Rightarrow> kern res" where
  "kpipeclose n writable k =
     (let (dead, p, s) = pipeclose n writable (pipes k n) (ks_p k);
          k = k\<lparr>pipes := (pipes k)(n := p), ks_p := s\<rparr>
      in if dead then rbind (kfree (word_of_nat n) (ks_m k)) (\<lambda>m. Inr (k\<lparr>ks_m := m\<rparr>)) else Inr k)"

definition fileclose :: "nat \<Rightarrow> nat \<Rightarrow> kern \<Rightarrow> kern res" where
  "fileclose c i k =
     (if f_ref (ftable k ! i) < 1 then Inl (Panic ''fileclose'')
      else let k = upd_file i (\<lambda>f. f\<lparr>f_ref := s32 (f_ref f - 1)\<rparr>) k in
        if f_ref (ftable k ! i) > 0 then Inr k
        else let ff = ftable k ! i; k = upd_file i (\<lambda>f. f\<lparr>f_ref := 0, f_type := FD_NONE\<rparr>) k in
          case f_type ff of
            FD_PIPE \<Rightarrow> kpipeclose (f_pipe ff) (f_writable ff \<noteq> 0) k
          | FD_INODE \<Rightarrow>
              fs_do c (\<lambda>s. rbind (begin_op s) (\<lambda>s. rbind (iput (f_ip ff) s) end_op)) k
          | FD_NONE \<Rightarrow> Inr k)"

definition filestat :: "nat \<Rightarrow> nat \<Rightarrow> kern \<Rightarrow> (stat option \<times> kern) res" where
  "filestat c i k =
     (let f = ftable k ! i in
      if f_type f = FD_INODE then
        fs_call c (\<lambda>s. rbind (ilock (f_ip f) s) (\<lambda>s.
          let st = stati (inodes s ! f_ip f) in
          rbind (iunlock (f_ip f) s) (\<lambda>s. Inr (Some st, s)))) k
      else Inr (None, k))"

text \<open>
  The value and the bytes a read stores; no value means that the process sleeps in
  \<open>piperead\<close> and the call continues when it is woken.
\<close>

definition fileread :: "nat \<Rightarrow> drivers \<Rightarrow> nat \<Rightarrow> int \<Rightarrow> kern \<Rightarrow> ((int option \<times> u8 list) \<times> kern) res" where
  "fileread c dv i n k =
     (let f = ftable k ! i in
      if f_readable f = 0 then Inr ((Some (-1), []), k)
      else case f_type f of
        FD_PIPE \<Rightarrow>
          rbind (piperead_round (f_pipe f) c n (pipes k (f_pipe f)) (ks_p k)) (\<lambda>(r, bs, p, s).
          Inr ((r, bs), k\<lparr>pipes := (pipes k)(f_pipe f := p), ks_p := s\<rparr>))
      | FD_INODE \<Rightarrow>
          rbind (fs_call c (\<lambda>s. rbind (ilock (f_ip f) s) (\<lambda>s.
            rbind (readi dv (f_ip f) (f_off f) (uint_of_int n) s) (\<lambda>(r, s).
            rbind (iunlock (f_ip f) s) (\<lambda>s. Inr (r, s))))) k) (\<lambda>((r, bs), k).
          Inr ((Some r, bs), if r > 0 then upd_file i (\<lambda>f. f\<lparr>f_off := f_off f + uint_of_int r\<rparr>) k else k))
      | FD_NONE \<Rightarrow> Inl (Panic ''fileread''))"

definition FWMAX :: int where "FWMAX = ((int LOGSIZE - 1 - 1 - 2) div 2) * 512"

lemma FWMAX_pos: "0 < FWMAX"
  by (simp add: FWMAX_def LOGSIZE_def)

function fw_loop :: "nat \<Rightarrow> drivers \<Rightarrow> nat \<Rightarrow> u8 list \<Rightarrow> int \<Rightarrow> int \<Rightarrow> kern \<Rightarrow> (int \<times> kern) res" where
  "fw_loop c dv i src n done k =
     (if done < n then
        let n1 = (if n - done > FWMAX then FWMAX else n - done); f = ftable k ! i in
        rbind (fs_call c (\<lambda>s. rbind (begin_op s) (\<lambda>s. rbind (ilock (f_ip f) s) (\<lambda>s.
          rbind (writei dv (f_ip f) (drop (nat done) src) (f_off f) (uint_of_int n1) s) (\<lambda>(r, s).
          rbind (iunlock (f_ip f) s) (\<lambda>s. rbind (end_op s) (\<lambda>s. Inr (r, s))))))) k) (\<lambda>(r, k).
        let k = (if r > 0 then upd_file i (\<lambda>f. f\<lparr>f_off := f_off f + uint_of_int r\<rparr>) k else k) in
        if r < 0 then Inr (if done = n then n else -1, k)
        else if r \<noteq> n1 then Inl (Panic ''short filewrite'')
        else fw_loop c dv i src n (done + r) k)
      else Inr (if done = n then n else -1, k))"
  by pat_completeness auto

termination
  by (relation "measure (\<lambda>(_, _, _, _, n, done, _). nat (n - done))") (use FWMAX_pos in \<open>auto split: if_splits\<close>)

declare fw_loop.simps [simp del]

text \<open>\<open>src\<close> are the bytes at \<open>addr\<close>; of a pipe, those still to be written.\<close>

definition filewrite :: "nat \<Rightarrow> drivers \<Rightarrow> nat \<Rightarrow> u8 list \<Rightarrow> int \<Rightarrow> kern \<Rightarrow> ((int option \<times> u8 list) \<times> kern) res" where
  "filewrite c dv i src n k =
     (let f = ftable k ! i in
      if f_writable f = 0 then Inr ((Some (-1), []), k)
      else case f_type f of
        FD_PIPE \<Rightarrow>
          rbind (pipewrite_round (f_pipe f) c n src (pipes k (f_pipe f)) (ks_p k)) (\<lambda>(r, rest, p, s).
          Inr ((r, rest), k\<lparr>pipes := (pipes k)(f_pipe f := p), ks_p := s\<rparr>))
      | FD_INODE \<Rightarrow> rbind (fw_loop c dv i src n 0 k) (\<lambda>(r, k). Inr ((Some r, []), k))
      | FD_NONE \<Rightarrow> Inl (Panic ''filewrite''))"

text \<open>
  \<open>pipealloc\<close>; the data of the fresh pipe, 104 bytes into its page after the lock, is
  what memory holds there.
\<close>

definition pipealloc :: "nat \<Rightarrow> kern \<Rightarrow> ((nat \<times> nat) option \<times> kern) res" where
  "pipealloc c k =
     (let (f0, k) = filealloc k in
      case f0 of None \<Rightarrow> Inr (None, k) | Some f0 \<Rightarrow>
      let (f1, k) = filealloc k in
      case f1 of None \<Rightarrow> rbind (fileclose c f0 k) (\<lambda>k. Inr (None, k)) | Some f1 \<Rightarrow>
      rbind (mem_call kalloc k) (\<lambda>(p, k).
      if p = 0 then rbind (fileclose c f0 k) (\<lambda>k. rbind (fileclose c f1 k) (\<lambda>k. Inr (None, k)))
      else let page = get_bytes (pm (ks_m k)) (p + 104) PIPESIZE;
               k = k\<lparr>pipes := (pipes k)(unat p := pipe_init page)\<rparr>;
               k = upd_file f0 (\<lambda>f. f\<lparr>f_type := FD_PIPE, f_readable := 1, f_writable := 0, f_pipe := unat p\<rparr>) k;
               k = upd_file f1 (\<lambda>f. f\<lparr>f_type := FD_PIPE, f_readable := 0, f_writable := 1, f_pipe := unat p\<rparr>) k
           in Inr (Some (f0, f1), k)))"

end
