(* ===== verification/Sysfile.thy ===== *)
theory Sysfile
  imports File
begin

text \<open>
  The file system calls of \<open>sysfile.c\<close>, except \<open>sys_exec\<close>. Each handler is cut at the calls
  that leave the file system: the steps between them work on the file system component.
\<close>

section \<open>File descriptors\<close>

definition argfd :: "proc \<Rightarrow> int \<Rightarrow> (nat \<times> nat) option res" where
  "argfd p n =
     rbind (argint p n) (\<lambda>fd.
     if fd < 0 \<or> fd \<ge> int NOFILE then Inr None
     else Inr (map_option (\<lambda>f. (nat fd, f)) (ofile p ! nat fd)))"

definition fdalloc :: "nat \<Rightarrow> nat \<Rightarrow> kern \<Rightarrow> nat option \<times> kern" where
  "fdalloc i f k =
     (case find (\<lambda>fd. ofile (ptable (ks_p k) ! i) ! fd = None) [0..<NOFILE] of
        None \<Rightarrow> (None, k)
      | Some fd \<Rightarrow> (Some fd, kupd_proc i (\<lambda>p. p\<lparr>ofile := (ofile p)[fd := Some f]\<rparr>) k))"

definition sys_dup :: "nat \<Rightarrow> kern \<Rightarrow> (int \<times> kern) res" where
  "sys_dup c k =
     kproc c k (\<lambda>i p. rbind (argfd p 0) (\<lambda>a. case a of None \<Rightarrow> Inr (-1, k) | Some (_, f) \<Rightarrow>
       (case fdalloc i f k of
          (None, k) \<Rightarrow> Inr (-1, k)
        | (Some fd, k) \<Rightarrow> rbind (filedup f k) (\<lambda>(_, k). Inr (int fd, k)))))"

text \<open>No value: the process sleeps in the pipe, and the call runs again from the file layer.\<close>

definition sys_read :: "nat \<Rightarrow> drivers \<Rightarrow> kern \<Rightarrow> (int option \<times> kern) res" where
  "sys_read c dv k =
     kproc c k (\<lambda>i p. rbind (argfd p 0) (\<lambda>a. rbind (argint p 2) (\<lambda>n. rbind (argptr p 1 n) (\<lambda>q.
       case (a, q) of
         (Some (_, f), Some q) \<Rightarrow>
           rbind (fileread c dv f n k) (\<lambda>((r, bs), k). rbind (kstore p q bs k) (\<lambda>k. Inr (r, k)))
       | _ \<Rightarrow> Inr (Some (-1), k)))))"

definition sys_write :: "nat \<Rightarrow> drivers \<Rightarrow> kern \<Rightarrow> ((int option \<times> u8 list) \<times> kern) res" where
  "sys_write c dv k =
     kproc c k (\<lambda>i p. rbind (argfd p 0) (\<lambda>a. rbind (argint p 2) (\<lambda>n. rbind (argptr p 1 n) (\<lambda>q.
       case (a, q) of
         (Some (_, f), Some q) \<Rightarrow>
           if f_writable (ftable k ! f) \<noteq> 0 \<and> \<not> umapped (ks_m k) (pgdir p) q (nat n) then Inl (Panic ''trap'')
           else filewrite c dv f (get_bytes (kview p k) q (nat n)) n k
       | _ \<Rightarrow> Inr ((Some (-1), []), k)))))"

definition sys_close :: "nat \<Rightarrow> kern \<Rightarrow> (int \<times> kern) res" where
  "sys_close c k =
     kproc c k (\<lambda>i p. rbind (argfd p 0) (\<lambda>a. case a of None \<Rightarrow> Inr (-1, k) | Some (fd, f) \<Rightarrow>
       rbind (fileclose c f (kupd_proc i (\<lambda>p. p\<lparr>ofile := (ofile p)[fd := None]\<rparr>) k)) (\<lambda>k. Inr (0, k))))"

definition le16 :: "u16 \<Rightarrow> u8 list" where
  "le16 w = [ucast w, ucast (drop_bit 8 w)]"

definition le32 :: "u32 \<Rightarrow> u8 list" where
  "le32 w = [ucast w, ucast (drop_bit 8 w), ucast (drop_bit 16 w), ucast (drop_bit 24 w)]"

text \<open>The fields of \<open>struct stat\<close> with their offsets; the padding keeps its bytes.\<close>

definition store_stat :: "proc \<Rightarrow> u64 \<Rightarrow> stat \<Rightarrow> kern \<Rightarrow> kern res" where
  "store_stat p a st k =
     rbind (kstore p a (le16 (st_type st)) k) (\<lambda>k.
     rbind (kstore p (a + 4) (le32 (st_dev st)) k) (\<lambda>k.
     rbind (kstore p (a + 8) (le32 (st_ino st)) k) (\<lambda>k.
     rbind (kstore p (a + 12) (le16 (st_nlink st)) k) (\<lambda>k.
     kstore p (a + 16) (le32 (st_size st)) k))))"

definition sys_fstat :: "nat \<Rightarrow> kern \<Rightarrow> (int \<times> kern) res" where
  "sys_fstat c k =
     kproc c k (\<lambda>i p. rbind (argfd p 0) (\<lambda>a. rbind (argptr p 1 20) (\<lambda>q. case (a, q) of
         (Some (_, f), Some q) \<Rightarrow>
           rbind (filestat c f k) (\<lambda>(st, k). case st of
               None \<Rightarrow> Inr (-1, k)
             | Some st \<Rightarrow> rbind (store_stat p q st k) (\<lambda>k. Inr (0, k)))
       | _ \<Rightarrow> Inr (-1, k))))"

section \<open>Directories\<close>

function isdirempty_loop :: "'z fstate_scheme devsw list \<Rightarrow> nat \<Rightarrow> nat \<Rightarrow> nat \<Rightarrow> 'z fstate_scheme \<Rightarrow> (bool \<times> 'z fstate_scheme) res" where
  "isdirempty_loop dv dp dsize off s =
     (if off < dsize then
        rbind (readi dv dp (word_of_nat off) 16 s) (\<lambda>((r, de), s).
        if r \<noteq> 16 then Inl (Panic ''isdirempty: readi'')
        else if de_inum de \<noteq> 0 then Inr (False, s)
        else isdirempty_loop dv dp dsize (off + DIRENT) s)
      else Inr (True, s))"
  by pat_completeness auto

termination
  by (relation "measure (\<lambda>(_, _, dsize, off, _). dsize - off)") (auto simp: DIRENT_def)

declare isdirempty_loop.simps [simp del]

definition isdirempty :: "'z fstate_scheme devsw list \<Rightarrow> nat \<Rightarrow> 'z fstate_scheme \<Rightarrow> (bool \<times> 'z fstate_scheme) res" where
  "isdirempty dv dp s = isdirempty_loop dv dp (unat (i_size (inodes s ! dp))) (2 * DIRENT) s"

definition fail_op :: "'z fstate_scheme \<Rightarrow> (int \<times> 'z fstate_scheme) res" where
  "fail_op s = rbind (end_op s) (\<lambda>s. Inr (-1, s))"

definition set_nlink :: "nat \<Rightarrow> (u16 \<Rightarrow> u16) \<Rightarrow> 'z fstate_scheme \<Rightarrow> 'z fstate_scheme res" where
  "set_nlink ip f s = iupdate ip (upd_inode ip (\<lambda>n. n\<lparr>i_nlink := f (i_nlink n)\<rparr>) s)"

text \<open>The label \<open>bad\<close> of \<open>sys_link\<close>.\<close>

definition link_bad :: "nat \<Rightarrow> 'z fstate_scheme \<Rightarrow> (int \<times> 'z fstate_scheme) res" where
  "link_bad ip s =
     rbind (ilock ip s) (\<lambda>s. rbind (set_nlink ip (\<lambda>n. n - 1) s) (\<lambda>s.
     rbind (iunlockput ip s) fail_op))"

definition link_op :: "'z fstate_scheme devsw list \<Rightarrow> u8 list \<Rightarrow> u8 list \<Rightarrow> 'z fstate_scheme \<Rightarrow> (int \<times> 'z fstate_scheme) res" where
  "link_op dv old new s =
     rbind (begin_op s) (\<lambda>s. rbind (namei dv old s) (\<lambda>(ip, s). case ip of
         None \<Rightarrow> fail_op s
       | Some ip \<Rightarrow>
         rbind (ilock ip s) (\<lambda>s.
         if i_type (inodes s ! ip) = T_DIR then rbind (iunlockput ip s) fail_op
         else rbind (set_nlink ip (\<lambda>n. n + 1) s) (\<lambda>s. rbind (iunlock ip s) (\<lambda>s.
           rbind (nameiparent dv new (\<lambda>_. 0) s) (\<lambda>((dp, name), s). case dp of
               None \<Rightarrow> link_bad ip s
             | Some dp \<Rightarrow>
               rbind (ilock dp s) (\<lambda>s.
               rbind (if i_dev (inodes s ! dp) \<noteq> i_dev (inodes s ! ip) then Inr (-1, s)
                      else dirlink dv dp name (i_inum (inodes s ! ip)) s) (\<lambda>(r, s).
               rbind (iunlockput dp s) (\<lambda>s.
               if r < 0 then link_bad ip s
               else rbind (iput ip s) (\<lambda>s. rbind (end_op s) (\<lambda>s. Inr (0, s))))))))))))"

definition ustr :: "proc \<Rightarrow> kern \<Rightarrow> int \<Rightarrow> u8 list option res" where
  "ustr p k n = rbind (argstr (kview p k) p n) (\<lambda>a. Inr (map_option (\<lambda>(q, len). get_bytes (kview p k) q len) a))"

definition sys_link :: "nat \<Rightarrow> drivers \<Rightarrow> kern \<Rightarrow> (int \<times> kern) res" where
  "sys_link c dv k =
     kproc c k (\<lambda>i p. rbind (ustr p k 0) (\<lambda>old. rbind (ustr p k 1) (\<lambda>new. case (old, new) of
         (Some old, Some new) \<Rightarrow> fs_call c (link_op dv old new) k
       | _ \<Rightarrow> Inr (-1, k))))"

definition name_dot :: "nat \<Rightarrow> u8" where "name_dot = (\<lambda>_. 0)(0 := 46)"
definition name_dotdot :: "nat \<Rightarrow> u8" where "name_dotdot = (\<lambda>_. 0)(0 := 46, 1 := 46)"

text \<open>The label \<open>bad\<close> of \<open>sys_unlink\<close>.\<close>

definition unlink_bad :: "nat \<Rightarrow> 'z fstate_scheme \<Rightarrow> (int \<times> 'z fstate_scheme) res" where
  "unlink_bad dp s = rbind (iunlockput dp s) fail_op"

definition unlink_op :: "'z fstate_scheme devsw list \<Rightarrow> u8 list \<Rightarrow> 'z fstate_scheme \<Rightarrow> (int \<times> 'z fstate_scheme) res" where
  "unlink_op dv path s =
     rbind (begin_op s) (\<lambda>s. rbind (nameiparent dv path (\<lambda>_. 0) s) (\<lambda>((dp, name), s). case dp of
         None \<Rightarrow> fail_op s
       | Some dp \<Rightarrow>
         rbind (ilock dp s) (\<lambda>s.
         if namecmp name name_dot = 0 \<or> namecmp name name_dotdot = 0 then unlink_bad dp s
         else rbind (dirlookup dv dp name s) (\<lambda>(r, s). case r of
             None \<Rightarrow> unlink_bad dp s
           | Some (ip, off) \<Rightarrow>
             rbind (ilock ip s) (\<lambda>s.
             if sint (i_nlink (inodes s ! ip)) < 1 then Inl (Panic ''unlink: nlink < 1'')
             else rbind (if i_type (inodes s ! ip) = T_DIR then isdirempty dv ip s else Inr (True, s)) (\<lambda>(e, s).
               if \<not> e then rbind (iunlockput ip s) (unlink_bad dp)
               else rbind (writei dv dp (replicate DIRENT 0) off 16 s) (\<lambda>(r, s).
                 if r \<noteq> 16 then Inl (Panic ''unlink: writei'')
                 else rbind (if i_type (inodes s ! ip) = T_DIR then set_nlink dp (\<lambda>n. n - 1) s else Inr s) (\<lambda>s.
                   rbind (iunlockput dp s) (\<lambda>s.
                   rbind (set_nlink ip (\<lambda>n. n - 1) s) (\<lambda>s.
                   rbind (iunlockput ip s) (\<lambda>s. rbind (end_op s) (\<lambda>s. Inr (0, s)))))))))))))"

definition sys_unlink :: "nat \<Rightarrow> drivers \<Rightarrow> kern \<Rightarrow> (int \<times> kern) res" where
  "sys_unlink c dv k =
     kproc c k (\<lambda>i p. rbind (ustr p k 0) (\<lambda>path. case path of
         Some path \<Rightarrow> fs_call c (unlink_op dv path) k
       | None \<Rightarrow> Inr (-1, k)))"

definition create_dots :: "'z fstate_scheme devsw list \<Rightarrow> nat \<Rightarrow> nat \<Rightarrow> 'z fstate_scheme \<Rightarrow> 'z fstate_scheme res" where
  "create_dots dv dp ip s =
     rbind (set_nlink dp (\<lambda>n. n + 1) s) (\<lambda>s.
     rbind (dirlink dv ip name_dot (i_inum (inodes s ! ip)) s) (\<lambda>(r, s).
     if r < 0 then Inl (Panic ''create dots'')
     else rbind (dirlink dv ip name_dotdot (i_inum (inodes s ! dp)) s) (\<lambda>(r, s).
       if r < 0 then Inl (Panic ''create dots'') else Inr s)))"

definition create :: "'z fstate_scheme devsw list \<Rightarrow> u8 list \<Rightarrow> u16 \<Rightarrow> u16 \<Rightarrow> u16 \<Rightarrow> 'z fstate_scheme \<Rightarrow>
    (nat option \<times> 'z fstate_scheme) res" where
  "create dv path ty major minor s =
     rbind (nameiparent dv path (\<lambda>_. 0) s) (\<lambda>((dp, name), s). case dp of
         None \<Rightarrow> Inr (None, s)
       | Some dp \<Rightarrow>
         rbind (ilock dp s) (\<lambda>s.
         rbind (dirlookup dv dp name s) (\<lambda>(r, s). case r of
             Some (ip, _) \<Rightarrow>
               rbind (iunlockput dp s) (\<lambda>s. rbind (ilock ip s) (\<lambda>s.
               if ty = T_FILE \<and> i_type (inodes s ! ip) = T_FILE then Inr (Some ip, s)
               else rbind (iunlockput ip s) (\<lambda>s. Inr (None, s))))
           | None \<Rightarrow>
               rbind (ialloc (i_dev (inodes s ! dp)) ty s) (\<lambda>(ip, s).
               rbind (ilock ip s) (\<lambda>s.
               rbind (iupdate ip (upd_inode ip (\<lambda>n. n\<lparr>i_major := major, i_minor := minor, i_nlink := 1\<rparr>) s)) (\<lambda>s.
               rbind (if ty = T_DIR then create_dots dv dp ip s else Inr s) (\<lambda>s.
               rbind (dirlink dv dp name (i_inum (inodes s ! ip)) s) (\<lambda>(r, s).
               if r < 0 then Inl (Panic ''create: dirlink'')
               else rbind (iunlockput dp s) (\<lambda>s. Inr (Some ip, s))))))))))"

section \<open>Opening and making files\<close>

definition O_WRONLY :: u32 where "O_WRONLY = 0x001"
definition O_RDWR :: u32 where "O_RDWR = 0x002"
definition O_CREATE :: u32 where "O_CREATE = 0x200"

text \<open>\<open>sys_open\<close> up to the allocation of the file: the locked inode, or none after \<open>end_op\<close>.\<close>

definition open_op :: "'z fstate_scheme devsw list \<Rightarrow> u8 list \<Rightarrow> u32 \<Rightarrow> 'z fstate_scheme \<Rightarrow> (nat option \<times> 'z fstate_scheme) res" where
  "open_op dv path omode s =
     rbind (begin_op s) (\<lambda>s.
     if omode AND O_CREATE \<noteq> 0 then
       rbind (create dv path T_FILE 0 0 s) (\<lambda>(ip, s). case ip of
           None \<Rightarrow> rbind (end_op s) (\<lambda>s. Inr (None, s))
         | Some ip \<Rightarrow> Inr (Some ip, s))
     else rbind (namei dv path s) (\<lambda>(ip, s). case ip of
         None \<Rightarrow> rbind (end_op s) (\<lambda>s. Inr (None, s))
       | Some ip \<Rightarrow>
           rbind (ilock ip s) (\<lambda>s.
           if i_type (inodes s ! ip) = T_DIR \<and> omode \<noteq> 0
           then rbind (iunlockput ip s) (\<lambda>s. rbind (end_op s) (\<lambda>s. Inr (None, s)))
           else Inr (Some ip, s))))"

definition open_fail :: "nat \<Rightarrow> nat \<Rightarrow> kern \<Rightarrow> (int \<times> kern) res" where
  "open_fail c ip k = fs_call c (\<lambda>s. rbind (iunlockput ip s) fail_op) k"

definition sys_open :: "nat \<Rightarrow> drivers \<Rightarrow> kern \<Rightarrow> (int \<times> kern) res" where
  "sys_open c dv k =
     kproc c k (\<lambda>i p. rbind (ustr p k 0) (\<lambda>path. rbind (argint p 1) (\<lambda>om. case path of
         None \<Rightarrow> Inr (-1, k)
       | Some path \<Rightarrow>
         let omode = uint_of_int om in
         rbind (fs_call c (open_op dv path omode) k) (\<lambda>(ip, k). case ip of
             None \<Rightarrow> Inr (-1, k)
           | Some ip \<Rightarrow>
             (case filealloc k of
                (None, k) \<Rightarrow> open_fail c ip k
              | (Some f, k) \<Rightarrow>
                (case fdalloc i f k of
                   (None, k) \<Rightarrow> rbind (fileclose c f k) (open_fail c ip)
                 | (Some fd, k) \<Rightarrow>
                   rbind (fs_do c (\<lambda>s. rbind (iunlock ip s) end_op) k) (\<lambda>k.
                   Inr (int fd, upd_file f (\<lambda>x. x\<lparr>f_type := FD_INODE, f_ip := ip, f_off := 0,
                          f_readable := (if omode AND O_WRONLY = 0 then 1 else 0),
                          f_writable := (if omode AND O_WRONLY \<noteq> 0 \<or> omode AND O_RDWR \<noteq> 0 then 1 else 0)\<rparr>) k))))))))"

text \<open>\<open>sys_mkdir\<close> and \<open>sys_mknod\<close> start the operation before they look at the path.\<close>

definition mk_op :: "'z fstate_scheme devsw list \<Rightarrow> u8 list option \<Rightarrow> u16 \<Rightarrow> u16 \<Rightarrow> u16 \<Rightarrow> 'z fstate_scheme \<Rightarrow> (int \<times> 'z fstate_scheme) res" where
  "mk_op dv path ty major minor s =
     rbind (begin_op s) (\<lambda>s.
     rbind (case path of None \<Rightarrow> Inr (None, s) | Some path \<Rightarrow> create dv path ty major minor s) (\<lambda>(ip, s).
     case ip of
       None \<Rightarrow> fail_op s
     | Some ip \<Rightarrow> rbind (iunlockput ip s) (\<lambda>s. rbind (end_op s) (\<lambda>s. Inr (0, s)))))"

definition sys_mkdir :: "nat \<Rightarrow> drivers \<Rightarrow> kern \<Rightarrow> (int \<times> kern) res" where
  "sys_mkdir c dv k =
     kproc c k (\<lambda>i p. rbind (ustr p k 0) (\<lambda>path. fs_call c (mk_op dv path T_DIR 0 0) k))"

definition sys_mknod :: "nat \<Rightarrow> drivers \<Rightarrow> kern \<Rightarrow> (int \<times> kern) res" where
  "sys_mknod c dv k =
     kproc c k (\<lambda>i p. rbind (ustr p k 0) (\<lambda>path. rbind (argint p 1) (\<lambda>major. rbind (argint p 2) (\<lambda>minor.
       fs_call c (mk_op dv path T_DEV (word_of_int major) (word_of_int minor)) k))))"

definition chdir_op :: "'z fstate_scheme devsw list \<Rightarrow> u8 list option \<Rightarrow> 'z fstate_scheme \<Rightarrow> (nat option \<times> 'z fstate_scheme) res" where
  "chdir_op dv path s =
     rbind (begin_op s) (\<lambda>s.
     rbind (case path of None \<Rightarrow> Inr (None, s) | Some path \<Rightarrow> namei dv path s) (\<lambda>(ip, s).
     case ip of
       None \<Rightarrow> rbind (end_op s) (\<lambda>s. Inr (None, s))
     | Some ip \<Rightarrow>
         rbind (ilock ip s) (\<lambda>s.
         if i_type (inodes s ! ip) \<noteq> T_DIR
         then rbind (iunlockput ip s) (\<lambda>s. rbind (end_op s) (\<lambda>s. Inr (None, s)))
         else rbind (iunlock ip s) (\<lambda>s. rbind (iput (fs_cwd s) s) (\<lambda>s. rbind (end_op s) (\<lambda>s. Inr (Some ip, s)))))))"

definition sys_chdir :: "nat \<Rightarrow> drivers \<Rightarrow> kern \<Rightarrow> (int \<times> kern) res" where
  "sys_chdir c dv k =
     kproc c k (\<lambda>i p. rbind (ustr p k 0) (\<lambda>path.
       rbind (fs_call c (chdir_op dv path) k) (\<lambda>(ip, k). case ip of
           None \<Rightarrow> Inr (-1, k)
         | Some ip \<Rightarrow> Inr (0, kupd_proc i (\<lambda>p. p\<lparr>cwd := Some ip\<rparr>) k))))"

definition sys_pipe :: "nat \<Rightarrow> kern \<Rightarrow> (int \<times> kern) res" where
  "sys_pipe c k =
     kproc c k (\<lambda>i p. rbind (argptr p 0 8) (\<lambda>q. case q of None \<Rightarrow> Inr (-1, k) | Some q \<Rightarrow>
       rbind (pipealloc c k) (\<lambda>(fs, k). case fs of None \<Rightarrow> Inr (-1, k) | Some (r1, w1) \<Rightarrow>
         (case fdalloc i r1 k of
            (None, k) \<Rightarrow> rbind (fileclose c r1 k) (\<lambda>k. rbind (fileclose c w1 k) (\<lambda>k. Inr (-1, k)))
          | (Some fd0, k) \<Rightarrow>
            (case fdalloc i w1 k of
               (None, k) \<Rightarrow>
                 rbind (fileclose c r1 (kupd_proc i (\<lambda>p. p\<lparr>ofile := (ofile p)[fd0 := None]\<rparr>) k)) (\<lambda>k.
                 rbind (fileclose c w1 k) (\<lambda>k. Inr (-1, k)))
             | (Some fd1, k) \<Rightarrow>
                 rbind (kstore p q (le32 (word_of_nat fd0)) k) (\<lambda>k.
                 rbind (kstore p (q + 4) (le32 (word_of_nat fd1)) k) (\<lambda>k. Inr (0, k))))))))"

end
