(* ===== verification/Exec.thy ===== *)
theory Exec
  imports Sysfile
begin

text \<open>
  \<open>exec.c\<close>: \<open>loaduvm\<close> of \<open>vm.c\<close>, the loading of the program segments, the initial stack and
  the commit to the new image, and \<open>sys_exec\<close> of \<open>sysfile.c\<close>. Strings are byte lists without
  their terminator.
\<close>

section \<open>Loading segments\<close>

definition ELF_MAGIC :: u32 where "ELF_MAGIC = 0x464C457F"
definition ELF_PROG_LOAD :: u32 where "ELF_PROG_LOAD = 1"
definition MAXARG :: nat where "MAXARG = 32"

text \<open>The fields of \<open>struct elfhdr\<close> (64 bytes) and \<open>struct proghdr\<close> (56 bytes) that are read.\<close>

definition elf_magic :: "u8 list \<Rightarrow> u32" where "elf_magic b = ld32 ((!) b) 0"
definition elf_entry :: "u8 list \<Rightarrow> u64" where "elf_entry b = ld64 ((!) b) 24"
definition elf_phoff :: "u8 list \<Rightarrow> u64" where "elf_phoff b = ld64 ((!) b) 32"
definition elf_phnum :: "u8 list \<Rightarrow> u16" where "elf_phnum b = ld16 ((!) b) 56"

definition ph_type :: "u8 list \<Rightarrow> u32" where "ph_type b = ld32 ((!) b) 0"
definition ph_off :: "u8 list \<Rightarrow> u64" where "ph_off b = ld64 ((!) b) 8"
definition ph_vaddr :: "u8 list \<Rightarrow> u64" where "ph_vaddr b = ld64 ((!) b) 16"
definition ph_filesz :: "u8 list \<Rightarrow> u64" where "ph_filesz b = ld64 ((!) b) 32"
definition ph_memsz :: "u8 list \<Rightarrow> u64" where "ph_memsz b = ld64 ((!) b) 40"

text \<open>
  The loop of \<open>loaduvm\<close>. Its 32-bit counter starts over at 0 when it passes the last page
  below 4 GB.
\<close>

function loaduvm_loop :: "nat \<Rightarrow> drivers \<Rightarrow> u64 \<Rightarrow> u64 \<Rightarrow> nat \<Rightarrow> u32 \<Rightarrow> u32 \<Rightarrow> u32 \<Rightarrow> kern \<Rightarrow> (int \<times> kern) res" where
  "loaduvm_loop c dv pgd addr ip offset n i k =
     (if i < n then
        rbind (mem_call (walkpgdir pgd (addr + ucast i) False) k) (\<lambda>(pte, k). case pte of
            None \<Rightarrow> Inl (Panic ''loaduvm: address should exist'')
          | Some pte \<Rightarrow>
            let pa = pte_addr (ld64 (pm (ks_m k)) pte); m = (if n - i < 4096 then n - i else 4096) in
            rbind (fs_call c (readi dv ip (offset + i) m) k) (\<lambda>((r, bs), k).
            let k = k\<lparr>ks_m := (ks_m k)\<lparr>pm := put_bytes (p2v pa) bs (pm (ks_m k))\<rparr>\<rparr> in
            if r \<noteq> int_of_uint m then Inr (-1, k)
            else if i + 4096 \<le> i then Inl Diverges
            else loaduvm_loop c dv pgd addr ip offset n (i + 4096) k))
      else Inr (0, k))"
  by pat_completeness auto

termination
  by (relation "measure (\<lambda>(_, _, _, _, _, _, n, i, _). unat n - unat i)")
    (auto simp: not_le word_less_nat_alt)

declare loaduvm_loop.simps [simp del]

definition loaduvm :: "nat \<Rightarrow> drivers \<Rightarrow> u64 \<Rightarrow> u64 \<Rightarrow> nat \<Rightarrow> u32 \<Rightarrow> u32 \<Rightarrow> kern \<Rightarrow> (int \<times> kern) res" where
  "loaduvm c dv pgd addr ip offset n k =
     (if addr mod PGSIZE \<noteq> 0 then Inl (Panic ''loaduvm: addr must be page aligned'')
      else loaduvm_loop c dv pgd addr ip offset n 0 k)"

text \<open>The loop over the program headers: the new size, or none at \<open>goto bad\<close>.\<close>

fun load_segs :: "nat \<Rightarrow> drivers \<Rightarrow> nat \<Rightarrow> u64 \<Rightarrow> nat \<Rightarrow> u32 \<Rightarrow> u64 \<Rightarrow> kern \<Rightarrow> (u64 option \<times> kern) res" where
  "load_segs c dv ip pgd 0 off n k = Inr (Some n, k)"
| "load_segs c dv ip pgd (Suc r) off n k =
     rbind (fs_call c (readi dv ip off 56) k) (\<lambda>((q, ph), k).
     if q \<noteq> 56 then Inr (None, k)
     else if ph_type ph \<noteq> ELF_PROG_LOAD then load_segs c dv ip pgd r (off + 56) n k
     else if ph_memsz ph < ph_filesz ph then Inr (None, k)
     else if ph_vaddr ph + ph_memsz ph < ph_vaddr ph then Inr (None, k)
     else rbind (mem_call (allocuvm pgd n (ph_vaddr ph + ph_memsz ph)) k) (\<lambda>(n, k).
       if n = 0 then Inr (None, k)
       else if ph_vaddr ph mod PGSIZE \<noteq> 0 then Inr (None, k)
       else rbind (loaduvm c dv pgd (ph_vaddr ph) ip (ucast (ph_off ph)) (ucast (ph_filesz ph)) k) (\<lambda>(q, k).
         if q < 0 then Inr (None, k) else load_segs c dv ip pgd r (off + 56) n k)))"

section \<open>The initial stack\<close>

text \<open>
  The argument strings are pushed downwards at multiples of 8; the result is the stack pointer
  with the addresses of the strings.
\<close>

fun push_args :: "u64 \<Rightarrow> nat \<Rightarrow> u64 \<Rightarrow> u8 list list \<Rightarrow> memst \<Rightarrow> ((u64 \<times> u64 list) option \<times> memst) res" where
  "push_args pgd argc sp [] m = Inr (Some (sp, []), m)"
| "push_args pgd argc sp (a # argv) m =
     (if argc \<ge> MAXARG then Inr (None, m)
      else let sp = (sp - (word_of_nat (length a) + 1)) AND NOT 7 in
        rbind (copyout pgd sp (a @ [0]) m) (\<lambda>(r, m).
        if r < 0 then Inr (None, m)
        else rbind (push_args pgd (Suc argc) sp argv m) (\<lambda>(q, m).
          Inr (map_option (\<lambda>(sp', ptrs). (sp', sp # ptrs)) q, m))))"

definition le64 :: "u64 \<Rightarrow> u8 list" where
  "le64 w = map (\<lambda>i. ucast (drop_bit (8 * i) w)) [0..<8]"

definition ustack :: "u64 list \<Rightarrow> u8 list" where
  "ustack ptrs = concat (map le64 ([0xffffffffffffffff] @ ptrs @ [0]))"

definition exec_bad :: "nat \<Rightarrow> u64 \<Rightarrow> nat option \<Rightarrow> kern \<Rightarrow> (int \<times> kern) res" where
  "exec_bad c pgd ip k =
     rbind (if pgd \<noteq> 0 then rbind (freevm pgd (ks_m k)) (\<lambda>m. Inr (k\<lparr>ks_m := m\<rparr>)) else Inr k) (\<lambda>k.
     rbind (case ip of None \<Rightarrow> Inr k | Some ip \<Rightarrow> fs_do c (\<lambda>s. rbind (iunlockput ip s) end_op) k) (\<lambda>k.
     Inr (-1, k)))"

definition basename :: "u8 list \<Rightarrow> u8 list" where
  "basename path = rev (takeWhile (\<lambda>b. b \<noteq> 47) (rev path))"

text \<open>\<open>exec\<close> from the commit to the user image on.\<close>

definition exec_commit :: "nat \<Rightarrow> nat \<Rightarrow> u64 \<Rightarrow> u64 \<Rightarrow> u64 \<Rightarrow> u64 \<Rightarrow> u8 list \<Rightarrow> kern \<Rightarrow> (int \<times> kern) res" where
  "exec_commit c i pgd epc n sp path k =
     (let old = pgdir (ptable (ks_p k) ! i);
          k = kupd_proc i (\<lambda>p. p\<lparr>pname := safestrcpy_name (basename path @ [0]) (pname p),
                pgdir := pgd, sz := n, tf := (tf p)\<lparr>rip := epc, rcx := epc, rsp := sp\<rparr>\<rparr>) k in
      rbind (switchuvm c i (ks_p k)) (\<lambda>ps.
      rbind (freevm old (ks_m k)) (\<lambda>m.
      Inr (0, k\<lparr>ks_p := ps, ks_m := m\<rparr>))))"

text \<open>\<open>exec\<close> from the allocation of the stack on.\<close>

definition exec_stack :: "nat \<Rightarrow> nat \<Rightarrow> u64 \<Rightarrow> u64 \<Rightarrow> u8 list \<Rightarrow> u8 list list \<Rightarrow> u64 \<Rightarrow> kern \<Rightarrow> (int \<times> kern) res" where
  "exec_stack c i pgd epc path argv n k =
     (let n = pgroundup n in
      rbind (mem_call (allocuvm pgd n (n + 2 * PGSIZE)) k) (\<lambda>(n, k).
      if n = 0 then exec_bad c pgd None k
      else rbind (clearpteu pgd (n - 2 * PGSIZE) (ks_m k)) (\<lambda>m.
        rbind (mem_call (push_args pgd 0 n argv) (k\<lparr>ks_m := m\<rparr>)) (\<lambda>(q, k). case q of
            None \<Rightarrow> exec_bad c pgd None k
          | Some (sp, ptrs) \<Rightarrow>
            let argc = word_of_nat (length ptrs);
                k = kupd_proc i (\<lambda>p. p\<lparr>tf := (tf p)\<lparr>rdi := argc, rsi := sp - (argc + 1) * 8\<rparr>\<rparr>) k;
                sp = sp - (1 + argc + 1) * 8 in
            rbind (mem_call (copyout pgd sp (ustack ptrs)) k) (\<lambda>(r, k).
            if r < 0 then exec_bad c pgd None k
            else exec_commit c i pgd epc n sp path k)))))"

definition exec_lookup :: "'z fstate_scheme devsw list \<Rightarrow> u8 list \<Rightarrow> 'z fstate_scheme \<Rightarrow> (nat option \<times> 'z fstate_scheme) res" where
  "exec_lookup dv path s =
     rbind (begin_op s) (\<lambda>s. rbind (namei dv path s) (\<lambda>(ip, s). case ip of
         None \<Rightarrow> rbind (end_op s) (\<lambda>s. Inr (None, s))
       | Some ip \<Rightarrow> rbind (ilock ip s) (\<lambda>s. Inr (Some ip, s))))"

definition exec :: "nat \<Rightarrow> drivers \<Rightarrow> u8 list \<Rightarrow> u8 list list \<Rightarrow> kern \<Rightarrow> (int \<times> kern) res" where
  "exec c dv path argv k =
     kproc c k (\<lambda>i p.
     rbind (fs_call c (exec_lookup dv path) k) (\<lambda>(ip, k). case ip of
         None \<Rightarrow> Inr (-1, k)
       | Some ip \<Rightarrow>
         rbind (fs_call c (readi dv ip 0 64) k) (\<lambda>((r, elf), k).
         if r \<noteq> 64 then exec_bad c 0 (Some ip) k
         else if elf_magic elf \<noteq> ELF_MAGIC then exec_bad c 0 (Some ip) k
         else rbind (mem_call (setupkvm (kpdpt k)) k) (\<lambda>(pgd, k).
           if pgd = 0 then exec_bad c 0 (Some ip) k
           else rbind (load_segs c dv ip pgd (unat (elf_phnum elf)) (ucast (elf_phoff elf)) PGSIZE k) (\<lambda>(n, k).
             case n of
               None \<Rightarrow> exec_bad c pgd (Some ip) k
             | Some n \<Rightarrow>
                 rbind (fs_do c (\<lambda>s. rbind (iunlockput ip s) end_op) k)
                   (exec_stack c i pgd (elf_entry elf) path argv n))))))"

fun fetch_argv :: "mem \<Rightarrow> proc \<Rightarrow> u64 \<Rightarrow> nat \<Rightarrow> u8 list list option" where
  "fetch_argv um p uargv 0 = None"
| "fetch_argv um p uargv (Suc r) =
     (case fetchaddr um p uargv of
        None \<Rightarrow> None
      | Some uarg \<Rightarrow>
          if uarg = 0 then Some []
          else (case fetchstr um p uarg of
              None \<Rightarrow> None
            | Some (q, len) \<Rightarrow> map_option ((#) (get_bytes um q len)) (fetch_argv um p (uargv + 8) r)))"

definition sys_exec :: "nat \<Rightarrow> drivers \<Rightarrow> kern \<Rightarrow> (int \<times> kern) res" where
  "sys_exec c dv k =
     kproc c k (\<lambda>i p. rbind (ustr p k 0) (\<lambda>path. rbind (argaddr p 1) (\<lambda>uargv. case path of
         None \<Rightarrow> Inr (-1, k)
       | Some path \<Rightarrow>
           (case fetch_argv (kview p k) p uargv MAXARG of
              None \<Rightarrow> Inr (-1, k)
            | Some argv \<Rightarrow> exec c dv path argv k))))"

end
