(* ===== verification/Kernel.thy ===== *)
theory Kernel
  imports Exec Cpus
begin

text \<open>
  The process system calls on the whole kernel state (\<open>allocproc\<close>, \<open>userinit\<close>, \<open>growproc\<close>,
  \<open>fork\<close>, \<open>exit\<close>, \<open>wait\<close>, \<open>forkret\<close> and \<open>check_signals\<close> of \<open>proc.c\<close>), the dispatch of
  system calls in \<open>syscall.c\<close> and the part of \<open>trap\<close> that follows an interrupt.
\<close>

section \<open>Creating processes\<close>

definition lift_ps :: "(pstate \<Rightarrow> ('a \<times> pstate) res) \<Rightarrow> kern \<Rightarrow> ('a \<times> kern) res" where
  "lift_ps f k = rbind (f (ks_p k)) (\<lambda>(r, s). Inr (r, k\<lparr>ks_p := s\<rparr>))"

definition allocproc :: "kern \<Rightarrow> (nat option \<times> kern) res" where
  "allocproc k =
     (case alloc_slot (ks_p k) of
        (None, s) \<Rightarrow> Inr (None, k\<lparr>ks_p := s\<rparr>)
      | (Some j, s) \<Rightarrow>
          rbind (mem_call kalloc (k\<lparr>ks_p := s\<rparr>)) (\<lambda>(kst, k).
          Inr (if kst = 0 then None else Some j, kupd_proc j (alloc_context kst) k)))"

text \<open>\<open>initcode\<close> is the address of the first program in the kernel image and \<open>n\<close> its size.\<close>

definition userinit :: "drivers \<Rightarrow> u64 \<Rightarrow> u64 \<Rightarrow> kern \<Rightarrow> kern res" where
  "userinit dv initcode n k =
     rbind (allocproc k) (\<lambda>(j, k). case j of None \<Rightarrow> Inl NullPointer | Some j \<Rightarrow>
     let k = k\<lparr>ks_p := (ks_p k)\<lparr>initproc := Some j\<rparr>\<rparr> in
     rbind (mem_call (setupkvm (kpdpt k)) k) (\<lambda>(pg, k).
     if pg = 0 then Inl (Panic ''userinit: out of memory?'')
     else rbind (inituvm pg initcode (ucast n) (ks_m k)) (\<lambda>m.
       rbind (namei dv [47] (ks_f k)) (\<lambda>(root, s).
       Inr (kupd_proc j (userinit_slot pg root) (k\<lparr>ks_m := m, ks_f := s\<rparr>))))))"

definition dup_files :: "proc \<Rightarrow> kern \<Rightarrow> kern res" where
  "dup_files p k =
     for_range 0 NOFILE (\<lambda>fd k. case ofile p ! fd of
         None \<Rightarrow> Inr k
       | Some f \<Rightarrow> rbind (filedup f k) (\<lambda>(_, k). Inr k)) k"

definition fork :: "nat \<Rightarrow> kern \<Rightarrow> (int \<times> kern) res" where
  "fork c k =
     kproc c k (\<lambda>i _. rbind (allocproc k) (\<lambda>(j, k). case j of None \<Rightarrow> Inr (-1, k) | Some j \<Rightarrow>
       let p = ptable (ks_p k) ! i in
       rbind (mem_call (copyuvm (kpdpt k) (pgdir p) (ucast (sz p))) k) (\<lambda>(pg, k). case pg of
           None \<Rightarrow>
             rbind (kfree (kstack (ptable (ks_p k) ! j)) (ks_m k)) (\<lambda>m.
             Inr (-1, kupd_proc j (fork_child i p 0) (k\<lparr>ks_m := m\<rparr>)))
         | Some pg \<Rightarrow>
             rbind (dup_files p k) (\<lambda>k. case cwd p of
                 None \<Rightarrow> Inl NullPointer
               | Some d \<Rightarrow>
                   let k = kupd_proc j (fork_child i p pg) (k\<lparr>ks_f := snd (idup d (ks_f k))\<rparr>)
                   in Inr (pid (ptable (ks_p k) ! j), k)))))"

definition growproc :: "nat \<Rightarrow> u64 \<Rightarrow> kern \<Rightarrow> (int \<times> kern) res" where
  "growproc c n k =
     kproc c k (\<lambda>i p.
       rbind (if sint n > 0 then mem_call (allocuvm (pgdir p) (sz p) (sz p + n)) k
              else if sint n < 0 then mem_call (deallocuvm (pgdir p) (sz p) (sz p + n)) k
              else Inr (sz p, k)) (\<lambda>(z, k).
       if n \<noteq> 0 \<and> z = 0 then Inr (-1, k)
       else let k = kupd_proc i (\<lambda>p. p\<lparr>sz := z\<rparr>) k in
         rbind (switchuvm c i (ks_p k)) (\<lambda>s. Inr (0, k\<lparr>ks_p := s\<rparr>))))"

text \<open>The first return from \<open>forkret\<close> (\<open>first\<close>) reads the super block and recovers the log.\<close>

definition forkret :: "nat \<Rightarrow> bool \<Rightarrow> kern \<Rightarrow> (bool \<times> kern) res" where
  "forkret c first k =
     (if first then rbind (fs_do c (\<lambda>s. rbind (iinit 1 s) (initlog 1)) k) (\<lambda>k. Inr (False, k))
      else Inr (False, k))"

section \<open>Ending processes\<close>

definition close_files :: "nat \<Rightarrow> nat \<Rightarrow> kern \<Rightarrow> kern res" where
  "close_files c i k =
     for_range 0 NOFILE (\<lambda>fd k. case ofile (ptable (ks_p k) ! i) ! fd of
         None \<Rightarrow> Inr k
       | Some f \<Rightarrow>
           rbind (fileclose c f k) (\<lambda>k.
           Inr (kupd_proc i (\<lambda>p. p\<lparr>ofile := (ofile p)[fd := None]\<rparr>) k))) k"

definition exit :: "nat \<Rightarrow> kern \<Rightarrow> kern res" where
  "exit c k =
     kproc c k (\<lambda>i p.
       if initproc (ks_p k) = Some i then Inl (Panic ''init exiting'')
       else rbind (close_files c i k) (\<lambda>k.
         rbind (fs_do c (\<lambda>s. rbind (begin_op s) (\<lambda>s. rbind (iput (fs_cwd s) s) end_op)) k) (\<lambda>k.
         let k = kupd_proc i (\<lambda>p. p\<lparr>cwd := None\<rparr>) k in
         rbind (exit_ptable c (ks_p k)) (\<lambda>s. Inr (k\<lparr>ks_p := s\<rparr>)))))"

text \<open>One scan of \<open>wait\<close>: a value, or none when the process sleeps and scans again later.\<close>

definition wait_round :: "nat \<Rightarrow> kern \<Rightarrow> (int option \<times> kern) res" where
  "wait_round c k =
     kproc c k (\<lambda>i p. case wait_zombie i (ptable (ks_p k)) of
         Some j \<Rightarrow>
           let q = ptable (ks_p k) ! j in
           rbind (kfree (kstack q) (ks_m k)) (\<lambda>m.
           rbind (freevm (pgdir q) m) (\<lambda>m.
           Inr (Some (pid q), kupd_proc j reap_slot (k\<lparr>ks_m := m\<rparr>))))
       | None \<Rightarrow>
           if \<not> havekids i (ptable (ks_p k)) \<or> killed p \<noteq> 0 then Inr (Some (-1), k)
           else rbind (sleep (Ch_proc i) (Some PtableLock) c (upd_cpu c pushcli (ks_p k))) (\<lambda>s.
             Inr (None, k\<lparr>ks_p := s\<rparr>)))"

section \<open>Signals\<close>

definition sigret_code :: "u8 list" where
  "sigret_code = [0x48, 0xc7, 0xc0, 0x18, 0x00, 0x00, 0x00, 0x49, 0x89, 0xca, 0x0f, 0x05, 0xc3]"

datatype sysres = Value u64 | Asleep | Gone

definition exits :: "nat \<Rightarrow> kern \<Rightarrow> (sysres \<times> kern) res" where
  "exits c k = rbind (exit c k) (\<lambda>k. Inr (Gone, k))"

text \<open>The frame that enters the handler \<open>disp\<close> with the stack pointer \<open>usp\<close>.\<close>

definition signal_frame :: "u64 \<Rightarrow> u64 \<Rightarrow> int \<Rightarrow> trapframe \<Rightarrow> trapframe" where
  "signal_frame disp usp signum t = t\<lparr>rsp := usp, rcx := disp, rip := disp, rdi := word_of_int signum\<rparr>"

definition check_signals :: "nat \<Rightarrow> sysres \<Rightarrow> kern \<Rightarrow> (sysres \<times> kern) res" where
  "check_signals c r k =
     (case curproc c (ks_p k) of
        None \<Rightarrow> Inr (r, k)
      | Some i \<Rightarrow>
        let p = ptable (ks_p k) ! i; signum = signal_pending p in
        if killed p \<noteq> 0 then exits c k
        else if signum = 0 then Inr (r, k)
        else if signum < 0 \<or> signum \<ge> 32 then Inl OutOfBounds
        else let disp = sig_disp p ! nat signum in
          if disp = 1 then Inr (r, kupd_proc i (\<lambda>p. p\<lparr>signal_pending := 0\<rparr>) k)
          else if disp = 0 then exits c k
          else let k = kupd_proc i (\<lambda>p. p\<lparr>tf_backup := (tf p)\<lparr>rcx := rip (tf p)\<rparr>, signal_pending := 0\<rparr>) k;
                   usp = (rsp (tf p) - 13) AND NOT 0xF in
            rbind (mem_call (copyout (pgdir p) usp sigret_code) k) (\<lambda>(_, k).
            rbind (mem_call (copyout (pgdir p) (usp - 8) (le64 usp)) k) (\<lambda>(_, k).
            Inr (r, kupd_proc i (\<lambda>p. p\<lparr>tf := signal_frame disp (usp - 8) signum (tf p)\<rparr>) k))))"

section \<open>System calls\<close>

definition sys_sbrk :: "nat \<Rightarrow> kern \<Rightarrow> (u64 \<times> kern) res" where
  "sys_sbrk c k =
     kproc c k (\<lambda>i p. rbind (argaddr p 0) (\<lambda>n.
       rbind (growproc c n k) (\<lambda>(r, k). Inr (if r < 0 then -1 else sz p, k))))"

definition sys_sleep :: "nat \<Rightarrow> kern \<Rightarrow> (int option \<times> kern) res" where
  "sys_sleep c k =
     kproc c k (\<lambda>i p. rbind (argint p 0) (\<lambda>n. lift_ps (sys_sleep_round (ticks (ks_p k)) n c) k))"

definition ksys_getschedstats :: "nat \<Rightarrow> kern \<Rightarrow> (int \<times> kern) res" where
  "ksys_getschedstats c k =
     kproc c k (\<lambda>i p. rbind (sys_getschedstats c (kview p k) (ks_p k)) (\<lambda>(r, um, s).
       rbind (argaddr p 0) (\<lambda>a.
       rbind (kstore p a (get_bytes um a (nat r * 56)) k) (\<lambda>k. Inr (r, k\<lparr>ks_p := s\<rparr>)))))"

definition ksys_setschedparam :: "nat \<Rightarrow> kern \<Rightarrow> (int \<times> kern) res" where
  "ksys_setschedparam c k = kproc c k (\<lambda>i p. lift_ps (sys_setschedparam c (kview p k)) k)"

text \<open>
  A handler that returns an \<open>int\<close> leaves it in the low half of \<open>rax\<close>, with the upper half
  cleared by the 32-bit move.
\<close>

definition ret :: "(int \<times> kern) res \<Rightarrow> (sysres \<times> kern) res" where
  "ret m = rbind m (\<lambda>(r, k). Inr (Value (ucast (uint_of_int r)), k))"

definition ret_opt :: "(int option \<times> kern) res \<Rightarrow> (sysres \<times> kern) res" where
  "ret_opt m = rbind m (\<lambda>(r, k). Inr (case r of Some r \<Rightarrow> Value (ucast (uint_of_int r)) | None \<Rightarrow> Asleep, k))"

definition syscalls :: "nat \<Rightarrow> drivers \<Rightarrow> (u64 \<times> (kern \<Rightarrow> (sysres \<times> kern) res)) list" where
  "syscalls c dv = [
     (1, \<lambda>k. ret (fork c k)),
     (2, \<lambda>k. exits c k),
     (3, \<lambda>k. ret_opt (wait_round c k)),
     (4, \<lambda>k. ret (sys_pipe c k)),
     (5, \<lambda>k. ret_opt (sys_read c dv k)),
     (6, \<lambda>k. ret (lift_ps (sys_kill c) k)),
     (7, \<lambda>k. ret (sys_exec c dv k)),
     (8, \<lambda>k. ret (sys_fstat c k)),
     (9, \<lambda>k. ret (sys_chdir c dv k)),
     (10, \<lambda>k. ret (sys_dup c k)),
     (11, \<lambda>k. ret (lift_ps (sys_getpid c) k)),
     (12, \<lambda>k. rbind (sys_sbrk c k) (\<lambda>(r, k). Inr (Value r, k))),
     (13, \<lambda>k. ret_opt (sys_sleep c k)),
     (14, \<lambda>k. ret (lift_ps (sys_uptime c) k)),
     (15, \<lambda>k. ret (sys_open c dv k)),
     (16, \<lambda>k. ret_opt (rbind (sys_write c dv k) (\<lambda>((r, _), k). Inr (r, k)))),
     (17, \<lambda>k. ret (sys_mknod c dv k)),
     (18, \<lambda>k. ret (sys_unlink c dv k)),
     (19, \<lambda>k. ret (sys_link c dv k)),
     (20, \<lambda>k. ret (sys_mkdir c dv k)),
     (21, \<lambda>k. ret (sys_close c k)),
     (22, \<lambda>k. ret (lift_ps (sys_alarm c) k)),
     (23, \<lambda>k. ret (lift_ps (sys_signal c) k)),
     (24, \<lambda>k. ret (lift_ps (sys_sigret c) k)),
     (25, \<lambda>k. ret (lift_ps (sys_fgproc c) k)),
     (26, \<lambda>k. ret (ksys_getschedstats c k)),
     (27, \<lambda>k. ret (ksys_setschedparam c k)),
     (28, \<lambda>k. ret (lift_ps (sys_register_agent c) k))]"

text \<open>
  \<open>syscall\<close>. A call that sleeps continues with another round of its loop when it is resumed,
  and stores its value and looks at signals when that returns.
\<close>

definition syscall_ret :: "nat \<Rightarrow> nat \<Rightarrow> u64 \<Rightarrow> kern \<Rightarrow> (sysres \<times> kern) res" where
  "syscall_ret c i v k = check_signals c (Value v) (kupd_proc i (\<lambda>p. p\<lparr>tf := (tf p)\<lparr>rax := v\<rparr>\<rparr>) k)"

definition finish_call :: "nat \<Rightarrow> (kern \<Rightarrow> (sysres \<times> kern) res) \<Rightarrow> kern \<Rightarrow> (sysres \<times> kern) res" where
  "finish_call c h k =
     kproc c k (\<lambda>i _. rbind (h k) (\<lambda>(r, k). case r of
         Value v \<Rightarrow> syscall_ret c i v k
       | _ \<Rightarrow> Inr (r, k)))"

definition syscall :: "nat \<Rightarrow> drivers \<Rightarrow> kern \<Rightarrow> (sysres \<times> kern) res" where
  "syscall c dv k =
     kproc c k (\<lambda>i p.
       finish_call c (case map_of (syscalls c dv) (rax (tf p)) of
           Some h \<Rightarrow> h
         | None \<Rightarrow> (\<lambda>k. Inr (Value (-1), k))) k)"

section \<open>Traps\<close>

text \<open>A trap that is no interrupt: the end of the \<open>switch\<close> in \<open>trap\<close>.\<close>

definition trap_fault :: "nat \<Rightarrow> trapframe \<Rightarrow> kern \<Rightarrow> kern res" where
  "trap_fault c t k =
     (case curproc c (ks_p k) of
        None \<Rightarrow> Inl (Panic ''trap'')
      | Some i \<Rightarrow>
          let k = (if trapno t = 14 then kupd_proc i (\<lambda>p. p\<lparr>page_fault_count := s32 (page_fault_count p + 1)\<rparr>) k else k) in
          if cs t AND 3 = 0 then Inl (Panic ''trap'')
          else Inr (kupd_proc i (\<lambda>p. p\<lparr>killed := 1\<rparr>) k))"

definition trap_exits :: "nat \<Rightarrow> trapframe \<Rightarrow> kern \<Rightarrow> bool" where
  "trap_exits c t k \<longleftrightarrow>
     (case curproc c (ks_p k) of None \<Rightarrow> False | Some i \<Rightarrow> killed (ptable (ks_p k) ! i) \<noteq> 0 \<and> cs t AND 3 = 3)"

text \<open>After the call of \<open>yield\<close>, which a process that was switched out reaches when resumed.\<close>

definition trap_end :: "nat \<Rightarrow> trapframe \<Rightarrow> kern \<Rightarrow> (sysres \<times> kern) res" where
  "trap_end c t k =
     (if trap_exits c t k then exits c k
      else if cs t AND 3 = 3 then check_signals c (Value 0) k
      else Inr (Value 0, k))"

definition trap_timer :: "nat \<Rightarrow> trapframe \<Rightarrow> kern \<Rightarrow> (sysres \<times> kern) res" where
  "trap_timer c t k =
     (let k = k\<lparr>ks_p := timer_irq c (ks_p k)\<rparr> in
      if trap_exits c t k then exits c k
      else rbind (preempt c (ks_p k)) (\<lambda>s.
        if curproc c s = curproc c (ks_p k) then trap_end c t (k\<lparr>ks_p := s\<rparr>)
        else Inr (Asleep, k\<lparr>ks_p := s\<rparr>)))"

text \<open>A trap from a fault.\<close>

definition trap_default :: "nat \<Rightarrow> trapframe \<Rightarrow> kern \<Rightarrow> (sysres \<times> kern) res" where
  "trap_default c t k =
     rbind (trap_fault c t k) (\<lambda>k. if trap_exits c t k then exits c k else trap_end c t k)"

section \<open>The kernel as a transition system\<close>

text \<open>
  The steps of the composed kernel: booting, a turn of a scheduler, the return to user mode, the
  timer interrupt, a fault, a system call, and another round of a call that was asleep.
\<close>

inductive kstep :: "drivers \<Rightarrow> kern \<Rightarrow> kern \<Rightarrow> bool" for dv where
  boot: "initproc (ks_p k) = None \<Longrightarrow> userinit dv a n k = Inr k' \<Longrightarrow> kstep dv k k'"
| turn: "c < length (cpus (ks_p k)) \<Longrightarrow> curproc c (ks_p k) = None \<Longrightarrow> scheduler_turn c (ks_p k) = Inr (r, s') \<Longrightarrow>
    kstep dv k (k\<lparr>ks_p := s'\<rparr>)"
| user: "c < length (cpus (ks_p k)) \<Longrightarrow> kstep dv k (k\<lparr>ks_p := upd_cpu c (\<lambda>k. k\<lparr>intr := True\<rparr>) (ks_p k)\<rparr>)"
| tick: "c < length (cpus (ks_p k)) \<Longrightarrow> intr (cpus (ks_p k) ! c) \<Longrightarrow>
    trap_timer c t (k\<lparr>ks_p := upd_cpu c (\<lambda>k. k\<lparr>intr := False\<rparr>) (ks_p k)\<rparr>) = Inr (r, k') \<Longrightarrow> kstep dv k k'"
| fault: "c < length (cpus (ks_p k)) \<Longrightarrow> trap_default c t k = Inr (r, k') \<Longrightarrow> kstep dv k k'"
| call: "c < length (cpus (ks_p k)) \<Longrightarrow> syscall c dv k = Inr (r, k') \<Longrightarrow> kstep dv k k'"
| wait_again: "c < length (cpus (ks_p k)) \<Longrightarrow>
    finish_call c (\<lambda>k. ret_opt (wait_round c k)) k = Inr (r, k') \<Longrightarrow> kstep dv k k'"
| sleep_again: "c < length (cpus (ks_p k)) \<Longrightarrow>
    finish_call c (\<lambda>k. ret_opt (lift_ps (sys_sleep_round t0 n c) k)) k = Inr (r, k') \<Longrightarrow> kstep dv k k'"
| read_again: "c < length (cpus (ks_p k)) \<Longrightarrow>
    finish_call c (\<lambda>k. ret_opt (rbind (fileread c dv f n k) (\<lambda>((r, bs), k).
      rbind (kstore p q bs k) (\<lambda>k. Inr (r, k))))) k = Inr (r, k') \<Longrightarrow> kstep dv k k'"
| write_again: "c < length (cpus (ks_p k)) \<Longrightarrow>
    finish_call c (\<lambda>k. ret_opt (rbind (filewrite c dv f src n k) (\<lambda>((r, _), k). Inr (r, k)))) k = Inr (r, k') \<Longrightarrow>
    kstep dv k k'"

end
