(* ===== verification/Refine.thy ===== *)
theory Refine
  imports Kernel Reachable
begin

text \<open>
  The kernel with files and memory refines the interleaving semantics of the process table: a
  system call of the composed kernel acts on the table as a sequence of the steps \<open>pstep\<close>, so
  what is proved of every reachable table holds behind every sequence of system calls.
\<close>

section \<open>Calls during which the process stays on its CPU\<close>

definition on :: "nat \<Rightarrow> nat \<Rightarrow> pstate \<Rightarrow> kern \<Rightarrow> bool" where
  "on c i s k \<longleftrightarrow> pstep\<^sup>*\<^sup>* s (ks_p k) \<and> c < length (cpus (ks_p k)) \<and> curproc c (ks_p k) = Some i"

lemma onD: "on c i s k \<Longrightarrow> pstep\<^sup>*\<^sup>* s (ks_p k)" "on c i s k \<Longrightarrow> c < length (cpus (ks_p k))"
  "on c i s k \<Longrightarrow> curproc c (ks_p k) = Some i"
  by (simp_all add: on_def)

lemma on_step: "on c i s k \<Longrightarrow> pstep (ks_p k) (ks_p k') \<Longrightarrow> cpus (ks_p k') = cpus (ks_p k) \<Longrightarrow> on c i s k'"
  by (auto simp: on_def intro: rtranclp.rtrancl_into_rtrancl)

lemma on_fields [simp]:
  "on c i s (k\<lparr>ks_m := m\<rparr>) = on c i s k" "on c i s (k\<lparr>ks_f := f\<rparr>) = on c i s k"
  "on c i s (k\<lparr>ftable := ft\<rparr>) = on c i s k" "on c i s (k\<lparr>pipes := pp\<rparr>) = on c i s k"
  "on c i s (upd_file n g k) = on c i s k"
  by (simp_all add: on_def upd_file_def)

lemma cpus_wakeup [simp]: "cpus (wakeup ch s) = cpus s"
  by (simp add: wakeup_def)

lemma steps_wakeups: "pstep\<^sup>*\<^sup>* s (fold wakeup chs s) \<and> cpus (fold wakeup chs s) = cpus s"
proof (induction chs arbitrary: s)
  case (Cons ch chs)
  have "pstep s (wakeup ch s)" by (rule pstep.wakes)
  with Cons [of "wakeup ch s"] show ?case
    by (auto intro: converse_rtranclp_into_rtranclp)
qed simp

lemma on_wakeups: "on c i s k \<Longrightarrow> on c i s (k\<lparr>ks_f := f, ks_p := fold wakeup chs (ks_p k)\<rparr>)"
  using steps_wakeups [of "ks_p k" chs] by (auto simp: on_def)

lemma on_wakeup: "on c i s k \<Longrightarrow> ks_p k' = wakeup ch (ks_p k) \<Longrightarrow> on c i s k'"
  by (erule on_step) (simp_all add: pstep.wakes)

lemma on_fs_call: "fs_call d f k = Inr (x, k') \<Longrightarrow> on c i s k \<Longrightarrow> on c i s k'"
  by (auto simp: fs_call_def kproc_def with_cur_def split: option.split_asm intro!: on_wakeups)

lemma on_fs_do: "fs_do d f k = Inr k' \<Longrightarrow> on c i s k \<Longrightarrow> on c i s k'"
  by (auto simp: fs_do_def dest: on_fs_call)

lemma on_mem_call: "mem_call f k = Inr (x, k') \<Longrightarrow> on c i s k \<Longrightarrow> on c i s k'"
  by (auto simp: mem_call_def)

lemma on_kstore: "kstore p a bs k = Inr k' \<Longrightarrow> on c i s k \<Longrightarrow> on c i s k'"
  by (auto simp: kstore_def)

lemma on_filealloc: "filealloc k = (x, k') \<Longrightarrow> on c i s k \<Longrightarrow> on c i s k'"
  by (auto simp: filealloc_def split: option.split_asm)

lemma on_filedup: "filedup f k = Inr (x, k') \<Longrightarrow> on c i s k \<Longrightarrow> on c i s k'"
  by (auto simp: filedup_def split: if_split_asm)

lemma on_kpipeclose: "kpipeclose n w k = Inr k' \<Longrightarrow> on c i s k \<Longrightarrow> on c i s k'"
  by (auto simp: kpipeclose_def pipeclose_def Let_def split: if_split_asm elim!: on_wakeup)

lemma on_fileclose: "fileclose d f k = Inr k' \<Longrightarrow> on c i s k \<Longrightarrow> on c i s k'"
  by (auto simp: fileclose_def Let_def split: if_split_asm fdtype.split_asm dest: on_kpipeclose on_fs_do)

lemma on_filestat: "filestat d f k = Inr (x, k') \<Longrightarrow> on c i s k \<Longrightarrow> on c i s k'"
  by (auto simp: filestat_def Let_def split: if_split_asm dest: on_fs_call)

lemma on_fw_loop: "fw_loop d dv f src n m k = Inr (x, k') \<Longrightarrow> on c i s k \<Longrightarrow> on c i s k'"
proof (induction "nat (n - m)" arbitrary: m k rule: less_induct)
  case less
  note eq = less(2) [unfolded fw_loop.simps [of d dv f src n m k], simplified Let_def]
  show ?case
  proof (cases "m < n")
    case True
    let ?n = "if n - m > FWMAX then FWMAX else n - m"
    obtain r k1 where call: "on c i s k1" and step: "(if r < 0 then Inr (if m = n then n else -1, if r > 0 then upd_file f (\<lambda>f. f\<lparr>f_off := f_off f + uint_of_int r\<rparr>) k1 else k1)
        else if r \<noteq> ?n then Inl (Panic ''short filewrite'')
        else fw_loop d dv f src n (m + r) (if r > 0 then upd_file f (\<lambda>f. f\<lparr>f_off := f_off f + uint_of_int r\<rparr>) k1 else k1)) = Inr (x, k')"
      using eq True less(3) by (auto dest: on_fs_call)
    show ?thesis
    proof (cases "r < 0")
      case False
      with step have "r = ?n" by (auto split: if_split_asm)
      then have "nat (n - (m + r)) < nat (n - m)" using True FWMAX_pos by auto
      from less(1) [OF this, of "if r > 0 then upd_file f (\<lambda>f. f\<lparr>f_off := f_off f + uint_of_int r\<rparr>) k1 else k1"]
      show ?thesis using step False call \<open>r = ?n\<close> by (simp split: if_split_asm)
    qed (use step call in auto)
  qed (use eq less(3) in auto)
qed

lemma on_pipealloc: "pipealloc d k = Inr (x, k') \<Longrightarrow> on c i s k \<Longrightarrow> on c i s k'"
  by (auto simp: pipealloc_def Let_def split: prod.split_asm option.split_asm if_split_asm
      dest!: on_filealloc on_fileclose on_mem_call)

section \<open>Stores to the slot of the running process\<close>

lemma on_slot:
  assumes "on c i s k" and "pstep (ks_p k) (upd_proc i g (ks_p k))" and "f (ptable (ks_p k) ! i) = g (ptable (ks_p k) ! i)"
  shows "on c i s (kupd_proc i f k)"
  by (rule on_step [OF assms(1)]) (use assms(2,3) in \<open>simp_all add: kupd_proc_def upd_at_def\<close>)

lemma on_ofile:
  assumes "on c i s k"
  shows "on c i s (kupd_proc i (\<lambda>p. p\<lparr>ofile := (ofile p)[fd := f]\<rparr>) k)"
  by (rule on_slot [OF assms pstep.fdesc [OF onD(2,3) [OF assms], where fd = fd and f = f and d = "cwd (ptable (ks_p k) ! i)"]]) simp

lemma on_cwd:
  assumes "on c i s k"
  shows "on c i s (kupd_proc i (\<lambda>p. p\<lparr>cwd := d\<rparr>) k)"
  by (rule on_slot [OF assms pstep.fdesc [OF onD(2,3) [OF assms], where fd = "length (ofile (ptable (ks_p k) ! i))" and f = None and d = d]])
    (simp add: list_update_beyond)

lemma on_frame:
  assumes "on c i s k" and "\<And>p. f p = p\<lparr>tf := t p, tf_backup := b p, signal_pending := g p\<rparr>"
  shows "on c i s (kupd_proc i f k)"
  by (rule on_slot [OF assms(1) pstep.frame [OF onD(2,3) [OF assms(1)], where t = "t (ptable (ks_p k) ! i)"
      and b = "b (ptable (ks_p k) ! i)" and g = "g (ptable (ks_p k) ! i)"]]) (simp add: assms(2))

lemma on_tf: "on c i s k \<Longrightarrow> on c i s (kupd_proc i (\<lambda>p. p\<lparr>tf := t p\<rparr>) k)"
  by (rule on_frame [where t = t and b = tf_backup and g = signal_pending]) simp_all

lemma on_fdalloc: "fdalloc i f k = (x, k') \<Longrightarrow> on c i s k \<Longrightarrow> on c i s k'"
  by (auto simp: fdalloc_def split: option.split_asm intro: on_ofile)

lemmas on_rules = on_fs_call on_fs_do on_mem_call on_kstore on_filealloc on_filedup on_fileclose on_filestat
  on_fw_loop on_pipealloc on_fdalloc

section \<open>Handlers that only return\<close>

lemma case_alloc:
  "(case x of (None, k) \<Rightarrow> f k | (Some a, k) \<Rightarrow> g a k) = Inr y \<longleftrightarrow>
   (\<exists>k. x = (None, k) \<and> f k = Inr y) \<or> (\<exists>a k. x = (Some a, k) \<and> g a k = Inr y)"
  by (auto split: prod.split option.split)

lemma case_args:
  "(case a of None \<Rightarrow> h | Some (x, f) \<Rightarrow> (case q of None \<Rightarrow> h | Some p \<Rightarrow> g f p)) = Inr y \<longleftrightarrow>
   (\<exists>x f p. a = Some (x, f) \<and> q = Some p \<and> g f p = Inr y) \<or> (a = None \<or> q = None) \<and> h = Inr y"
  by (auto split: prod.split option.split)

lemma on_kproc: "on c i s k \<Longrightarrow> kproc c k f = f i (ptable (ks_p k) ! i)"
  by (simp add: kproc_def with_cur_def onD)

lemma on_sys_dup: "sys_dup c k = Inr (r, k') \<Longrightarrow> on c i s k \<Longrightarrow> on c i s k'"
  by (auto simp: sys_dup_def on_kproc case_alloc split: option.split_asm dest!: on_fdalloc on_filedup)

lemma on_sys_close: "sys_close c k = Inr (r, k') \<Longrightarrow> on c i s k \<Longrightarrow> on c i s k'"
  by (auto simp: sys_close_def on_kproc split: option.split_asm dest!: on_fileclose intro: on_ofile)

lemma on_sys_fstat: "sys_fstat c k = Inr (r, k') \<Longrightarrow> on c i s k \<Longrightarrow> on c i s k'"
  by (auto simp: sys_fstat_def store_stat_def on_kproc split: option.split_asm dest!: on_filestat on_kstore)

lemma on_sys_link: "sys_link c dv k = Inr (r, k') \<Longrightarrow> on c i s k \<Longrightarrow> on c i s k'"
  by (auto simp: sys_link_def on_kproc split: option.split_asm dest!: on_fs_call)

lemma on_sys_unlink: "sys_unlink c dv k = Inr (r, k') \<Longrightarrow> on c i s k \<Longrightarrow> on c i s k'"
  by (auto simp: sys_unlink_def on_kproc split: option.split_asm dest!: on_fs_call)

lemma on_sys_mkdir: "sys_mkdir c dv k = Inr (r, k') \<Longrightarrow> on c i s k \<Longrightarrow> on c i s k'"
  by (auto simp: sys_mkdir_def on_kproc dest!: on_fs_call)

lemma on_sys_mknod: "sys_mknod c dv k = Inr (r, k') \<Longrightarrow> on c i s k \<Longrightarrow> on c i s k'"
  by (auto simp: sys_mknod_def on_kproc dest!: on_fs_call)

lemma on_sys_chdir: "sys_chdir c dv k = Inr (r, k') \<Longrightarrow> on c i s k \<Longrightarrow> on c i s k'"
  by (auto simp: sys_chdir_def on_kproc split: option.split_asm dest!: on_fs_call intro: on_cwd)

lemma on_sys_open: "sys_open c dv k = Inr (r, k') \<Longrightarrow> on c i s k \<Longrightarrow> on c i s k'"
  by (auto simp: sys_open_def open_fail_def on_kproc case_alloc Let_def split: option.split_asm dest!: on_rules)

lemma on_sys_pipe: "sys_pipe c k = Inr (r, k') \<Longrightarrow> on c i s k \<Longrightarrow> on c i s k'"
  by (auto simp: sys_pipe_def on_kproc case_alloc Let_def split: option.split_asm dest!: on_rules intro: on_ofile)

section \<open>A new image\<close>

lemma popcli_cpu_proc: "popcli k = Inr k' \<Longrightarrow> cpu_proc k' = cpu_proc k"
  by (auto simp: popcli_def Let_def split: if_split_asm)

lemma switchuvm_cpu:
  "switchuvm c i s = Inr s' \<Longrightarrow> c < length (cpus s) \<Longrightarrow>
   length (cpus s') = length (cpus s) \<and> curproc c s' = curproc c s"
  by (auto simp: switchuvm_def cpu_popcli_def Let_def pushcli_def upd_at_def split: if_split_asm
      dest!: popcli_cpu_proc)

lemma on_image:
  assumes on: "on c i s k" and len: "\<And>xs. length (nm xs) = length xs"
    and sw: "switchuvm c i (ks_p (kupd_proc i f k)) = Inr s'" and pg: "pgdir (f (ptable (ks_p k) ! i)) \<noteq> 0"
    and f: "f (ptable (ks_p k) ! i) = (ptable (ks_p k) ! i)\<lparr>pgdir := pg, sz := n, tf := t, pname := nm (pname (ptable (ks_p k) ! i))\<rparr>"
  shows "on c i s ((kupd_proc i f k)\<lparr>ks_p := s'\<rparr>)"
proof -
  have sw': "switchuvm c i (upd_proc i (\<lambda>p. p\<lparr>pgdir := pg, sz := n, tf := t, pname := nm (pname p)\<rparr>) (ks_p k)) = Inr s'"
    using sw f by (simp add: kupd_proc_def upd_at_def)
  have "pstep (ks_p k) s'"
    by (rule pstep.image [OF onD(2,3) [OF on] _ _ sw']) (use pg f len in simp_all)
  moreover have "length (cpus s') = length (cpus (ks_p k)) \<and> curproc c s' = curproc c (ks_p k)"
    using switchuvm_cpu [OF sw'] onD(2) [OF on] by simp
  ultimately show ?thesis using on by (auto simp: on_def intro: rtranclp.rtrancl_into_rtrancl)
qed

lemma switchuvm_pgdir: "switchuvm c i s = Inr s' \<Longrightarrow> pgdir (ptable s ! i) \<noteq> 0"
  by (auto simp: switchuvm_def Let_def split: if_split_asm)

lemma on_growproc:
  assumes "growproc c n k = Inr (r, k')" and "on c i s k" and i: "i < length (ptable (ks_p k))"
  shows "on c i s k'"
proof -
  let ?p = "ptable (ks_p k) ! i"
  obtain z k1 where m: "(if sint n > 0 then mem_call (allocuvm (pgdir ?p) (sz ?p) (sz ?p + n)) k
              else if sint n < 0 then mem_call (deallocuvm (pgdir ?p) (sz ?p) (sz ?p + n)) k
              else Inr (sz ?p, k)) = Inr (z, k1)"
    and r: "(if n \<noteq> 0 \<and> z = 0 then Inr (-1, k1)
       else rbind (switchuvm c i (ks_p (kupd_proc i (\<lambda>p. p\<lparr>sz := z\<rparr>) k1)))
              (\<lambda>s. Inr (0, (kupd_proc i (\<lambda>p. p\<lparr>sz := z\<rparr>) k1)\<lparr>ks_p := s\<rparr>))) = Inr (r, k')"
    using assms(1) unfolding growproc_def on_kproc [OF assms(2)] Let_def by auto
  have k1: "on c i s k1" "ks_p k1 = ks_p k"
    using m assms(2) by (auto simp: mem_call_def split: if_split_asm)
  show ?thesis
  proof (cases "n \<noteq> 0 \<and> z = 0")
    case False
    then obtain s' where sw: "switchuvm c i (ks_p (kupd_proc i (\<lambda>p. p\<lparr>sz := z\<rparr>) k1)) = Inr s'"
      and k': "k' = (kupd_proc i (\<lambda>p. p\<lparr>sz := z\<rparr>) k1)\<lparr>ks_p := s'\<rparr>" using r unfolding if_not_P [OF False] rbind_eq_Inr by blast
    have "pgdir (ptable (ks_p k1) ! i) \<noteq> 0"
      using switchuvm_pgdir [OF sw] i k1 by (simp add: kupd_proc_def upd_at_def)
    then show ?thesis unfolding k'
      by (intro on_image [OF k1(1) _ sw, where nm = id and pg = "pgdir (ptable (ks_p k1) ! i)" and n = z
            and t = "tf (ptable (ks_p k1) ! i)"]) simp_all
  qed (use r k1 in auto)
qed

lemma on_exec_bad: "exec_bad c pgd ip k = Inr (r, k') \<Longrightarrow> on c i s k \<Longrightarrow> on c i s k'"
  by (auto simp: exec_bad_def split: if_split_asm option.split_asm dest!: on_fs_do)

lemma on_exec_commit:
  assumes "exec_commit c i pgd e n sp path k = Inr (r, k')" and "on c i s k" and "pgd \<noteq> 0"
  shows "on c i s k'"
proof -
  let ?f = "\<lambda>p. p\<lparr>pname := safestrcpy_name (basename path @ [0]) (pname p), pgdir := pgd, sz := n,
      tf := (tf p)\<lparr>rip := e, rcx := e, rsp := sp\<rparr>\<rparr>"
  obtain ps m where sw: "switchuvm c i (ks_p (kupd_proc i ?f k)) = Inr ps"
    and k': "k' = (kupd_proc i ?f k)\<lparr>ks_p := ps, ks_m := m\<rparr>"
    using assms(1) by (auto simp: exec_commit_def Let_def)
  have "on c i s ((kupd_proc i ?f k)\<lparr>ks_p := ps\<rparr>)"
    by (rule on_image [OF assms(2) _ sw, where nm = "safestrcpy_name (basename path @ [0])" and pg = pgd and n = n
        and t = "(tf (ptable (ks_p k) ! i))\<lparr>rip := e, rcx := e, rsp := sp\<rparr>"])
      (use assms(3) in \<open>simp_all add: safestrcpy_name_def\<close>)
  then show ?thesis using k' by (simp add: on_def)
qed

lemma on_loaduvm_loop: "loaduvm_loop d dv pgd a ip off n m k = Inr (r, k') \<Longrightarrow> on c i s k \<Longrightarrow> on c i s k'"
proof (induction "unat n - unat m" arbitrary: m k rule: less_induct)
  case less
  note eq = less(2) [unfolded loaduvm_loop.simps [of d dv pgd a ip off n m k], simplified Let_def]
  have ih: "on c i s k'" if "m < n" "\<not> m + 4096 \<le> m" "loaduvm_loop d dv pgd a ip off n (m + 4096) k1 = Inr (r, k')" "on c i s k1" for k1
    by (rule less(1) [OF _ that(3,4)]) (use that(1,2) in \<open>auto simp: not_le word_less_nat_alt\<close>)
  show ?case
    using eq less(3) ih by (auto split: if_split_asm option.split_asm dest!: on_mem_call on_fs_call)
qed

lemma on_load_segs: "load_segs d dv ip pgd m off n k = Inr (r, k') \<Longrightarrow> on c i s k \<Longrightarrow> on c i s k'"
proof (induction m arbitrary: off n k)
  case (Suc m)
  from Suc.prems(1) obtain q ph k1 where call: "fs_call d (readi dv ip off 56) k = Inr ((q, ph), k1)"
    and rest: "(if q \<noteq> 56 then Inr (None, k1)
     else if ph_type ph \<noteq> ELF_PROG_LOAD then load_segs d dv ip pgd m (off + 56) n k1
     else if ph_memsz ph < ph_filesz ph then Inr (None, k1)
     else if ph_vaddr ph + ph_memsz ph < ph_vaddr ph then Inr (None, k1)
     else rbind (mem_call (allocuvm pgd n (ph_vaddr ph + ph_memsz ph)) k1) (\<lambda>(n, k).
       if n = 0 then Inr (None, k)
       else if ph_vaddr ph mod PGSIZE \<noteq> 0 then Inr (None, k)
       else rbind (loaduvm d dv pgd (ph_vaddr ph) ip (ucast (ph_off ph)) (ucast (ph_filesz ph)) k) (\<lambda>(q, k).
         if q < 0 then Inr (None, k) else load_segs d dv ip pgd m (off + 56) n k))) = Inr (r, k')"
    by auto
  have k1: "on c i s k1" using call Suc.prems(2) by (rule on_fs_call)
  have ld: "on c i s k3" if "loaduvm d dv pgd (ph_vaddr ph) ip (ucast (ph_off ph)) (ucast (ph_filesz ph)) k2 = Inr (q', k3)"
    "on c i s k2" for k2 q' k3
    using that by (auto simp: loaduvm_def split: if_split_asm intro: on_loaduvm_loop)
  show ?case using rest k1
    by (auto split: if_split_asm dest!: on_mem_call dest: ld Suc.IH)
qed simp

lemma on_exec_stack:
  "exec_stack c i pgd e path argv n k = Inr (r, k') \<Longrightarrow> on c i s k \<Longrightarrow> pgd \<noteq> 0 \<Longrightarrow> on c i s k'"
  by (auto simp: exec_stack_def Let_def split: if_split_asm option.split_asm
      dest!: on_mem_call on_exec_bad on_exec_commit intro: on_tf)

lemma on_exec: "exec c dv path argv k = Inr (r, k') \<Longrightarrow> on c i s k \<Longrightarrow> on c i s k'"
  by (auto simp: exec_def on_kproc Let_def split: if_split_asm option.split_asm
      dest!: on_fs_call on_mem_call on_fs_do on_load_segs on_exec_bad on_exec_stack)

lemma on_sys_exec: "sys_exec c dv k = Inr (r, k') \<Longrightarrow> on c i s k \<Longrightarrow> on c i s k'"
  by (auto simp: sys_exec_def on_kproc split: option.split_asm dest!: on_exec)

section \<open>New and ending processes\<close>

lemma allocproc_steps:
  assumes "allocproc k = Inr (j, k')"
  shows "pstep\<^sup>*\<^sup>* (ks_p k) (ks_p k') \<and> cpus (ks_p k') = cpus (ks_p k) \<and> initproc (ks_p k') = initproc (ks_p k) \<and>
     (\<forall>j'. j = Some j' \<longrightarrow> j' < length (ptable (ks_p k')) \<and>
       state (ptable (ks_p k') ! j') = EMBRYO \<and> kctx (ptable (ks_p k') ! j') = At_forkret)"
proof (cases "alloc_slot (ks_p k)")
  case (Pair a s1)
  show ?thesis
  proof (cases a)
    case None
    then have "s1 = ks_p k" using Pair by (auto simp: alloc_slot_def split: option.split_asm)
    then show ?thesis using assms Pair None by (auto simp: allocproc_def)
  next
    case (Some j1)
    then have st: "j1 < length (ptable s1)" "state (ptable s1 ! j1) = EMBRYO" "cpus s1 = cpus (ks_p k)"
      "initproc s1 = initproc (ks_p k)"
      using Pair by (auto simp: alloc_slot_def init_slot_def first_index_Some split: option.split_asm)
    obtain kst m where j: "j = (if kst = 0 then None else Some j1)"
      and k': "k' = kupd_proc j1 (alloc_context kst) (k\<lparr>ks_p := s1, ks_m := m\<rparr>)"
      using assms Pair Some by (auto simp: allocproc_def mem_call_def)
    have "pstep (ks_p k) s1" using Pair Some by (auto intro: pstep.alloc)
    moreover have "pstep s1 (ks_p k')" using st by (simp add: k' kupd_proc_def pstep.kstack)
    ultimately show ?thesis unfolding j k' using st by (auto simp: kupd_proc_def alloc_context_def)
  qed
qed

lemma on_allocproc:
  assumes "allocproc k = Inr (j, k')" and "on c i s k"
  shows "on c i s k' \<and> (\<forall>j'. j = Some j' \<longrightarrow> j' < length (ptable (ks_p k')) \<and>
     state (ptable (ks_p k') ! j') = EMBRYO \<and> kctx (ptable (ks_p k') ! j') = At_forkret)"
  using allocproc_steps [OF assms(1)] assms(2) by (auto simp: on_def)

lemma for_range_keeps:
  assumes "for_range a n f x = Inr y" and "P x" and "\<And>j u v. f j u = Inr v \<Longrightarrow> P u \<Longrightarrow> P v"
  shows "P y"
  using assms(1,2)
proof (induction n arbitrary: a x)
  case (Suc n)
  then obtain z where "f a x = Inr z" "for_range (Suc a) n f z = Inr y" by auto
  with Suc.IH [of "Suc a" z] Suc.prems(2) assms(3) show ?case by blast
qed simp

lemma ks_p_dup_files: "dup_files p k = Inr k' \<Longrightarrow> ks_p k' = ks_p k"
  unfolding dup_files_def
  by (rule for_range_keeps [where P = "\<lambda>k'. ks_p k' = ks_p k"])
    (auto simp: filedup_def upd_file_def split: option.split_asm if_split_asm)

lemma on_child:
  assumes "on c i s k" and "j < length (ptable (ks_p k))" "state (ptable (ks_p k) ! j) = EMBRYO"
    "kctx (ptable (ks_p k) ! j) = At_forkret" and "ks_p k' = ks_p k"
  shows "on c i s (kupd_proc j (fork_child i (ptable (ks_p k) ! i) pg) k')"
  by (rule on_step [OF assms(1)]) (use assms in \<open>auto simp: kupd_proc_def onD intro!: pstep.child [where c = c]\<close>)

lemma on_fork:
  assumes "fork c k = Inr (r, k')" and "on c i s k"
  shows "on c i s k'"
proof -
  obtain j k1 where a: "allocproc k = Inr (j, k1)" using assms(1) by (auto simp: fork_def on_kproc [OF assms(2)])
  note k1 = on_allocproc [OF a assms(2)]
  show ?thesis
  proof (cases j)
    case None
    then show ?thesis using assms(1) a k1 by (auto simp: fork_def on_kproc [OF assms(2)])
  next
    case (Some j1)
    then have j1: "j1 < length (ptable (ks_p k1))" "state (ptable (ks_p k1) ! j1) = EMBRYO" "kctx (ptable (ks_p k1) ! j1) = At_forkret"
      "on c i s k1" using k1 by auto
    note child = on_child [OF j1(4,1,2,3)]
    let ?p = "ptable (ks_p k1) ! i"
    obtain pg k2 where m: "mem_call (copyuvm (kpdpt k1) (pgdir ?p) (ucast (sz ?p))) k1 = Inr (pg, k2)"
      and rest: "(case pg of
           None \<Rightarrow>
             rbind (kfree (kstack (ptable (ks_p k2) ! j1)) (ks_m k2)) (\<lambda>m.
             Inr (-1, kupd_proc j1 (fork_child i ?p 0) (k2\<lparr>ks_m := m\<rparr>)))
         | Some pg \<Rightarrow>
             rbind (dup_files ?p k2) (\<lambda>k. case cwd ?p of
                 None \<Rightarrow> Inl NullPointer
               | Some d \<Rightarrow>
                   let k = kupd_proc j1 (fork_child i ?p pg) (k\<lparr>ks_f := snd (idup d (ks_f k))\<rparr>)
                   in Inr (pid (ptable (ks_p k) ! j1), k))) = Inr (r, k')"
      using assms(1) a Some by (auto simp: fork_def on_kproc [OF assms(2)] Let_def)
    have k2: "ks_p k2 = ks_p k1" using m by (auto simp: mem_call_def)
    show ?thesis
    proof (cases pg)
      case None
      then show ?thesis using rest k2 by (auto intro!: child)
    next
      case (Some q)
      then obtain k3 d where "dup_files ?p k2 = Inr k3" "k' = kupd_proc j1 (fork_child i ?p q) (k3\<lparr>ks_f := snd (idup d (ks_f k3))\<rparr>)"
        using rest by (auto simp: Let_def split: option.split_asm)
      then show ?thesis using k2 ks_p_dup_files by (auto intro!: child)
    qed
  qed
qed

lemma initproc_kupd [simp]: "initproc (ks_p (kupd_proc i f k)) = initproc (ks_p k)"
  by (simp add: kupd_proc_def)

lemma initproc_fold_wakeup: "initproc (fold wakeup chs s) = initproc s"
  by (induction chs arbitrary: s) (simp_all add: wakeup_def)

lemma initproc_fs_do: "fs_do c f k = Inr k' \<Longrightarrow> initproc (ks_p k') = initproc (ks_p k)"
  by (auto simp: fs_do_def fs_call_def kproc_def with_cur_def initproc_fold_wakeup split: option.split_asm)

lemma initproc_fileclose: "fileclose c f k = Inr k' \<Longrightarrow> initproc (ks_p k') = initproc (ks_p k)"
  by (auto simp: fileclose_def kpipeclose_def pipeclose_def wakeup_def upd_file_def Let_def split: if_split_asm fdtype.split_asm
      dest: initproc_fs_do)

lemma on_close_files:
  assumes "close_files c i k = Inr k'" and "on c i s k" and "initproc (ks_p k) = ini"
  shows "on c i s k' \<and> initproc (ks_p k') = ini"
  using assms(1) unfolding close_files_def
  by (rule for_range_keeps [where P = "\<lambda>k'. on c i s k' \<and> initproc (ks_p k') = ini"])
    (use assms(2,3) in \<open>auto split: option.split_asm dest: on_fileclose initproc_fileclose intro!: on_ofile\<close>)

lemma exit_steps:
  assumes "exit c k = Inr k'" and "on c i s k"
  shows "pstep\<^sup>*\<^sup>* s (ks_p k')"
proof -
  obtain k1 k2 s' where ini: "initproc (ks_p k) \<noteq> Some i" and k1: "close_files c i k = Inr k1"
    and k2: "fs_do c (\<lambda>s. rbind (begin_op s) (\<lambda>s. rbind (iput (fs_cwd s) s) end_op)) k1 = Inr k2"
    and s': "exit_ptable c (ks_p (kupd_proc i (\<lambda>p. p\<lparr>cwd := None\<rparr>) k2)) = Inr s'" "ks_p k' = s'"
    using assms(1) by (auto simp: exit_def on_kproc [OF assms(2)] Let_def split: if_split_asm)
  let ?k = "kupd_proc i (\<lambda>p. p\<lparr>cwd := None\<rparr>) k2"
  have "on c i s k2" "initproc (ks_p k2) = initproc (ks_p k)"
    using on_close_files [OF k1 assms(2) refl] on_fs_do [OF k2] initproc_fs_do [OF k2] by auto
  then have k: "on c i s ?k" "initproc (ks_p ?k) \<noteq> Some i" using ini by (auto intro: on_cwd)
  have "pstep (ks_p ?k) s'" by (rule pstep.exits [OF onD(2,3) [OF k(1)] k(2) s'(1)])
  with onD(1) [OF k(1)] show ?thesis using s'(2) by simp
qed

lemma sleep_steps:
  assumes "sleep ch (Some lk) c (upd_cpu c pushcli (ks_p k)) = Inr s'" and "on c i s k"
  shows "pstep\<^sup>*\<^sup>* s s'"
  using pstep.sleeps [OF onD(2,3) [OF assms(2)] assms(1)] onD(1) [OF assms(2)] by simp

lemma wait_steps:
  assumes "wait_round c k = Inr (r, k')" and "on c i s k"
  shows "pstep\<^sup>*\<^sup>* s (ks_p k') \<and> (\<forall>v. r = Some v \<longrightarrow> on c i s k')"
proof (cases "wait_zombie i (ptable (ks_p k))")
  case None
  then show ?thesis using assms(1) onD [OF assms(2)] assms(2)
    by (auto simp: wait_round_def on_kproc [OF assms(2)] split: if_split_asm dest: sleep_steps [OF _ assms(2)])
next
  case (Some j)
  then obtain m where "k' = kupd_proc j reap_slot (k\<lparr>ks_m := m\<rparr>)"
    using assms(1) by (auto simp: wait_round_def on_kproc [OF assms(2)] Let_def)
  then have "on c i s k'"
    by (auto intro!: on_step [OF assms(2)] pstep.reap [OF onD(2,3) [OF assms(2)] Some] simp: kupd_proc_def)
  then show ?thesis by (simp add: onD)
qed

lemma piperead_steps:
  assumes "piperead_round n c m pp (ks_p k) = Inr (r, bs, p', s')" and "on c i s k" and "ks_p k' = s'"
  shows "pstep\<^sup>*\<^sup>* s s' \<and> (\<forall>v. r = Some v \<longrightarrow> on c i s k')"
proof -
  have w: "on c i s k'" if "ks_p k' = wakeup (Ch_pipe_nwrite n) (ks_p k)" using assms(2) that by (rule on_wakeup)
  have same: "on c i s k'" if "ks_p k' = ks_p k" using assms(2) that by (simp add: on_def)
  show ?thesis using assms(1) onD [OF assms(2)] assms(3) w same
    by (auto simp: piperead_round_def with_cur_def Let_def split: if_split_asm prod.split_asm
        dest: onD(1) sleep_steps [OF _ assms(2)])
qed

lemma pipewrite_steps:
  assumes "pipewrite_round n c m src pp (ks_p k) = Inr (r, bs, p', s')" and "on c i s k" and "ks_p k' = s'"
  shows "pstep\<^sup>*\<^sup>* s s' \<and> (\<forall>v. r = Some v \<longrightarrow> on c i s k')"
proof -
  let ?k = "k\<lparr>ks_p := wakeup (Ch_pipe_nread n) (ks_p k)\<rparr>"
  have w: "on c i s ?k" using assms(2) by (rule on_wakeup) simp
  then have w': "on c i s k'" if "ks_p k' = wakeup (Ch_pipe_nread n) (ks_p k)" using that by (simp add: on_def)
  have same: "on c i s k'" if "ks_p k' = ks_p k" using assms(2) that by (simp add: on_def)
  show ?thesis using assms(1) onD [OF assms(2)] assms(3) w' same
    by (auto simp: pipewrite_round_def with_cur_def Let_def split: if_split_asm prod.split_asm
        dest: onD(1) sleep_steps [where k = ?k, simplified, OF _ w])
qed

lemma fileread_steps:
  assumes "fileread c dv f n k = Inr ((r, bs), k')" and "on c i s k"
  shows "pstep\<^sup>*\<^sup>* s (ks_p k') \<and> (\<forall>v. r = Some v \<longrightarrow> on c i s k')"
proof (cases "f_readable (ftable k ! f) = 0 \<or> f_type (ftable k ! f) \<noteq> FD_PIPE")
  case True
  then have "on c i s k'" using assms
    by (auto simp: fileread_def Let_def split: if_split_asm fdtype.split_asm dest!: on_fs_call)
  then show ?thesis by (simp add: onD)
next
  case False
  then obtain p' s' where "piperead_round (f_pipe (ftable k ! f)) c n (pipes k (f_pipe (ftable k ! f))) (ks_p k) = Inr (r, bs, p', s')"
    "ks_p k' = s'" using assms(1) by (auto simp: fileread_def Let_def)
  with piperead_steps [OF this(1) assms(2), of k'] show ?thesis by simp
qed

lemma filewrite_steps:
  assumes "filewrite c dv f src n k = Inr ((r, bs), k')" and "on c i s k"
  shows "pstep\<^sup>*\<^sup>* s (ks_p k') \<and> (\<forall>v. r = Some v \<longrightarrow> on c i s k')"
proof (cases "f_writable (ftable k ! f) = 0 \<or> f_type (ftable k ! f) \<noteq> FD_PIPE")
  case True
  then have "on c i s k'" using assms
    by (auto simp: filewrite_def Let_def split: if_split_asm fdtype.split_asm dest!: on_fw_loop)
  then show ?thesis by (simp add: onD)
next
  case False
  then obtain p' s' where "pipewrite_round (f_pipe (ftable k ! f)) c n src (pipes k (f_pipe (ftable k ! f))) (ks_p k) = Inr (r, bs, p', s')"
    "ks_p k' = s'" using assms(1) by (auto simp: filewrite_def Let_def)
  with pipewrite_steps [OF this(1) assms(2), of k'] show ?thesis by simp
qed

lemma read_steps:
  assumes "sys_read c dv k = Inr (r, k')" and "on c i s k"
  shows "pstep\<^sup>*\<^sup>* s (ks_p k') \<and> (\<forall>v. r = Some v \<longrightarrow> on c i s k')"
  using assms
  by (auto simp: sys_read_def on_kproc kstore_def case_args onD dest!: fileread_steps)

lemma write_steps:
  assumes "sys_write c dv k = Inr ((r, bs), k')" and "on c i s k"
  shows "pstep\<^sup>*\<^sup>* s (ks_p k') \<and> (\<forall>v. r = Some v \<longrightarrow> on c i s k')"
  using assms
  by (auto simp: sys_write_def on_kproc case_args onD split: if_split_asm dest!: filewrite_steps)

lemma sleep_round_steps:
  assumes "lift_ps (sys_sleep_round t0 n c) k = Inr (r, k')" and "on c i s k"
  shows "pstep\<^sup>*\<^sup>* s (ks_p k') \<and> (\<forall>v. r = Some v \<longrightarrow> on c i s k')"
  using assms(1) onD [OF assms(2)] assms(2)
  by (auto simp: lift_ps_def sys_sleep_round_def with_cur_def split: if_split_asm
      dest: sleep_steps [OF _ assms(2)])

lemma sys_sleep_steps:
  assumes "sys_sleep c k = Inr (r, k')" and "on c i s k"
  shows "pstep\<^sup>*\<^sup>* s (ks_p k') \<and> (\<forall>v. r = Some v \<longrightarrow> on c i s k')"
  using assms(1) by (auto simp: sys_sleep_def on_kproc [OF assms(2)] dest: sleep_round_steps [OF _ assms(2)])

lemma fileread_again_steps:
  assumes "rbind (fileread c dv f n k) (\<lambda>((r, bs), k). rbind (kstore p q bs k) (\<lambda>k. Inr (r, k))) = Inr (r, k')" and "on c i s k"
  shows "pstep\<^sup>*\<^sup>* s (ks_p k') \<and> (\<forall>v. r = Some v \<longrightarrow> on c i s k')"
  using assms by (auto simp: kstore_def dest!: fileread_steps)

section \<open>System calls\<close>

lemma on_lift_ps:
  assumes "lift_ps f k = Inr (r, k')" and "on c i s k"
    and "\<And>x s'. f (ks_p k) = Inr (x, s') \<Longrightarrow> s' = ks_p k \<or> pstep (ks_p k) s' \<and> cpus s' = cpus (ks_p k)"
  shows "on c i s k'"
proof -
  obtain s' where s': "f (ks_p k) = Inr (r, s')" "k' = k\<lparr>ks_p := s'\<rparr>" using assms(1) by (auto simp: lift_ps_def)
  from assms(3) [OF s'(1)] show ?thesis
  proof
    assume "s' = ks_p k"
    then show ?thesis using assms(2) s' by simp
  next
    assume "pstep (ks_p k) s' \<and> cpus s' = cpus (ks_p k)"
    then show ?thesis using s' by (intro on_step [OF assms(2)]) auto
  qed
qed

lemma on_sys_kill: "lift_ps (sys_kill c) k = Inr (r, k') \<Longrightarrow> on c i s k \<Longrightarrow> on c i s k'"
proof (erule on_lift_ps, assumption)
  fix x s' assume "on c i s k" "sys_kill c (ks_p k) = Inr (x, s')"
  then obtain a b where "kill a b (ks_p k) = (x, s')" by (auto simp: sys_kill_def with_cur_def onD)
  moreover have "pstep (ks_p k) (snd (kill a b (ks_p k)))" by (rule pstep.kill)
  moreover have "cpus (snd (kill a b (ks_p k))) = cpus (ks_p k)" by (simp add: kill_def split: option.split)
  ultimately show "s' = ks_p k \<or> pstep (ks_p k) s' \<and> cpus s' = cpus (ks_p k)" by simp
qed

lemma handler_cpus:
  "sys_alarm c s = Inr (x, s') \<Longrightarrow> cpus s' = cpus s" "sys_signal c s = Inr (x, s') \<Longrightarrow> cpus s' = cpus s"
  "sys_sigret c s = Inr (x, s') \<Longrightarrow> cpus s' = cpus s" "sys_fgproc c s = Inr (x, s') \<Longrightarrow> cpus s' = cpus s"
  "sys_setschedparam c um s = Inr (x, s') \<Longrightarrow> cpus s' = cpus s" "sys_register_agent c s = Inr (x, s') \<Longrightarrow> cpus s' = cpus s"
  by (auto simp: sys_alarm_def sys_signal_def sys_sigret_def sys_fgproc_def sys_setschedparam_def sys_register_agent_def
      kern_pin_agent_def with_cur_def Let_def split: option.split_asm if_split_asm)

lemma on_handlers:
  assumes "on c i s k"
  shows "lift_ps (sys_alarm c) k = Inr (r, k') \<Longrightarrow> on c i s k'" "lift_ps (sys_signal c) k = Inr (r, k') \<Longrightarrow> on c i s k'"
    "lift_ps (sys_sigret c) k = Inr (r, k') \<Longrightarrow> on c i s k'" "lift_ps (sys_fgproc c) k = Inr (r, k') \<Longrightarrow> on c i s k'"
    "lift_ps (sys_setschedparam c um) k = Inr (r, k') \<Longrightarrow> on c i s k'"
    "lift_ps (sys_register_agent c) k = Inr (r, k') \<Longrightarrow> on c i s k'"
  using pstep.alarm [OF onD(2) [OF assms]] pstep.signal [OF onD(2) [OF assms]] pstep.sigret [OF onD(2) [OF assms]]
    pstep.fgproc [OF onD(2) [OF assms]] pstep.setparam [OF onD(2) [OF assms]] pstep.register [OF onD(2) [OF assms]]
  by (blast intro: on_lift_ps [OF _ assms] handler_cpus)+

lemma on_readers:
  assumes "on c i s k"
  shows "lift_ps (sys_getpid c) k = Inr (r, k') \<Longrightarrow> on c i s k'" "lift_ps (sys_uptime c) k = Inr (r, k') \<Longrightarrow> on c i s k'"
    "ksys_getschedstats c k = Inr (r, k') \<Longrightarrow> on c i s k'"
  using assms
  by (auto simp: lift_ps_def sys_getpid_def sys_uptime_def ksys_getschedstats_def sys_getschedstats_def on_kproc [OF assms] with_cur_def
      onD kstore_def Let_def split: if_split_asm)

lemma on_ksys_setschedparam: "ksys_setschedparam c k = Inr (r, k') \<Longrightarrow> on c i s k \<Longrightarrow> on c i s k'"
  by (auto simp: ksys_setschedparam_def on_kproc dest: on_handlers)

lemma check_signals_steps:
  assumes "check_signals c v k = Inr (r, k')" and "on c i s k"
  shows "pstep\<^sup>*\<^sup>* s (ks_p k')"
proof -
  let ?p = "ptable (ks_p k) ! i"
  have sig: "on c i s (kupd_proc i (\<lambda>p. p\<lparr>signal_pending := 0\<rparr>) k)"
    by (rule on_frame [OF assms(2), where t = tf and b = tf_backup and g = "\<lambda>_. 0"]) simp
  have bak: "on c i s (kupd_proc i (\<lambda>p. p\<lparr>tf_backup := (tf p)\<lparr>rcx := rip (tf p)\<rparr>, signal_pending := 0\<rparr>) k)"
    by (rule on_frame [OF assms(2), where t = tf and b = "\<lambda>p. (tf p)\<lparr>rcx := rip (tf p)\<rparr>" and g = "\<lambda>_. 0"]) simp
  have "(\<exists>k1. exit c k = Inr k1 \<and> k' = k1) \<or> on c i s k'"
    using assms(1) onD [OF assms(2)] assms(2) sig bak
    by (auto simp: check_signals_def exits_def Let_def split: if_split_asm dest!: on_mem_call intro!: on_tf)
  then show ?thesis using exit_steps [OF _ assms(2)] onD(1) by blast
qed

definition sys_ok :: "nat \<Rightarrow> nat \<Rightarrow> pstate \<Rightarrow> sysres \<Rightarrow> kern \<Rightarrow> bool" where
  "sys_ok c i s r k \<longleftrightarrow> pstep\<^sup>*\<^sup>* s (ks_p k) \<and> (\<forall>v. r = Value v \<longrightarrow> on c i s k)"

lemma ret_ok: "ret m = Inr (r, k') \<Longrightarrow> (\<And>x k1. m = Inr (x, k1) \<Longrightarrow> on c i s k1) \<Longrightarrow> sys_ok c i s r k'"
  by (auto simp: ret_def sys_ok_def dest: onD(1))

lemma ret_opt_ok:
  "ret_opt m = Inr (r, k') \<Longrightarrow>
   (\<And>x k1. m = Inr (x, k1) \<Longrightarrow> pstep\<^sup>*\<^sup>* s (ks_p k1) \<and> (\<forall>v. x = Some v \<longrightarrow> on c i s k1)) \<Longrightarrow> sys_ok c i s r k'"
  by (fastforce simp: ret_opt_def sys_ok_def split: option.split_asm)

lemma exits_ok: "exits c k = Inr (r, k') \<Longrightarrow> on c i s k \<Longrightarrow> sys_ok c i s r k'"
  by (auto simp: exits_def sys_ok_def dest: exit_steps)

lemma write_steps':
  "rbind (sys_write c dv k) (\<lambda>((r, _), k). Inr (r, k)) = Inr (x, k') \<Longrightarrow> on c i s k \<Longrightarrow>
   pstep\<^sup>*\<^sup>* s (ks_p k') \<and> (\<forall>v. x = Some v \<longrightarrow> on c i s k')"
  by (auto dest: write_steps)

lemma sbrk_ok:
  "rbind (sys_sbrk c k) (\<lambda>(r, k). Inr (Value r, k)) = Inr (r, k') \<Longrightarrow> on c i s k \<Longrightarrow> i < length (ptable (ks_p k)) \<Longrightarrow>
   sys_ok c i s r k'"
  by (auto simp: sys_sbrk_def on_kproc sys_ok_def dest!: on_growproc dest: onD(1))

lemma handlers_ok:
  assumes "on c i s k" and "i < length (ptable (ks_p k))"
  shows "list_all (\<lambda>(n, h). h k = Inr (r, k') \<longrightarrow> sys_ok c i s r k') (syscalls c dv)"
  unfolding syscalls_def list.pred_inject prod.case
  by (intro conjI impI TrueI;
      (erule ret_ok, (erule on_fork on_sys_pipe on_sys_kill on_sys_exec on_sys_fstat on_sys_chdir on_sys_dup on_sys_open
          on_sys_mknod on_sys_unlink on_sys_link on_sys_mkdir on_sys_close on_handlers [OF assms(1)] on_readers [OF assms(1)]
          on_ksys_setschedparam; rule assms)
       | erule ret_opt_ok, (erule wait_steps read_steps write_steps' sys_sleep_steps; rule assms)
       | erule exits_ok sbrk_ok; rule assms
       | simp))

lemma handler_ok:
  assumes "map_of (syscalls c dv) n = Some h" and "h k = Inr (r, k')" and "on c i s k" and "i < length (ptable (ks_p k))"
  shows "sys_ok c i s r k'"
  using handlers_ok [OF assms(3,4)] map_of_SomeD [OF assms(1)] assms(2) by (fastforce simp: list_all_iff)

section \<open>The composed kernel\<close>

lemma on_start: "c < length (cpus (ks_p k)) \<Longrightarrow> curproc c (ks_p k) = Some i \<Longrightarrow> on c i (ks_p k) k"
  by (simp add: on_def)

lemma finish_call_steps:
  assumes "finish_call c h k = Inr (r, k')" and "on c i s k"
    and "\<And>r1 k1. h k = Inr (r1, k1) \<Longrightarrow> sys_ok c i s r1 k1"
  shows "pstep\<^sup>*\<^sup>* s (ks_p k')"
proof -
  obtain r1 k1 where h: "h k = Inr (r1, k1)"
    and rest: "(case r1 of Value v \<Rightarrow> syscall_ret c i v k1 | _ \<Rightarrow> Inr (r1, k1)) = Inr (r, k')"
    using assms(1) by (auto simp: finish_call_def on_kproc [OF assms(2)])
  from assms(3) [OF h] rest show ?thesis
    by (auto simp: sys_ok_def syscall_ret_def split: sysres.split_asm dest: check_signals_steps [OF _ on_tf])
qed

lemma syscall_steps:
  assumes "syscall c dv k = Inr (r, k')" and "on c i s k" and "i < length (ptable (ks_p k))"
  shows "pstep\<^sup>*\<^sup>* s (ks_p k')"
proof (rule finish_call_steps [OF _ assms(2)])
  show "finish_call c (case map_of (syscalls c dv) (rax (tf (ptable (ks_p k) ! i))) of
      Some h \<Rightarrow> h | None \<Rightarrow> (\<lambda>k. Inr (Value (-1), k))) k = Inr (r, k')"
    using assms(1) by (simp add: syscall_def on_kproc [OF assms(2)])
  fix r1 k1
  assume h: "(case map_of (syscalls c dv) (rax (tf (ptable (ks_p k) ! i))) of
      Some h \<Rightarrow> h | None \<Rightarrow> (\<lambda>k. Inr (Value (-1), k))) k = Inr (r1, k1)"
  have "sys_ok c i s (Value (-1)) k" using assms(2) by (simp add: sys_ok_def onD)
  with h show "sys_ok c i s r1 k1"
    by (auto split: option.split_asm intro: handler_ok [OF _ _ assms(2,3)])
qed

lemma trap_end_steps:
  assumes "trap_end c t k = Inr (r, k')" and "pstep\<^sup>*\<^sup>* s (ks_p k)" and "c < length (cpus (ks_p k))"
  shows "pstep\<^sup>*\<^sup>* s (ks_p k')"
proof (cases "curproc c (ks_p k)")
  case None
  then show ?thesis using assms by (auto simp: trap_end_def trap_exits_def check_signals_def split: if_split_asm)
next
  case (Some i)
  then have "on c i s k" using assms by (simp add: on_def)
  then show ?thesis using assms(1)
    by (auto simp: trap_end_def exits_def onD split: if_split_asm dest: exit_steps check_signals_steps)
qed

lemma timer_irq_cpus [simp]: "cpus (timer_irq c s) = cpus s"
  by (simp add: timer_irq_def clock_tick_def check_alarms_def Let_def split: option.split)

lemma killed_alarm [simp]: "killed (alarm_tick p) = killed p"
  by (simp add: alarm_tick_def Let_def)

lemma killed_account [simp]: "killed (account_tick sp now p) = killed p"
  by (simp add: account_tick_def quantum_expired_def Let_def)

lemma clock_tick_killed:
  "i < length (ptable s) \<Longrightarrow> killed (ptable (clock_tick s) ! i) = killed (ptable s ! i)"
  by (simp add: clock_tick_def check_alarms_def wakeup_def wakeup1_def)

lemma upd_at_killed: "(\<And>p. killed (f p) = killed p) \<Longrightarrow> killed (upd_at j f ps ! i) = killed (ps ! i)"
  by (cases "i = j"; cases "j < length ps") (simp_all add: upd_at_def list_update_beyond)

lemma timer_irq_killed:
  assumes "i < length (ptable s)"
  shows "killed (ptable (timer_irq c s) ! i) = killed (ptable s ! i)"
  using clock_tick_killed [OF assms] unfolding timer_irq_def Let_def
  by (simp add: upd_at_killed split: option.split)

lemma preempt_length: "preempt c s = Inr s' \<Longrightarrow> length (cpus s') = length (cpus s)"
  by (auto simp: preempt_def yield_def sched_def scheduler_back_def cpu_popcli_def split: option.split_asm if_split_asm)

lemma trap_timer_eq:
  "trap_timer c t (k\<lparr>ks_p := s\<rparr>) =
    (let k1 = k\<lparr>ks_p := timer_irq c s\<rparr> in
     if trap_exits c t k1 then exits c k1
     else rbind (preempt c (timer_irq c s)) (\<lambda>s1.
       if curproc c s1 = curproc c (timer_irq c s) then trap_end c t (k\<lparr>ks_p := s1\<rparr>)
       else Inr (Asleep, k\<lparr>ks_p := s1\<rparr>)))"
  by (simp add: trap_timer_def Let_def cong: if_cong)

lemma trap_timer_steps:
  assumes t: "trap_timer c t (k\<lparr>ks_p := upd_cpu c (\<lambda>k. k\<lparr>intr := False\<rparr>) (ks_p k)\<rparr>) = Inr (r, k')"
    and c: "c < length (cpus (ks_p k))" "intr (cpus (ks_p k) ! c)"
    and i: "\<And>i. curproc c (ks_p k) = Some i \<Longrightarrow> i < length (ptable (ks_p k))"
  shows "pstep\<^sup>*\<^sup>* (ks_p k) (ks_p k')"
proof -
  let ?s = "timer_irq c (upd_cpu c (\<lambda>k. k\<lparr>intr := False\<rparr>) (ks_p k))"
  let ?k = "k\<lparr>ks_p := ?s\<rparr>"
  show ?thesis
  proof (cases "trap_exits c t ?k")
    case True
    then obtain i where cur: "curproc c ?s = Some i" "killed (ptable ?s ! i) \<noteq> 0" by (auto simp: trap_exits_def split: option.split_asm)
    then have pre: "curproc c (ks_p k) = Some i" using c by (simp add: upd_at_def)
    then have "killed (ptable (ks_p k) ! i) \<noteq> 0" using cur(2) i timer_irq_killed [of i "upd_cpu c (\<lambda>k. k\<lparr>intr := False\<rparr>) (ks_p k)" c] by simp
    then have "pstep (ks_p k) ?s" by (rule pstep.timer_killed [OF c pre])
    then have "on c i (ks_p k) ?k" using cur c by (simp add: on_def)
    moreover obtain k1 where "exit c ?k = Inr k1" "k' = k1" using t True by (auto simp: trap_timer_eq Let_def exits_def)
    ultimately show ?thesis using exit_steps by blast
  next
    case False
    then obtain s1 where p: "preempt c ?s = Inr s1"
      and r: "(if curproc c s1 = curproc c ?s then trap_end c t (k\<lparr>ks_p := s1\<rparr>) else Inr (Asleep, k\<lparr>ks_p := s1\<rparr>)) = Inr (r, k')"
      using t unfolding trap_timer_eq Let_def if_not_P [OF False] rbind_eq_Inr by blast
    have st: "pstep (ks_p k) s1" by (rule pstep.timer [OF c p])
    show ?thesis
    proof (cases "curproc c s1 = curproc c ?s")
      case True
      have "length (cpus s1) = length (cpus (ks_p k))" using preempt_length [OF p] by simp
      then show ?thesis using trap_end_steps [of c t "k\<lparr>ks_p := s1\<rparr>" r k' "ks_p k"] r True r_into_rtranclp [of pstep, OF st] c by simp
    qed (use r st in auto)
  qed
qed

lemma trap_default_steps:
  assumes "trap_default c t k = Inr (r, k')" and "c < length (cpus (ks_p k))"
  shows "pstep\<^sup>*\<^sup>* (ks_p k) (ks_p k')"
proof -
  obtain k1 where f: "trap_fault c t k = Inr k1"
    and r: "(if trap_exits c t k1 then exits c k1 else trap_end c t k1) = Inr (r, k')"
    using assms(1) by (auto simp: trap_default_def)
  then obtain i where i: "curproc c (ks_p k) = Some i" by (auto simp: trap_fault_def split: option.split_asm)
  let ?n = "if trapno t = 14 then s32 (page_fault_count (ptable (ks_p k) ! i) + 1) else page_fault_count (ptable (ks_p k) ! i)"
  have "pstep (ks_p k) (upd_proc i (\<lambda>p. p\<lparr>page_fault_count := ?n, killed := 1\<rparr>) (ks_p k))"
    by (rule pstep.fault [OF assms(2) i])
  moreover have "ks_p k1 = upd_proc i (\<lambda>p. p\<lparr>page_fault_count := ?n, killed := 1\<rparr>) (ks_p k)"
    using f i by (cases "i < length (ptable (ks_p k))")
      (auto simp: trap_fault_def kupd_proc_def upd_at_def Let_def list_update_beyond split: if_split_asm)
  ultimately have on: "on c i (ks_p k) k1" using assms(2) i by (simp add: on_def)
  then show ?thesis using r trap_end_steps [of c t k1 r k' "ks_p k"]
    by (auto simp: exits_def onD split: if_split_asm dest: exit_steps)
qed

lemma initproc_ptable: "(s :: pstate)\<lparr>initproc := x, ptable := ps\<rparr> = s\<lparr>ptable := ps, initproc := x\<rparr>"
  by (cases s) simp

lemma userinit_steps:
  assumes "userinit dv a n k = Inr k'" and "initproc (ks_p k) = None"
  shows "pstep\<^sup>*\<^sup>* (ks_p k) (ks_p k')"
proof -
  obtain j k1 where a: "allocproc k = Inr (Some j, k1)" using assms(1) by (auto simp: userinit_def split: option.split_asm)
  note k1 = allocproc_steps [OF a]
  obtain pg root where pg: "pg \<noteq> 0"
    and k': "ks_p k' = upd_proc j (userinit_slot pg root) ((ks_p k1)\<lparr>initproc := Some j\<rparr>)"
    using assms(1) a by (auto simp: userinit_def mem_call_def kupd_proc_def Let_def split: if_split_asm)
  have "pstep (ks_p k1) ((upd_proc j (userinit_slot pg root) (ks_p k1))\<lparr>initproc := Some j\<rparr>)"
    using k1 assms(2) pg by (intro pstep.first) simp_all
  then have "pstep (ks_p k1) (ks_p k')" by (simp add: k' initproc_ptable)
  with k1 show ?thesis by (auto intro: rtranclp.rtrancl_into_rtrancl)
qed

lemma kstep_steps:
  assumes "kstep dv k k'" and inv: "sys_inv (ks_p k)"
  shows "pstep\<^sup>*\<^sup>* (ks_p k) (ks_p k')"
proof -
  have cur: "i < length (ptable (ks_p k))" if "c < length (cpus (ks_p k))" "curproc c (ks_p k) = Some i" for c i
    using inv that by (auto simp: sys_inv_def core_inv_def cpus_ok_def cpu_idle_def on_cpu_def)
  have finish: "pstep\<^sup>*\<^sup>* (ks_p k) (ks_p k')"
    if c: "c < length (cpus (ks_p k))" and f: "finish_call c h k = Inr (r, k')"
      and h: "\<And>i r1 k1. on c i (ks_p k) k \<Longrightarrow> h k = Inr (r1, k1) \<Longrightarrow> sys_ok c i (ks_p k) r1 k1" for c h r
  proof -
    obtain i where "curproc c (ks_p k) = Some i"
      using f by (auto simp: finish_call_def kproc_def with_cur_def split: option.split_asm)
    then have on: "on c i (ks_p k) k" using c by (rule on_start [rotated])
    then show ?thesis using f h by (blast intro: finish_call_steps)
  qed
  from assms(1) show ?thesis
  proof cases
    case (boot a n)
    then show ?thesis by (intro userinit_steps)
  next
    case (turn c r s')
    then show ?thesis using pstep.turn [of c "ks_p k" r s'] by simp
  next
    case (user c)
    then show ?thesis using pstep.iret [of c "ks_p k"] by simp
  next
    case (tick c t r)
    then show ?thesis using cur by (intro trap_timer_steps)
  next
    case (fault c t r)
    then show ?thesis by (intro trap_default_steps)
  next
    case (call c r)
    then obtain i where "curproc c (ks_p k) = Some i"
      by (auto simp: syscall_def kproc_def with_cur_def split: option.split_asm)
    then show ?thesis using call cur by (intro syscall_steps [OF call(2) on_start]) auto
  next
    case (wait_again c r)
    then show ?thesis by (rule finish) (auto elim!: ret_opt_ok dest: wait_steps)
  next
    case (sleep_again c t0 n r)
    then show ?thesis by (rule finish) (auto elim!: ret_opt_ok dest: sleep_round_steps)
  next
    case (read_again c f n p q r)
    then show ?thesis by (rule finish) (auto elim!: ret_opt_ok dest: fileread_again_steps)
  next
    case (write_again c f src n r)
    then show ?thesis by (rule finish) (auto elim!: ret_opt_ok dest!: filewrite_steps)
  qed
qed

lemma preach_steps: "pstep\<^sup>*\<^sup>* s s' \<Longrightarrow> preach n s \<Longrightarrow> \<exists>m. preach m s'"
  by (induction rule: rtranclp_induct) (auto intro: preach.step)

text \<open>
  C3: The composed kernel refines the interleaving semantics of its process table: however many
  scheduler turns, timer interrupts, faults and system calls (with all their effects on memory,
  files, pipes, the log and the disk) lead from a state with a reachable process table to another
  state, the table there is reachable too by the steps of \<open>pstep\<close>, and satisfies the invariant of
  all reachable tables.
\<close>

theorem kernel_refines_table:
  assumes "preach n (ks_p k)" and "(kstep dv)\<^sup>*\<^sup>* k k'"
  shows "(\<exists>m. preach m (ks_p k')) \<and> sys_inv (ks_p k')"
proof -
  have "\<exists>m. preach m (ks_p k')" using assms(2,1)
  proof (induction rule: rtranclp_induct)
    case (step k1 k2)
    then obtain m where m: "preach m (ks_p k1)" by auto
    from kstep_steps [OF step(2) preach_sys_inv [OF m]] m show ?case by (rule preach_steps)
  qed auto
  then show ?thesis using preach_sys_inv by blast
qed

theorem kernel_refines_table_witness:
  "\<forall>k. \<exists>k'. (kstep [])\<^sup>*\<^sup>* (k\<lparr>ks_p := boot3\<rparr>) k' \<and> curproc 1 (ks_p k') = Some 0 \<and> intr (cpus (ks_p k') ! 1) \<and>
     (\<exists>m. preach m (ks_p k')) \<and> sys_inv (ks_p k')"
proof
  fix k :: kern
  obtain r s' where t: "scheduler_turn 1 boot3 = Inr (r, s')"
    by (rule turn_total [OF preach_sys_inv [OF preach_boot3], of 1]) (use boot3_facts in auto)
  have b4: "s' = boot4" using t by (simp add: boot4_def)
  let ?k = "k\<lparr>ks_p := boot3\<rparr>" and ?k1 = "k\<lparr>ks_p := boot4\<rparr>"
    and ?k2 = "k\<lparr>ks_p := upd_cpu 1 (\<lambda>k. k\<lparr>intr := True\<rparr>) boot4\<rparr>"
  have "kstep [] ?k ?k1" using kstep.turn [of 1 ?k r s' "[]"] t b4 boot3_facts by simp
  moreover have "kstep [] ?k1 ?k2" using kstep.user [of 1 ?k1 "[]"] boot4_facts by simp
  ultimately have r: "(kstep [])\<^sup>*\<^sup>* ?k ?k2" by auto
  have "(\<exists>m. preach m (ks_p ?k2)) \<and> sys_inv (ks_p ?k2)"
    by (rule kernel_refines_table [OF _ r, of 3]) (simp add: preach_boot3)
  with r show "\<exists>k'. (kstep [])\<^sup>*\<^sup>* ?k k' \<and> curproc 1 (ks_p k') = Some 0 \<and> intr (cpus (ks_p k') ! 1) \<and>
     (\<exists>m. preach m (ks_p k')) \<and> sys_inv (ks_p k')"
    using boot4_facts by (intro exI [of _ ?k2]) simp
qed

end
