(* ===== verification/Fsblocks.thy ===== *)
theory Fsblocks
  imports Fs
begin

text \<open>
  Reasoning about \<open>fs.c\<close> inside a transaction: reading, changing and releasing one block as
  steps of total correctness (\<open>runs\<close>), and the block allocator. A step keeps the transaction
  well formed and changes and logs only the blocks it names.
\<close>

section \<open>Total correctness of a sequence of calls\<close>

definition runs :: "'a res \<Rightarrow> ('a \<Rightarrow> bool) \<Rightarrow> bool" where
  "runs m Q \<longleftrightarrow> (\<exists>x. m = Inr x \<and> Q x)"

lemma runs_Inr [simp]: "runs (Inr x) Q = Q x"
  by (simp add: runs_def)

lemma runsI: "m = Inr x \<Longrightarrow> Q x \<Longrightarrow> runs m Q"
  by (simp add: runs_def)

lemma runs_bind: "runs m P \<Longrightarrow> (\<And>x. P x \<Longrightarrow> runs (f x) Q) \<Longrightarrow> runs (rbind m f) Q"
  by (auto simp: runs_def)

lemma runs_mono: "runs m P \<Longrightarrow> (\<And>x. P x \<Longrightarrow> Q x) \<Longrightarrow> runs m Q"
  by (auto simp: runs_def)

section \<open>Steps of a transaction\<close>

lemma fs_rest:
  assumes "lstate.more s = lstate.more (t :: 'z fstate_scheme)"
  shows "fs_sb s = fs_sb t" "inodes s = inodes t" "fs_cwd s = fs_cwd t" "fstate.more s = fstate.more t"
  using assms by (cases s; cases t; simp)+

definition txr :: "u32 set \<Rightarrow> 'z fstate_scheme \<Rightarrow> 'z fstate_scheme \<Rightarrow> bool" where
  "txr W s t \<longleftrightarrow> in_txn t \<and> disk t = disk s \<and> disksize t = disksize s \<and> log_size t = log_size s \<and> log_area t = log_area s \<and>
     log_outstanding t = log_outstanding s \<and> fs_sb t = fs_sb s \<and> inodes t = inodes s \<and>
     set (logged s) \<subseteq> set (logged t) \<and> set (logged t) \<subseteq> set (logged s) \<union> W \<and> (\<forall>b. b \<notin> W \<longrightarrow> blk t b = blk s b)"

lemma txrD:
  assumes "txr W s t"
  shows "in_txn t" "disksize t = disksize s" "log_size t = log_size s" "log_area t = log_area s" "fs_sb t = fs_sb s"
    "inodes t = inodes s" "set (logged t) \<subseteq> set (logged s) \<union> W" "b \<notin> W \<Longrightarrow> blk t b = blk s b" "disk t = disk s"
    "set (logged s) \<subseteq> set (logged t)"
  using assms by (auto simp: txr_def)

lemma txr_refl: "in_txn s \<Longrightarrow> txr W s s"
  by (auto simp: txr_def)

lemma txr_trans: "txr W s t \<Longrightarrow> txr V t u \<Longrightarrow> txr (W \<union> V) s u"
  by (fastforce simp: txr_def)

lemma txr_mono: "txr W s t \<Longrightarrow> W \<subseteq> V \<Longrightarrow> txr V s t"
  by (auto simp: txr_def)

definition nlog :: "'z lstate_scheme \<Rightarrow> nat" where
  "nlog s = card (set (logged s))"

lemma in_txnD:
  assumes "in_txn s"
  shows "cache_ok s" "dirty s = set (logged s)" "lh_n s = int (nlog s)" "log_size s \<le> 30"
proof -
  show "cache_ok s" "dirty s = set (logged s)" using assms by (auto simp: in_txn_def)
  have h: "head_ok s" and g: "log_geom s" using assms by (auto simp: in_txn_def)
  show "lh_n s = int (nlog s)"
    using head_okD(1,5,9) [OF h] by (auto simp: nlog_def distinct_card head_ok_def) (use h in \<open>auto simp: head_ok_def\<close>)
  show "log_size s \<le> 30" using g by (simp add: log_geom_def LOGSIZE_def)
qed

text \<open>What a step does to the buffers that are held across it.\<close>

definition keeps :: "u32 set \<Rightarrow> 'z fstate_scheme \<Rightarrow> 'z fstate_scheme \<Rightarrow> bool" where
  "keeps H s t \<longleftrightarrow> held t = H \<and> (\<forall>j c. holds s j c \<longrightarrow> c \<in> H \<longrightarrow> holds t j c)"

lemma keepsD: "keeps H s t \<Longrightarrow> holds s j c \<Longrightarrow> c \<in> H \<Longrightarrow> holds t j c" "keeps H s t \<Longrightarrow> held t = H"
  by (auto simp: keeps_def)

lemma keeps_trans: "keeps H s t \<Longrightarrow> keeps H' t u \<Longrightarrow> H' \<subseteq> H \<Longrightarrow> keeps H' s u"
  by (auto simp: keeps_def)

lemma holds_held: "holds s i b \<Longrightarrow> b \<in> held s"
  by (auto simp: held_def)

definition clean :: "u32 \<Rightarrow> 'z fstate_scheme \<Rightarrow> bool" where
  "clean b s \<longleftrightarrow> b \<in> set (logged s) \<or> blk s b = disk s b"

lemma clean_txr: "clean b s \<Longrightarrow> txr W s t \<Longrightarrow> b \<notin> W \<or> b \<in> set (logged t) \<Longrightarrow> clean b t"
  by (auto simp: clean_def txr_def)

lemma get_runs:
  fixes s :: "'z fstate_scheme"
  assumes t: "in_txn s" and b: "b < disksize s" "b \<notin> held s" and room: "int (nlog s + card (held s)) < log_size s"
  shows "runs (bread 1 b s) (\<lambda>(i, t). txr {} s t \<and> blk t = blk s \<and> logged t = logged s \<and> holds t i b \<and> buf_data t i = blk s b \<and>
    keeps (insert b (held s)) s t \<and> clean b t)"
proof -
  note d = in_txnD [OF t]
  have "card (held s \<union> dirty s) \<le> card (held s) + nlog s" unfolding d(2) nlog_def by (rule card_Un_le)
  also have "\<dots> < NBUF" using room d(4) by (simp add: NBUF_def)
  finally have cap: "b \<in> dirty s \<or> card (held s \<union> dirty s) < NBUF" ..
  from bc.get [OF d(1) b cap] obtain i s' where g: "bread 1 b s = Inr (i, s')" "cache_ok s'" "holds s' i b" "blk s' = blk s"
    "disk s' = disk s" "dirty s' = dirty s" "disksize s' = disksize s" "bstate.more s' = bstate.more s" "held s' = insert b (held s)"
    "\<forall>j c. holds s j c \<longrightarrow> holds s' j c" by blast
  note it = in_txn_same [OF t g(2,6,7,8)]
  have "clean b s'" using bc.clean [OF d(1) b(2)] d(2) g it by (auto simp: clean_def)
  then show ?thesis
    using g it fs_rest [OF it(6)] bc.data [OF g(2,3)] by (auto intro!: runsI [OF g(1)] simp: txr_def keeps_def)
qed

lemma put_runs:
  fixes s :: "'z fstate_scheme"
  assumes t: "in_txn s" and h: "holds s i b" and c: "clean b s"
  shows "runs (brelse i s) (\<lambda>t. txr {} s t \<and> blk t = blk s \<and> logged t = logged s \<and> keeps (held s - {b}) s t)"
proof -
  note d = in_txnD [OF t]
  have "b \<in> dirty s \<or> blk s b = disk s b" using c d(2) by (auto simp: clean_def)
  from bc.put [OF d(1) h this] obtain s' where p: "brelse i s = Inr s'" "cache_ok s'" "blk s' = blk s" "disk s' = disk s"
    "dirty s' = dirty s" "disksize s' = disksize s" "bstate.more s' = bstate.more s" "held s' = held s - {b}"
    "\<forall>j c. holds s j c \<and> c \<noteq> b \<longrightarrow> holds s' j c" by blast
  note it = in_txn_same [OF t p(2,5,6,7)]
  show ?thesis using p it fs_rest [OF it(6)] by (auto intro!: runsI [OF p(1)] simp: txr_def keeps_def)
qed

lemma upd_runs:
  fixes s :: "'z fstate_scheme"
  assumes t: "in_txn s" and h: "holds s i b" and room: "int (nlog s) + 1 < log_size s" and home: "b \<notin> log_area s"
  shows "runs (log_write i (set_data i v s)) (\<lambda>t. txr {b} s t \<and> blk t = (blk s)(b := v) \<and> set (logged t) = insert b (set (logged s)) \<and>
    keeps (held s) s t \<and> clean b t)"
proof -
  note d = in_txnD [OF t]
  note sd = set_data_ok [OF d(1) h, of v]
  let ?s = "set_data i v s"
  have m: "bstate.more ?s = bstate.more s" using sd by simp
  note it = in_txn_same [OF t _ _ _ m]
  have t': "in_txn ?s" "holds ?s i b" "lh_n ?s + 1 < log_size ?s" "b \<notin> log_area ?s"
    using sd it h room home d(3) by simp_all
  from log_write_ok [OF t'] obtain s' where w: "log_write i ?s = Inr s'" "in_txn s'" "blk s' = blk ?s" "disk s' = disk ?s"
    "disksize s' = disksize ?s" "held s' = held ?s" "holds s' = holds ?s" "lstate.more s' = lstate.more ?s" "log_size s' = log_size ?s"
    "log_area s' = log_area ?s" "log_outstanding s' = log_outstanding ?s"
    "logged s' = (if b \<in> set (logged ?s) then logged ?s else logged ?s @ [b])" by blast
  have f: "lstate.more s' = lstate.more s" "logged ?s = logged s" using w(8) it sd by simp_all
  show ?thesis using w sd it f fs_rest [OF f(1)]
    by (auto intro!: runsI [OF w(1)] simp: txr_def keeps_def clean_def)
qed

text \<open>\<open>bread\<close>, a change of the data, \<open>log_write\<close>, \<open>brelse\<close>.\<close>

lemma mod_runs:
  fixes s :: "'z fstate_scheme"
  assumes t: "in_txn s" and b: "b < disksize s" "b \<notin> held s" "b \<notin> log_area s"
    and room: "int (nlog s) + 1 < log_size s" "card (held s) \<le> 1"
  shows "runs (rbind (bread 1 b s) (\<lambda>(i, s). rbind (log_write i (set_data i (f (buf_data s i)) s)) (brelse i)))
    (\<lambda>t. txr {b} s t \<and> blk t = (blk s)(b := f (blk s b)) \<and> set (logged t) = insert b (set (logged s)) \<and> keeps (held s) s t)"
proof (rule runs_bind [OF get_runs [OF t b(1,2)]])
  show "int (nlog s + card (held s)) < log_size s" using room by linarith
  fix x assume "case x of (i, u) \<Rightarrow> txr {} s u \<and> blk u = blk s \<and> logged u = logged s \<and> holds u i b \<and> buf_data u i = blk s b \<and>
    keeps (insert b (held s)) s u \<and> clean b u"
  then obtain i u where x: "x = (i, u)" and u: "txr {} s u" "blk u = blk s" "logged u = logged s" "holds u i b"
    "buf_data u i = blk s b" "keeps (insert b (held s)) s u" by auto
  have "int (nlog u) + 1 < log_size u" "b \<notin> log_area u" using u txrD [OF u(1)] room b(3) by (simp_all add: nlog_def)
  note up = upd_runs [OF txrD(1) [OF u(1)] u(4) this]
  show "runs (case x of (i, s) \<Rightarrow> rbind (log_write i (set_data i (f (buf_data s i)) s)) (brelse i))
    (\<lambda>t. txr {b} s t \<and> blk t = (blk s)(b := f (blk s b)) \<and> set (logged t) = insert b (set (logged s)) \<and> keeps (held s) s t)"
    unfolding x prod.case
  proof (rule runs_bind [OF up])
    fix w assume w: "txr {b} u w \<and> blk w = (blk u)(b := f (buf_data u i)) \<and> set (logged w) = insert b (set (logged u)) \<and>
      keeps (held u) u w \<and> clean b w"
    have "holds w i b" using w u(4) keepsD(1) holds_held by blast
    have hu: "held u = insert b (held s)" using u(6) by (rule keepsD)
    have kw: "keeps (insert b (held s)) s w" using keeps_trans [OF u(6), of "held u" w] w hu by simp
    have hw: "held w - {b} = held s" using keepsD(2) [OF kw] b(2) by simp
    show "runs (brelse i w) (\<lambda>t. txr {b} s t \<and> blk t = (blk s)(b := f (blk s b)) \<and> set (logged t) = insert b (set (logged s)) \<and> keeps (held s) s t)"
    proof (rule runs_mono [OF put_runs [OF _ \<open>holds w i b\<close>]])
      fix t assume t: "txr {} w t \<and> blk t = blk w \<and> logged t = logged w \<and> keeps (held w - {b}) w t"
      have "keeps (held s) s t" using keeps_trans [OF kw, of "held s" t] t hw by auto
      then show "txr {b} s t \<and> blk t = (blk s)(b := f (blk s b)) \<and> set (logged t) = insert b (set (logged s)) \<and> keeps (held s) s t"
        using t w u txr_trans [OF txr_trans [OF u(1)], of "{b}" w "{}" t] by simp
    qed (use w txrD(1) in blast)+
  qed
qed

section \<open>The free map\<close>

definition bused :: "'z fstate_scheme \<Rightarrow> u32 \<Rightarrow> bool" where
  "bused s b \<longleftrightarrow> blk s (bblock b (fs_sb s)) (unat b mod BPB div 8) AND bitmask (unat b mod BPB) \<noteq> 0"

definition fsize :: "'z fstate_scheme \<Rightarrow> u32" where
  "fsize s = sb_size (fs_sb s)"

definition bitmaps :: "'z fstate_scheme \<Rightarrow> u32 set" where
  "bitmaps s = (\<lambda>b. bblock b (fs_sb s)) ` {..<fsize s}"

definition iblocks :: "'z fstate_scheme \<Rightarrow> u32 set" where
  "iblocks s = (\<lambda>i. iblock i (fs_sb s)) ` {..<sb_ninodes (fs_sb s)}"

text \<open>Blocks that hold the contents of files.\<close>

definition datablk :: "'z fstate_scheme \<Rightarrow> u32 \<Rightarrow> bool" where
  "datablk s b \<longleftrightarrow> b \<noteq> 0 \<and> b < fsize s \<and> b \<notin> log_area s \<and> b \<notin> bitmaps s \<and> b \<notin> iblocks s"

text \<open>The layout: the areas lie on the disk, and what is free is a data block.\<close>

definition fs_ok :: "'z fstate_scheme \<Rightarrow> bool" where
  "fs_ok s \<longleftrightarrow> in_txn s \<and> fsize s \<le> disksize s \<and> unat (sb_bmapstart (fs_sb s)) + unat (fsize s) div BPB < 2 ^ 32 \<and>
     (\<forall>b\<in>bitmaps s \<union> iblocks s. b < disksize s \<and> b \<notin> log_area s) \<and> bitmaps s \<inter> iblocks s = {} \<and>
     (\<forall>b<fsize s. \<not> bused s b \<longrightarrow> datablk s b)"

lemma txr_layout:
  assumes "txr W s t"
  shows "fsize t = fsize s" "bitmaps t = bitmaps s" "iblocks t = iblocks s" "datablk t b = datablk s b" "bblock b (fs_sb t) = bblock b (fs_sb s)"
  using txrD [OF assms] by (simp_all add: fsize_def bitmaps_def iblocks_def datablk_def)

lemma unat_bblock:
  assumes "fs_ok s" "b < fsize s"
  shows "unat (bblock b (fs_sb s)) = unat b div BPB + unat (sb_bmapstart (fs_sb s))"
proof -
  have d: "unat (b div 4096) = unat b div 4096" by (simp add: unat_div)
  have "unat b div BPB \<le> unat (fsize s) div BPB" using assms(2) by (simp add: div_le_mono word_less_nat_alt)
  then have "unat b div BPB + unat (sb_bmapstart (fs_sb s)) < 2 ^ 32" using assms(1) by (simp add: fs_ok_def)
  then show ?thesis by (simp add: bblock_def unat_word_ariths BPB_def d)
qed

lemma bblock_eq:
  assumes "fs_ok s" "b < fsize s" "c < fsize s"
  shows "bblock b (fs_sb s) = bblock c (fs_sb s) \<longleftrightarrow> unat b div BPB = unat c div BPB"
  using unat_bblock [OF assms(1,2)] unat_bblock [OF assms(1,3)] by (simp add: word_unat_eq_iff)

lemma bitmask_bit: "x AND bitmask i \<noteq> 0 \<longleftrightarrow> bit x (i mod 8)"
  by (simp add: bitmask_def push_bit_of_1 and_exp_eq_0_iff_not_bit)

lemma bit_set:
  "(d(i div 8 := d (i div 8) OR bitmask i)) (j div 8) AND bitmask j \<noteq> 0 \<longleftrightarrow> d (j div 8) AND bitmask j \<noteq> 0 \<or> j = i"
proof -
  have "bit (bitmask i) (j mod 8) \<longleftrightarrow> i mod 8 = j mod 8" by (auto simp: bitmask_def push_bit_of_1 bit_exp_iff)
  moreover have "j = i \<longleftrightarrow> j div 8 = i div 8 \<and> i mod 8 = j mod 8" by (metis div_mult_mod_eq)
  ultimately show ?thesis by (auto simp: bitmask_bit bit_or_iff)
qed

lemma finite_bitmaps [simp]: "finite (bitmaps s)"
  by (simp add: bitmaps_def)

text \<open>Setting the bit of a block and clearing the block itself.\<close>

lemma bused_alloc:
  assumes ok: "fs_ok s" and a: "a < fsize s" "\<not> bused s a" and t: "fs_sb t = fs_sb s"
    and blk: "blk t = (blk s)(bblock a (fs_sb s) := (blk s (bblock a (fs_sb s)))(unat a mod BPB div 8 :=
        blk s (bblock a (fs_sb s)) (unat a mod BPB div 8) OR bitmask (unat a mod BPB)), a := z)"
    and c: "c < fsize s"
  shows "bused t c \<longleftrightarrow> bused s c \<or> c = a"
proof -
  let ?i = "unat a mod BPB" and ?j = "unat c mod BPB" and ?b = "bblock a (fs_sb s)" and ?d = "bblock c (fs_sb s)"
  have na: "?d \<noteq> a" using ok a c by (auto simp: fs_ok_def datablk_def bitmaps_def)
  show ?thesis
  proof (cases "?d = ?b")
    case True
    then have "unat c div BPB = unat a div BPB" using bblock_eq [OF ok c a(1)] by simp
    then have "?j = ?i \<longleftrightarrow> c = a" by (metis div_mult_mod_eq word_unat_eq_iff)
    then show ?thesis
      using na True bit_set [of "blk s ?b" ?i ?j] by (simp add: bused_def t blk fun_upd_def)
  next
    case False
    then have "c \<noteq> a" by auto
    with False na show ?thesis by (simp add: bused_def t blk)
  qed
qed

lemma fs_okD:
  assumes "fs_ok s"
  shows "in_txn s" "fsize s \<le> disksize s" "b \<in> bitmaps s \<Longrightarrow> b < disksize s \<and> b \<notin> log_area s"
    "b \<in> iblocks s \<Longrightarrow> b < disksize s \<and> b \<notin> log_area s" "b < fsize s \<Longrightarrow> \<not> bused s b \<Longrightarrow> datablk s b"
    "bitmaps s \<inter> iblocks s = {}"
  using assms by (auto simp: fs_ok_def)

lemma fs_ok_txr:
  assumes "fs_ok s" "txr W s t" "\<And>c. c < fsize s \<Longrightarrow> bused s c \<Longrightarrow> bused t c"
  shows "fs_ok t"
  using assms(1,3) txrD [OF assms(2)] txr_layout [OF assms(2)] by (auto simp: fs_ok_def)

text \<open>The effect of a successful allocation.\<close>

definition allocated :: "u32 \<Rightarrow> 'z fstate_scheme \<Rightarrow> 'z fstate_scheme \<Rightarrow> bool" where
  "allocated a s t \<longleftrightarrow> a < fsize s \<and> \<not> bused s a \<and> (\<forall>c<a. bused s c) \<and> txr {bblock a (fs_sb s), a} s t \<and> blk t a = (\<lambda>_. 0) \<and>
     (\<forall>c<fsize s. bused t c \<longleftrightarrow> bused s c \<or> c = a) \<and> keeps (held s) s t \<and> fs_ok t"

lemma alloc_found:
  fixes s :: "'z fstate_scheme"
  assumes ok: "fs_ok s" and a: "a < fsize s" "\<not> bused s a" "\<forall>c<a. bused s c"
    and h: "card (held s) \<le> 1" "held s \<inter> bitmaps s = {}" "a \<notin> held s"
    and room: "int (card (set (logged s) \<union> bitmaps s)) + 1 < log_size s"
    and b: "b = bblock a (fs_sb s)" and i: "i = unat a mod BPB"
  shows "runs (rbind (bread 1 b s) (\<lambda>(bp, s).
       rbind (log_write bp (set_data bp ((buf_data s bp)(i div 8 := buf_data s bp (i div 8) OR bitmask i)) s)) (brelse bp)))
     (\<lambda>t. runs (bzero 1 a t) (\<lambda>u. allocated a s u))"
proof -
  have bm: "b \<in> bitmaps s" using a(1) by (auto simp: b bitmaps_def)
  have da: "datablk s a" using fs_okD(5) [OF ok a(1,2)] .
  have nl: "nlog s \<le> card (set (logged s) \<union> bitmaps s)" unfolding nlog_def by (rule card_mono) auto
  note t = fs_okD(1) [OF ok]
  have m: "runs (rbind (bread 1 b s) (\<lambda>(bp, s).
       rbind (log_write bp (set_data bp ((buf_data s bp)(i div 8 := buf_data s bp (i div 8) OR bitmask i)) s)) (brelse bp)))
     (\<lambda>t. txr {b} s t \<and> blk t = (blk s)(b := (blk s b)(i div 8 := blk s b (i div 8) OR bitmask i)) \<and>
        set (logged t) = insert b (set (logged s)) \<and> keeps (held s) s t)"
    by (rule mod_runs [OF t, where f = "\<lambda>d. d(i div 8 := d (i div 8) OR bitmask i)"])
      (use fs_okD(3) [OF ok bm] h bm nl room in auto)
  show ?thesis
  proof (rule runs_mono [OF m])
    fix u assume u: "txr {b} s u \<and> blk u = (blk s)(b := (blk s b)(i div 8 := blk s b (i div 8) OR bitmask i)) \<and>
        set (logged u) = insert b (set (logged s)) \<and> keeps (held s) s u"
    then have tu: "txr {b} s u" and ku: "keeps (held s) s u" by auto
    note uD = txrD [OF tu] and hu = keepsD(2) [OF ku]
    have "nlog u \<le> card (set (logged s) \<union> bitmaps s)"
      unfolding nlog_def using u bm by (intro card_mono) auto
    then have z: "runs (bzero 1 a u) (\<lambda>v. txr {a} u v \<and> blk v = (blk u)(a := (\<lambda>_. 0)) \<and> set (logged v) = insert a (set (logged u)) \<and> keeps (held u) u v)"
      unfolding bzero_def using da uD hu h room a(1) fs_okD(2) [OF ok]
      by (intro mod_runs [OF uD(1), where f = "\<lambda>_ _. 0"]) (auto simp: datablk_def)
    show "runs (bzero 1 a u) (\<lambda>u. allocated a s u)"
    proof (rule runs_mono [OF z])
      fix v assume v: "txr {a} u v \<and> blk v = (blk u)(a := (\<lambda>_. 0)) \<and> set (logged v) = insert a (set (logged u)) \<and> keeps (held u) u v"
      have tv: "txr {b, a} s v" using txr_trans [OF tu, of "{a}" v] v by (simp add: insert_commute)
      have used: "bused v c \<longleftrightarrow> bused s c \<or> c = a" if "c < fsize s" for c
        by (rule bused_alloc [OF ok a(1,2) txrD(5) [OF tv] _ that, where z = "\<lambda>_. 0"]) (use u v b i in simp)
      have "fs_ok v" using used by (intro fs_ok_txr [OF ok tv]) simp
      moreover have "keeps (held s) s v" using keeps_trans [OF ku, of "held s" v] v hu by simp
      ultimately show "allocated a s v" using a used tv v b by (simp add: allocated_def)
    qed
  qed
qed

lemma unat_u32: "unat (x :: u32) < 2 ^ 32"
  using unsigned_less [of x] by simp

lemma unat_nat32: "k < 2 ^ 32 \<Longrightarrow> unat (word_of_nat k :: u32) = k"
  by (simp add: unat_of_nat)

lemma unat_nat: "unat (c :: u32) = k \<Longrightarrow> c = word_of_nat k"
  by auto

lemma free_bit_Some:
  assumes "free_bit d b n = Some i"
  shows "i < BPB" "b + i < n" "d (i div 8) AND bitmask i = 0" "\<forall>j<i. d (j div 8) AND bitmask j \<noteq> 0"
  using assms by (auto simp: free_bit_def find_upt_Some)

lemma free_bit_None:
  assumes "free_bit d b n = None" "j < BPB" "b + j < n"
  shows "d (j div 8) AND bitmask j \<noteq> 0"
  using assms by (auto simp: free_bit_def find_None_iff)

text \<open>The bits of the bitmap block read for \<open>b\<close> are those of the blocks from \<open>b\<close> on.\<close>

lemma bused_bit:
  assumes ok: "fs_ok s" and b: "b mod BPB = 0" and j: "j < BPB" "b + j < unat (fsize s)"
  shows "bused s (word_of_nat (b + j)) \<longleftrightarrow> blk s (bblock (word_of_nat b) (fs_sb s)) (j div 8) AND bitmask j \<noteq> 0"
    "unat (word_of_nat (b + j) :: u32) = b + j"
    "bblock (word_of_nat (b + j)) (fs_sb s) = bblock (word_of_nat b) (fs_sb s)"
proof -
  have lt: "b + j < 2 ^ 32" using j(2) unat_u32 [of "fsize s"] by simp
  then show u: "unat (word_of_nat (b + j) :: u32) = b + j" by (rule unat_nat32)
  have ub: "unat (word_of_nat b :: u32) = b" using lt by (intro unat_nat32) simp
  have "b = b div BPB * BPB" using b by (metis add.right_neutral div_mult_mod_eq)
  then have dm: "(b + j) div BPB = b div BPB" "(b + j) mod BPB = j"
    using j(1) b by (simp_all add: div_add1_eq mod_add_left_eq [symmetric, of b])
  have "(word_of_nat (b + j) :: u32) < fsize s" "(word_of_nat b :: u32) < fsize s"
    using j(2) u ub unfolding word_less_nat_alt by linarith+
  from bblock_eq [OF ok this] show e: "bblock (word_of_nat (b + j)) (fs_sb s) = bblock (word_of_nat b) (fs_sb s)"
    using u ub dm(1) by presburger
  show "bused s (word_of_nat (b + j)) \<longleftrightarrow> blk s (bblock (word_of_nat b) (fs_sb s)) (j div 8) AND bitmask j \<noteq> 0"
    unfolding bused_def e u dm(2) ..
qed

text \<open>States that agree in everything the allocator looks at.\<close>

definition same :: "'z fstate_scheme \<Rightarrow> 'z fstate_scheme \<Rightarrow> bool" where
  "same s t \<longleftrightarrow> txr {} s t \<and> blk t = blk s \<and> logged t = logged s \<and> keeps (held s) s t"

lemma sameD:
  assumes "same s t"
  shows "txr {} s t" "blk t = blk s" "logged t = logged s" "held t = held s" "bused t c = bused s c" "fsize t = fsize s" "bitmaps t = bitmaps s"
    "log_size t = log_size s" "bblock c (fs_sb t) = bblock c (fs_sb s)" "inodes t = inodes s" "log_area t = log_area s" "disksize t = disksize s"
    "iblocks t = iblocks s" "datablk t c = datablk s c" "nlog t = nlog s" "fs_sb t = fs_sb s"
  using assms txrD [of "{}" s t] txr_layout [of "{}" s t] by (auto simp: same_def keeps_def bused_def nlog_def)

lemma fs_ok_same: "fs_ok s \<Longrightarrow> same s t \<Longrightarrow> fs_ok t"
  by (rule fs_ok_txr [of s "{}"]) (simp_all add: sameD)

lemma same_trans: "same s t \<Longrightarrow> same t u \<Longrightarrow> same s u"
  using txr_trans [of "{}" s t "{}" u] keeps_trans [of "held s" s t "held s" u] by (auto simp: same_def keeps_def)

text \<open>\<open>bread\<close> and \<open>brelse\<close> with nothing in between.\<close>

lemma read_same:
  fixes s :: "'z fstate_scheme"
  assumes "in_txn s" "b < disksize s" "b \<notin> held s" "int (nlog s + card (held s)) < log_size s"
  obtains i s1 s2 where "bread 1 b s = Inr (i, s1)" "buf_data s1 i = blk s b" "inodes s1 = inodes s" "brelse i s1 = Inr s2" "same s s2"
proof -
  from get_runs [OF assms] obtain i s1 where g: "bread 1 b s = Inr (i, s1)" "txr {} s s1" "blk s1 = blk s" "logged s1 = logged s"
    "holds s1 i b" "buf_data s1 i = blk s b" "keeps (insert b (held s)) s s1" "clean b s1" by (auto simp: runs_def)
  from put_runs [OF txrD(1) [OF g(2)] g(5,8)] obtain s2 where p: "brelse i s1 = Inr s2" "txr {} s1 s2" "blk s2 = blk s1" "logged s2 = logged s1"
      "keeps (held s1 - {b}) s1 s2" by (auto simp: runs_def)
  have "held s1 - {b} = held s" using keepsD(2) [OF g(7)] assms(3) by auto
  then have "keeps (held s) s s2" using keeps_trans [OF g(7) p(5)] by auto
  then have "same s s2" using txr_trans [OF g(2) p(2)] g p by (simp add: same_def)
  with g(1,6) p(1) txrD(6) [OF g(2)] show ?thesis by (intro that) auto
qed

lemma balloc_skip:
  fixes s :: "'z fstate_scheme"
  assumes ok: "fs_ok s" and b: "b mod BPB = 0" "b < unat (fsize s)" and h: "card (held s) \<le> 1" "held s \<inter> bitmaps s = {}"
    and room: "int (card (set (logged s) \<union> bitmaps s)) + 1 < log_size s"
    and None: "free_bit (blk s (bblock (word_of_nat b) (fs_sb s))) b (unat (fsize s)) = None"
  obtains s2 where "balloc_loop (unat (fsize s)) 1 b s = balloc_loop (unat (fsize s2)) 1 (b + BPB) s2" "same s s2"
    "\<And>c. b \<le> unat c \<Longrightarrow> unat c < b + BPB \<Longrightarrow> c < fsize s \<Longrightarrow> bused s c"
proof -
  let ?b = "bblock (word_of_nat b) (fs_sb s)"
  have "(word_of_nat b :: u32) < fsize s"
    using b(2) unat_u32 [of "fsize s"] by (simp add: word_less_nat_alt unat_of_nat)
  then have bm: "?b \<in> bitmaps s" by (auto simp: bitmaps_def)
  have nl: "nlog s \<le> card (set (logged s) \<union> bitmaps s)" unfolding nlog_def by (rule card_mono) auto
  obtain bp s1 s2 where g: "bread 1 ?b s = Inr (bp, s1)" "buf_data s1 bp = blk s ?b" "brelse bp s1 = Inr s2" "same s s2"
    by (rule read_same [OF fs_okD(1) [OF ok], of ?b]) (use fs_okD(3) [OF ok bm] h bm nl room in auto)
  have "balloc_loop (unat (fsize s)) 1 b s = balloc_loop (unat (fsize s2)) 1 (b + BPB) s2"
    by (subst balloc_loop.simps) (use b(2) g None sameD(6) [OF g(4)] in \<open>simp add: Let_def\<close>)
  moreover have "bused s c" if c: "b \<le> unat c" "unat c < b + BPB" "c < fsize s" for c
  proof -
    obtain j where j: "unat c = b + j" "j < BPB" using c by (metis add_less_cancel_left le_Suc_ex)
    then have e: "c = word_of_nat (b + j)" by (intro unat_nat)
    have "b + j < unat (fsize s)" using c(3) j by (simp add: word_less_nat_alt)
    then show ?thesis using bused_bit(1) [OF ok b(1) j(2)] free_bit_None [OF None j(2)] e by simp
  qed
  ultimately show ?thesis using g(4) by (intro that)
qed

lemma balloc_loop_runs:
  fixes s :: "'z fstate_scheme"
  assumes "fs_ok s" and "b mod BPB = 0" and "\<forall>c. unat c < b \<longrightarrow> c < fsize s \<longrightarrow> bused s c" and "\<exists>c<fsize s. \<not> bused s c"
    and "card (held s) \<le> 1" "held s \<inter> bitmaps s = {}" "\<forall>c\<in>held s. c < fsize s \<longrightarrow> bused s c"
    and "int (card (set (logged s) \<union> bitmaps s)) + 1 < log_size s"
  shows "runs (balloc_loop (unat (fsize s)) 1 b s) (\<lambda>(a, t). allocated a s t)"
  using assms
proof (induction "unat (fsize s) - b" arbitrary: b s rule: less_induct)
  case less
  note ok = less(2) and b = less(3) and prev = less(4) and h = less(6,7,8) and room = less(9)
  obtain c where c: "c < fsize s" "\<not> bused s c" using less(5) by blast
  then have bn: "b < unat (fsize s)" using prev by (metis not_le_imp_less order_le_less_trans word_less_nat_alt)
  let ?b = "bblock (word_of_nat b) (fs_sb s)"
  show ?case
  proof (cases "free_bit (blk s ?b) b (unat (fsize s))")
    case (Some i)
    note i = free_bit_Some [OF Some]
    let ?a = "word_of_nat (b + i) :: u32"
    note bit = bused_bit [OF ok b i(1,2)]
    have a: "?a < fsize s" using i(2) bit(2) by (simp add: word_less_nat_alt)
    have free: "\<not> bused s ?a" using bit(1) i(3) by simp
    have first: "\<forall>c<?a. bused s c"
    proof (intro allI impI)
      fix c assume "c < ?a"
      then have ca: "unat c < b + i" "c < fsize s" using bit(2) a by (auto simp: word_less_nat_alt)
      show "bused s c"
      proof (cases "unat c < b")
        case False
        then obtain j where j: "unat c = b + j" "j < i" using ca(1) by (metis add_less_cancel_left le_Suc_ex not_less)
        then have "c = word_of_nat (b + j)" by (intro unat_nat)
        then show ?thesis using bused_bit(1) [OF ok b, of j] j i by simp
      qed (use prev ca in blast)
    qed
    have nh: "?a \<notin> held s" using h(3) a free by blast
    have im: "unat ?a mod BPB = i" using bit(2) b i(1) by (simp add: mod_add_left_eq [symmetric])
    note found = alloc_found [OF ok a free first h(1,2) nh room refl refl, unfolded im bit(3)]
    then obtain bp s1 where g: "bread 1 ?b s = Inr (bp, s1)" by (auto simp: runs_def)
    have d: "buf_data s1 bp = blk s ?b"
    proof -
      have bm: "?b \<in> bitmaps s" unfolding bitmaps_def bit(3) [symmetric] using a by blast
      have "nlog s \<le> card (set (logged s) \<union> bitmaps s)" unfolding nlog_def by (rule card_mono) auto
      with get_runs [OF fs_okD(1) [OF ok], of ?b] show ?thesis
        using g fs_okD(3) [OF ok bm] h(1,2) bm room by (auto simp: runs_def)
    qed
    have "balloc_loop (unat (fsize s)) 1 b s =
       rbind (rbind (bread 1 ?b s) (\<lambda>(bp, s).
         rbind (log_write bp (set_data bp ((buf_data s bp)(i div 8 := buf_data s bp (i div 8) OR bitmask i)) s)) (brelse bp))) (\<lambda>s.
         rbind (bzero 1 ?a s) (\<lambda>s. Inr (?a, s)))"
      by (subst balloc_loop.simps) (use bn g d Some in \<open>simp add: rbind_assoc Let_def\<close>)
    then show ?thesis by (simp only:) (rule runs_bind [OF found], rule runs_bind, assumption, simp)
  next
    case None
    from balloc_skip [OF ok b bn h(1,2) room None] obtain s2 where s2:
      "balloc_loop (unat (fsize s)) 1 b s = balloc_loop (unat (fsize s2)) 1 (b + BPB) s2" "same s s2"
      "\<And>c. b \<le> unat c \<Longrightarrow> unat c < b + BPB \<Longrightarrow> c < fsize s \<Longrightarrow> bused s c" by blast
    note sm = sameD [OF s2(2)]
    have nxt: "bused s c" if "unat c < b + BPB" "c < fsize s" for c
      using prev s2(3) that by (cases "b \<le> unat c") auto
    have "runs (balloc_loop (unat (fsize s2)) 1 (b + BPB) s2) (\<lambda>(a, t). allocated a s2 t)"
      by (rule less(1)) (use fs_ok_same [OF ok s2(2)] b nxt c h room sm bn in \<open>auto simp: BPB_def\<close>)
    then show ?thesis unfolding s2(1)
    proof (rule runs_mono)
      fix x assume "case x of (a, t) \<Rightarrow> allocated a s2 t"
      then obtain a t where x: "x = (a, t)" "allocated a s2 t" by auto
      have "keeps (held s) s s2" using s2(2) by (simp add: same_def)
      then have "allocated a s t"
        using x sm txr_trans [OF sm(1), of _ t] keeps_trans [of "held s" s s2 "held s" t] by (auto simp: allocated_def)
      then show "case x of (a, t) \<Rightarrow> allocated a s t" using x by simp
    qed
  qed
qed

lemma balloc_loop_full:
  fixes s :: "'z fstate_scheme"
  assumes "fs_ok s" and "b mod BPB = 0" and "\<forall>c<fsize s. bused s c"
    and "card (held s) \<le> 1" "held s \<inter> bitmaps s = {}" "int (card (set (logged s) \<union> bitmaps s)) + 1 < log_size s"
  shows "balloc_loop (unat (fsize s)) 1 b s = Inl (Panic ''balloc: out of blocks'')"
  using assms
proof (induction "unat (fsize s) - b" arbitrary: b s rule: less_induct)
  case less
  note ok = less(2) and b = less(3) and full = less(4) and h = less(5,6) and room = less(7)
  show ?case
  proof (cases "b < unat (fsize s)")
    case True
    have "free_bit (blk s (bblock (word_of_nat b) (fs_sb s))) b (unat (fsize s)) = None"
    proof (rule ccontr)
      assume "free_bit (blk s (bblock (word_of_nat b) (fs_sb s))) b (unat (fsize s)) \<noteq> None"
      then obtain i where "free_bit (blk s (bblock (word_of_nat b) (fs_sb s))) b (unat (fsize s)) = Some i" by auto
      note i = free_bit_Some [OF this]
      note bit = bused_bit [OF ok b i(1,2)]
      have "(word_of_nat (b + i) :: u32) < fsize s" using i(2) bit(2) by (simp add: word_less_nat_alt)
      then show False using full bit(1) i(3) by blast
    qed
    from balloc_skip [OF ok b True h room this] obtain s2 where s2:
      "balloc_loop (unat (fsize s)) 1 b s = balloc_loop (unat (fsize s2)) 1 (b + BPB) s2" "same s s2" by blast
    note sm = sameD [OF s2(2)]
    show ?thesis unfolding s2(1)
      by (rule less(1)) (use fs_ok_same [OF ok s2(2)] b full h room sm True in \<open>auto simp: BPB_def\<close>)
  qed (subst balloc_loop.simps, simp)
qed

lemma balloc_runs:
  fixes s :: "'z fstate_scheme"
  assumes "fs_ok s" and "\<exists>c<fsize s. \<not> bused s c"
    and "card (held s) \<le> 1" "held s \<inter> bitmaps s = {}" "\<forall>c\<in>held s. c < fsize s \<longrightarrow> bused s c"
    and "int (card (set (logged s) \<union> bitmaps s)) + 1 < log_size s"
  shows "runs (balloc 1 s) (\<lambda>(a, t). allocated a s t)"
  using balloc_loop_runs [OF assms(1) _ _ assms(2-6), of 0] by (simp add: balloc_def fsize_def)

text \<open>
  C27: The block allocator, in a transaction with room for the bitmap and one block more: while
  some block is free it returns the first free one, which is a data block, marks exactly
  that one as used, clears it, and leaves every other block but the one with its bit as it was;
  when no block is free it panics.
\<close>

theorem balloc_allocates:
  fixes s :: "'z fstate_scheme"
  assumes "fs_ok s" and "held s = {}" and "int (card (set (logged s) \<union> bitmaps s)) + 1 < log_size s"
  shows "if \<exists>c<fsize s. \<not> bused s c
     then \<exists>a t. balloc 1 s = Inr (a, t) \<and> a < fsize s \<and> \<not> bused s a \<and> (\<forall>c<a. bused s c) \<and> datablk s a \<and>
       blk t a = (\<lambda>_. 0) \<and> (\<forall>c<fsize s. bused t c \<longleftrightarrow> bused s c \<or> c = a) \<and>
       (\<forall>b. b \<noteq> a \<and> b \<noteq> bblock a (fs_sb s) \<longrightarrow> blk t b = blk s b) \<and> fs_ok t \<and> held t = {}
     else balloc 1 s = Inl (Panic ''balloc: out of blocks'')"
proof (cases "\<exists>c<fsize s. \<not> bused s c")
  case True
  from balloc_runs [OF assms(1) True _ _ _ assms(3)] obtain a t where r: "balloc 1 s = Inr (a, t)" "allocated a s t"
    using assms(2) by (auto simp: runs_def)
  then have tx: "txr {bblock a (fs_sb s), a} s t" "keeps (held s) s t" "a < fsize s" "\<not> bused s a" by (auto simp: allocated_def)
  show ?thesis using True r assms(2) txrD(8) [OF tx(1)] keepsD(2) [OF tx(2)] fs_okD(5) [OF assms(1) tx(3,4)]
    by (auto simp: allocated_def)
next
  case False
  then show ?thesis using balloc_loop_full [OF assms(1), of 0] assms(2,3) by (simp add: balloc_def fsize_def)
qed

section \<open>A small file system\<close>

lemma log_area_interval:
  assumes "log_geom s"
  shows "log_area s = {b. log_start s \<le> uint b \<and> uint b < log_start s + log_size s}"
proof (intro set_eqI iffI CollectI)
  fix b assume "b \<in> log_area s"
  then obtain k where "b = lblk s k" "int k < log_size s" by (auto simp: log_area_def)
  then show "log_start s \<le> uint b \<and> uint b < log_start s + log_size s" using lblk_uint [OF assms] by simp
next
  fix b :: u32 assume "b \<in> {b. log_start s \<le> uint b \<and> uint b < log_start s + log_size s}"
  then have b: "log_start s \<le> uint b" "uint b < log_start s + log_size s" by auto
  let ?k = "nat (uint b - log_start s)"
  have "uint (lblk s ?k) = uint b" using lblk_uint [OF assms, of ?k] b by simp
  then have "b = lblk s ?k" by (simp add: word_uint_eq_iff)
  then show "b \<in> log_area s" using lblk_area [of ?k s] b by simp
qed

text \<open>
  2000 blocks: the log in blocks 2 to 31, 200 inodes from block 32, the free map in block 60 with
  the first 104 blocks in use, and nothing cached or logged.
\<close>

definition demo_disk :: "u32 \<Rightarrow> block" where
  "demo_disk b k = (if b = 60 \<and> k < 13 then 255 else 0)"

definition demo_inode :: inode where
  "demo_inode = \<lparr>i_dev = 1, i_inum = 5, i_ref = 1, i_lock = initsleeplock, i_valid = True, i_type = T_FILE, i_major = 0, i_minor = 0,
     i_nlink = 1, i_size = 0, i_addrs = replicate 13 0\<rparr>"

definition demo_fs :: fstate where
  "demo_fs = binit \<lparr>bufs = replicate NBUF zero_buf, lru = [], disk = demo_disk, disksize = 2000, dwrites = [], wakes = [], curpid = 1,
     log_start = 2, log_size = 30, log_outstanding = 1, log_committing = False, log_dev = 1, lh_n = 0, lh_block = replicate LOGSIZE 0,
     fs_sb = \<lparr>sb_size = 2000, sb_nblocks = 1900, sb_ninodes = 200, sb_nlog = 30, sb_logstart = 2, sb_inodestart = 32, sb_bmapstart = 60\<rparr>,
     inodes = [demo_inode], fs_cwd = 0\<rparr>"

lemma demo_fs_fields:
  "log_start demo_fs = 2" "log_size demo_fs = 30" "log_outstanding demo_fs = 1" "log_dev demo_fs = 1" "lh_n demo_fs = 0"
  "lh_block demo_fs = replicate LOGSIZE 0" "disk demo_fs = demo_disk" "disksize demo_fs = 2000" "inodes demo_fs = [demo_inode]"
  "fs_sb demo_fs = \<lparr>sb_size = 2000, sb_nblocks = 1900, sb_ninodes = 200, sb_nlog = 30, sb_logstart = 2, sb_inodestart = 32, sb_bmapstart = 60\<rparr>"
  "cache_ok demo_fs" "held demo_fs = {}" "dirty demo_fs = {}" "blk demo_fs = demo_disk" "logged demo_fs = []"
proof -
  show "log_start demo_fs = 2" "log_size demo_fs = 30" "log_outstanding demo_fs = 1" "log_dev demo_fs = 1" "lh_n demo_fs = 0"
    "lh_block demo_fs = replicate LOGSIZE 0" "disk demo_fs = demo_disk" "disksize demo_fs = 2000" "inodes demo_fs = [demo_inode]"
    "fs_sb demo_fs = \<lparr>sb_size = 2000, sb_nblocks = 1900, sb_ninodes = 200, sb_nlog = 30, sb_logstart = 2, sb_inodestart = 32, sb_bmapstart = 60\<rparr>"
    "logged demo_fs = []"
    by (simp_all add: demo_fs_def binit_ok(5) logged_def)
  show "cache_ok demo_fs" "held demo_fs = {}" "dirty demo_fs = {}"
    unfolding demo_fs_def by (rule binit_ok; simp)+
  show "blk demo_fs = demo_disk" unfolding demo_fs_def by (subst binit_ok(4)) simp_all
qed

lemma demo_txn: "in_txn demo_fs"
  by (simp add: in_txn_def demo_fs_fields log_geom_def head_ok_def LOGSIZE_def)

lemma demo_areas:
  "fsize demo_fs = 2000" "bblock b (fs_sb demo_fs) = b div 4096 + 60" "b < 2000 \<Longrightarrow> b div 4096 = 0"
  "bitmaps demo_fs = {60}" "b \<in> log_area demo_fs \<longleftrightarrow> 2 \<le> b \<and> b < 32" "b \<in> iblocks demo_fs \<Longrightarrow> 32 \<le> b \<and> b < 57"
proof -
  show f: "fsize demo_fs = 2000" "bblock b (fs_sb demo_fs) = b div 4096 + 60" for b by (simp_all add: fsize_def bblock_def demo_fs_fields)
  show d: "b div 4096 = 0" if "b < 2000" for b :: u32
    using that by (simp add: word_less_nat_alt word_unat_eq_iff unat_div)
  show "bitmaps demo_fs = {60}" unfolding bitmaps_def f using d by (auto intro!: image_eqI [of _ _ 0])
  have "log_geom demo_fs" using demo_txn by (simp add: in_txn_def)
  from log_area_interval [OF this] show "b \<in> log_area demo_fs \<longleftrightarrow> 2 \<le> b \<and> b < 32"
    by (simp add: demo_fs_fields word_le_def word_less_def)
  show "32 \<le> b \<and> b < 57" if "b \<in> iblocks demo_fs"
  proof -
    note b = that
    obtain i :: u32 where i: "i < 200" "b = i div 8 + 32" using b by (auto simp: iblocks_def iblock_def demo_fs_fields)
    then have "unat i div 8 \<le> 24" by (simp add: word_less_nat_alt)
    then have "unat b = unat i div 8 + 32" using i(2) by (simp add: unat_word_ariths unat_div)
    then show ?thesis using \<open>unat i div 8 \<le> 24\<close> by (simp add: word_le_nat_alt word_less_nat_alt)
  qed
qed

lemma demo_used: "b < 2000 \<Longrightarrow> bused demo_fs b \<longleftrightarrow> b < 104"
proof -
  assume b: "b < 2000"
  then have u: "unat b mod BPB = unat b" by (simp add: BPB_def word_less_nat_alt)
  have m: "bit (255 :: u8) (unat b mod 8)"
  proof -
    have "(255 :: u8) = - 1" by simp
    then show ?thesis by (simp only:) simp
  qed
  have "bblock b (fs_sb demo_fs) = 60" using demo_areas(3) [OF b] by (simp add: demo_areas(2))
  then have "bused demo_fs b \<longleftrightarrow> unat b div 8 < 13"
    using m by (simp add: bused_def u bitmask_bit demo_fs_fields(14) demo_disk_def)
  then show ?thesis by (simp add: word_less_nat_alt) linarith
qed

lemma demo_fs_ok: "fs_ok demo_fs"
proof -
  have "datablk demo_fs b" if b: "b < 2000" "\<not> bused demo_fs b" for b
  proof -
    have "104 \<le> unat b" using b demo_used [of b] by (simp add: word_less_nat_alt)
    then show ?thesis
      using b(1) demo_areas(6) [of b] by (auto simp: datablk_def demo_areas word_le_nat_alt word_less_nat_alt)
  qed
  moreover have "b < 2000 \<and> b \<notin> log_area demo_fs" if "b \<in> bitmaps demo_fs \<union> iblocks demo_fs" for b
    using that demo_areas(6) [of b] by (auto simp: demo_areas word_le_nat_alt word_less_nat_alt)
  moreover have "60 \<notin> iblocks demo_fs" using demo_areas(6) [of 60] by (auto simp: word_less_nat_alt)
  ultimately show ?thesis
    using demo_txn by (simp add: fs_ok_def demo_areas(1,4)) (simp add: demo_fs_fields BPB_def)
qed

theorem balloc_allocates_witness:
  "\<exists>t. balloc 1 demo_fs = Inr (104, t) \<and> blk t 104 = (\<lambda>_. 0) \<and> bused t 104"
proof -
  have ex: "\<exists>c<fsize demo_fs. \<not> bused demo_fs c"
    using demo_used [of 104] by (intro exI [of _ 104]) (simp add: demo_areas)
  have "int (card (set (logged demo_fs) \<union> bitmaps demo_fs)) + 1 < log_size demo_fs" by (simp add: demo_fs_fields demo_areas)
  from balloc_allocates [OF demo_fs_ok demo_fs_fields(12) this] ex obtain a t where
    a: "balloc 1 demo_fs = Inr (a, t)" "a < 2000" "\<not> bused demo_fs a" "\<forall>c<a. bused demo_fs c" "blk t a = (\<lambda>_. 0)" "bused t a"
    by (auto simp: demo_areas)
  have "\<not> bused demo_fs 104" using demo_used [of 104] by simp
  then have "\<not> 104 < a" using a(4) by blast
  moreover have "\<not> a < 104" using a(2,3) demo_used by blast
  ultimately have "a = 104" by simp
  with a show ?thesis by auto
qed

end
