(* ===== verification/Fsdata.thy ===== *)
theory Fsdata
  imports Fsblocks
begin

text \<open>
  The contents of files: the block map of an inode as a partial function from block numbers to
  disk blocks, the bytes of a file (holes read as zero), and reading and writing in terms of them.
\<close>

section \<open>The block map\<close>

abbreviation ind :: "inode \<Rightarrow> u32" where
  "ind n \<equiv> i_addrs n ! 12"

definition faddr :: "'z fstate_scheme \<Rightarrow> inode \<Rightarrow> nat \<Rightarrow> u32" where
  "faddr s n j = (if j < 12 then i_addrs n ! j else if ind n = 0 then 0 else ld32 (blk s (ind n)) (4 * (j - 12)))"

definition fbyte :: "'z fstate_scheme \<Rightarrow> inode \<Rightarrow> nat \<Rightarrow> u8" where
  "fbyte s n k = (let a = faddr s n (k div 512) in if a = 0 then 0 else blk s a (k mod 512))"

definition inuse :: "'z fstate_scheme \<Rightarrow> u32 \<Rightarrow> bool" where
  "inuse s a \<longleftrightarrow> datablk s a \<and> bused s a"

text \<open>The blocks of a file are data blocks in use, each in one place.\<close>

definition file_ok :: "'z fstate_scheme \<Rightarrow> inode \<Rightarrow> bool" where
  "file_ok s n \<longleftrightarrow> length (i_addrs n) = 13 \<and> i_dev n = 1 \<and>
     (\<forall>j<MAXFILE. faddr s n j \<noteq> 0 \<longrightarrow> inuse s (faddr s n j) \<and> faddr s n j \<noteq> ind n) \<and>
     (ind n \<noteq> 0 \<longrightarrow> inuse s (ind n)) \<and>
     (\<forall>i<MAXFILE. \<forall>j<MAXFILE. faddr s n i = faddr s n j \<longrightarrow> faddr s n i \<noteq> 0 \<longrightarrow> i = j)"

lemma file_okD:
  assumes "file_ok s n"
  shows "length (i_addrs n) = 13" "i_dev n = 1" "j < MAXFILE \<Longrightarrow> faddr s n j \<noteq> 0 \<Longrightarrow> inuse s (faddr s n j) \<and> faddr s n j \<noteq> ind n"
    "ind n \<noteq> 0 \<Longrightarrow> inuse s (ind n)"
    "i < MAXFILE \<Longrightarrow> j < MAXFILE \<Longrightarrow> faddr s n i = faddr s n j \<Longrightarrow> faddr s n i \<noteq> 0 \<Longrightarrow> i = j"
  using assms by (auto simp: file_ok_def)

section \<open>Changes of the in-memory inode\<close>

lemma cache_inodes [simp]:
  "cache_ok (s\<lparr>inodes := x\<rparr>) = cache_ok s" "held (s\<lparr>inodes := x\<rparr>) = held s" "dirty (s\<lparr>inodes := x\<rparr>) = dirty s"
  "blk (s\<lparr>inodes := x\<rparr>) = blk s" "holds (s\<lparr>inodes := x\<rparr>) = holds s" "buf_data (s\<lparr>inodes := x\<rparr>) = buf_data s"
  by (rule cache_frame; simp)+

lemma upd_inode_frame [simp]:
  "held (upd_inode ip f s) = held s" "blk (upd_inode ip f s) = blk s" "holds (upd_inode ip f s) = holds s"
  "logged (upd_inode ip f s) = logged s" "nlog (upd_inode ip f s) = nlog s" "in_txn (upd_inode ip f s) = in_txn s"
  "fs_sb (upd_inode ip f s) = fs_sb s" "fsize (upd_inode ip f s) = fsize s" "bitmaps (upd_inode ip f s) = bitmaps s"
  "iblocks (upd_inode ip f s) = iblocks s" "log_size (upd_inode ip f s) = log_size s" "log_area (upd_inode ip f s) = log_area s"
  "disksize (upd_inode ip f s) = disksize s" "disk (upd_inode ip f s) = disk s"
proof -
  show l: "logged (upd_inode ip f s) = logged s" "log_size (upd_inode ip f s) = log_size s" "log_area (upd_inode ip f s) = log_area s"
    "disksize (upd_inode ip f s) = disksize s" "disk (upd_inode ip f s) = disk s" "fs_sb (upd_inode ip f s) = fs_sb s"
    by (simp_all add: upd_inode_def logged_def log_area_def lblk_def)
  show "held (upd_inode ip f s) = held s" "blk (upd_inode ip f s) = blk s" "holds (upd_inode ip f s) = holds s"
    by (simp_all add: upd_inode_def)
  show "nlog (upd_inode ip f s) = nlog s" "fsize (upd_inode ip f s) = fsize s" "bitmaps (upd_inode ip f s) = bitmaps s"
    "iblocks (upd_inode ip f s) = iblocks s"
    using l by (simp_all add: nlog_def fsize_def bitmaps_def iblocks_def)
  show "in_txn (upd_inode ip f s) = in_txn s"
    using l by (simp add: in_txn_def log_geom_def head_ok_def) (simp add: upd_inode_def)
qed

lemma upd_inode_preds [simp]:
  "bused (upd_inode ip f s) b = bused s b" "datablk (upd_inode ip f s) b = datablk s b" "inuse (upd_inode ip f s) b = inuse s b"
  "faddr (upd_inode ip f s) n j = faddr s n j" "fbyte (upd_inode ip f s) n k = fbyte s n k" "file_ok (upd_inode ip f s) n = file_ok s n"
proof -
  show b: "bused (upd_inode ip f s) b = bused s b" "datablk (upd_inode ip f s) b = datablk s b" "inuse (upd_inode ip f s) b = inuse s b"
    "faddr (upd_inode ip f s) n j = faddr s n j" for b j
    by (simp_all add: bused_def datablk_def inuse_def faddr_def)
  show "fbyte (upd_inode ip f s) n k = fbyte s n k" "file_ok (upd_inode ip f s) n = file_ok s n"
    by (simp_all add: fbyte_def file_ok_def b Let_def)
qed

lemma upd_inode_fs_ok [simp]: "fs_ok (upd_inode ip f s) = fs_ok s"
  by (simp add: fs_ok_def)

lemma inodes_upd [simp]: "inodes (upd_inode ip f s) = (inodes s)[ip := f (inodes s ! ip)]"
  by (simp add: upd_inode_def upd_at_def)

section \<open>Allocation does not disturb files\<close>

text \<open>
  \<open>t\<close> may have changed blocks that were free in \<open>s\<close>, bitmap blocks, and \<open>X\<close>: all other blocks in use
  are as before.
\<close>

definition frame :: "u32 set \<Rightarrow> 'z fstate_scheme \<Rightarrow> 'z fstate_scheme \<Rightarrow> bool" where
  "frame X s t \<longleftrightarrow> fs_sb t = fs_sb s \<and> log_area t = log_area s \<and> log_size t = log_size s \<and> disksize t = disksize s \<and>
     (\<forall>b<fsize s. bused s b \<longrightarrow> bused t b) \<and> (\<forall>b. inuse s b \<longrightarrow> b \<notin> X \<longrightarrow> blk t b = blk s b)"

lemma frame_layout:
  assumes "frame X s t"
  shows "fsize t = fsize s" "bitmaps t = bitmaps s" "iblocks t = iblocks s" "datablk t b = datablk s b" "inuse s b \<Longrightarrow> inuse t b"
    "log_size t = log_size s" "fs_sb t = fs_sb s"
  using assms by (auto simp: frame_def fsize_def bitmaps_def iblocks_def datablk_def inuse_def)

lemma frame_trans: "frame X s t \<Longrightarrow> frame Y t u \<Longrightarrow> frame (X \<union> Y) s u"
proof -
  assume st: "frame X s t" and tu: "frame Y t u"
  note l = frame_layout [OF st]
  show ?thesis using st tu l by (auto simp: frame_def)
qed

lemma frame_mono: "frame X s t \<Longrightarrow> X \<subseteq> Y \<Longrightarrow> frame Y s t"
  by (auto simp: frame_def)

lemma frame_upd_inode [simp]: "frame X s (upd_inode ip f t) = frame X s t" "frame X (upd_inode ip f s) t = frame X s t"
  by (simp_all add: frame_def)

lemma frame_same: "same s t \<Longrightarrow> frame X s t"
  using sameD [of s t] by (simp add: frame_def)

lemma frame_alloc: "allocated a s t \<Longrightarrow> frame {} s t"
proof -
  assume al: "allocated a s t"
  then have tx: "txr {bblock a (fs_sb s), a} s t" and a: "a < fsize s" "\<not> bused s a" by (auto simp: allocated_def)
  have "blk t b = blk s b" if "inuse s b" for b
    using that a by (intro txrD(8) [OF tx]) (auto simp: inuse_def datablk_def bitmaps_def)
  then show ?thesis using txrD [OF tx] al by (auto simp: frame_def allocated_def)
qed

text \<open>A file none of whose blocks is in \<open>X\<close> is unchanged.\<close>

lemma frame_file:
  assumes fr: "frame X s t" and ok: "file_ok s n" and ind: "ind n \<notin> X \<or> ind n = 0"
  shows "j < MAXFILE \<Longrightarrow> faddr t n j = faddr s n j" "file_ok t n"
    "k div 512 < MAXFILE \<Longrightarrow> faddr s n (k div 512) \<notin> X \<Longrightarrow> fbyte t n k = fbyte s n k"
proof -
  have same: "blk t b = blk s b" if "inuse s b" "b \<notin> X" for b using fr that by (auto simp: frame_def)
  show f: "faddr t n j = faddr s n j" for j
    using file_okD(4) [OF ok] ind same by (auto simp: faddr_def)
  show "file_ok t n"
    using ok frame_layout(5) [OF fr] by (simp add: file_ok_def f)
  show "fbyte t n k = fbyte s n k" if "k div 512 < MAXFILE" "faddr s n (k div 512) \<notin> X"
    using same file_okD(3) [OF ok that(1)] that(2) by (simp add: fbyte_def f Let_def)
qed

definition nfree :: "'z fstate_scheme \<Rightarrow> nat" where
  "nfree s = card {b. b < fsize s \<and> \<not> bused s b}"

lemma nfree_alloc:
  assumes "allocated a s t"
  shows "nfree s = Suc (nfree t)"
proof -
  have l: "fsize t = fsize s" using frame_layout [OF frame_alloc [OF assms]] by simp
  have "{b. b < fsize s \<and> \<not> bused s b} = insert a {b. b < fsize t \<and> \<not> bused t b}" "a \<notin> {b. b < fsize t \<and> \<not> bused t b}"
    using assms l by (auto simp: allocated_def)
  then show ?thesis by (simp add: nfree_def)
qed

lemma nfree_pos: "0 < nfree s \<Longrightarrow> \<exists>c<fsize s. \<not> bused s c"
  by (auto simp: nfree_def card_gt_0_iff)

lemma nfree_same: "same s t \<Longrightarrow> nfree t = nfree s"
  by (simp add: nfree_def sameD)

lemma nfree_upd [simp]: "nfree (upd_inode ip f s) = nfree s"
  by (simp add: nfree_def)

section \<open>\<open>bmap\<close>\<close>

definition b2n :: "bool \<Rightarrow> nat" where
  "b2n p = (if p then 1 else 0)"

text \<open>
  The blocks of the log that writing to a file may use besides data blocks: the bitmaps and the indirect
  block, which counts although it has no number yet.
\<close>

definition lset :: "'z fstate_scheme \<Rightarrow> inode \<Rightarrow> u32 set" where
  "lset s n = set (logged s) \<union> bitmaps s \<union> ({ind n} - {0})"

definition logroom :: "'z fstate_scheme \<Rightarrow> inode \<Rightarrow> nat" where
  "logroom s n = card (lset s n) + b2n (ind n = 0)"

lemma finite_lset [simp]: "finite (lset s n)"
  by (simp add: lset_def)

definition mapped :: "nat \<Rightarrow> nat \<Rightarrow> 'z fstate_scheme \<Rightarrow> u32 \<Rightarrow> 'z fstate_scheme \<Rightarrow> bool" where
  "mapped ip j s a t \<longleftrightarrow> (let n = inodes s ! ip; n' = inodes t ! ip in
     fs_ok t \<and> held t = {} \<and> frame {ind n} s t \<and> inodes t = (inodes s)[ip := n\<lparr>i_addrs := i_addrs n'\<rparr>] \<and> file_ok t n' \<and> a \<noteq> 0 \<and>
     (\<forall>i<MAXFILE. faddr t n' i = (if i = j then a else faddr s n i)) \<and> (faddr s n j \<noteq> 0 \<longrightarrow> a = faddr s n j) \<and> (faddr s n j = 0 \<longrightarrow> \<not> bused s a) \<and>
     (\<forall>k. k div 512 < MAXFILE \<longrightarrow> fbyte t n' k = fbyte s n k) \<and>
     (ind n' = ind n \<or> ind n = 0 \<and> \<not> bused s (ind n')) \<and>
     card (insert a (lset t n')) + b2n (ind n' = 0) \<le> logroom s n + 1 \<and>
     nfree s + b2n (ind n' = 0) \<le> nfree t + b2n (ind n = 0) + 1)"

lemma mappedD:
  assumes "mapped ip j s a t"
  shows "fs_ok t" "held t = {}" "frame {ind (inodes s ! ip)} s t" "inodes t = (inodes s)[ip := (inodes s ! ip)\<lparr>i_addrs := i_addrs (inodes t ! ip)\<rparr>]"
    "file_ok t (inodes t ! ip)" "a \<noteq> 0"
    "i < MAXFILE \<Longrightarrow> faddr t (inodes t ! ip) i = (if i = j then a else faddr s (inodes s ! ip) i)"
    "faddr s (inodes s ! ip) j \<noteq> 0 \<Longrightarrow> a = faddr s (inodes s ! ip) j" "faddr s (inodes s ! ip) j = 0 \<Longrightarrow> \<not> bused s a"
    "k div 512 < MAXFILE \<Longrightarrow> fbyte t (inodes t ! ip) k = fbyte s (inodes s ! ip) k"
    "ind (inodes t ! ip) = ind (inodes s ! ip) \<or> ind (inodes s ! ip) = 0 \<and> \<not> bused s (ind (inodes t ! ip))"
    "card (insert a (lset t (inodes t ! ip))) + b2n (ind (inodes t ! ip) = 0) \<le> logroom s (inodes s ! ip) + 1"
    "nfree s + b2n (ind (inodes t ! ip) = 0) \<le> nfree t + b2n (ind (inodes s ! ip) = 0) + 1"
  using assms unfolding mapped_def Let_def by blast+

lemma grow_file:
  assumes fr: "frame {ind n} s t" and ok: "file_ok s n" and n': "length (i_addrs n') = 13" "i_dev n' = 1"
    and a: "inuse t a" "\<not> bused s a" "blk t a = (\<lambda>_. 0)" and j: "faddr s n j = 0" "j < MAXFILE"
    and map: "\<And>i. i < MAXFILE \<Longrightarrow> faddr t n' i = (if i = j then a else faddr s n i)" and ind: "ind n' = ind n"
  shows "file_ok t n'" "k div 512 < MAXFILE \<Longrightarrow> fbyte t n' k = fbyte s n k"
proof -
  have a0: "a \<noteq> 0" "a \<noteq> ind n \<or> ind n = 0" using a file_okD(4) [OF ok] by (auto simp: inuse_def datablk_def)
  have new: "faddr s n i \<noteq> a" if "i < MAXFILE" for i using a(1,2) file_okD(3) [OF ok that] a0 by (auto simp: inuse_def)
  show "file_ok t n'"
    unfolding file_ok_def using n' frame_layout(5) [OF fr] a new a0 file_okD(3-5) [OF ok] by (auto simp: map ind)
  show "fbyte t n' k = fbyte s n k" if k: "k div 512 < MAXFILE"
  proof (cases "k div 512 = j")
    case True
    then show ?thesis using j a(3) map [OF k] by (simp add: fbyte_def Let_def)
  next
    case False
    have "faddr s n (k div 512) \<noteq> 0 \<Longrightarrow> blk t (faddr s n (k div 512)) = blk s (faddr s n (k div 512))"
      using fr file_okD(3) [OF ok k] by (auto simp: frame_def)
    then show ?thesis using False map [OF k] by (simp add: fbyte_def Let_def)
  qed
qed

lemma allocated_inuse:
  assumes "fs_ok s" "allocated a s t"
  shows "inuse t a" "\<not> bused s a" "blk t a = (\<lambda>_. 0)" "fs_ok t" "inodes t = inodes s" "held t = held s" "a \<noteq> 0"
    "set (logged t) \<subseteq> set (logged s) \<union> bitmaps s \<union> {a}"
proof -
  have tx: "txr {bblock a (fs_sb s), a} s t" and a: "a < fsize s" "\<not> bused s a" "keeps (held s) s t" "bused t a"
    using assms(2) by (auto simp: allocated_def)
  show "inuse t a" using fs_okD(5) [OF assms(1) a(1,2)] a txr_layout [OF tx] by (simp add: inuse_def)
  then show "a \<noteq> 0" by (simp add: inuse_def datablk_def)
  show "\<not> bused s a" "blk t a = (\<lambda>_. 0)" "fs_ok t" using assms(2) by (auto simp: allocated_def)
  show "inodes t = inodes s" "held t = held s" using txrD(6) [OF tx] keepsD(2) [OF a(3)] by auto
  show "set (logged t) \<subseteq> set (logged s) \<union> bitmaps s \<union> {a}" using txrD(7) [OF tx] a(1) by (auto simp: bitmaps_def)
qed

lemma mapped_direct:
  assumes ok: "fs_ok s" and h: "held s = {}" and f: "file_ok s (inodes s ! ip)" and ip: "ip < length (inodes s)"
    and j: "j < 12" "i_addrs (inodes s ! ip) ! j = 0" and al: "allocated a s t"
  shows "mapped ip j s a (upd_inode ip (\<lambda>n. n\<lparr>i_addrs := (i_addrs n)[j := a]\<rparr>) t)"
proof -
  let ?n = "inodes s ! ip" and ?n' = "(inodes s ! ip)\<lparr>i_addrs := (i_addrs (inodes s ! ip))[j := a]\<rparr>"
  note au = allocated_inuse [OF ok al]
  have fr: "frame {} s t" using al by (rule frame_alloc)
  note ff = frame_file [OF fr f]
  have fj: "faddr s ?n j = 0" "j < MAXFILE" using j by (auto simp: faddr_def MAXFILE_def NDIRECT_def)
  have map: "faddr t ?n' i = (if i = j then a else faddr s ?n i)" if "i < MAXFILE" for i
    using j file_okD(1) [OF f] ff(1) [OF _ that] by (auto simp: faddr_def nth_list_update)
  have fr': "frame {ind ?n} s t" using fr by (rule frame_mono) simp
  have n': "length (i_addrs ?n') = 13" "i_dev ?n' = 1" "ind ?n' = ind ?n" using j file_okD(1,2) [OF f] by simp_all
  note g = grow_file [OF fr' f n'(1,2) au(1-3) fj map n'(3)]
  have "insert a (lset t ?n') \<subseteq> insert a (lset s ?n)"
    using au(8) frame_layout(2) [OF fr] j file_okD(1) [OF f] by (auto simp: lset_def nth_list_update)
  then have "card (insert a (lset t ?n')) \<le> card (insert a (lset s ?n))" by (intro card_mono) auto
  also have "\<dots> \<le> card (lset s ?n) + 1" by (simp add: card_insert_if)
  finally have c: "card (insert a (lset t ?n')) \<le> card (lset s ?n) + 1" .
  show ?thesis
    unfolding mapped_def Let_def
    using c au h fr' g map fj ip j nfree_alloc [OF al] by (simp add: logroom_def lset_def nth_list_update)
qed

text \<open>The indirect block is there, and nothing else has changed.\<close>

definition prepared :: "nat \<Rightarrow> 'z fstate_scheme \<Rightarrow> 'z fstate_scheme \<Rightarrow> bool" where
  "prepared ip s t \<longleftrightarrow> (let n = inodes s ! ip; n' = inodes t ! ip in
     fs_ok t \<and> held t = {} \<and> frame {} s t \<and> inodes t = (inodes s)[ip := n\<lparr>i_addrs := i_addrs n'\<rparr>] \<and> file_ok t n' \<and> ind n' \<noteq> 0 \<and>
     (\<forall>i<MAXFILE. faddr t n' i = faddr s n i) \<and> (\<forall>k. k div 512 < MAXFILE \<longrightarrow> fbyte t n' k = fbyte s n k) \<and>
     (ind n' = ind n \<or> ind n = 0 \<and> \<not> bused s (ind n')) \<and> card (lset t n') \<le> logroom s n \<and> nfree s \<le> nfree t + b2n (ind n = 0))"

lemma ld32_zero: "ld32 (\<lambda>_. 0) k = 0"
  by (simp add: ld32_def)

lemma prepared_alloc:
  assumes ok: "fs_ok s" and h: "held s = {}" and f: "file_ok s (inodes s ! ip)" and ip: "ip < length (inodes s)"
    and z: "ind (inodes s ! ip) = 0" and al: "allocated a s t"
  shows "prepared ip s (upd_inode ip (\<lambda>n. n\<lparr>i_addrs := (i_addrs n)[NDIRECT := a]\<rparr>) t)"
proof -
  let ?n = "inodes s ! ip" and ?n' = "(inodes s ! ip)\<lparr>i_addrs := (i_addrs (inodes s ! ip))[NDIRECT := a]\<rparr>"
  note au = allocated_inuse [OF ok al]
  have fr: "frame {} s t" using al by (rule frame_alloc)
  have len: "length (i_addrs ?n) = 13" using file_okD(1) [OF f] .
  have ia: "ind ?n' = a" using len by (simp add: NDIRECT_def)
  have map: "faddr t ?n' i = faddr s ?n i" if "i < MAXFILE" for i
    using au(3) len z by (auto simp: faddr_def NDIRECT_def ld32_zero)
  have na: "faddr s ?n i \<noteq> a" if "i < MAXFILE" for i
    using file_okD(3) [OF f that] au(2,7) by (auto simp: inuse_def)
  have "file_ok t ?n'"
    unfolding file_ok_def ia using len file_okD(2,3,5) [OF f] map na au(1) frame_layout(5) [OF fr] by (auto simp: NDIRECT_def)
  moreover have "fbyte t ?n' k = fbyte s ?n k" if "k div 512 < MAXFILE" for k
    using map [OF that] fr file_okD(3) [OF f that] by (auto simp: fbyte_def Let_def frame_def)
  moreover have "card (lset t ?n') \<le> logroom s ?n"
  proof -
    have "lset t ?n' \<subseteq> insert a (lset s ?n)" using au(8) frame_layout(2) [OF fr] len by (auto simp: lset_def NDIRECT_def)
    then have "card (lset t ?n') \<le> card (insert a (lset s ?n))" by (intro card_mono) auto
    also have "\<dots> \<le> card (lset s ?n) + 1" by (simp add: card_insert_if)
    finally show ?thesis using z by (simp add: logroom_def b2n_def)
  qed
  ultimately show ?thesis
    unfolding prepared_def Let_def
    using au h fr map ip z ia nfree_alloc [OF al] len by (simp add: lset_def b2n_def NDIRECT_def)
qed

lemma prepared_refl:
  assumes "fs_ok s" "held s = {}" "file_ok s (inodes s ! ip)" "ind (inodes s ! ip) \<noteq> 0"
  shows "prepared ip s s"
  using assms frame_same [of s s "{}"]
  by (simp add: prepared_def Let_def logroom_def b2n_def same_def txr_refl keeps_def fs_okD(1))

lemma mapped_trans:
  assumes p: "prepared ip s t" and m: "mapped ip j t a u" and ip: "ip < length (inodes s)" and j: "j < MAXFILE"
    and f: "file_ok s (inodes s ! ip)"
  shows "mapped ip j s a u"
proof -
  let ?n = "inodes s ! ip" and ?n1 = "inodes t ! ip" and ?n2 = "inodes u ! ip"
  have p1: "frame {} s t" "inodes t = (inodes s)[ip := ?n\<lparr>i_addrs := i_addrs ?n1\<rparr>]" "ind ?n1 \<noteq> 0" "\<forall>i<MAXFILE. faddr t ?n1 i = faddr s ?n i"
    "\<forall>k. k div 512 < MAXFILE \<longrightarrow> fbyte t ?n1 k = fbyte s ?n k" "ind ?n1 = ind ?n \<or> ind ?n = 0 \<and> \<not> bused s (ind ?n1)"
    "card (lset t ?n1) \<le> logroom s ?n" "nfree s \<le> nfree t + b2n (ind ?n = 0)"
    using p by (simp_all add: prepared_def Let_def)
  note m1 = mappedD [OF m]
  have i2: "ind ?n2 = ind ?n1" using m1(11) p1(3) by simp
  have "frame {ind ?n1} s u" using frame_trans [OF p1(1) m1(3)] by simp
  then have fr: "frame {ind ?n} s u" using p1(6) by (auto simp: frame_def inuse_def)
  have new: "\<not> bused s a" if "faddr s ?n j = 0"
  proof -
    have "\<not> bused t a" "faddr u ?n2 j = a" using that m1(7) [OF j] m1(9) p1(4) j by auto
    moreover have "a < fsize s"
      using file_okD(3) [OF m1(5) j] calculation(2) m1(6) frame_layout(1) [OF fr] by (auto simp: inuse_def datablk_def)
    ultimately show ?thesis using p1(1) by (auto simp: frame_def)
  qed
  have "inodes u = (inodes s)[ip := ?n\<lparr>i_addrs := i_addrs ?n2\<rparr>]"
    using m1(4) p1(2) ip by (metis (no_types, lifting) inode.surjective inode.update_convs(11) list_update_overwrite nth_list_update_eq)
  moreover have "\<forall>i<MAXFILE. faddr u ?n2 i = (if i = j then a else faddr s ?n i)" using m1(7) p1(4) by simp
  moreover have "faddr s ?n j \<noteq> 0 \<longrightarrow> a = faddr s ?n j" using m1(8) p1(4) j by simp
  moreover have "\<forall>k. k div 512 < MAXFILE \<longrightarrow> fbyte u ?n2 k = fbyte s ?n k" using m1(10) p1(5) by simp
  moreover have "logroom t ?n1 = card (lset t ?n1)" "b2n (ind ?n2 = 0) = 0" "b2n (ind ?n1 = 0) = 0" using p1(3) i2 by (simp_all add: logroom_def b2n_def)
  ultimately show ?thesis
    unfolding mapped_def Let_def using m1(1,2,5,6,12,13) i2 p1(6,7,8) fr new by auto
qed

text \<open>A block of data changed inside a transaction.\<close>

lemma bused_data:
  assumes "datablk s b" "fs_sb t = fs_sb s" "\<And>c. c \<noteq> b \<Longrightarrow> blk t c = blk s c" "c < fsize s"
  shows "bused t c = bused s c"
proof -
  have "bblock c (fs_sb s) \<noteq> b" using assms(1,4) by (auto simp: datablk_def bitmaps_def)
  then show ?thesis using assms(2,3) by (simp add: bused_def)
qed

lemma nfree_eq: "fsize t = fsize s \<Longrightarrow> (\<And>c. c < fsize s \<Longrightarrow> bused t c = bused s c) \<Longrightarrow> nfree t = nfree s"
  unfolding nfree_def by (rule arg_cong [where f = card]) auto

lemma frame_data:
  assumes "txr {b} s t" "datablk s b"
  shows "frame {b} s t" "nfree t = nfree s" "fs_ok s \<Longrightarrow> fs_ok t"
proof -
  note x = txrD [OF assms(1)]
  have b: "bused t c = bused s c" if "c < fsize s" for c
    by (rule bused_data [OF assms(2) x(5) _ that]) (use x(8) in auto)
  show "frame {b} s t" using x b by (auto simp: frame_def)
  show "nfree t = nfree s" using txr_layout(1) [OF assms(1)] b by (rule nfree_eq)
  show "fs_ok s \<Longrightarrow> fs_ok t" using b by (intro fs_ok_txr [OF _ assms(1)]) auto
qed

lemma mapped_entry:
  assumes ok: "fs_ok s" and f: "file_ok s (inodes s ! ip)" and ip: "ip < length (inodes s)"
    and i: "ind (inodes s ! ip) \<noteq> 0" "b = ind (inodes s ! ip)" and m: "m < NINDIRECT" "faddr s (inodes s ! ip) (12 + m) = 0"
    and s1: "txr {} s s1" "blk s1 = blk s" "logged s1 = logged s" and al: "allocated a s1 s2"
    and t: "txr {b} s2 t" "blk t = (blk s2)(b := st32 (4 * m) a (blk s2 b))" "held t = {}"
  shows "mapped ip (12 + m) s a t"
proof -
  let ?n = "inodes s ! ip"
  have ub: "inuse s b" using file_okD(4) [OF f i(1)] i(2) by simp
  have b1: "bused s1 c = bused s c" for c using s1(2) txrD(5) [OF s1(1)] by (simp add: bused_def)
  have ok1: "fs_ok s1" using b1 by (intro fs_ok_txr [OF ok s1(1)]) simp
  note au = allocated_inuse [OF ok1 al]
  have fr1: "frame {} s s1" using txrD [OF s1(1)] s1(2) b1 by (auto simp: frame_def)
  have fr2: "frame {} s s2" using frame_trans [OF fr1 frame_alloc [OF al]] by simp
  have ub2: "inuse s2 b" "blk s2 b = blk s b" using frame_layout(5) [OF fr2 ub] fr2 ub by (auto simp: frame_def)
  note fd = frame_data [OF t(1)]
  have fr: "frame {b} s t" using frame_trans [OF fr2 fd(1)] ub2 by (simp add: inuse_def)
  have nt: "inodes t = inodes s" using txrD(6) [OF t(1)] au(5) txrD(6) [OF s1(1)] by simp
  have nab: "a \<noteq> b" using au(2) b1 ub by (auto simp: inuse_def)
  have j: "12 + m < MAXFILE" using m by (simp add: MAXFILE_def NDIRECT_def)
  have map: "faddr t ?n k = (if k = 12 + m then a else faddr s ?n k)" if "k < MAXFILE" for k
    using that i ub2(2) by (auto simp: faddr_def t(2) intro!: ld32_st32_other_nat)
  have a: "inuse t a" "\<not> bused s a" "blk t a = (\<lambda>_. 0)"
    using au(1-3) b1 frame_layout(5) [OF fd(1)] ub2(1) nab by (auto simp: t(2) inuse_def)
  note g = grow_file [OF fr [unfolded i(2)] f file_okD(1,2) [OF f] a m(2) j map refl]
  have fn: "nfree s = nfree t + 1"
    using nfree_eq [OF frame_layout(1) [OF fr1] b1] nfree_alloc [OF al] fd(2) ub2(1) by (simp add: inuse_def)
  have "insert a (lset t ?n) \<subseteq> insert a (lset s ?n)"
    using txrD(7) [OF t(1)] au(8) frame_layout(2) [OF fr] frame_layout(2) [OF fr1] s1(3) i by (auto simp: lset_def)
  then have "card (insert a (lset t ?n)) \<le> card (insert a (lset s ?n))" by (intro card_mono) auto
  also have "\<dots> \<le> card (lset s ?n) + 1" by (simp add: card_insert_if)
  finally have c: "card (insert a (lset t ?n)) \<le> card (lset s ?n) + 1" .
  show ?thesis
    unfolding mapped_def Let_def nt
    using c a(2) au(4,7) fd(3) ub2(1) t(3) fr g map m i fn by (simp add: logroom_def inuse_def)
qed

lemma mapped_same:
  assumes "fs_ok s" "held s = {}" "file_ok s (inodes s ! ip)" "same s t" "faddr s (inodes s ! ip) j = a" "a \<noteq> 0"
  shows "mapped ip j s a t"
proof -
  note sd = sameD [OF assms(4)]
  have e: "inuse t c = inuse s c" "faddr t n i = faddr s n i" for c n i by (simp_all add: inuse_def faddr_def sd)
  have "file_ok t n = file_ok s n" "fbyte t n k = fbyte s n k" "lset t n = lset s n" for n k
    by (simp_all add: file_ok_def fbyte_def lset_def e sd Let_def)
  moreover have "card (insert a (lset s n)) \<le> card (lset s n) + 1" for n by (simp add: card_insert_if)
  ultimately show ?thesis
    unfolding mapped_def Let_def
    using assms fs_ok_same [OF assms(1,4)] frame_same [OF assms(4)] nfree_same [OF assms(4)] by (simp add: sd e logroom_def)
qed

lemma entry_runs:
  assumes ok: "fs_ok s" and h: "held s = {}" and f: "file_ok s (inodes s ! ip)" and ip: "ip < length (inodes s)"
    and i: "ind (inodes s ! ip) \<noteq> 0" and m: "m < NINDIRECT" and free: "0 < nfree s"
    and room: "int (logroom s (inodes s ! ip)) + 2 < log_size s"
  shows "runs (rbind (bread (i_dev (inodes s ! ip)) (ind (inodes s ! ip)) s) (\<lambda>(bp, s).
          let addr = ld32 (buf_data s bp) (4 * m) in
          rbind (if addr = 0 then
                   rbind (balloc (i_dev (inodes s ! ip)) s) (\<lambda>(addr, s).
                   rbind (log_write bp (set_data bp (st32 (4 * m) addr (buf_data s bp)) s)) (\<lambda>s. Inr (addr, s)))
                 else Inr (addr, s)) (\<lambda>(addr, s).
          rbind (brelse bp s) (\<lambda>s. Inr (addr, s))))) (\<lambda>(a, t). mapped ip (12 + m) s a t)"
proof -
  let ?n = "inodes s ! ip" and ?b = "ind (inodes s ! ip)"
  have ub: "inuse s ?b" using file_okD(4) [OF f i] .
  then have b: "?b < disksize s" "?b \<notin> log_area s" "?b \<notin> bitmaps s"
    using fs_okD(2) [OF ok] by (auto simp: inuse_def datablk_def)
  have lr: "card (lset s ?n) = logroom s ?n" using i by (simp add: logroom_def b2n_def)
  have nl: "nlog s \<le> card (lset s ?n)" "card (set (logged s) \<union> bitmaps s) \<le> card (lset s ?n)"
    unfolding nlog_def by (rule card_mono; auto simp: lset_def)+
  have "int (nlog s + card (held s)) < log_size s" using h nl lr room by simp
  from get_runs [OF fs_okD(1) [OF ok] b(1) _ this] h obtain bp s1 where g: "bread 1 ?b s = Inr (bp, s1)" "txr {} s s1" "blk s1 = blk s"
    "logged s1 = logged s" "holds s1 bp ?b" "buf_data s1 bp = blk s ?b" "keeps {?b} s s1" "clean ?b s1" by (auto simp: runs_def)
  note x1 = txrD [OF g(2)] and h1 = keepsD(2) [OF g(7)]
  have dev: "i_dev ?n = 1" using file_okD(2) [OF f] .
  have fa: "faddr s ?n (12 + m) = ld32 (blk s ?b) (4 * m)" using i by (simp add: faddr_def)
  show ?thesis
  proof (cases "ld32 (blk s ?b) (4 * m) = 0")
    case False
    from put_runs [OF x1(1) g(5,8)] h1 obtain t where p: "brelse bp s1 = Inr t" "txr {} s1 t" "blk t = blk s1" "logged t = logged s1" "keeps {} s1 t"
      by (auto simp: runs_def)
    have "same s t" using txr_trans [OF g(2) p(2)] g p keeps_trans [OF g(7) p(5)] h by (simp add: same_def)
    from mapped_same [OF ok h f this fa False] show ?thesis using False g(1,6) p(1) dev by simp
  next
    case True
    have b1: "bused s1 c = bused s c" for c using g(3) x1(5) by (simp add: bused_def)
    note l1 = txr_layout [OF g(2)]
    have ok1: "fs_ok s1" using b1 by (intro fs_ok_txr [OF ok g(2)]) simp
    have "runs (balloc 1 s1) (\<lambda>(a, t). allocated a s1 t)"
      using nfree_pos [OF free] b1 l1 h1 ub b(3) nl(2) lr room x1(3) g(4) by (intro balloc_runs [OF ok1]) (auto simp: inuse_def)
    then obtain a s2 where al: "balloc 1 s1 = Inr (a, s2)" "allocated a s1 s2" by (auto simp: runs_def)
    have t2: "txr {bblock a (fs_sb s1), a} s1 s2" "keeps (held s1) s1 s2" using al(2) by (auto simp: allocated_def)
    note x2 = txrD [OF t2(1)] and au = allocated_inuse [OF ok1 al(2)]
    have h2: "holds s2 bp ?b" using keepsD(1) [OF t2(2) g(5)] h1 by simp
    have "nlog s2 \<le> card (insert a (lset s ?n))"
      unfolding nlog_def using au(8) g(4) l1(2) by (intro card_mono) (auto simp: lset_def)
    also have "\<dots> \<le> card (lset s ?n) + 1" by (simp add: card_insert_if)
    finally have "int (nlog s2) + 1 < log_size s2" "?b \<notin> log_area s2" using room lr x1(3,4) x2(3,4) b(2) by auto
    from upd_runs [OF x2(1) h2 this, of "st32 (4 * m) a (blk s2 ?b)"] obtain s3 where u: "log_write bp (set_data bp (st32 (4 * m) a (blk s2 ?b)) s2) = Inr s3"
      "txr {?b} s2 s3" "blk s3 = (blk s2)(?b := st32 (4 * m) a (blk s2 ?b))" "keeps (held s2) s2 s3" "clean ?b s3" by (auto simp: runs_def)
    have h3: "holds s3 bp ?b" "held s3 = {?b}" using keepsD [OF u(4)] h2 h1 au(6) holds_held by auto
    from put_runs [OF txrD(1) [OF u(2)] h3(1) u(5)] h3(2) obtain t where p: "brelse bp s3 = Inr t" "txr {} s3 t" "blk t = blk s3" "keeps {} s3 t"
      by (auto simp: runs_def)
    have "mapped ip (12 + m) s a t"
      using txr_trans [OF u(2) p(2)] p u(3) keepsD(2) [OF p(4)] True fa
      by (intro mapped_entry [OF ok f ip i refl m _ g(2-4) al(2)]) auto
    moreover have "buf_data s2 bp = blk s2 ?b" using bc.data [OF in_txnD(1) [OF x2(1)] h2] .
    ultimately show ?thesis using True g(1,6) al(1) u(1) p(1) dev x1(6) by simp
  qed
qed

lemma bmap_runs:
  assumes ok: "fs_ok s" and h: "held s = {}" and f: "file_ok s (inodes s ! ip)" and ip: "ip < length (inodes s)"
    and bn: "unat bn < MAXFILE" and free: "b2n (ind (inodes s ! ip) = 0) < nfree s"
    and room: "int (logroom s (inodes s ! ip)) + 2 < log_size s"
  shows "runs (bmap ip bn s) (\<lambda>(a, t). mapped ip (unat bn) s a t)"
proof -
  let ?n = "inodes s ! ip"
  have dev: "i_dev ?n = 1" using file_okD(2) [OF f] .
  have "card (set (logged s) \<union> bitmaps s) \<le> card (lset s ?n)" by (rule card_mono) (auto simp: lset_def)
  then have "runs (balloc 1 s) (\<lambda>(a, t). allocated a s t)"
    using nfree_pos [of s] free h room by (intro balloc_runs [OF ok]) (auto simp: logroom_def)
  then obtain a s1 where al: "balloc 1 s = Inr (a, s1)" "allocated a s s1" by (auto simp: runs_def)
  show ?thesis
  proof (cases "unat bn < 12")
    case True
    have same: "same s s" using h txr_refl [OF fs_okD(1) [OF ok]] by (simp add: same_def keeps_def)
    show ?thesis
      using True al(1) dev mapped_direct [OF ok h f ip True _ al(2)] mapped_same [OF ok h f same, of "unat bn" "i_addrs ?n ! unat bn"]
      by (simp add: bmap_def NDIRECT_def Let_def faddr_def)
  next
    case False
    let ?m = "unat (bn - 12)"
    have m: "?m = unat bn - 12" "?m < NINDIRECT" "12 + ?m = unat bn"
      using False bn by (auto simp: unat_sub word_le_nat_alt MAXFILE_def NDIRECT_def)
    have "runs (let addr = i_addrs ?n ! NDIRECT in
                 if addr = 0 then
                   rbind (balloc (i_dev ?n) s) (\<lambda>(addr, s).
                   Inr (addr, upd_inode ip (\<lambda>n. n\<lparr>i_addrs := (i_addrs n)[NDIRECT := addr]\<rparr>) s))
                 else Inr (addr, s)) (\<lambda>(a, t). prepared ip s t \<and> a = ind (inodes t ! ip))"
      using al dev prepared_alloc [OF ok h f ip _ al(2)] prepared_refl [OF ok h f] file_okD(1) [OF f] ip
        allocated_inuse(5) [OF ok al(2)]
      by (simp add: NDIRECT_def Let_def)
    then show ?thesis
      unfolding bmap_def Let_def
    proof (simp only: False NDIRECT_def m(2) if_False if_True, elim runs_bind)
      fix x assume "case x of (a, t) \<Rightarrow> prepared ip s t \<and> a = ind (inodes t ! ip)"
      then obtain t where x: "x = (ind (inodes t ! ip), t)" and p: "prepared ip s t" by (cases x) auto
      show "runs (case x of (addr, s) \<Rightarrow> rbind (bread (i_dev (inodes s ! ip)) addr s) (\<lambda>(bp, s).
          rbind (if ld32 (buf_data s bp) (4 * ?m) = 0 then
                   rbind (balloc (i_dev (inodes s ! ip)) s) (\<lambda>(addr, s).
                   rbind (log_write bp (set_data bp (st32 (4 * ?m) addr (buf_data s bp)) s)) (\<lambda>s. Inr (addr, s)))
                 else Inr (ld32 (buf_data s bp) (4 * ?m), s)) (\<lambda>(addr, s).
          rbind (brelse bp s) (\<lambda>s. Inr (addr, s))))) (\<lambda>(a, t). mapped ip (unat bn) s a t)"
        unfolding x prod.case
      proof (rule runs_mono [OF entry_runs [OF _ _ _ _ _ m(2), unfolded Let_def m(3)]])
        show "case y of (a, u) \<Rightarrow> mapped ip (unat bn) t a u \<Longrightarrow> case y of (a, u) \<Rightarrow> mapped ip (unat bn) s a u" for y
          using mapped_trans [OF p _ ip bn f] by (cases y) auto
        have pd: "log_size t = log_size s" "inodes t = (inodes s)[ip := ?n\<lparr>i_addrs := i_addrs (inodes t ! ip)\<rparr>]"
          using p frame_layout(6) [of "{}" s t] by (auto simp: prepared_def Let_def)
        show "ip < length (inodes t)" using arg_cong [OF pd(2), of length] ip by simp
        show "int (logroom t (inodes t ! ip)) + 2 < log_size t"
          using p room pd(1) by (auto simp: prepared_def Let_def logroom_def b2n_def)
        show "0 < nfree t" using p free by (auto simp: prepared_def Let_def)
      qed (use p in \<open>auto simp: prepared_def Let_def\<close>)
    qed
  qed
qed

text \<open>A block that is mapped already is looked up without a change.\<close>

lemma same_refl: "fs_ok s \<Longrightarrow> held s = {} \<Longrightarrow> same s s"
  using txr_refl [OF fs_okD(1)] by (simp add: same_def keeps_def)

lemma bmap_lookup:
  assumes ok: "fs_ok s" and h: "held s = {}" and f: "file_ok s (inodes s ! ip)"
    and bn: "unat bn < MAXFILE" "faddr s (inodes s ! ip) (unat bn) \<noteq> 0" and room: "int (nlog s) < log_size s"
  shows "runs (bmap ip bn s) (\<lambda>(a, t). a = faddr s (inodes s ! ip) (unat bn) \<and> same s t)"
proof (cases "unat bn < 12")
  case True
  then show ?thesis using bn same_refl [OF ok h] by (simp add: bmap_def NDIRECT_def Let_def faddr_def)
next
  case False
  let ?n = "inodes s ! ip" and ?m = "unat (bn - 12)"
  have m: "?m = unat bn - 12" "?m < NINDIRECT" using False bn by (auto simp: unat_sub word_le_nat_alt MAXFILE_def NDIRECT_def)
  have i: "ind ?n \<noteq> 0" "faddr s ?n (unat bn) = ld32 (blk s (ind ?n)) (4 * ?m)" using bn(2) False m(1) by (auto simp: faddr_def split: if_splits)
  have b: "ind ?n < disksize s" using file_okD(4) [OF f i(1)] fs_okD(2) [OF ok] by (auto simp: inuse_def datablk_def)
  obtain bp s1 s2 where "bread 1 (ind ?n) s = Inr (bp, s1)" "buf_data s1 bp = blk s (ind ?n)" "inodes s1 = inodes s" "brelse bp s1 = Inr s2" "same s s2"
    by (rule read_same [OF fs_okD(1) [OF ok] b]) (use h room in auto)
  then show ?thesis using False i m(2) bn(2) file_okD(2) [OF f] by (simp add: bmap_def NDIRECT_def Let_def)
qed

section \<open>Writing\<close>

definition fblocks :: "'z fstate_scheme \<Rightarrow> inode \<Rightarrow> u32 set" where
  "fblocks s n = insert (ind n) (faddr s n ` {..<MAXFILE})"

text \<open>
  \<open>n\<close> bytes of \<open>src\<close> written at \<open>off\<close>, in at most \<open>c\<close> chunks.
\<close>

definition wrote :: "nat \<Rightarrow> u8 list \<Rightarrow> nat \<Rightarrow> nat \<Rightarrow> nat \<Rightarrow> 'z fstate_scheme \<Rightarrow> 'z fstate_scheme \<Rightarrow> bool" where
  "wrote ip src off len c s t \<longleftrightarrow> (let n = inodes s ! ip; n' = inodes t ! ip in
     fs_ok t \<and> held t = {} \<and> frame (fblocks s n) s t \<and> inodes t = (inodes s)[ip := n\<lparr>i_addrs := i_addrs n'\<rparr>] \<and> file_ok t n' \<and>
     (\<forall>k. k div 512 < MAXFILE \<longrightarrow> fbyte t n' k = (if off \<le> k \<and> k < off + len then src ! (k - off) else fbyte s n k)) \<and>
     (\<forall>k. off \<le> k \<and> k < off + len \<and> k div 512 < MAXFILE \<longrightarrow> faddr t n' (k div 512) \<noteq> 0) \<and>
     (\<forall>i<MAXFILE. faddr s n i \<noteq> 0 \<longrightarrow> faddr t n' i = faddr s n i) \<and>
     (\<forall>b\<in>fblocks t n'. b = 0 \<or> b \<in> fblocks s n \<or> \<not> bused s b) \<and>
     logroom t n' \<le> logroom s n + c \<and> nfree s + b2n (ind n' = 0) \<le> nfree t + b2n (ind n = 0) + c)"

lemma wroteD:
  assumes "wrote ip src off len c s t"
  shows "fs_ok t" "held t = {}" "frame (fblocks s (inodes s ! ip)) s t" "inodes t = (inodes s)[ip := (inodes s ! ip)\<lparr>i_addrs := i_addrs (inodes t ! ip)\<rparr>]"
    "file_ok t (inodes t ! ip)"
    "k div 512 < MAXFILE \<Longrightarrow> fbyte t (inodes t ! ip) k = (if off \<le> k \<and> k < off + len then src ! (k - off) else fbyte s (inodes s ! ip) k)"
    "off \<le> k \<Longrightarrow> k < off + len \<Longrightarrow> k div 512 < MAXFILE \<Longrightarrow> faddr t (inodes t ! ip) (k div 512) \<noteq> 0"
    "i < MAXFILE \<Longrightarrow> faddr s (inodes s ! ip) i \<noteq> 0 \<Longrightarrow> faddr t (inodes t ! ip) i = faddr s (inodes s ! ip) i"
    "b \<in> fblocks t (inodes t ! ip) \<Longrightarrow> b = 0 \<or> b \<in> fblocks s (inodes s ! ip) \<or> \<not> bused s b"
    "logroom t (inodes t ! ip) \<le> logroom s (inodes s ! ip) + c"
    "nfree s + b2n (ind (inodes t ! ip) = 0) \<le> nfree t + b2n (ind (inodes s ! ip) = 0) + c"
  using assms unfolding wrote_def Let_def by blast+

lemma chunk_bytes':
  assumes "r + len \<le> (512 :: nat)" "off = 512 * j + r" "k = 512 * q + p" "p < 512"
  shows "off \<le> k \<and> k < off + len \<longleftrightarrow> q = j \<and> r \<le> p \<and> p < r + len"
proof (cases q j rule: linorder_cases)
  case less
  then have "512 * q + 512 \<le> 512 * j" by simp
  then show ?thesis using assms less by linarith
next
  case greater
  then have "512 * j + 512 \<le> 512 * q" by simp
  then show ?thesis using assms greater by linarith
qed (use assms in auto)

lemma chunk_bytes:
  assumes "off mod 512 + len \<le> (512 :: nat)"
  shows "off \<le> k \<and> k < off + len \<longleftrightarrow> k div 512 = off div 512 \<and> off mod 512 \<le> k mod 512 \<and> k mod 512 < off mod 512 + len"
  by (rule chunk_bytes' [OF assms]) simp_all
text \<open>The data of one chunk stored in its block.\<close>

lemma wrote_chunk:
  assumes m: "mapped ip j s a u" and j: "j < MAXFILE" "off div 512 = j" and ip: "ip < length (inodes s)"
    and o: "off mod 512 + len \<le> 512" "0 < len"
    and d: "d = (\<lambda>k. if off mod 512 \<le> k \<and> k < off mod 512 + len then src ! (k - off mod 512) else blk u a k)"
    and t: "txr {a} u t" "blk t = (blk u)(a := d)" "held t = {}"
  shows "wrote ip src off len 1 s t"
proof -
  let ?n = "inodes s ! ip" and ?n' = "inodes u ! ip"
  note mp = mappedD [OF m]
  have fj: "faddr u ?n' j = a" using mp(7) [OF j(1)] by simp
  have ia: "inuse u a" "a \<noteq> ind ?n'" using file_okD(3) [OF mp(5) j(1)] fj mp(6) by auto
  note fd = frame_data [OF t(1)]
  have da: "datablk u a" using ia by (simp add: inuse_def)
  note ff = frame_file [OF fd(1) [OF da] mp(5)]
  have nt: "inodes t = inodes u" using txrD(6) [OF t(1)] .
  have fa: "faddr t ?n' i = faddr u ?n' i" "file_ok t ?n'" if "i < MAXFILE" for i using ff ia(2) that by auto
  have jk: "off \<le> k \<and> k < off + len \<longleftrightarrow> k div 512 = j \<and> off mod 512 \<le> k mod 512 \<and> k mod 512 < off mod 512 + len" for k
    using chunk_bytes [OF o(1)] unfolding j(2) .
  have byte: "fbyte t ?n' k = (if off \<le> k \<and> k < off + len then src ! (k - off) else fbyte s ?n k)" if k: "k div 512 < MAXFILE" for k
  proof (cases "k div 512 = j")
    case True
    have "k - off = k mod 512 - off mod 512" using True j(2) by (metis Nat.add_diff_assoc2 add_diff_cancel_left mod_mult_div_eq mult.commute add.commute)
    moreover have "blk u a (k mod 512) = fbyte s ?n k" using mp(10) [OF k] True fj mp(6) by (simp add: fbyte_def Let_def)
    ultimately show ?thesis using True jk fa(1) [OF j(1)] fj mp(6) by (simp add: fbyte_def [of t] Let_def t(2) d)
  next
    case False
    have "faddr u ?n' (k div 512) \<noteq> a" using False file_okD(5) [OF mp(5) k j(1)] fj mp(6) by auto
    then show ?thesis using False ff(3) [OF _ k] ia(2) mp(10) [OF k] jk by auto
  qed
  have blocks: "b \<in> fblocks s ?n \<or> \<not> bused s b" if "b \<in> fblocks t ?n'" for b
    using that mp(8,9,11) j(1) unfolding fblocks_def by (auto simp: fa mp(7) split: if_split_asm)
  have "frame {ind ?n, a} s t" using frame_trans [OF mp(3) fd(1) [OF da]] by (simp add: insert_commute)
  moreover have "a \<in> fblocks s ?n \<or> \<not> bused s a" using mp(8,9) j by (auto simp: fblocks_def)
  ultimately have fr: "frame (fblocks s ?n) s t" by (auto simp: frame_def fblocks_def inuse_def)
  have "lset t ?n' \<subseteq> insert a (lset u ?n')" using txrD(7) [OF t(1)] txr_layout(2) [OF t(1)] by (auto simp: lset_def)
  then have "card (lset t ?n') \<le> card (insert a (lset u ?n'))" by (intro card_mono) auto
  then have c: "logroom t ?n' \<le> logroom s ?n + 1" using mp(12) by (simp add: logroom_def)
  have "faddr t ?n' (k div 512) \<noteq> 0" if "off \<le> k" "k < off + len" for k
    using jk [of k] that fa(1) [OF j(1)] fj mp(6) by simp
  moreover have "faddr t ?n' i = faddr s ?n i" if "i < MAXFILE" "faddr s ?n i \<noteq> 0" for i
    using fa(1) [OF that(1)] mp(7) [OF that(1)] mp(8) that(2) by auto
  ultimately show ?thesis
    unfolding wrote_def Let_def nt
    using mp(1,4,13) fd(2,3) [OF da] t(3) fr fa(2) [OF j(1)] byte c blocks by auto
qed

lemma fblocks_inuse: "file_ok s n \<Longrightarrow> b \<in> fblocks s n \<Longrightarrow> b \<noteq> 0 \<Longrightarrow> inuse s b"
  using file_okD(3,4) [of s n] by (auto simp: fblocks_def)

lemma wrote_trans:
  assumes a: "wrote ip src off m 1 s u" and b: "wrote ip (drop m src) (off + m) (len - m) c u t"
    and m: "m \<le> len" "len \<le> length src" and ip: "ip < length (inodes s)"
  shows "wrote ip src off len (Suc c) s t"
proof -
  let ?n = "inodes s ! ip" and ?nu = "inodes u ! ip" and ?nt = "inodes t ! ip"
  note x = wroteD [OF a] and y = wroteD [OF b]
  have "frame (fblocks s ?n \<union> fblocks u ?nu) s t" using frame_trans [OF x(3) y(3)] .
  then have fr: "frame (fblocks s ?n) s t" using x(9) by (fastforce simp: frame_def inuse_def datablk_def)
  have blocks: "d = 0 \<or> d \<in> fblocks s ?n \<or> \<not> bused s d" if d: "d \<in> fblocks t ?nt" for d
  proof (cases "d \<in> fblocks u ?nu \<or> d = 0")
    case False
    then have "\<not> bused u d" "d < fsize s"
      using y(9) [OF d] fblocks_inuse [OF y(5) d] frame_layout(1) [OF fr] by (auto simp: inuse_def datablk_def)
    then show ?thesis using x(3) by (auto simp: frame_def)
  qed (use x(9) in auto)
  have "inodes t = (inodes s)[ip := ?n\<lparr>i_addrs := i_addrs ?nt\<rparr>]"
    using y(4) x(4) ip by (metis (no_types, lifting) inode.surjective inode.update_convs(11) list_update_overwrite nth_list_update_eq)
  moreover have "fbyte t ?nt k = (if off \<le> k \<and> k < off + len then src ! (k - off) else fbyte s ?n k)" if "k div 512 < MAXFILE" for k
    using x(6) [OF that] y(6) [OF that] m by (auto simp: nth_drop)
  moreover have "faddr t ?nt (k div 512) \<noteq> 0" if k: "off \<le> k" "k < off + len" "k div 512 < MAXFILE" for k
    using x(7) [OF k(1)] y(7) [of k] y(8) [OF k(3)] k by (cases "k < off + m") auto
  moreover have "faddr t ?nt i = faddr s ?n i" if "i < MAXFILE" "faddr s ?n i \<noteq> 0" for i
    using x(8) [OF that] y(8) [OF that(1)] that by simp
  ultimately show ?thesis
    unfolding wrote_def Let_def using y(1,2,5,10,11) x(10,11) fr blocks by auto
qed

lemma chunk_runs:
  assumes ok: "fs_ok s" and h: "held s = {}" and f: "file_ok s (inodes s ! ip)" and ip: "ip < length (inodes s)"
    and o: "unat off + len \<le> MAXFILE * 512" "0 < len" and m: "m = fs_chunk off len" and free: "b2n (ind (inodes s ! ip) = 0) < nfree s"
    and room: "int (logroom s (inodes s ! ip)) + 2 < log_size s"
  shows "runs (rbind (bmap ip (off div 512) s) (\<lambda>(b, s).
        rbind (bread (i_dev (inodes s ! ip)) b s) (\<lambda>(bp, s).
        rbind (log_write bp (set_data bp (\<lambda>k. if unat off mod 512 \<le> k \<and> k < unat off mod 512 + m then src ! (k - unat off mod 512) else buf_data s bp k) s)) (brelse bp))))
     (\<lambda>t. wrote ip src (unat off) m 1 s t)"
proof -
  let ?j = "unat (off div 512)"
  have j: "?j = unat off div 512" by (simp add: unat_div)
  then have jM: "?j < MAXFILE" using o by (simp add: div_less_iff_less_mult MAXFILE_def)
  have mm: "unat off mod 512 + m \<le> 512" "0 < m" using o(2) by (auto simp: m fs_chunk_def)
  show ?thesis
  proof (rule runs_bind [OF bmap_runs [OF ok h f ip jM free room]])
    fix x assume "case x of (a, t) \<Rightarrow> mapped ip ?j s a t"
    then obtain a u where x: "x = (a, u)" and mp: "mapped ip ?j s a u" by (cases x) auto
    note d = mappedD [OF mp]
    have "inuse u a" using file_okD(3) [OF d(5) jM] d(6,7) jM by simp
    then have da: "datablk u a" by (simp add: inuse_def)
    have "nlog u \<le> card (insert a (lset u (inodes u ! ip)))" unfolding nlog_def by (rule card_mono) (auto simp: lset_def)
    then have rm: "int (nlog u) + 1 < log_size u" using d(12) room frame_layout(6) [OF d(3)] by simp
    have md: "runs (rbind (bread 1 a u) (\<lambda>(bp, s).
        rbind (log_write bp (set_data bp (\<lambda>k. if unat off mod 512 \<le> k \<and> k < unat off mod 512 + m then src ! (k - unat off mod 512) else buf_data s bp k) s)) (brelse bp)))
      (\<lambda>t. txr {a} u t \<and> blk t = (blk u)(a := (\<lambda>k. if unat off mod 512 \<le> k \<and> k < unat off mod 512 + m then src ! (k - unat off mod 512) else blk u a k)) \<and>
        set (logged t) = insert a (set (logged u)) \<and> keeps (held u) u t)"
      by (rule mod_runs [OF fs_okD(1) [OF d(1)], where f = "\<lambda>d k. if unat off mod 512 \<le> k \<and> k < unat off mod 512 + m then src ! (k - unat off mod 512) else d k"])
        (use da fs_okD(2) [OF d(1)] rm d(2) in \<open>auto simp: datablk_def\<close>)
    show "runs (case x of (b, s) \<Rightarrow> rbind (bread (i_dev (inodes s ! ip)) b s) (\<lambda>(bp, s).
        rbind (log_write bp (set_data bp (\<lambda>k. if unat off mod 512 \<le> k \<and> k < unat off mod 512 + m then src ! (k - unat off mod 512) else buf_data s bp k) s)) (brelse bp)))
     (\<lambda>t. wrote ip src (unat off) m 1 s t)"
      unfolding x prod.case file_okD(2) [OF d(5)]
    proof (rule runs_mono [OF md], elim conjE)
      fix t assume "txr {a} u t" "keeps (held u) u t"
        "blk t = (blk u)(a := (\<lambda>k. if unat off mod 512 \<le> k \<and> k < unat off mod 512 + m then src ! (k - unat off mod 512) else blk u a k))"
      then show "wrote ip src (unat off) m 1 s t"
        by (intro wrote_chunk [OF mp jM j [symmetric] ip mm refl]) (auto simp: keeps_def d(2))
    qed
  qed
qed

lemma writei_loop_step:
  assumes "0 < n" "m = fs_chunk off n"
  shows "writei_loop ip src off n s =
     rbind (rbind (bmap ip (off div 512) s) (\<lambda>(b, s).
        rbind (bread (i_dev (inodes s ! ip)) b s) (\<lambda>(bp, s).
        rbind (log_write bp (set_data bp (\<lambda>k. if unat off mod 512 \<le> k \<and> k < unat off mod 512 + m then src ! (k - unat off mod 512) else buf_data s bp k) s)) (brelse bp))))
     (writei_loop ip (drop m src) (off + word_of_nat m) (n - m))"
  by (subst writei_loop.simps) (simp add: assms rbind_assoc split_def Let_def)

lemma off_step:
  assumes "unat (off :: u32) + n \<le> MAXFILE * 512" "m \<le> n"
  shows "unat (off + word_of_nat m) = unat off + m"
proof -
  have "unat off + m < 2 ^ 32" using assms by (simp add: MAXFILE_def NDIRECT_def NINDIRECT_def)
  then show ?thesis by (simp add: unat_word_ariths unat_of_nat)
qed

lemma writei_loop_runs:
  assumes "fs_ok s" "held s = {}" "file_ok s (inodes s ! ip)" "ip < length (inodes s)"
    "unat off + n \<le> MAXFILE * 512" "n \<le> length src" "n = 0 \<or> unat off mod 512 + n \<le> 512 * c"
    "b2n (ind (inodes s ! ip) = 0) + c \<le> nfree s" "int (logroom s (inodes s ! ip) + c) + 1 < log_size s"
  shows "runs (writei_loop ip src off n s) (\<lambda>(e, t). e = off + word_of_nat n \<and> wrote ip src (unat off) n c s t)"
  using assms
proof (induction n arbitrary: src off c s rule: less_induct)
  case (less n)
  show ?case
  proof (cases "n = 0")
    case True
    have "wrote ip src (unat off) 0 c s s"
      unfolding wrote_def Let_def using less.prems(1-3) frame_same [OF same_refl [OF less.prems(1,2)]] by auto
    then show ?thesis using True by (subst writei_loop.simps) simp
  next
    case False
    define m where "m = fs_chunk off n"
    have m: "0 < m" "m \<le> n" "m = n \<or> unat off mod 512 + m = 512" using False by (auto simp: m_def fs_chunk_def min_def)
    obtain d where c: "c = Suc d" using less.prems(7) False by (cases c) auto
    note os = off_step [OF less.prems(5) m(2)]
    have "runs (rbind (bmap ip (off div 512) s) (\<lambda>(b, s).
        rbind (bread (i_dev (inodes s ! ip)) b s) (\<lambda>(bp, s).
        rbind (log_write bp (set_data bp (\<lambda>k. if unat off mod 512 \<le> k \<and> k < unat off mod 512 + m then src ! (k - unat off mod 512) else buf_data s bp k) s)) (brelse bp))))
      (\<lambda>t. wrote ip src (unat off) m 1 s t)"
      using less.prems(5-9) False c by (intro chunk_runs [OF less.prems(1-4) _ _ m_def]) auto
    then show ?thesis
      unfolding writei_loop_step [OF False [unfolded neq0_conv] m_def]
    proof (rule runs_bind)
      fix u assume u: "wrote ip src (unat off) m 1 s u"
      note w = wroteD [OF u]
      have ipu: "ip < length (inodes u)" using arg_cong [OF w(4), of length] less.prems(4) by simp
      have rest: "n - m = 0 \<or> unat (off + word_of_nat m) mod 512 + (n - m) \<le> 512 * d"
        using m(3)
      proof
        assume e: "unat off mod 512 + m = 512"
        then have "(unat off + m) mod 512 = 0" by (metis mod_add_left_eq mod_self)
        moreover have "n - m \<le> 512 * d" using e less.prems(7) False c m(2) by linarith
        ultimately show ?thesis unfolding os by simp
      qed simp
      have "runs (writei_loop ip (drop m src) (off + word_of_nat m) (n - m) u)
        (\<lambda>(e, t). e = off + word_of_nat m + word_of_nat (n - m) \<and> wrote ip (drop m src) (unat (off + word_of_nat m)) (n - m) d u t)"
        using less.prems(5,6,8,9) m False os w(10,11) frame_layout(6) [OF w(3)] c
        by (intro less.IH [OF _ w(1,2,5) ipu _ _ rest]) auto
      then show "runs (writei_loop ip (drop m src) (off + word_of_nat m) (n - m) u) (\<lambda>(e, t). e = off + word_of_nat n \<and> wrote ip src (unat off) n c s t)"
      proof (rule runs_mono)
        fix y assume "case y of (e, t) \<Rightarrow> e = off + word_of_nat m + word_of_nat (n - m) \<and> wrote ip (drop m src) (unat (off + word_of_nat m)) (n - m) d u t"
        then show "case y of (e, t) \<Rightarrow> e = off + word_of_nat n \<and> wrote ip src (unat off) n c s t"
          using wrote_trans [OF u _ m(2) less.prems(6,4), of d] c os m(2) by (auto simp: add.assoc simp flip: of_nat_add)
      qed
    qed
  qed
qed

end
