(* ===== verification/Fsio.thy ===== *)
theory Fsio
  imports Fsdata
begin

text \<open>
  \<open>iupdate\<close>, \<open>readi\<close> and \<open>writei\<close>: the inode on disk, and that bytes written to a file are the
  bytes read from it, with everything else as it was.
\<close>

section \<open>Inodes on disk\<close>

lemma st16_other_nat: "x < a \<or> a + 2 \<le> x \<Longrightarrow> st16 a v m x = m (x :: nat)"
  by (auto simp: st16_def)

lemma ld16_st16_other_nat: "b + 2 \<le> a \<or> a + 2 \<le> b \<Longrightarrow> ld16 (st16 a v m) b = ld16 m (b :: nat)"
  by (auto simp: ld16_def st16_other_nat)

lemma ld16_st32_other_nat: "b + 2 \<le> a \<or> a + 4 \<le> b \<Longrightarrow> ld16 (st32 a v m) b = ld16 m (b :: nat)"
  by (auto simp: ld16_def st32_other_nat)

text \<open>The block numbers are stored last, in a row.\<close>

lemma put_addrs:
  fixes b :: nat
  shows "x < b \<or> b + 4 * n \<le> x \<Longrightarrow> fold (\<lambda>k d. st32 (b + 4 * k) (f k) d) [0..<n] d x = d x"
    and "k < n \<Longrightarrow> ld32 (fold (\<lambda>k d. st32 (b + 4 * k) (f k) d) [0..<n] d) (b + 4 * k) = f k"
proof -
  show "x < b \<or> b + 4 * n \<le> x \<Longrightarrow> fold (\<lambda>k d. st32 (b + 4 * k) (f k) d) [0..<n] d x = d x"
    by (induction n) (auto simp: st32_other_nat)
  show "k < n \<Longrightarrow> ld32 (fold (\<lambda>k d. st32 (b + 4 * k) (f k) d) [0..<n] d) (b + 4 * k) = f k"
  proof (induction n)
    case (Suc n)
    then show ?case by (cases "k = n") (auto intro!: trans [OF ld32_st32_other_nat])
  qed simp
qed

definition put_fields :: "nat \<Rightarrow> inode \<Rightarrow> block \<Rightarrow> block" where
  "put_fields o1 ip d = st32 (o1 + 8) (i_size ip) (st16 (o1 + 6) (i_nlink ip) (st16 (o1 + 4) (i_minor ip)
     (st16 (o1 + 2) (i_major ip) (st16 o1 (i_type ip) d))))"

lemma put_dinode_alt:
  "put_dinode o1 ip d = fold (\<lambda>k d. st32 (o1 + 12 + 4 * k) (i_addrs ip ! k) d) [0..<13] (put_fields o1 ip d)"
  by (simp add: put_dinode_def put_fields_def Let_def NDIRECT_def del: upt_rec_numeral)

lemma put_fields_get:
  "ld16 (put_fields o1 ip d) o1 = i_type ip" "ld16 (put_fields o1 ip d) (o1 + 2) = i_major ip"
  "ld16 (put_fields o1 ip d) (o1 + 4) = i_minor ip" "ld16 (put_fields o1 ip d) (o1 + 6) = i_nlink ip"
  "ld32 (put_fields o1 ip d) (o1 + 8) = i_size ip"
  by (simp_all add: put_fields_def ld16_st16_other_nat ld16_st32_other_nat)

lemma put_dinode_low:
  assumes "o1 \<le> x" "x < o1 + 12"
  shows "put_dinode o1 ip d x = put_fields o1 ip d x"
  unfolding put_dinode_alt by (rule put_addrs(1)) (use assms in simp)

lemma put_dinode_other:
  assumes "x < o1 \<or> o1 + 64 \<le> x"
  shows "put_dinode o1 ip d x = d x"
proof -
  have "put_dinode o1 ip d x = put_fields o1 ip d x"
    unfolding put_dinode_alt by (rule put_addrs(1)) (use assms in auto)
  also have "\<dots> = d x" using assms by (auto simp: put_fields_def st16_other_nat st32_other_nat)
  finally show ?thesis .
qed

lemma dinode_roundtrip:
  assumes "length (i_addrs ip) = 13"
  shows "get_dinode o1 (put_dinode o1 ip d) jp = jp\<lparr>i_type := i_type ip, i_major := i_major ip, i_minor := i_minor ip,
     i_nlink := i_nlink ip, i_size := i_size ip, i_addrs := i_addrs ip\<rparr>"
proof -
  let ?e = "put_dinode o1 ip d" and ?f = "put_fields o1 ip d"
  have l: "ld16 ?e (o1 + k) = ld16 ?f (o1 + k)" if "k \<le> 6" for k
    using that put_dinode_low [of o1 "o1 + k"] put_dinode_low [of o1 "o1 + k + 1"] by (simp add: ld16_def)
  have s: "ld32 ?e (o1 + 8) = ld32 ?f (o1 + 8)" by (rule ld32_cong) (simp_all add: put_dinode_low)
  have a: "ld32 ?e (o1 + 12 + 4 * k) = i_addrs ip ! k" if "k < 13" for k
    unfolding put_dinode_alt by (rule put_addrs(2) [OF that])
  have "map (\<lambda>k. ld32 ?e (o1 + 12 + 4 * k)) [0..<13] = i_addrs ip"
    using a assms by (intro nth_equalityI) (simp_all del: upt_rec_numeral)
  then show ?thesis
    using l [of 0] l [of 2] l [of 4] l [of 6] s by (simp add: get_dinode_def put_fields_get NDIRECT_def del: upt_rec_numeral add_2_eq_Suc')
qed

text \<open>Inodes that share the block are left alone.\<close>

lemma get_dinode_cong:
  assumes "\<And>x. o1 \<le> x \<Longrightarrow> x < o1 + 64 \<Longrightarrow> d x = e x"
  shows "get_dinode o1 d ip = get_dinode o1 e ip"
proof -
  have l: "ld16 d (o1 + k) = ld16 e (o1 + k)" if "k \<le> 6" for k using that by (simp add: ld16_def assms)
  have m: "ld32 d (o1 + k) = ld32 e (o1 + k)" if "k \<le> 60" for k using that by (intro ld32_cong) (simp_all add: assms)
  have "map (\<lambda>k. ld32 d (o1 + 12 + 4 * k)) [0..<NDIRECT + 1] = map (\<lambda>k. ld32 e (o1 + 12 + 4 * k)) [0..<NDIRECT + 1]"
    using m [of "12 + 4 * k" for k] by (intro map_cong) (auto simp: NDIRECT_def add.assoc)
  then show ?thesis
    unfolding get_dinode_def using l [of 0] l [of 2] l [of 4] l [of 6] m [of 8] by simp
qed

lemma dip_off_disjoint:
  assumes "unat i mod 8 \<noteq> unat j mod 8"
  shows "dip_off i + 64 \<le> dip_off j \<or> dip_off j + 64 \<le> dip_off i"
  using assms by (cases "unat i mod 8" "unat j mod 8" rule: linorder_cases) (auto simp: dip_off_def IPB_def)

text \<open>\<open>iupdate\<close> stores the inode in its place and changes no other block and no other inode.\<close>

lemma frame_meta:
  assumes "txr {b} s t" "b \<in> iblocks s" "fs_ok s"
  shows "frame {} s t" "nfree t = nfree s" "fs_ok t" "bused t c = bused s c \<or> \<not> c < fsize s"
proof -
  note x = txrD [OF assms(1)]
  have b: "bused t c = bused s c" if "c < fsize s" for c
  proof -
    have "bblock c (fs_sb s) \<in> bitmaps s" using that by (simp add: bitmaps_def)
    then have "bblock c (fs_sb s) \<noteq> b" using assms(2) fs_okD(6) [OF assms(3)] by auto
    then show ?thesis using x(5,8) by (simp add: bused_def)
  qed
  have "blk t c = blk s c" if "inuse s c" for c
    using that assms(2) by (intro x(8)) (auto simp: inuse_def datablk_def)
  then show "frame {} s t" using x(2-5) b by (simp add: frame_def)
  show "nfree t = nfree s" using txr_layout(1) [OF assms(1)] b by (rule nfree_eq)
  show "fs_ok t" using b by (intro fs_ok_txr [OF assms(3,1)]) auto
  show "bused t c = bused s c \<or> \<not> c < fsize s" using b by auto
qed

definition dinode :: "'z fstate_scheme \<Rightarrow> u32 \<Rightarrow> inode \<Rightarrow> inode" where
  "dinode s i = get_dinode (dip_off i) (blk s (iblock i (fs_sb s)))"

lemma iupdate_runs:
  assumes ok: "fs_ok s" and h: "held s = {}" and n: "i_dev (inodes s ! ip) = 1" "i_inum (inodes s ! ip) < sb_ninodes (fs_sb s)"
      "length (i_addrs (inodes s ! ip)) = 13"
    and room: "int (nlog s) + 1 < log_size s"
  shows "runs (iupdate ip s) (\<lambda>t. fs_ok t \<and> held t = {} \<and> inodes t = inodes s \<and> frame {} s t \<and>
     set (logged t) \<subseteq> insert (iblock (i_inum (inodes s ! ip)) (fs_sb s)) (set (logged s)) \<and>
     dinode t (i_inum (inodes s ! ip)) (inodes s ! ip) = inodes s ! ip \<and>
     (\<forall>i. iblock i (fs_sb s) \<in> iblocks s \<and> (iblock i (fs_sb s), unat i mod 8) \<noteq> (iblock (i_inum (inodes s ! ip)) (fs_sb s), unat (i_inum (inodes s ! ip)) mod 8)
        \<longrightarrow> dinode t i = dinode s i))"
proof -
  let ?n = "inodes s ! ip" and ?b = "iblock (i_inum (inodes s ! ip)) (fs_sb s)"
  have b: "?b \<in> iblocks s" using n(2) by (simp add: iblocks_def)
  have "runs (rbind (bread 1 ?b s) (\<lambda>(i, s). rbind (log_write i (set_data i (put_dinode (dip_off (i_inum ?n)) ?n (buf_data s i)) s)) (brelse i)))
    (\<lambda>t. txr {?b} s t \<and> blk t = (blk s)(?b := put_dinode (dip_off (i_inum ?n)) ?n (blk s ?b)) \<and> set (logged t) = insert ?b (set (logged s)) \<and> keeps (held s) s t)"
    by (rule mod_runs [OF fs_okD(1) [OF ok]]) (use fs_okD(4) [OF ok b] h room in auto)
  then show ?thesis
    unfolding iupdate_def Let_def n(1)
  proof (rule runs_mono, elim conjE)
    fix t assume t: "txr {?b} s t" "blk t = (blk s)(?b := put_dinode (dip_off (i_inum ?n)) ?n (blk s ?b))" "set (logged t) = insert ?b (set (logged s))" "keeps (held s) s t"
    note fm = frame_meta [OF t(1) b ok]
    have me: "dinode t (i_inum ?n) ?n = ?n"
      unfolding dinode_def using txrD(5) [OF t(1)] n(3) by (simp add: t(2) dinode_roundtrip)
    have other: "dinode t i = dinode s i" if "(iblock i (fs_sb s), unat i mod 8) \<noteq> (?b, unat (i_inum ?n) mod 8)" for i
    proof (cases "iblock i (fs_sb s) = ?b")
      case True
      then have "unat i mod 8 \<noteq> unat (i_inum ?n) mod 8" using that by simp
      from dip_off_disjoint [OF this] show ?thesis
        unfolding dinode_def txrD(5) [OF t(1)] t(2) True
        by (intro ext) (auto intro!: get_dinode_cong put_dinode_other)
    qed (simp add: dinode_def txrD(5) [OF t(1)] t(2))
    show "fs_ok t \<and> held t = {} \<and> inodes t = inodes s \<and> frame {} s t \<and> set (logged t) \<subseteq> insert ?b (set (logged s)) \<and> dinode t (i_inum ?n) ?n = ?n \<and>
     (\<forall>i. iblock i (fs_sb s) \<in> iblocks s \<and> (iblock i (fs_sb s), unat i mod 8) \<noteq> (?b, unat (i_inum ?n) mod 8) \<longrightarrow> dinode t i = dinode s i)"
      using fm(1,3) me other t(3) keepsD(2) [OF t(4)] h txrD(6) [OF t(1)] by simp
  qed
qed

section \<open>Reading\<close>

lemma same_file:
  assumes "same s t"
  shows "file_ok t n = file_ok s n" "fbyte t n k = fbyte s n k" "faddr t n i = faddr s n i"
proof -
  note sd = sameD [OF assms]
  show e: "faddr t n i = faddr s n i" for i by (simp add: faddr_def sd)
  show "file_ok t n = file_ok s n" "fbyte t n k = fbyte s n k" by (simp_all add: file_ok_def fbyte_def inuse_def e sd Let_def)
qed

lemma chunk_mod: "off mod 512 + m \<le> (512 :: nat) \<Longrightarrow> k < m \<Longrightarrow> (off + k) mod 512 = off mod 512 + k"
proof -
  assume a: "off mod 512 + m \<le> 512" "k < m"
  then have "off mod 512 + k < 512" by (meson add_less_cancel_left less_le_trans)
  then have "(off mod 512 + k) mod 512 = off mod 512 + k" by (rule mod_less)
  then show ?thesis by (simp only: mod_add_left_eq)
qed

lemma readi_loop_runs:
  assumes "fs_ok s" "held s = {}" "file_ok s (inodes s ! ip)" "unat off + n \<le> MAXFILE * 512" "int (nlog s) < log_size s"
    "\<And>k. unat off \<le> k \<Longrightarrow> k < unat off + n \<Longrightarrow> faddr s (inodes s ! ip) (k div 512) \<noteq> 0"
  shows "runs (readi_loop ip off n s) (\<lambda>(bs, t). bs = map (fbyte s (inodes s ! ip)) [unat off..<unat off + n] \<and> same s t)"
  using assms
proof (induction n arbitrary: off s rule: less_induct)
  case (less n)
  show ?case
  proof (cases "n = 0")
    case True
    then show ?thesis using same_refl [OF less.prems(1,2)] by (subst readi_loop.simps) simp
  next
    case False
    let ?n = "inodes s ! ip" and ?a = "faddr s (inodes s ! ip) (unat off div 512)"
    define m where "m = fs_chunk off n"
    have m: "0 < m" "m \<le> n" "unat off mod 512 + m \<le> 512" using False by (auto simp: m_def fs_chunk_def min_def)
    note os = off_step [OF less.prems(4) m(2)]
    have j: "unat (off div 512) = unat off div 512" by (simp add: unat_div)
    have jM: "unat (off div 512) < MAXFILE" using less.prems(4) False j by (simp add: div_less_iff_less_mult MAXFILE_def)
    have a: "?a \<noteq> 0" using less.prems(6) [of "unat off"] False by simp
    have "faddr s ?n (unat (off div 512)) \<noteq> 0" using a j by simp
    from bmap_lookup [OF less.prems(1-3) jM this less.prems(5)] obtain s1 where b: "bmap ip (off div 512) s = Inr (?a, s1)" "same s s1"
      by (auto simp: runs_def j)
    note d1 = sameD [OF b(2)]
    have ok1: "fs_ok s1" using fs_ok_same [OF less.prems(1) b(2)] .
    have "?a < disksize s1" using file_okD(3) [OF less.prems(3) jM] a j fs_okD(2) [OF less.prems(1)] d1(12) by (auto simp: inuse_def datablk_def)
    then obtain bp s2 s3 where r: "bread 1 ?a s1 = Inr (bp, s2)" "buf_data s2 bp = blk s1 ?a" "inodes s2 = inodes s1" "brelse bp s2 = Inr s3" "same s1 s3"
      by (rule read_same [OF fs_okD(1) [OF ok1]]) (use less.prems(2,5) d1 in auto)
    have s3: "same s s3" using same_trans [OF b(2) r(5)] .
    note d3 = sameD [OF s3] and f3 = same_file [OF s3]
    have "runs (readi_loop ip (off + word_of_nat m) (n - m) s3)
      (\<lambda>(bs, t). bs = map (fbyte s3 (inodes s3 ! ip)) [unat (off + word_of_nat m)..<unat (off + word_of_nat m) + (n - m)] \<and> same s3 t)"
      using less.prems(2-6) m False os d3 f3 by (intro less.IH [OF _ fs_ok_same [OF less.prems(1) s3]]) auto
    then obtain cs t where l: "readi_loop ip (off + word_of_nat m) (n - m) s3 = Inr (cs, t)" "same s3 t"
        "cs = map (fbyte s ?n) [unat off + m..<unat off + n]"
      using d3(10) f3(2) os m(2) by (auto simp: runs_def)
    have "fbyte s ?n (unat off + k) = blk s ?a (unat off mod 512 + k)" if "k < m" for k
      using chunk_bytes [OF m(3), of "unat off + k"] that a by (simp add: fbyte_def Let_def chunk_mod [OF m(3)])
    then have bs: "map (\<lambda>k. blk s ?a (unat off mod 512 + k)) [0..<m] = map (fbyte s ?n) [unat off..<unat off + m]"
      by (intro nth_equalityI) auto
    have "[unat off..<unat off + n] = [unat off..<unat off + m] @ [unat off + m..<unat off + n]"
      using m(2) upt_add_eq_append [of "unat off" "unat off + m" "n - m"] by simp
    then show ?thesis
      using False b(1) r l same_trans [OF s3 l(2)] bs file_okD(2) [OF less.prems(3)] d1 unfolding m_def
      by (subst readi_loop.simps) (simp add: Let_def)
  qed
qed

section \<open>Writing\<close>

text \<open>
  \<open>t\<close> is \<open>s\<close> after \<open>src\<close> was written to the file at \<open>off\<close>: its bytes, its size and its inode on
  disk; other files, none of whose blocks belong to this one, are as they were.
\<close>

definition written :: "nat \<Rightarrow> u8 list \<Rightarrow> nat \<Rightarrow> 'z fstate_scheme \<Rightarrow> 'z fstate_scheme \<Rightarrow> bool" where
  "written ip src off s t \<longleftrightarrow> (let n = inodes s ! ip; n' = inodes t ! ip; size' = max (unat (i_size n)) (off + length src) in
     fs_ok t \<and> held t = {} \<and> file_ok t n' \<and> inodes t = (inodes s)[ip := n\<lparr>i_addrs := i_addrs n', i_size := word_of_nat size'\<rparr>] \<and>
     (\<forall>k<MAXFILE * 512. fbyte t n' k = (if off \<le> k \<and> k < off + length src then src ! (k - off) else fbyte s n k)) \<and>
     (\<forall>k. off \<le> k \<and> k < off + length src \<longrightarrow> faddr t n' (k div 512) \<noteq> 0) \<and>
     (unat (i_size n) < off + length src \<longrightarrow> dinode t (i_inum n) n' = n') \<and>
     (\<forall>m. file_ok s m \<and> fblocks s m \<inter> fblocks s n \<subseteq> {0} \<longrightarrow> file_ok t m \<and> (\<forall>k<MAXFILE * 512. fbyte t m k = fbyte s m k)))"

lemma frame_others:
  assumes fr: "frame (fblocks s n) s t" and m: "file_ok s m" "fblocks s m \<inter> fblocks s n \<subseteq> {0}"
  shows "file_ok t m" "k < MAXFILE * 512 \<Longrightarrow> fbyte t m k = fbyte s m k"
proof -
  have fr': "frame (fblocks s n - {0}) s t" using fr by (auto simp: frame_def inuse_def datablk_def)
  have i: "ind m \<notin> fblocks s n - {0} \<or> ind m = 0" using m(2) by (auto simp: fblocks_def)
  show "file_ok t m" using frame_file(2) [OF fr' m(1) i] .
  assume k: "k < MAXFILE * 512"
  then have kM: "k div 512 < MAXFILE" by (simp add: div_less_iff_less_mult)
  then have "faddr s m (k div 512) \<notin> fblocks s n - {0}" using m(2) by (auto simp: fblocks_def)
  then show "fbyte t m k = fbyte s m k" by (rule frame_file(3) [OF fr' m(1) i kM])
qed

lemma nlog_logroom: "nlog s \<le> logroom s n"
proof -
  have "card (set (logged s)) \<le> card (lset s n)" by (rule card_mono) (auto simp: lset_def)
  then show ?thesis by (simp add: nlog_def logroom_def)
qed

lemma int_of_uint_small: "k < 2 ^ 31 \<Longrightarrow> int_of_uint (word_of_nat k) = int k"
  by (simp add: int_of_uint_def signed_of_nat take_bit_int_eq_self signed_take_bit_int_eq_self)

lemma wrote_written:
  assumes w: "wrote ip src off (length src) c s t" and ip: "ip < length (inodes s)" and u: "off + length src \<le> unat (i_size (inodes s ! ip))"
    and M: "off + length src \<le> MAXFILE * 512"
  shows "written ip src off s t"
proof -
  note d = wroteD [OF w]
  have "word_of_nat (max (unat (i_size (inodes s ! ip))) (off + length src)) = i_size (inodes s ! ip)" using u by (simp add: max_absorb1)
  moreover have "inodes t = (inodes s)[ip := (inodes s ! ip)\<lparr>i_addrs := i_addrs (inodes t ! ip), i_size := i_size (inodes s ! ip)\<rparr>]"
    using d(4) by simp
  ultimately show ?thesis
    unfolding written_def Let_def
    using d(1,2,5,6,7) frame_others [OF d(3)] u M by (auto simp: div_less_iff_less_mult)
qed

lemma file_size [simp]:
  "faddr s (n\<lparr>i_size := x\<rparr>) i = faddr s n i" "fbyte s (n\<lparr>i_size := x\<rparr>) k = fbyte s n k" "file_ok s (n\<lparr>i_size := x\<rparr>) = file_ok s n"
proof -
  show f: "faddr s (n\<lparr>i_size := x\<rparr>) i = faddr s n i" for i by (simp add: faddr_def)
  show "fbyte s (n\<lparr>i_size := x\<rparr>) k = fbyte s n k" "file_ok s (n\<lparr>i_size := x\<rparr>) = file_ok s n"
    by (simp_all add: fbyte_def file_ok_def f Let_def)
qed

lemma grown_written:
  assumes w: "wrote ip src off (length src) c s t" and ip: "ip < length (inodes s)" and u: "unat (i_size (inodes s ! ip)) < off + length src"
    and M: "off + length src \<le> MAXFILE * 512"
    and n': "n' = (inodes t ! ip)\<lparr>i_size := word_of_nat (off + length src)\<rparr>"
    and v: "fs_ok v" "held v = {}" "inodes v = (inodes t)[ip := n']" "frame {} t v" "dinode v (i_inum (inodes s ! ip)) n' = n'"
  shows "written ip src off s v"
proof -
  note d = wroteD [OF w]
  have f: "file_ok t n'" "i < MAXFILE \<Longrightarrow> faddr v n' i = faddr t (inodes t ! ip) i" "k < MAXFILE * 512 \<Longrightarrow> fbyte v n' k = fbyte t (inodes t ! ip) k" "file_ok v n'" for i k
    using d(5) frame_file [OF v(4), of n'] by (auto simp: n' div_less_iff_less_mult)
  have fr: "frame (fblocks s (inodes s ! ip)) s v" using frame_trans [OF d(3) v(4)] by simp
  have nv: "inodes v ! ip = n'" using v(3) ip arg_cong [OF d(4), of length] by simp
  have "inodes t ! ip = (inodes s ! ip)\<lparr>i_addrs := i_addrs (inodes t ! ip)\<rparr>" using arg_cong [OF d(4), of "\<lambda>l. l ! ip"] ip by simp
  then have n2: "n' = (inodes s ! ip)\<lparr>i_addrs := i_addrs n', i_size := word_of_nat (off + length src)\<rparr>"
    unfolding n' by (cases "inodes s ! ip"; cases "inodes t ! ip") auto
  have "inodes v = (inodes s)[ip := n']" using v(3) d(4) by (metis list_update_overwrite)
  then have "inodes v = (inodes s)[ip := (inodes s ! ip)\<lparr>i_addrs := i_addrs n', i_size := word_of_nat (off + length src)\<rparr>]" using n2 by metis
  moreover have "max (unat (i_size (inodes s ! ip))) (off + length src) = off + length src" using u by simp
  ultimately show ?thesis
    unfolding written_def Let_def nv
    using v(1,2,5) f(2-4) d(6,7) frame_others [OF fr] M by (auto simp: div_less_iff_less_mult)
qed

lemma writei_runs:
  fixes s :: "'z fstate_scheme"
  assumes ok: "fs_ok s" "held s = {}" "file_ok s (inodes s ! ip)" "ip < length (inodes s)" and ty: "i_type (inodes s ! ip) \<noteq> T_DEV"
    and inum: "i_inum (inodes s ! ip) < sb_ninodes (fs_sb s)"
    and off: "off \<le> i_size (inodes s ! ip)" "unat off + length src \<le> MAXFILE * 512"
    and c: "unat off mod 512 + length src \<le> 512 * c"
    and free: "b2n (ind (inodes s ! ip) = 0) + c \<le> nfree s" and room: "int (logroom s (inodes s ! ip) + c) + 1 < log_size s"
  shows "runs (writei dv ip src off (word_of_nat (length src)) s) (\<lambda>(r, t). r = int (length src) \<and> written ip src (unat off) s t)"
proof -
  let ?n = "inodes s ! ip" and ?l = "length src"
  have l: "?l < 2 ^ 31" "?l < 2 ^ 32" "unat off + ?l < 2 ^ 32" using off(2) by (auto simp: MAXFILE_def NDIRECT_def NINDIRECT_def)
  have ul: "unat (word_of_nat ?l :: u32) = ?l" "unat (off + word_of_nat ?l) = unat off + ?l"
    using l off_step [OF off(2), of ?l] by (simp_all add: unat_of_nat)
  from writei_loop_runs [OF ok off(2) _ _ free room, of src] c obtain t where
    t: "writei_loop ip src off ?l s = Inr (off + word_of_nat ?l, t)" "wrote ip src (unat off) ?l c s t" by (auto simp: runs_def)
  note d = wroteD [OF t(2)]
  have nt: "inodes t ! ip = ?n\<lparr>i_addrs := i_addrs (inodes t ! ip)\<rparr>" using arg_cong [OF d(4), of "\<lambda>l. l ! ip"] ok(4) by simp
  then have nf: "i_size (inodes t ! ip) = i_size ?n" "i_inum (inodes t ! ip) = i_inum ?n" by (metis inode.ext_inject inode.surjective inode.update_convs(11))+
  have w: "writei dv ip src off (word_of_nat ?l) s =
      rbind (if word_of_nat ?l > (0 :: u32) \<and> off + word_of_nat ?l > i_size (inodes t ! ip)
        then iupdate ip (upd_inode ip (\<lambda>i. i\<lparr>i_size := off + word_of_nat ?l\<rparr>) t) else Inr t) (\<lambda>s. Inr (int ?l, s))"
    using ty off ul t(1) int_of_uint_small [OF l(1)]
    by (simp add: writei_def Let_def word_less_nat_alt word_le_nat_alt MAXFILE_def NDIRECT_def NINDIRECT_def BSIZE_def not_less)
  show ?thesis
  proof (cases "unat (i_size ?n) < unat off + ?l")
    case False
    then have "\<not> off + word_of_nat ?l > i_size (inodes t ! ip)" using ul nf by (simp add: word_less_nat_alt)
    then show ?thesis using w wrote_written [OF t(2) ok(4) _ off(2)] False by simp
  next
    case True
    let ?u = "upd_inode ip (\<lambda>i. i\<lparr>i_size := off + word_of_nat ?l\<rparr>) t"
    have ipt: "ip < length (inodes t)" using ok(4) arg_cong [OF d(4), of length] by simp
    have lp: "0 < ?l" using True off(1) by (auto simp: word_le_nat_alt)
    have "word_of_nat ?l > (0 :: u32)" "off + word_of_nat ?l > i_size (inodes t ! ip)" using True lp ul nf by (auto simp: word_less_nat_alt)
    moreover have "runs (iupdate ip ?u) (written ip src (unat off) s)"
    proof (rule runs_mono [OF iupdate_runs])
      show "int (nlog ?u) + 1 < log_size ?u" using nlog_logroom [of t "inodes t ! ip"] d(10) room frame_layout(6) [OF d(3)] by simp
      show "i_inum (inodes ?u ! ip) < sb_ninodes (fs_sb ?u)" using inum ipt nf frame_layout(7) [OF d(3)] by simp
      fix v assume "fs_ok v \<and> held v = {} \<and> inodes v = inodes ?u \<and> frame {} ?u v \<and>
         set (logged v) \<subseteq> insert (iblock (i_inum (inodes ?u ! ip)) (fs_sb ?u)) (set (logged ?u)) \<and> dinode v (i_inum (inodes ?u ! ip)) (inodes ?u ! ip) = inodes ?u ! ip \<and>
         (\<forall>i. iblock i (fs_sb ?u) \<in> iblocks ?u \<and> (iblock i (fs_sb ?u), unat i mod 8) \<noteq> (iblock (i_inum (inodes ?u ! ip)) (fs_sb ?u), unat (i_inum (inodes ?u ! ip)) mod 8)
        \<longrightarrow> dinode v i = dinode ?u i)"
      then show "written ip src (unat off) s v"
        using ipt nf ul(2) by (intro grown_written [OF t(2) ok(4) True off(2) refl]) (auto simp flip: ul(2))
    qed (use d ipt file_okD(1,2) [OF d(5)] in auto)
    ultimately show ?thesis using w by (auto simp: runs_def)
  qed
qed

text \<open>
  C4: Writing to a file and reading it back. In a transaction, for a regular file and bytes that start
  within the file and end below its maximal size, with enough free blocks and room in the log:
  \<open>writei\<close> returns the number of bytes; \<open>readi\<close> at the same place then returns exactly these bytes; all
  other bytes of the file are unchanged, its size is the maximum of the old size and the end of the
  write, and when it grew the inode on disk is the one in memory; files that share no block with it
  are untouched and the file system stays well formed.
\<close>

theorem write_then_read:
  fixes s :: "'z fstate_scheme"
  assumes "fs_ok s" and "held s = {}" and "ip < length (inodes s)" and "file_ok s (inodes s ! ip)" and "i_type (inodes s ! ip) \<noteq> T_DEV"
    and "i_inum (inodes s ! ip) < sb_ninodes (fs_sb s)" and "off \<le> i_size (inodes s ! ip)" and "unat off + length src \<le> MAXFILE * 512"
    and "unat off mod 512 + length src \<le> 512 * c" and "b2n (ind (inodes s ! ip) = 0) + c \<le> nfree s"
    and "int (logroom s (inodes s ! ip) + c) + 1 < log_size s"
  shows "\<exists>t u. writei dv ip src off (word_of_nat (length src)) s = Inr (int (length src), t) \<and> written ip src (unat off) s t \<and>
    readi dv ip off (word_of_nat (length src)) t = Inr ((int (length src), src), u) \<and> same t u"
proof -
  let ?l = "length src"
  have l: "?l < 2 ^ 31" "?l < 2 ^ 32" using assms(8) by (auto simp: MAXFILE_def NDIRECT_def NINDIRECT_def)
  have ul: "unat (word_of_nat ?l :: u32) = ?l" "unat (off + word_of_nat ?l) = unat off + ?l"
    using l off_step [OF assms(8), of ?l] by (simp_all add: unat_of_nat)
  from writei_runs [OF assms(1,2,4,3,5-11)] obtain t where t: "writei dv ip src off (word_of_nat ?l) s = Inr (int ?l, t)" "written ip src (unat off) s t"
    by (auto simp: runs_def)
  let ?n = "inodes s ! ip" and ?m = "inodes t ! ip" and ?z = "max (unat (i_size (inodes s ! ip))) (unat off + length src)"
  have w: "fs_ok t" "held t = {}" "file_ok t ?m" "inodes t = (inodes s)[ip := ?n\<lparr>i_addrs := i_addrs ?m, i_size := word_of_nat ?z\<rparr>]"
    "\<forall>k<MAXFILE * 512. fbyte t ?m k = (if unat off \<le> k \<and> k < unat off + ?l then src ! (k - unat off) else fbyte s ?n k)"
    "\<forall>k. unat off \<le> k \<and> k < unat off + ?l \<longrightarrow> faddr t ?m (k div 512) \<noteq> 0"
    using t(2) by (simp_all add: written_def Let_def)
  have m: "i_type ?m = i_type ?n" "i_size ?m = word_of_nat ?z"
    using arg_cong [OF w(4), of "\<lambda>l. i_type (l ! ip)"] arg_cong [OF w(4), of "\<lambda>l. i_size (l ! ip)"] assms(3) by simp_all
  have "?z < 2 ^ 32" using unat_u32 [of "i_size ?n"] ul(2) unat_u32 [of "off + word_of_nat ?l"] by simp
  then have z: "unat (i_size ?m) = ?z" unfolding m(2) by (rule unat_nat32)
  have room: "int (nlog t) < log_size t"
    using in_txnD(3) [OF fs_okD(1) [OF w(1)]] fs_okD(1) [OF w(1)] by (simp add: in_txn_def head_ok_def)
  from readi_loop_runs [OF w(1-3) assms(8) room] w(6) obtain u where
    u: "readi_loop ip off ?l t = Inr (map (fbyte t ?m) [unat off..<unat off + ?l], u)" "same t u" by (auto simp: runs_def)
  have "map (fbyte t ?m) [unat off..<unat off + ?l] = src"
    using w(5) assms(8) by (intro nth_equalityI) auto
  then have "readi dv ip off (word_of_nat ?l) t = Inr ((int ?l, src), u)"
    using u(1) assms(5) m(1) z ul int_of_uint_small [OF l(1)] by (simp add: readi_def Let_def word_less_nat_alt not_less)
  with t u(2) show ?thesis by blast
qed

lemma demo_file: "file_ok demo_fs demo_inode" "ind demo_inode = 0"
  by (auto simp: file_ok_def faddr_def demo_inode_def nth_Cons split: nat.split)

theorem write_then_read_witness:
  "\<exists>t u. writei [] 0 (replicate 600 7) 0 600 demo_fs = Inr (600, t) \<and> readi [] 0 0 600 t = Inr ((600, replicate 600 7), u)"
proof -
  have n: "inodes demo_fs ! 0 = demo_inode" by (simp add: demo_fs_fields)
  have "{104, 105, 106} \<subseteq> {b. b < fsize demo_fs \<and> \<not> bused demo_fs b}" by (auto simp: demo_areas demo_used)
  then have "card {104, 105, 106 :: u32} \<le> nfree demo_fs" unfolding nfree_def by (intro card_mono) auto
  then have free: "b2n (ind demo_inode = 0) + 2 \<le> nfree demo_fs" by (simp add: b2n_def)
  have room: "int (logroom demo_fs demo_inode + 2) + 1 < log_size demo_fs"
    by (simp add: logroom_def lset_def demo_file demo_fs_fields demo_areas b2n_def)
  show ?thesis
    using write_then_read [of demo_fs 0 0 "replicate 600 7" 2 "[]"] demo_fs_ok demo_file n free room
    by (auto simp: demo_fs_fields demo_inode_def MAXFILE_def NDIRECT_def NINDIRECT_def T_DEV_def T_FILE_def)
qed

end
