(* ===== verification/Console.thy ===== *)
theory Console
  imports Pipe Fs
begin

text \<open>
  The console of \<open>console.c\<close> and the keyboard of \<open>kbd.c\<close>: formatted output and the text screen, the
  input buffer with its three free-running 32-bit indices, which \<open>consoleintr\<close> edits and
  \<open>consoleread\<close> takes lines from, and the translation of scan codes. The input buffer is proved to
  implement a line editor.
\<close>

section \<open>Output\<close>

text \<open>
  What is sent to \<open>consputc\<close> is a list of its arguments. An argument of \<open>cprintf\<close> is an integer, a
  pointer or a string, which may be null.
\<close>

definition BACKSPACE :: int where "BACKSPACE = 256"

definition digits :: "int list" where
  "digits = [48, 49, 50, 51, 52, 53, 54, 55, 56, 57, 97, 98, 99, 100, 101, 102]"

fun print_hex :: "nat \<Rightarrow> 'a::len word \<Rightarrow> int list" where
  "print_hex 0 x = []"
| "print_hex (Suc i) x = digits ! unat (drop_bit (LENGTH('a) - 4) x) # print_hex i (push_bit 4 x)"

definition print_x64 :: "u64 \<Rightarrow> int list" where
  "print_x64 x = print_hex 16 x"

definition print_x32 :: "u32 \<Rightarrow> int list" where
  "print_x32 x = print_hex 8 x"

text \<open>The loop of \<open>print_d\<close> on the absolute value, which a 64-bit integer holds; least digit first.\<close>

function d_loop :: "nat \<Rightarrow> int list" where
  "d_loop x = digits ! (x mod 10) # (if x div 10 \<noteq> 0 then d_loop (x div 10) else [])"
  by pat_completeness auto

termination
  by (relation "measure id") auto

declare d_loop.simps [simp del]

definition print_d :: "int \<Rightarrow> int list" where
  "print_d v = (if v < 0 then [45] else []) @ rev (d_loop (nat \<bar>v\<bar>))"

datatype fmtarg = IntArg int | PtrArg u64 | StrArg "int list option"

text \<open>
  The loop of \<open>cprintf\<close>: a conversion takes the next argument; one that is missing or of another
  kind is undefined behaviour and has no result.
\<close>

fun cprintf :: "int list \<Rightarrow> fmtarg list \<Rightarrow> int list option" where
  "cprintf [] as = Some []"
| "cprintf (c # fmt) as =
     (if c \<noteq> 37 then map_option (\<lambda>out. c # out) (cprintf fmt as)
      else case fmt of
        [] \<Rightarrow> Some []
      | d # fmt' \<Rightarrow>
          if d = 100 then (case as of IntArg v # as' \<Rightarrow> map_option ((@) (print_d v)) (cprintf fmt' as') | _ \<Rightarrow> None)
          else if d = 120 then (case as of IntArg v # as' \<Rightarrow> map_option ((@) (print_x32 (of_int v))) (cprintf fmt' as') | _ \<Rightarrow> None)
          else if d = 112 then (case as of PtrArg p # as' \<Rightarrow> map_option ((@) (print_x64 p)) (cprintf fmt' as') | _ \<Rightarrow> None)
          else if d = 115 then (case as of StrArg x # as' \<Rightarrow>
              map_option ((@) (case x of None \<Rightarrow> [40, 110, 117, 108, 108, 41] | Some t \<Rightarrow> t)) (cprintf fmt' as') | _ \<Rightarrow> None)
          else if d = 37 then map_option (\<lambda>out. 37 # out) (cprintf fmt' as)
          else map_option (\<lambda>out. 37 # d # out) (cprintf fmt' as))"

text \<open>
  The text screen: 25 lines of 80 cells and the position of the cursor, which the code keeps in the
  registers of the display controller.
\<close>

record screen =
  crt :: "u16 list"
  cursor :: nat

definition cga_char :: "int \<Rightarrow> screen \<Rightarrow> screen" where
  "cga_char c s =
     (let pos = cursor s in
      if c = 10 then s\<lparr>cursor := pos + (80 - pos mod 80)\<rparr>
      else if c = BACKSPACE then (if pos > 0 then s\<lparr>cursor := pos - 1\<rparr> else s)
      else s\<lparr>crt := (crt s)[pos := of_int (c mod 256) OR 0x0700], cursor := pos + 1\<rparr>)"

definition cga_scroll :: "screen \<Rightarrow> screen" where
  "cga_scroll s =
     (if cursor s div 80 \<ge> 24 then
        let cells = take (23 * 80) (drop 80 (crt s)) @ drop (23 * 80) (crt s); pos = cursor s - 80
        in s\<lparr>crt := take pos cells @ replicate (24 * 80 - pos) 0 @ drop (24 * 80) cells, cursor := pos\<rparr>
      else s)"

definition cgaputc :: "int \<Rightarrow> screen \<Rightarrow> screen" where
  "cgaputc c s =
     (let s = cga_scroll (cga_char c s) in s\<lparr>crt := (crt s)[cursor s := 32 OR 0x0700]\<rparr>)"

text \<open>What goes to the serial line, and the screen.\<close>

definition consputc :: "int \<Rightarrow> screen \<Rightarrow> int list \<times> screen" where
  "consputc c s = (if c = BACKSPACE then [8, 32, 8] else [c], cgaputc c s)"

definition screen_ok :: "screen \<Rightarrow> bool" where
  "screen_ok s \<longleftrightarrow> length (crt s) = 25 * 80 \<and> cursor s < 24 * 80"

text \<open>No character moves the cursor out of the first 24 lines or writes outside the screen.\<close>

lemma next_line: "pos < 1920 \<Longrightarrow> pos + (80 - pos mod 80) \<le> (1920 :: nat)"
proof -
  assume "pos < 1920"
  then have "pos div 80 \<le> 23" by (simp add: less_mult_imp_div_less flip: less_Suc_eq_le)
  moreover have "pos = 80 * (pos div 80) + pos mod 80" "pos mod 80 < 80" by simp_all
  ultimately show ?thesis by linarith
qed

lemma cgaputc_ok:
  assumes "screen_ok s"
  shows "screen_ok (cgaputc c s)"
proof -
  have c: "length (crt (cga_char c s)) = 2000" "cursor (cga_char c s) \<le> 1920"
    using assms next_line [of "cursor s"] by (auto simp: screen_ok_def cga_char_def Let_def)
  have "screen_ok (cga_scroll (cga_char c s))"
    using c by (cases "cursor (cga_char c s) div 80 \<ge> 24") (auto simp: screen_ok_def cga_scroll_def Let_def div_le_mono not_le div_less_iff_less_mult)
  then show ?thesis by (simp add: screen_ok_def cgaputc_def Let_def)
qed

section \<open>Input\<close>

definition INPUT_BUF :: nat where "INPUT_BUF = 128"

record inputst =
  ibuf :: "u8 list"
  ir :: u32
  iw :: u32
  ie :: u32

text \<open>The loop that kills a line; the second result is the number of backspaces sent to the screen.\<close>

function kill_line :: "inputst \<Rightarrow> inputst \<times> int list" where
  "kill_line i =
     (if ie i \<noteq> iw i \<and> ring_at (ibuf i) (ie i - 1) \<noteq> 10 then
        let (j, out) = kill_line (i\<lparr>ie := ie i - 1\<rparr>) in (j, BACKSPACE # out)
      else (i, []))"
  by pat_completeness auto

termination
proof (relation "measure (\<lambda>i. unat (ie i - iw i))")
  show "wf (measure (\<lambda>i. unat (ie i - iw i)))" by simp
  fix i :: inputst assume "ie i \<noteq> iw i \<and> ring_at (ibuf i) (ie i - 1) \<noteq> 10"
  then have "iw i \<noteq> ie i" by auto
  from unat_diff_step [OF this] have "unat (ie i - iw i) = Suc (unat (ie i - 1 - iw i))" by (simp add: algebra_simps)
  then show "(i\<lparr>ie := ie i - 1\<rparr>, i) \<in> measure (\<lambda>i. unat (ie i - iw i))" by simp
qed

declare kill_line.simps [simp del]

text \<open>
  One character of \<open>consoleintr\<close>: the input buffer, the output, and the process table, which a wakeup
  and Control-C change. The reboot of Control-Z has no result; the process listing of Control-P
  only prints.
\<close>

definition consoleintr_char :: "int \<Rightarrow> inputst \<Rightarrow> 'z pstate_scheme \<Rightarrow> (inputst \<times> int list \<times> 'z pstate_scheme) option" where
  "consoleintr_char c i s =
     (if c = 26 then None
      else if c = 16 then Some (i, [], s)
      else if c = 3 then Some (i, [], send_fgsig SIGINT s)
      else if c = 21 then (let (i, out) = kill_line i in Some (i, out, s))
      else if c = 8 \<or> c = 127 then
        (if ie i \<noteq> iw i then Some (i\<lparr>ie := ie i - 1\<rparr>, [BACKSPACE], s) else Some (i, [], s))
      else if c \<noteq> 0 \<and> ie i - ir i < of_nat INPUT_BUF then
        let c = (if c = 13 then 10 else c);
            i = i\<lparr>ibuf := ring_put (ibuf i) (ie i) (of_int c), ie := ie i + 1\<rparr> in
        if c = 10 \<or> c = 4 \<or> ie i = ir i + of_nat INPUT_BUF
        then Some (i\<lparr>iw := ie i\<rparr>, [c], wakeup Ch_input s)
        else Some (i, [c], s)
      else Some (i, [], s))"

text \<open>The loop over \<open>getc\<close>; the list holds what it returns in front of the first negative result.\<close>

fun consoleintr :: "int list \<Rightarrow> inputst \<Rightarrow> 'z pstate_scheme \<Rightarrow> (inputst \<times> int list \<times> 'z pstate_scheme) option" where
  "consoleintr [] i s = Some (i, [], s)"
| "consoleintr (c # keys) i s =
     (if c \<ge> 0 then
        case consoleintr_char c i s of
          None \<Rightarrow> None
        | Some (i, out, s) \<Rightarrow> map_option (\<lambda>(i, out', s). (i, out @ out', s)) (consoleintr keys i s)
      else Some (i, [], s))"

text \<open>
  The loop of \<open>consoleread\<close> until it is done or would sleep: whether it is done, the bytes copied and
  the buffer.
\<close>

fun cread_loop :: "nat \<Rightarrow> nat \<Rightarrow> inputst \<Rightarrow> bool \<times> u8 list \<times> inputst" where
  "cread_loop target 0 i = (True, [], i)"
| "cread_loop target (Suc n) i =
     (if ir i = iw i then (False, [], i)
      else let c = ring_at (ibuf i) (ir i); j = i\<lparr>ir := ir i + 1\<rparr> in
        if c = 4 then (True, [], if Suc n < target then i else j)
        else if c = 10 then (True, [c], j)
        else let (d, bs, j) = cread_loop target n j in (d, c # bs, j))"

text \<open>
  A round of \<open>consoleread\<close>, from its start (\<open>first\<close>) or from the return of \<open>sleep\<close>, to its return
  (\<open>Some\<close> value) or to the next sleep; \<open>n\<close> bytes of \<open>target\<close> are still wanted.
\<close>

definition consoleread_round :: "bool \<Rightarrow> nat \<Rightarrow> nat \<Rightarrow> nat \<Rightarrow> nat \<Rightarrow> inputst \<Rightarrow> 'y fstate_scheme \<Rightarrow> 'z pstate_scheme \<Rightarrow>
    (int option \<times> u8 list \<times> inputst \<times> 'y fstate_scheme \<times> 'z pstate_scheme) res" where
  "consoleread_round first ip c target n i fs s =
     rbind (if first then iunlock ip fs else Inr fs) (\<lambda>fs.
     with_cur c s (\<lambda>_ cur.
       let (d, bs, i) = cread_loop target n i in
       if d then rbind (ilock ip fs) (\<lambda>fs. Inr (Some (int target - int (n - length bs)), bs, i, fs, s))
       else if killed cur \<noteq> 0 then rbind (ilock ip fs) (\<lambda>fs. Inr (Some (-1), bs, i, fs, s))
       else rbind (sleep Ch_input (Some OtherLock) c (upd_cpu c pushcli s)) (\<lambda>s. Inr (None, bs, i, fs, s))))"

fun conswrite_loop :: "u8 list \<Rightarrow> screen \<Rightarrow> int list \<times> screen" where
  "conswrite_loop [] sc = ([], sc)"
| "conswrite_loop (b # bs) sc =
     (let (out, sc) = consputc (uint b) sc; (out', sc) = conswrite_loop bs sc in (out @ out', sc))"

definition consolewrite :: "nat \<Rightarrow> u8 list \<Rightarrow> screen \<Rightarrow> 'y fstate_scheme \<Rightarrow> (int \<times> int list \<times> screen \<times> 'y fstate_scheme) res" where
  "consolewrite ip bs sc fs =
     rbind (iunlock ip fs) (\<lambda>fs.
     let (out, sc) = conswrite_loop bs sc in
     rbind (ilock ip fs) (\<lambda>fs. Inr (int (length bs), out, sc, fs)))"

section \<open>The input buffer is a line editor\<close>

text \<open>The bytes of finished lines that have not been read, and the line being edited.\<close>

definition ready :: "inputst \<Rightarrow> u8 list" where
  "ready i = ring_seq (ibuf i) (ir i) (iw i)"

definition edit :: "inputst \<Rightarrow> u8 list" where
  "edit i = ring_seq (ibuf i) (iw i) (ie i)"

definition input_ok :: "inputst \<Rightarrow> bool" where
  "input_ok i \<longleftrightarrow> length (ibuf i) = INPUT_BUF \<and> unat (iw i - ir i) \<le> unat (ie i - ir i) \<and> unat (ie i - ir i) \<le> INPUT_BUF \<and> 10 \<notin> set (edit i)"

text \<open>The editor: what a key does to the two.\<close>

definition key :: "int \<Rightarrow> u8 list \<times> u8 list \<Rightarrow> u8 list \<times> u8 list" where
  "key c l =
     (let (rd, ed) = l; b = (if c = 13 then 10 else of_int c) in
      if c \<in> {0, 3, 16} then (rd, ed)
      else if c = 21 then (rd, [])
      else if c \<in> {8, 127} then (rd, butlast ed)
      else if length (rd @ ed) = INPUT_BUF then (rd, ed)
      else if b \<in> {10, 4} \<or> length (rd @ ed) + 1 = INPUT_BUF then (rd @ ed @ [b], [])
      else (rd, ed @ [b]))"

text \<open>
  What a read finds: it is done, the bytes it takes and the bytes left. It stops at a newline, which it
  takes, at Control-D, which stays for the next read when this one has bytes, and at \<open>n\<close> bytes.
\<close>

definition line_read :: "nat \<Rightarrow> nat \<Rightarrow> u8 list \<Rightarrow> bool \<times> u8 list \<times> u8 list" where
  "line_read target n rd =
     (let p = takeWhile (\<lambda>c. c \<noteq> 4 \<and> c \<noteq> 10) (take n rd); k = length p in
      if k = n then (True, p, drop n rd)
      else if k = length rd then (False, p, [])
      else if rd ! k = 10 then (True, p @ [10], drop (k + 1) rd)
      else (True, p, if n - k < target then drop k rd else drop (k + 1) rd))"

lemma line_read_0: "line_read target 0 rd = (True, [], rd)"
  by (simp add: line_read_def)

lemma line_read_Nil: "line_read target (Suc n) [] = (False, [], [])"
  by (simp add: line_read_def)

lemma line_read_Cons:
  "line_read target (Suc n) (c # rd) =
     (if c = 4 then (True, [], if Suc n < target then c # rd else rd)
      else if c = 10 then (True, [c], rd)
      else case line_read target n rd of (d, bs, rd') \<Rightarrow> (d, c # bs, rd'))"
  by (simp add: line_read_def Let_def)

lemma ring_ok_input: "length xs = INPUT_BUF \<Longrightarrow> ring_ok xs"
proof -
  have "(2 :: nat) ^ 31 = 128 * 16777216" by simp
  then have "(128 :: nat) dvd 2 ^ 31" by (metis dvd_triv_left)
  then show "length xs = INPUT_BUF \<Longrightarrow> ring_ok xs" unfolding ring_ok_def INPUT_BUF_def by (metis zero_less_numeral)
qed

lemma input_split:
  assumes "input_ok i"
  shows "ring_seq (ibuf i) (ir i) (ie i) = ready i @ edit i" "unat (ie i - ir i) = length (ready i) + length (edit i)"
    "length (ready i) = unat (iw i - ir i)" "length (edit i) = unat (ie i - iw i)" "ie i = iw i \<longleftrightarrow> edit i = []" "ir i = iw i \<longleftrightarrow> ready i = []"
proof -
  show s: "ring_seq (ibuf i) (ir i) (ie i) = ready i @ edit i"
    using assms by (simp add: ready_def edit_def input_ok_def ring_seq_split)
  from arg_cong [OF this, of length] show "unat (ie i - ir i) = length (ready i) + length (edit i)" by simp
  show l: "length (ready i) = unat (iw i - ir i)" "length (edit i) = unat (ie i - iw i)" by (simp_all add: ready_def edit_def)
  have "unat (ie i - iw i) = 0 \<longleftrightarrow> ie i = iw i" "unat (iw i - ir i) = 0 \<longleftrightarrow> ir i = iw i" by (auto simp: unat_eq_0)
  then show "ie i = iw i \<longleftrightarrow> edit i = []" "ir i = iw i \<longleftrightarrow> ready i = []" using l by auto
qed

text \<open>A byte stored behind the edited line.\<close>

lemma store_byte:
  fixes b :: u8
  assumes ok: "input_ok i" and room: "length (ready i) + length (edit i) < INPUT_BUF"
  defines "j \<equiv> i\<lparr>ibuf := ring_put (ibuf i) (ie i) b, ie := ie i + 1\<rparr>"
  shows "ready j = ready i" "edit j = edit i @ [b]" "unat (ie j - ir j) = length (ready i) + length (edit i) + 1" "length (ibuf j) = INPUT_BUF"
proof -
  note sp = input_split [OF ok]
  have r: "ring_ok (ibuf i)" "length (ibuf i) = INPUT_BUF" using ok by (auto simp: input_ok_def ring_ok_input)
  have t: "ring_seq (ibuf j) (ir j) (ie j) = ready i @ edit i @ [b]"
    using ring_seq_put [OF r(1), of "ie i" "ir i" b] sp(1,2) room r(2) by (simp add: j_def)
  show e: "edit j = edit i @ [b]"
    using ring_seq_put [OF r(1), of "ie i" "iw i" b] sp(4) room r(2) by (simp add: j_def edit_def)
  from arg_cong [OF t, of length] show l: "unat (ie j - ir j) = length (ready i) + length (edit i) + 1" by simp
  have "ring_seq (ibuf j) (ir j) (ie j) = ready j @ edit j"
    unfolding ready_def edit_def by (rule ring_seq_split) (use l sp(3) in \<open>simp add: j_def\<close>)
  then show "ready j = ready i" using t e by simp
  show "length (ibuf j) = INPUT_BUF" using r(2) by (simp add: j_def)
qed

lemma unput_byte:
  assumes ok: "input_ok i" and ne: "ie i \<noteq> iw i"
  shows "input_ok (i\<lparr>ie := ie i - 1\<rparr>)" "edit (i\<lparr>ie := ie i - 1\<rparr>) = butlast (edit i)" "ready (i\<lparr>ie := ie i - 1\<rparr>) = ready i"
proof -
  show e: "edit (i\<lparr>ie := ie i - 1\<rparr>) = butlast (edit i)" using ring_seq_unput [of "iw i" "ie i"] ne by (simp add: edit_def)
  show "ready (i\<lparr>ie := ie i - 1\<rparr>) = ready i" by (simp add: ready_def)
  have "length (edit i) \<noteq> 0" using ne input_split(5) [OF ok] by simp
  then have "unat (ie i - ir i) \<noteq> 0" using input_split(2) [OF ok] by simp
  then have "ir i \<noteq> ie i" by auto
  from unat_diff_step [OF this] have "unat (ie i - ir i) = Suc (unat (ie i - 1 - ir i))" by (simp add: algebra_simps)
  moreover have "unat (iw i - ir i) < unat (ie i - ir i)" using input_split(2,3) [OF ok] \<open>length (edit i) \<noteq> 0\<close> by simp
  ultimately show "input_ok (i\<lparr>ie := ie i - 1\<rparr>)" using ok e by (auto simp: input_ok_def dest: in_set_butlastD)
qed

lemma last_edit: "input_ok i \<Longrightarrow> ie i \<noteq> iw i \<Longrightarrow> ring_at (ibuf i) (ie i - 1) = last (edit i)"
proof -
  assume ok: "input_ok i" and ne: "ie i \<noteq> iw i"
  let ?n = "unat (ie i - iw i)"
  have n: "0 < ?n" using ne by (simp add: unat_gt_0)
  have "ie i - 1 = iw i + of_nat (?n - 1)" using n by (simp add: of_nat_diff)
  then show ?thesis using n by (simp add: edit_def ring_seq_def last_map last_conv_nth)
qed

lemma kill_line_ok:
  assumes "input_ok i"
  shows "input_ok (fst (kill_line i)) \<and> edit (fst (kill_line i)) = [] \<and> ready (fst (kill_line i)) = ready i \<and>
    snd (kill_line i) = replicate (length (edit i)) BACKSPACE"
  using assms
proof (induction i rule: kill_line.induct)
  case (1 i)
  show ?case
  proof (cases "ie i = iw i")
    case True
    then show ?thesis using 1(2) input_split(5) [OF 1(2)] by (subst (1 2 3 4) kill_line.simps) simp
  next
    case False
    have "edit i \<noteq> []" using False input_split(5) [OF 1(2)] by simp
    then have "ring_at (ibuf i) (ie i - 1) \<noteq> 10" using last_edit [OF 1(2) False] 1(2) last_in_set by (fastforce simp: input_ok_def)
    moreover note IH = 1(1) [OF conjI [OF False calculation] unput_byte(1) [OF 1(2) False]]
    moreover obtain m where "length (edit i) = Suc m" using \<open>edit i \<noteq> []\<close> by (cases "edit i") auto
    ultimately show ?thesis using False unput_byte [OF 1(2) False]
      by (subst (1 2 3 4) kill_line.simps) (simp add: split_def Let_def)
  qed
qed

lemma full_iff:
  assumes "input_ok i"
  shows "ie i - ir i < of_nat INPUT_BUF \<longleftrightarrow> length (ready i @ edit i) \<noteq> INPUT_BUF" "length (ready i @ edit i) \<le> INPUT_BUF"
proof -
  have "ie i - ir i < of_nat INPUT_BUF \<longleftrightarrow> unat (ie i - ir i) < INPUT_BUF" by (simp add: word_less_nat_alt INPUT_BUF_def)
  then show "ie i - ir i < of_nat INPUT_BUF \<longleftrightarrow> length (ready i @ edit i) \<noteq> INPUT_BUF" "length (ready i @ edit i) \<le> INPUT_BUF"
    using input_split(2) [OF assms] assms by (auto simp: input_ok_def)
qed

lemma key_store:
  fixes s :: "'z pstate_scheme"
  assumes ok: "input_ok i" and c: "0 < c" "c < 256" and room: "length (ready i @ edit i) \<noteq> INPUT_BUF"
    and b: "b = (if c = 13 then 10 else c)" and j: "j = i\<lparr>ibuf := ring_put (ibuf i) (ie i) (of_int b), ie := ie i + 1\<rparr>"
  shows "if b = 10 \<or> b = 4 \<or> ie j = ir j + of_nat INPUT_BUF
    then input_ok (j\<lparr>iw := ie j\<rparr>) \<and> ready (j\<lparr>iw := ie j\<rparr>) = ready i @ edit i @ [of_int b] \<and> edit (j\<lparr>iw := ie j\<rparr>) = [] \<and>
      (of_int b \<in> {10, 4 :: u8} \<or> length (ready i @ edit i) + 1 = INPUT_BUF)
    else input_ok j \<and> ready j = ready i \<and> edit j = edit i @ [of_int b] \<and>
      of_int b \<notin> {10, 4 :: u8} \<and> length (ready i @ edit i) + 1 \<noteq> INPUT_BUF"
proof -
  have room': "length (ready i) + length (edit i) < INPUT_BUF" using room full_iff(2) [OF ok] by simp
  note st = store_byte [OF ok room', of "of_int b", folded j]
  have eq: "of_int b = (10 :: u8) \<longleftrightarrow> b = 10" "of_int b = (4 :: u8) \<longleftrightarrow> b = 4"
  proof -
    have "uint (of_int b :: u8) = b" using c b by (simp add: unsigned_of_int take_bit_int_eq_self)
    then show "of_int b = (10 :: u8) \<longleftrightarrow> b = 10" "of_int b = (4 :: u8) \<longleftrightarrow> b = 4" by (auto simp: word_uint_eq_iff)
  qed
  have fl: "ie j = ir j + of_nat INPUT_BUF \<longleftrightarrow> length (ready i @ edit i) + 1 = INPUT_BUF"
  proof -
    have "ie j = ir j + of_nat INPUT_BUF \<longleftrightarrow> ie j - ir j = of_nat INPUT_BUF" by (metis add.commute diff_eq_eq)
    also have "\<dots> \<longleftrightarrow> unat (ie j - ir j) = INPUT_BUF" by (simp add: word_unat_eq_iff INPUT_BUF_def)
    finally show ?thesis using st(3) by simp
  qed
  show ?thesis
  proof (cases "b = 10 \<or> b = 4 \<or> ie j = ir j + of_nat INPUT_BUF")
    case True
    have "ring_seq (ibuf j) (ir j) (ie j) = ready j @ edit j"
      unfolding ready_def edit_def by (rule ring_seq_split) (use st(3) input_split(3) [OF ok] in \<open>simp add: j\<close>)
    then have "ready (j\<lparr>iw := ie j\<rparr>) = ready i @ edit i @ [of_int b]" using st(1,2) by (simp add: ready_def [of "j\<lparr>iw := ie j\<rparr>"])
    moreover have "edit (j\<lparr>iw := ie j\<rparr>) = []" by (simp add: edit_def)
    ultimately show ?thesis using True st(3,4) eq fl room' by (auto simp: input_ok_def)
  next
    case False
    then have "input_ok j" using st input_split(3) [OF ok] room' eq ok by (auto simp: input_ok_def j)
    then show ?thesis using False st eq fl by auto
  qed
qed

lemma consoleintr_key:
  assumes ok: "input_ok i" and c: "0 \<le> c" "c < 256" and r: "consoleintr_char c i s = Some (j, out, s')"
  shows "input_ok j \<and> (ready j, edit j) = key c (ready i, edit i) \<and>
    s' = (if c = 3 then send_fgsig SIGINT s else if ready j \<noteq> ready i then wakeup Ch_input s else s)"
proof (cases "c \<in> {0, 3, 8, 16, 21, 26, 127} \<or> length (ready i @ edit i) = INPUT_BUF")
  case True
  have "c \<noteq> 26" using r by (auto simp: consoleintr_char_def)
  then consider "c = 21" | "c \<in> {8, 127}" | "c \<in> {0, 3, 16}" | "c \<notin> {0, 3, 8, 16, 21, 26, 127}" "length (ready i @ edit i) = INPUT_BUF"
    using True by auto
  then show ?thesis
  proof cases
    case 1
    then show ?thesis using r kill_line_ok [OF ok] by (auto simp: consoleintr_char_def key_def split: prod.splits)
  next
    case 2
    then show ?thesis using r ok unput_byte [OF ok] input_split(5) [OF ok] by (auto simp: consoleintr_char_def key_def split: if_splits)
  next
    case 3
    then show ?thesis using r ok by (auto simp: consoleintr_char_def key_def split: if_splits)
  next
    case 4
    then have "\<not> ie i - ir i < of_nat INPUT_BUF" using full_iff(1) [OF ok] by simp
    then have "consoleintr_char c i s = Some (i, [], s)" using 4 by (simp add: consoleintr_char_def)
    then show ?thesis using r ok 4 by (simp add: key_def Let_def)
  qed
next
  case False
  define b where "b = (if c = 13 then 10 else c)"
  define j' where "j' = i\<lparr>ibuf := ring_put (ibuf i) (ie i) (of_int b), ie := ie i + 1\<rparr>"
  have "0 < c" "length (ready i @ edit i) \<noteq> INPUT_BUF" using False c by auto
  note ks = key_store [OF ok this(1) c(2) this(2) b_def j'_def]
  have "consoleintr_char c i s = (if b = 10 \<or> b = 4 \<or> ie j' = ir j' + of_nat INPUT_BUF then Some (j'\<lparr>iw := ie j'\<rparr>, [b], wakeup Ch_input s) else Some (j', [b], s))"
    using False full_iff(1) [OF ok] unfolding b_def j'_def by (simp add: consoleintr_char_def Let_def)
  moreover have "key c (ready i, edit i) = (if of_int b \<in> {10, 4 :: u8} \<or> length (ready i @ edit i) + 1 = INPUT_BUF then (ready i @ edit i @ [of_int b], []) else (ready i, edit i @ [of_int b]))"
    using False by (auto simp: key_def Let_def b_def)
  ultimately show ?thesis using r ks False by (auto split: if_splits)
qed

lemma cread_line:
  assumes "input_ok i" "cread_loop target n i = (d, bs, j)"
  shows "input_ok j \<and> edit j = edit i \<and> line_read target n (ready i) = (d, bs, ready j)"
  using assms
proof (induction target n i arbitrary: d bs j rule: cread_loop.induct)
  case (1 target i)
  then show ?case by (simp add: line_read_0)
next
  case (2 target n i)
  show ?case
  proof (cases "ir i = iw i")
    case True
    then show ?thesis using 2(2,3) input_split(6) [OF 2(2)] by (auto simp: line_read_Nil)
  next
    case False
    let ?i = "i\<lparr>ir := ir i + 1\<rparr>" and ?c = "ring_at (ibuf i) (ir i)"
    have rd: "ready i = ?c # ready ?i" "edit ?i = edit i" using ring_seq_get [OF False] by (simp_all add: ready_def edit_def)
    have "ir i \<noteq> ie i" using False input_split(2,6) [OF 2(2)] by auto
    note u = unat_diff_step [OF this] unat_diff_step [OF False]
    have ok: "input_ok ?i" using 2(2) rd(2) u by (auto simp: input_ok_def)
    obtain d' bs' j' where l: "cread_loop target n ?i = (d', bs', j')" by (cases "cread_loop target n ?i") auto
    show ?thesis
    proof (cases "?c = 4 \<or> ?c = 10")
      case True
      then show ?thesis using 2(2,3) False rd ok by (auto simp: line_read_Cons)
    next
      case F: False
      then have "input_ok j' \<and> edit j' = edit ?i \<and> line_read target n (ready ?i) = (d', bs', ready j')"
        using 2(1) False ok l by auto
      then show ?thesis using 2(3) False F l rd by (auto simp: line_read_Cons)
    qed
  qed
qed

text \<open>
  Any interleaving of input characters and read rounds: the buffer behind it, the bytes of every read
  round and whether it was done, and the process table.
\<close>

datatype cev = Key int | Reads nat nat

fun con_run :: "cev list \<Rightarrow> inputst \<Rightarrow> 'z pstate_scheme \<Rightarrow> (inputst \<times> (bool \<times> u8 list) list \<times> 'z pstate_scheme) option" where
  "con_run [] i s = Some (i, [], s)"
| "con_run (Key c # evs) i s =
     (case consoleintr_char c i s of None \<Rightarrow> None | Some (i, _, s) \<Rightarrow> con_run evs i s)"
| "con_run (Reads target n # evs) i s =
     (case cread_loop target n i of (d, bs, i) \<Rightarrow> map_option (\<lambda>(i, rs, s). (i, (d, bs) # rs, s)) (con_run evs i s))"

fun ed_run :: "cev list \<Rightarrow> u8 list \<times> u8 list \<Rightarrow> (u8 list \<times> u8 list) \<times> (bool \<times> u8 list) list" where
  "ed_run [] l = (l, [])"
| "ed_run (Key c # evs) l = ed_run evs (key c l)"
| "ed_run (Reads target n # evs) l =
     (case line_read target n (fst l) of (d, bs, rd) \<Rightarrow> case ed_run evs (rd, snd l) of (l, rs) \<Rightarrow> (l, (d, bs) # rs))"

definition key_ok :: "cev \<Rightarrow> bool" where
  "key_ok ev \<longleftrightarrow> (case ev of Key c \<Rightarrow> 0 \<le> c \<and> c < 256 \<and> c \<noteq> 26 | Reads _ _ \<Rightarrow> True)"

text \<open>
  C32: The console input is a line editor. Whatever characters arrive (Control-Z apart, which
  reboots) and whatever reads are made in between, in any order, also after the 32-bit
  indices have wrapped: the finished lines and the line being edited develop as the editor says
  (backspace and Control-U only touch the unfinished line; newline, Control-D and a full buffer finish it;
  nothing is stored in a full buffer of 128 bytes), and every read returns exactly what the editor
  gives it: up to a newline, an end of file, or the number of bytes asked for.
\<close>

theorem console_line_editor:
  assumes "input_ok i" and "list_all key_ok evs"
  shows "\<exists>j rs s'. con_run evs i s = Some (j, rs, s') \<and> input_ok j \<and> ed_run evs (ready i, edit i) = ((ready j, edit j), rs)"
  using assms
proof (induction evs i s rule: con_run.induct)
  case (2 c evs i s)
  then have c: "0 \<le> c" "c < 256" "c \<noteq> 26" by (auto simp: key_ok_def)
  obtain j out s' where k: "consoleintr_char c i s = Some (j, out, s')"
    using c(3) by (cases "consoleintr_char c i s") (auto simp: consoleintr_char_def Let_def split: if_splits prod.splits)
  from consoleintr_key [OF 2(2) c(1,2) k] 2(1) [OF k refl refl] 2(3) k show ?case by auto
next
  case (3 target n evs i s)
  obtain d bs j where k: "cread_loop target n i = (d, bs, j)" by (cases "cread_loop target n i") auto
  from cread_line [OF 3(2) k] 3(1) [OF k [symmetric] refl] 3(3) k show ?case by fastforce
qed simp

definition console0 :: inputst where
  "console0 = \<lparr>ibuf = replicate INPUT_BUF 0, ir = 0, iw = 0, ie = 0\<rparr>"

theorem console_line_editor_witness:
  "\<forall>s :: pstate. \<exists>j s'. con_run [Key 97, Key 98, Key 8, Reads 10 10, Key 99, Key 13, Key 100, Reads 10 10] console0 s =
     Some (j, [(False, []), (True, [97, 99, 10])], s') \<and> edit j = [100]"
proof
  fix s :: pstate
  have "input_ok console0" by (simp add: input_ok_def console0_def edit_def INPUT_BUF_def)
  from console_line_editor [OF this, of "[Key 97, Key 98, Key 8, Reads 10 10, Key 99, Key 13, Key 100, Reads 10 10]" s]
  show "\<exists>j s'. con_run [Key 97, Key 98, Key 8, Reads 10 10, Key 99, Key 13, Key 100, Reads 10 10] console0 s =
     Some (j, [(False, []), (True, [97, 99, 10])], s') \<and> edit j = [100]"
    by (auto simp: key_ok_def key_def line_read_def console0_def ready_def edit_def INPUT_BUF_def)
qed

end
