(* ===== verification/Kbd.thy ===== *)
theory Kbd
  imports Console
begin

text \<open>
  The keyboard of \<open>kbd.c\<close> with the tables of \<open>kbd.h\<close>: the translation of scan codes into
  characters under the state of the modifier keys, and the interrupt handler on top of
  \<open>consoleintr\<close>.
\<close>

unbundle bit_operations_syntax

section \<open>Definitions\<close>

definition SHIFT :: u32 where "SHIFT = 1"
definition CTL :: u32 where "CTL = 2"
definition ALT :: u32 where "ALT = 4"
definition CAPSLOCK :: u32 where "CAPSLOCK = 8"
definition NUMLOCK :: u32 where "NUMLOCK = 16"
definition SCROLLLOCK :: u32 where "SCROLLLOCK = 32"
definition E0ESC :: u32 where "E0ESC = 64"

text \<open>A table with the entries that an initializer gives in order, and those it gives by index.\<close>

definition table :: "'a::zero list \<Rightarrow> (nat \<times> 'a) list \<Rightarrow> nat \<Rightarrow> 'a" where
  "table xs ys k = (case map_of ys k of Some v \<Rightarrow> v | None \<Rightarrow> if k < length xs then xs ! k else 0)"

definition shiftcode :: "nat \<Rightarrow> u32" where
  "shiftcode = table [] [(0x1D, CTL), (0x2A, SHIFT), (0x36, SHIFT), (0x38, ALT), (0x9D, CTL), (0xB8, ALT)]"

definition togglecode :: "nat \<Rightarrow> u32" where
  "togglecode = table [] [(0x3A, CAPSLOCK), (0x45, NUMLOCK), (0x46, SCROLLLOCK)]"

definition keypad :: "nat \<Rightarrow> nat \<Rightarrow> (nat \<times> nat) list" where
  "keypad enter slash = [(0x9C, enter), (0xB5, slash), (0xC8, 0xE2), (0xD0, 0xE3), (0xC9, 0xE6), (0xD1, 0xE7),
     (0xCB, 0xE4), (0xCD, 0xE5), (0x97, 0xE0), (0xCF, 0xE1), (0xD2, 0xE8), (0xD3, 0xE9)]"

definition normalmap :: "nat \<Rightarrow> nat" where
  "normalmap = table
    ([0, 27, 49, 50, 51, 52, 53, 54, 55, 56, 57, 48, 45, 61, 8, 9,
      113, 119, 101, 114, 116, 121, 117, 105, 111, 112, 91, 93, 10, 0, 97, 115,
      100, 102, 103, 104, 106, 107, 108, 59, 39, 96, 0, 92, 122, 120, 99, 118,
      98, 110, 109, 44, 46, 47, 0, 42, 0, 32, 0, 0, 0, 0, 0, 0,
      0, 0, 0, 0, 0, 0, 0, 55, 56, 57, 45, 52, 53, 54, 43, 49,
      50, 51, 48, 46, 0, 0, 0, 0]) (keypad 10 47)"

definition shiftmap :: "nat \<Rightarrow> nat" where
  "shiftmap = table
    ([0, 27, 33, 64, 35, 36, 37, 94, 38, 42, 40, 41, 95, 43, 8, 9,
      81, 87, 69, 82, 84, 89, 85, 73, 79, 80, 123, 125, 10, 0, 65, 83,
      68, 70, 71, 72, 74, 75, 76, 58, 34, 126, 0, 124, 90, 88, 67, 86,
      66, 78, 77, 60, 62, 63, 0, 42, 0, 32, 0, 0, 0, 0, 0, 0,
      0, 0, 0, 0, 0, 0, 0, 55, 56, 57, 45, 52, 53, 54, 43, 49,
      50, 51, 48, 46, 0, 0, 0, 0]) (keypad 10 47)"

text \<open>\<open>C('/')\<close> is negative and is stored in an unsigned byte as 239.\<close>

definition ctlmap :: "nat \<Rightarrow> nat" where
  "ctlmap = table
    ([0, 0, 0, 0, 0, 0, 0, 0, 0, 0, 0, 0, 0, 0, 0, 0,
      17, 23, 5, 18, 20, 25, 21, 9, 15, 16, 0, 0, 13, 0, 1, 19,
      4, 6, 7, 8, 10, 11, 12, 0, 0, 0, 0, 28, 26, 24, 3, 22,
      2, 14, 13, 0, 0, 239, 0, 0]) (keypad 13 239)"

definition charcode :: "u32 \<Rightarrow> nat \<Rightarrow> nat" where
  "charcode k = (if k = 0 then normalmap else if k = 1 then shiftmap else ctlmap)"

text \<open>
  \<open>port\<close> is what the controller offers: nothing, or a byte of data. The results are the character and
  the new state of the modifiers.
\<close>

definition kbdgetc :: "u8 option \<Rightarrow> u32 \<Rightarrow> int \<times> u32" where
  "kbdgetc port shift =
     (case port of
        None \<Rightarrow> (-1, shift)
      | Some data \<Rightarrow>
          if data = 0xE0 then (0, shift OR E0ESC)
          else if data AND 0x80 \<noteq> 0 then
            let data = (if shift AND E0ESC \<noteq> 0 then data else data AND 0x7F)
            in (0, shift AND NOT (shiftcode (unat data) OR E0ESC))
          else
            let (data, shift) = (if shift AND E0ESC \<noteq> 0 then (data OR 0x80, shift AND NOT E0ESC) else (data, shift));
                shift = shift OR shiftcode (unat data);
                shift = shift XOR togglecode (unat data);
                c = charcode (shift AND (CTL OR SHIFT)) (unat data);
                c = (if shift AND CAPSLOCK \<noteq> 0 then
                       if 97 \<le> c \<and> c \<le> 122 then c - 32 else if 65 \<le> c \<and> c \<le> 90 then c + 32 else c
                     else c)
            in (int c, shift))"

text \<open>The characters of one interrupt: \<open>consoleintr\<close> calls \<open>kbdgetc\<close> until the controller is empty.\<close>

fun kbd_chars :: "u8 list \<Rightarrow> u32 \<Rightarrow> int list \<times> u32" where
  "kbd_chars [] shift = ([fst (kbdgetc None shift)], snd (kbdgetc None shift))"
| "kbd_chars (d # ds) shift =
     (let (c, shift) = kbdgetc (Some d) shift; (rest, shift) = kbd_chars ds shift in (c # rest, shift))"

definition kbdintr :: "u8 list \<Rightarrow> u32 \<Rightarrow> inputst \<Rightarrow> 'z pstate_scheme \<Rightarrow> u32 \<times> (inputst \<times> int list \<times> 'z pstate_scheme) option" where
  "kbdintr data shift i s = (let (chars, shift) = kbd_chars data shift in (shift, consoleintr chars i s))"

section \<open>Characters\<close>

lemma table_le:
  assumes "\<forall>x\<in>set xs. x \<le> b" "\<forall>(k, v)\<in>set ys. v \<le> b"
  shows "table xs ys k \<le> (b :: nat)"
  using assms by (auto simp: table_def dest!: map_of_SomeD split: option.split)

lemma charcode_range: "charcode m k < 256"
proof -
  have "normalmap k \<le> 255" "shiftmap k \<le> 255" "ctlmap k \<le> 255"
    unfolding normalmap_def shiftmap_def ctlmap_def keypad_def by (rule table_le; simp)+
  then show ?thesis by (simp add: charcode_def)
qed

text \<open>What the keyboard hands to \<open>consoleintr\<close> fits a byte, as the input buffer assumes.\<close>

lemma kbdgetc_range: "kbdgetc (Some d) shift = (c, shift') \<Longrightarrow> 0 \<le> c \<and> c < 256"
  using charcode_range by (auto simp: kbdgetc_def Let_def split: if_splits prod.splits)

lemma kbdgetc_none: "kbdgetc None shift = (-1, shift)"
  by (simp add: kbdgetc_def)

end
