(* ===== verification/Ulib.thy ===== *)
theory Ulib
  imports Console
begin

text \<open>
  The user library: the string and memory functions of \<open>ulib.c\<close> and the formatted output of
  \<open>printf.c\<close>. Strings are read through a pointer as in Strings; a function that runs off an
  unterminated string has no result. \<open>printf\<close> writes its bytes one by one to the descriptor; its
  number formats are those of the console.
\<close>

section \<open>Definitions\<close>

partial_function (option) strcpy_from :: "(nat \<Rightarrow> u8) \<Rightarrow> nat \<Rightarrow> (nat \<Rightarrow> u8) \<Rightarrow> (nat \<Rightarrow> u8) option" where
  "strcpy_from t i s =
     (if t i \<noteq> 0 then strcpy_from t (Suc i) (s(i := t i)) else Some (s(i := t i)))"

definition strcpy :: "(nat \<Rightarrow> u8) \<Rightarrow> (nat \<Rightarrow> u8) \<Rightarrow> (nat \<Rightarrow> u8) option" where
  "strcpy s t = strcpy_from t 0 s"

partial_function (option) strcmp_from :: "(nat \<Rightarrow> u8) \<Rightarrow> (nat \<Rightarrow> u8) \<Rightarrow> nat \<Rightarrow> int option" where
  "strcmp_from p q i =
     (if p i \<noteq> 0 \<and> p i = q i then strcmp_from p q (Suc i) else Some (uint (p i) - uint (q i)))"

definition strcmp :: "(nat \<Rightarrow> u8) \<Rightarrow> (nat \<Rightarrow> u8) \<Rightarrow> int option" where
  "strcmp p q = strcmp_from p q 0"

definition ulib_memset :: "u64 \<Rightarrow> u32 \<Rightarrow> u32 \<Rightarrow> mem \<Rightarrow> mem" where
  "ulib_memset dst c n m = stosb dst (ucast c) (unat n) m"

text \<open>The bytes behind \<open>s\<close>; the arithmetic is that of \<open>int\<close>.\<close>

fun atoi_loop :: "int list \<Rightarrow> int \<Rightarrow> int" where
  "atoi_loop [] n = n"
| "atoi_loop (c # s) n =
     (if 48 \<le> c \<and> c \<le> 57 then atoi_loop s (s32 (s32 (s32 (n * 10) + c) - 48)) else n)"

definition atoi :: "int list \<Rightarrow> int" where
  "atoi s = atoi_loop s 0"

text \<open>It copies forwards only, unlike \<open>memmove\<close> of the kernel.\<close>

definition ulib_memmove :: "u64 \<Rightarrow> u64 \<Rightarrow> int \<Rightarrow> mem \<Rightarrow> mem" where
  "ulib_memmove dst src n m = move_up dst src (nat n) m"

fun printf :: "int list \<Rightarrow> fmtarg list \<Rightarrow> int list option" where
  "printf [] as = Some []"
| "printf (c # fmt) as =
     (if c \<noteq> 37 then map_option (\<lambda>out. c # out) (printf fmt as)
      else case fmt of
        [] \<Rightarrow> Some []
      | d # fmt' \<Rightarrow>
          if d = 99 then (case as of IntArg v # as' \<Rightarrow> map_option (\<lambda>out. v mod 256 # out) (printf fmt' as') | _ \<Rightarrow> None)
          else if d = 100 then (case as of IntArg v # as' \<Rightarrow> map_option ((@) (print_d v)) (printf fmt' as') | _ \<Rightarrow> None)
          else if d = 120 then (case as of IntArg v # as' \<Rightarrow> map_option ((@) (print_x32 (of_int v))) (printf fmt' as') | _ \<Rightarrow> None)
          else if d = 112 then (case as of PtrArg p # as' \<Rightarrow> map_option ((@) (print_x64 p)) (printf fmt' as') | _ \<Rightarrow> None)
          else if d = 115 then (case as of StrArg x # as' \<Rightarrow>
              map_option ((@) (case x of None \<Rightarrow> [40, 110, 117, 108, 108, 41] | Some t \<Rightarrow> t)) (printf fmt' as') | _ \<Rightarrow> None)
          else if d = 37 then map_option (\<lambda>out. 37 # out) (printf fmt' as)
          else map_option (\<lambda>out. 37 # d # out) (printf fmt' as))"

section \<open>Strings\<close>

lemma strcpy_from_str:
  "str_at t u \<Longrightarrow> i \<le> length u \<Longrightarrow>
   strcpy_from t i s = Some (\<lambda>j. if i \<le> j \<and> j \<le> length u then t j else s j)"
proof (induction "length u - i" arbitrary: i s)
  case 0
  then have "i = length u" "t i = 0" by (auto simp: str_at_def)
  then show ?case by (subst strcpy_from.simps) (auto simp: fun_eq_iff)
next
  case (Suc n)
  then have i: "i < length u" by simp
  then have "t i \<noteq> 0" using Suc.prems(1) by (simp add: str_at_def)
  then have "strcpy_from t i s = strcpy_from t (Suc i) (s(i := t i))" by (subst strcpy_from.simps) simp
  also have "\<dots> = Some (\<lambda>j. if Suc i \<le> j \<and> j \<le> length u then t j else (s(i := t i)) j)"
    using Suc i by (intro Suc.hyps(1)) auto
  finally show ?case using i by (auto simp: fun_eq_iff)
qed

text \<open>The copy is the string, and nothing behind its terminator is changed.\<close>

lemma strcpy_str:
  assumes "str_at t u"
  shows "\<exists>s'. strcpy s t = Some s' \<and> str_at s' u \<and> (\<forall>j > length u. s' j = s j)"
  using strcpy_from_str [OF assms, of 0 s] assms by (auto simp: strcpy_def str_at_def)

lemma strcmp_from_str:
  "str_at p s \<Longrightarrow> str_at q t \<Longrightarrow> i \<le> length s \<Longrightarrow> i \<le> length t \<Longrightarrow> take i s = take i t \<Longrightarrow>
   \<exists>r. strcmp_from p q i = Some r \<and> (r = 0 \<longleftrightarrow> s = t)"
proof (induction "length s - i" arbitrary: i)
  case 0
  then have i: "i = length s" "p i = 0" by (auto simp: str_at_def)
  have "q i = 0 \<longleftrightarrow> i = length t" using "0.prems"(2,4) by (auto simp: str_at_def le_less)
  moreover have "s = t \<longleftrightarrow> i = length t" using i "0.prems"(5) by auto
  ultimately show ?case using i by (subst strcmp_from.simps) (auto simp: uint_0_iff)
next
  case (Suc n)
  then have "i < length s" by simp
  then have i: "i < length s" "p i \<noteq> 0" "p i = s ! i" using Suc.prems(1) by (auto simp: str_at_def)
  show ?case
  proof (cases "p i = q i")
    case True
    then have t: "i < length t" "q i = t ! i" using i(2) Suc.prems(2,4) str_at_nz [of q t i] by (auto simp: str_at_def le_less)
    then have "take (Suc i) s = take (Suc i) t" using Suc.prems(5) i True by (simp add: take_Suc_conv_app_nth)
    moreover have "strcmp_from p q i = strcmp_from p q (Suc i)" using True i by (subst strcmp_from.simps) simp
    ultimately show ?thesis using Suc.hyps(1) [of "Suc i"] Suc.hyps(2) Suc.prems i t by simp
  next
    case False
    then have "s \<noteq> t" using i Suc.prems(2) by (auto simp: str_at_def)
    then show ?thesis using False by (subst strcmp_from.simps) (auto simp: word_uint_eq_iff)
  qed
qed

lemma strcmp_str: "str_at p s \<Longrightarrow> str_at q t \<Longrightarrow> \<exists>r. strcmp p q = Some r \<and> (r = 0 \<longleftrightarrow> s = t)"
  using strcmp_from_str [of p s q t 0] by (simp add: strcmp_def)

section \<open>Numbers\<close>

lemma digits_nth: "k < 10 \<Longrightarrow> digits ! k = 48 + int k"
proof -
  assume "k < 10"
  then have "k \<in> {0, 1, 2, 3, 4, 5, 6, 7, 8, 9}" by auto
  then show ?thesis by (auto simp: digits_def)
qed

lemma atoi_append_digit:
  "\<forall>c\<in>set s. 48 \<le> c \<and> c \<le> 57 \<Longrightarrow> atoi_loop (s @ t) n = atoi_loop t (atoi_loop s n)"
  by (induction s arbitrary: n) auto

lemma d_loop_digits: "c \<in> set (d_loop x) \<Longrightarrow> 48 \<le> c \<and> c \<le> 57"
proof (induction x rule: d_loop.induct)
  case (1 x)
  have "x mod 10 < 10" by simp
  then show ?case using 1 digits_nth [of "x mod 10"] by (subst (asm) (2) d_loop.simps) (auto split: if_splits)
qed

text \<open>Adding and taking away in \<open>int\<close>: only the last result has to fit.\<close>

lemma s32_shift: "\<exists>k. s32 x = x + 4294967296 * k"
proof
  show "s32 x = x + 4294967296 * - ((x + 2147483648) div 4294967296)"
    unfolding s32_def minus_div_mult_eq_mod [of "x + 2147483648" 4294967296, symmetric] by (simp add: algebra_simps)
qed

lemma s32_cong: "s32 (s32 (s32 x + y) - z) = s32 (x + y - z)"
proof -
  obtain k j where "s32 x = x + 4294967296 * k" "s32 (x + 4294967296 * k + y) = x + 4294967296 * k + y + 4294967296 * j"
    using s32_shift by metis
  then have "s32 (s32 x + y) - z = x + y - z + 4294967296 * (k + j)" by (simp add: algebra_simps)
  moreover have "s32 (w + 4294967296 * i) = s32 w" for w i
    using mod_mult_self2 [of "w + 2147483648" 4294967296 i] by (simp only: s32_def ac_simps)
  ultimately show ?thesis by (simp only:)
qed

lemma atoi_d_loop: "x < 2 ^ 31 \<Longrightarrow> atoi_loop (rev (d_loop x)) 0 = int x"
proof (induction x rule: d_loop.induct)
  case (1 x)
  have q: "x mod 10 < 10" "x = x div 10 * 10 + x mod 10" by simp_all
  define a b where "a = x div 10" and "b = x mod 10"
  have ab: "x = a * 10 + b" "b < 10" using q by (auto simp: a_def b_def)
  have la: "a < 2 ^ 31" using ab(1) "1.prems" by simp
  have step: "s32 (s32 (s32 (int a * 10) + (48 + int b)) - 48) = int x"
    unfolding s32_cong using ab(1) "1.prems" by (subst s32_eq) auto
  have d: "d_loop x = (48 + int b) # (if a \<noteq> 0 then d_loop a else [])"
    by (subst d_loop.simps) (simp only: a_def [symmetric] b_def [symmetric] digits_nth [OF ab(2)])
  have "atoi_loop (rev (d_loop x)) 0 = atoi_loop [48 + int b] (int a)"
  proof (cases "a = 0")
    case False
    then have "atoi_loop (rev (d_loop a)) 0 = int a" using "1.IH" [folded a_def] la by simp
    then show ?thesis using False d_loop_digits [of _ a] unfolding d by (simp add: atoi_append_digit del: atoi_loop.simps)
  qed (simp add: d)
  then show ?case using step ab(2) by simp
qed

text \<open>\<open>atoi\<close> reads the number that \<open>printf\<close> with \<open>%d\<close> wrote.\<close>

lemma atoi_print_d: "0 \<le> v \<Longrightarrow> v < 2 ^ 31 \<Longrightarrow> atoi (print_d v) = v"
  using atoi_d_loop [of "nat v"] by (simp add: atoi_def print_d_def)

end
