(* ===== verification/Umalloc.thy ===== *)
theory Umalloc
  imports Prelude
begin

text \<open>
  The allocator of \<open>umalloc.c\<close>. Addresses count headers, of 16 bytes each: a header at \<open>a\<close> is
  followed by its block, \<open>hsize a\<close> counts both, and pointer arithmetic on headers is addition. The
  free list is circular and sorted by address, as it is in memory. \<open>sbrk\<close> is an argument, a system
  call on the state \<open>'e\<close> of the process. The two loops may run forever on a corrupted list, which is
  the result \<open>None\<close>; on a well-formed heap they return, and the blocks that are handed out never
  overlap.
\<close>

section \<open>Definitions\<close>

record heap =
  hptr :: "nat \<Rightarrow> nat"
  hsize :: "nat \<Rightarrow> nat"
  freep :: nat

definition set_ptr :: "nat \<Rightarrow> nat \<Rightarrow> heap \<Rightarrow> heap" where
  "set_ptr p q h = h\<lparr>hptr := (hptr h)(p := q)\<rparr>"

definition set_size :: "nat \<Rightarrow> nat \<Rightarrow> heap \<Rightarrow> heap" where
  "set_size p n h = h\<lparr>hsize := (hsize h)(p := n mod 2 ^ 32)\<rparr>"

text \<open>The loop of \<open>free\<close> that looks for the place of the block.\<close>

partial_function (option) find_place :: "heap \<Rightarrow> nat \<Rightarrow> nat \<Rightarrow> nat option" where
  "find_place h bp p =
     (if bp > p \<and> bp < hptr h p then Some p
      else if p \<ge> hptr h p \<and> (bp > p \<or> bp < hptr h p) then Some p
      else find_place h bp (hptr h p))"

definition insert_free :: "nat \<Rightarrow> nat \<Rightarrow> heap \<Rightarrow> heap" where
  "insert_free bp p h =
     (let h = (if bp + hsize h bp = hptr h p
               then let n = hptr h p in set_ptr bp (hptr h n) (set_size bp (hsize h bp + hsize h n) h)
               else set_ptr bp (hptr h p) h);
          h = (if p + hsize h p = bp
               then set_ptr p (hptr h bp) (set_size p (hsize h p + hsize h bp) h)
               else set_ptr p bp h)
      in h\<lparr>freep := p\<rparr>)"

definition ufree :: "nat \<Rightarrow> heap \<Rightarrow> heap option" where
  "ufree ap h = (let bp = ap - 1 in map_option (\<lambda>p. insert_free bp p h) (find_place h bp (freep h)))"

text \<open>
  \<open>sbrk\<close> takes a number of bytes and returns a byte address or -1. The result is the free list to search
  next, null when there is no more memory.
\<close>

definition morecore :: "(u64 \<Rightarrow> 'e \<Rightarrow> u64 \<times> 'e) \<Rightarrow> nat \<Rightarrow> heap \<Rightarrow> 'e \<Rightarrow> (nat \<times> heap \<times> 'e) option" where
  "morecore sbrk nu h e =
     (let nu = (if nu < 4096 then 4096 else nu);
          (p, e) = sbrk (of_nat (nu * 16)) e in
      if p = -1 then Some (0, h, e)
      else let hp = unat p div 16 in
        map_option (\<lambda>h. (freep h, h, e)) (ufree (hp + 1) (set_size hp nu h)))"

text \<open>A block that is large enough: all of it, or its upper end.\<close>

definition take_block :: "nat \<Rightarrow> nat \<Rightarrow> nat \<Rightarrow> heap \<Rightarrow> nat \<times> heap" where
  "take_block nunits prevp p h =
     (let (p, h) =
        (if hsize h p = nunits then (p, set_ptr prevp (hptr h p) h)
         else let h = set_size p (hsize h p - nunits) h; p = p + hsize h p
              in (p, set_size p nunits h))
      in (p + 1, h\<lparr>freep := prevp\<rparr>))"

partial_function (option) malloc_loop :: "(u64 \<Rightarrow> 'e \<Rightarrow> u64 \<times> 'e) \<Rightarrow> nat \<Rightarrow> nat \<Rightarrow> nat \<Rightarrow> heap \<Rightarrow> 'e \<Rightarrow> (nat \<times> heap \<times> 'e) option" where
  "malloc_loop sbrk nunits prevp p h e =
     (if hsize h p \<ge> nunits then
        (case take_block nunits prevp p h of (a, h) \<Rightarrow> Some (a, h, e))
      else if p = freep h then
        (case morecore sbrk nunits h e of
           None \<Rightarrow> None
         | Some (p, h, e) \<Rightarrow> if p = 0 then Some (0, h, e) else malloc_loop sbrk nunits p (hptr h p) h e)
      else malloc_loop sbrk nunits p (hptr h p) h e)"

text \<open>\<open>base\<close> is the address of the static header.\<close>

definition umalloc :: "(u64 \<Rightarrow> 'e \<Rightarrow> u64 \<times> 'e) \<Rightarrow> nat \<Rightarrow> u32 \<Rightarrow> heap \<Rightarrow> 'e \<Rightarrow> (nat \<times> heap \<times> 'e) option" where
  "umalloc sbrk base nbytes h e =
     (let nunits = (unat nbytes + 16 - 1) div 16 + 1;
          h = (if freep h = 0 then set_size base 0 (set_ptr base base (h\<lparr>freep := base\<rparr>)) else h)
      in malloc_loop sbrk nunits (freep h) (hptr h (freep h)) h e)"

section \<open>Well-formed heaps\<close>

lemma heap_simps [simp]:
  "hptr (set_ptr p q h) x = (if x = p then q else hptr h x)" "hsize (set_ptr p q h) = hsize h" "freep (set_ptr p q h) = freep h"
  "hptr (set_size p n h) = hptr h" "hsize (set_size p n h) x = (if x = p then n mod 2 ^ 32 else hsize h x)" "freep (set_size p n h) = freep h"
  by (auto simp: set_ptr_def set_size_def)

text \<open>
  The free list from \<open>a\<close> to its end, whose pointer is \<open>z\<close>: sorted, with a gap behind every block.
\<close>

fun chain :: "heap \<Rightarrow> nat \<Rightarrow> nat list \<Rightarrow> bool" where
  "chain h z [] \<longleftrightarrow> True"
| "chain h z [a] \<longleftrightarrow> hptr h a = z"
| "chain h z (a # b # xs) \<longleftrightarrow> hptr h a = b \<and> a + hsize h a < b \<and> a < b \<and> chain h z (b # xs)"

definition block :: "nat \<Rightarrow> nat \<Rightarrow> nat set" where
  "block a n = {a..<a + n}"

text \<open>
  The list \<open>L\<close> of free blocks behind the base, the set \<open>A\<close> of allocated ones, and the end of the heap.
\<close>

definition own :: "nat \<Rightarrow> heap \<Rightarrow> nat set \<Rightarrow> nat \<Rightarrow> bool" where
  "own base h S brk \<longleftrightarrow> (\<forall>a\<in>S. base < a \<and> 0 < hsize h a \<and> a + hsize h a \<le> brk) \<and>
     (\<forall>a\<in>S. \<forall>b\<in>S. a \<noteq> b \<longrightarrow> block a (hsize h a) \<inter> block b (hsize h b) = {})"

definition heap_ok :: "nat \<Rightarrow> heap \<Rightarrow> nat list \<Rightarrow> nat set \<Rightarrow> nat \<Rightarrow> bool" where
  "heap_ok base h L A brk \<longleftrightarrow> 0 < base \<and> base < brk \<and> brk < 2 ^ 32 \<and> hsize h base = 0 \<and> chain h base (base # L) \<and>
     freep h \<in> set (base # L) \<and> own base h (set L \<union> A) brk \<and> set L \<inter> A = {}"

lemma chain_append:
  "chain h z (xs @ a # ys) \<longleftrightarrow> chain h a (xs) \<and> (xs \<noteq> [] \<longrightarrow> last xs + hsize h (last xs) < a \<and> last xs < a) \<and> chain h z (a # ys)"
  by (induction xs rule: chain.induct) auto

lemma chain_sorted: "chain h z (a # xs) \<Longrightarrow> b \<in> set xs \<Longrightarrow> a < b \<and> a + hsize h a < b"
proof (induction xs arbitrary: a)
  case (Cons c xs)
  then show ?case using Cons.IH [of c] by (cases "b = c") fastforce+
qed simp

lemma chain_cong: "(\<And>a. a \<in> set xs \<Longrightarrow> hptr h' a = hptr h a \<and> hsize h' a = hsize h a) \<Longrightarrow> chain h' z xs = chain h z xs"
  by (induction xs rule: chain.induct) auto

lemma chain_distinct: "chain h z (a # xs) \<Longrightarrow> distinct (a # xs)"
proof (induction xs arbitrary: a)
  case (Cons b xs)
  then show ?case using chain_sorted [OF Cons.prems] Cons.IH [of b] by auto
qed simp

lemma chain_shrink:
  "(\<And>a. a \<in> set xs \<Longrightarrow> hptr h' a = hptr h a \<and> hsize h' a \<le> hsize h a) \<Longrightarrow> chain h z xs \<Longrightarrow> chain h' z xs"
  by (induction xs rule: chain.induct) (auto intro: le_less_trans add_left_mono)

lemma ownD:
  assumes "own base h S brk"
  shows "a \<in> S \<Longrightarrow> base < a" "a \<in> S \<Longrightarrow> 0 < hsize h a" "a \<in> S \<Longrightarrow> a + hsize h a \<le> brk"
    "a \<in> S \<Longrightarrow> b \<in> S \<Longrightarrow> a \<noteq> b \<Longrightarrow> block a (hsize h a) \<inter> block b (hsize h b) = {}"
  using assms by (auto simp: own_def)

lemma own_less:
  assumes "own base h S brk" "a \<in> S" "b \<in> S" "a < b"
  shows "a + hsize h a \<le> b"
proof (rule ccontr)
  assume "\<not> a + hsize h a \<le> b"
  then have "b \<in> block a (hsize h a)" "b \<in> block b (hsize h b)" using assms(4) ownD(2) [OF assms(1,3)] by (auto simp: block_def)
  then show False using ownD(4) [OF assms(1-3)] assms(4) by blast
qed

lemma ownI_less:
  assumes "\<And>a. a \<in> S \<Longrightarrow> base < a \<and> 0 < hsize h a \<and> a + hsize h a \<le> brk" "\<And>a b. a \<in> S \<Longrightarrow> b \<in> S \<Longrightarrow> a < b \<Longrightarrow> a + hsize h a \<le> b"
  shows "own base h S brk"
  using assms by (fastforce simp: own_def block_def dest: nat_neq_iff [THEN iffD1])

lemma own_subset: "own base h S brk \<Longrightarrow> S' \<subseteq> S \<Longrightarrow> own base h S' brk"
  unfolding own_def by blast

text \<open>Joining two neighbouring blocks, and splitting one.\<close>

lemma own_join:
  assumes o: "own base h S brk" and ab: "a \<in> S" "b \<in> S" "a + hsize h a = b" and h': "\<And>x. hsize h' x = (if x = a then hsize h a + hsize h b else hsize h x)"
  shows "own base h' (S - {b}) brk"
proof (rule ownI_less)
  fix x assume "x \<in> S - {b}"
  then show "base < x \<and> 0 < hsize h' x \<and> x + hsize h' x \<le> brk"
    using ownD(1-3) [OF o, of x] ownD(3) [OF o ab(2)] ab(3) by (auto simp: h')
next
  fix x y assume xy: "x \<in> S - {b}" "y \<in> S - {b}" "x < y"
  then have le: "x + hsize h x \<le> y" using own_less [OF o] by auto
  show "x + hsize h' x \<le> y"
  proof (cases "x = a")
    case True
    then have "b < y" using le ab(3) xy(2) by auto
    then have "b + hsize h b \<le> y" using own_less [OF o ab(2)] xy(2) by auto
    then show ?thesis using True ab(3) by (simp add: h')
  qed (use le in \<open>simp add: h'\<close>)
qed

lemma own_split:
  assumes o: "own base h S brk" and p: "p \<in> S" "0 < n" "n < hsize h p" and q: "q = p + (hsize h p - n)"
    and h': "\<And>x. hsize h' x = (if x = q then n else if x = p then hsize h p - n else hsize h x)"
  shows "own base h' (insert q S) brk" "q \<notin> S" "q \<noteq> p"
proof -
  show "q \<noteq> p" using p q by simp
  have pq: "p < q" "q + n = p + hsize h p" using p q by auto
  show nq: "q \<notin> S" using own_less [OF o p(1), of q] pq p(2) by auto
  show "own base h' (insert q S) brk"
  proof (rule ownI_less)
    fix x assume "x \<in> insert q S"
    then show "base < x \<and> 0 < hsize h' x \<and> x + hsize h' x \<le> brk"
      using ownD(1-3) [OF o, of x] ownD(1-3) [OF o p(1)] p pq nq by (auto simp: h')
  next
    fix x y assume xy: "x \<in> insert q S" "y \<in> insert q S" "x < y"
    show "x + hsize h' x \<le> y"
    proof (cases "x = q")
      case True
      then have "p + hsize h p \<le> y" using own_less [OF o p(1), of y] xy pq by auto
      then show ?thesis using True pq by (simp add: h')
    next
      case False
      then have x: "x \<in> S" using xy(1) by simp
      show ?thesis
      proof (cases "x = p")
        case True
        then have "y = q \<or> p + hsize h p \<le> y" using own_less [OF o p(1), of y] xy by auto
        then show ?thesis using True False q p by (auto simp: h')
      next
        case xp: False
        have "x + hsize h x \<le> y" using own_less [OF o x, of y] own_less [OF o x p(1)] own_less [OF o p(1) x] xy pq xp by (cases "y = q"; cases x p rule: linorder_cases) auto
        then show ?thesis using False xp by (simp add: h')
      qed
    qed
  qed
qed

section \<open>Freeing\<close>

text \<open>The place of an address in the sorted list.\<close>

lemma chain_split:
  assumes "chain h z (a # xs)" "a < bp" "bp \<notin> set xs"
  obtains us p ys where "a # xs = us @ p # ys" "p < bp" "\<forall>y\<in>set ys. bp < y"
  using assms
proof (induction xs arbitrary: a thesis)
  case Nil
  then show ?case by (metis append_Nil empty_iff empty_set)
next
  case (Cons b xs)
  show ?case
  proof (cases "b < bp")
    case True
    show ?thesis
    proof (rule Cons.IH [of b])
      fix us p ys assume "b # xs = us @ p # ys" "p < bp" "\<forall>y\<in>set ys. bp < y"
      then show thesis using Cons.prems(1) [of "a # us" p ys] by simp
    qed (use Cons.prems True in auto)
  next
    case False
    then have "bp < b" using Cons.prems(4) by auto
    then have "\<forall>y\<in>set (b # xs). bp < y" using chain_sorted [of h z b xs] Cons.prems(2) by fastforce
    then show ?thesis using Cons.prems(1) [of "[]" a "b # xs"] Cons.prems(3) by simp
  qed
qed

lemma find_place_walk:
  assumes "chain h z (q # vs @ p # ys)" "p < bp"
  shows "find_place h bp q = find_place h bp p"
  using assms
proof (induction vs arbitrary: q)
  case Nil
  then have "hptr h q = p" "q < p" by auto
  then show ?case using Nil(2) by (subst find_place.simps) simp
next
  case (Cons v vs)
  then have q: "hptr h q = v" "q < v" "chain h z (v # vs @ p # ys)" by auto
  then have "v < p" using chain_sorted [OF q(3)] by simp
  then have "find_place h bp q = find_place h bp v" using q Cons.prems(2) by (subst find_place.simps) simp
  then show ?case using Cons.IH [OF q(3) Cons.prems(2)] by simp
qed

lemma find_place_wrap:
  assumes "chain h base (q # ys)" "bp < q" "base < bp"
  shows "find_place h bp q = find_place h bp base"
  using assms
proof (induction ys arbitrary: q)
  case Nil
  then show ?case by (subst find_place.simps) simp
next
  case (Cons y ys)
  then have q: "hptr h q = y" "q < y" "chain h base (y # ys)" by auto
  then have "find_place h bp q = find_place h bp y" using Cons.prems by (subst find_place.simps) simp
  then show ?case using Cons.IH [OF q(3)] q(2) Cons.prems by simp
qed

lemma find_place_found:
  assumes c: "chain h base (base # L)" and s: "base # L = us @ p # ys" "p < bp" "\<forall>y\<in>set ys. bp < y" and b: "base < bp" and q: "q \<in> set (base # L)"
  shows "find_place h bp q = Some p"
proof -
  have cp: "chain h base (p # ys)" "base \<le> p" using c s(1) chain_sorted [OF c, of p] by (auto simp: chain_append Cons_eq_append_conv)
  have stop: "find_place h bp p = Some p"
    using cp s(2,3) by (cases ys) (subst find_place.simps, simp)+
  have before: "find_place h bp q = Some p" if "q \<in> set (us @ [p])" for q
  proof (cases "q = p")
    case False
    then have "q \<in> set us" using that by simp
    then obtain ws vs where "us = ws @ q # vs" by (auto dest: split_list)
    then have "chain h base (q # vs @ p # ys)" using c s(1) by (simp add: chain_append)
    then show ?thesis using find_place_walk [OF _ s(2)] stop by simp
  qed (use stop in simp)
  show ?thesis
  proof (cases "q \<in> set ys")
    case True
    then obtain ws vs where w: "ys = ws @ q # vs" by (auto dest: split_list)
    then have "chain h base (q # vs)" using c s(1) chain_append [of h base "us @ p # ws" q vs] by simp
    moreover have "base \<in> set (us @ [p])" using s(1) by (cases us) auto
    ultimately show ?thesis using find_place_wrap [of h base q vs bp] True s(3) b before by simp
  qed (use before q s(1) in auto)
qed

text \<open>The two halves of the insertion: towards the next block, and from the previous one.\<close>

definition join_next :: "nat \<Rightarrow> nat \<Rightarrow> heap \<Rightarrow> heap" where
  "join_next bp n h =
     (if bp + hsize h bp = n then set_ptr bp (hptr h n) (set_size bp (hsize h bp + hsize h n) h) else set_ptr bp n h)"

definition join_prev :: "nat \<Rightarrow> nat \<Rightarrow> heap \<Rightarrow> heap" where
  "join_prev bp p h =
     (if p + hsize h p = bp then set_ptr p (hptr h bp) (set_size p (hsize h p + hsize h bp) h) else set_ptr p bp h)"

lemma insert_free_alt: "insert_free bp p h = (join_prev bp p (join_next bp (hptr h p) h))\<lparr>freep := p\<rparr>"
  by (simp add: insert_free_def join_next_def join_prev_def Let_def)

lemma join_next_ok:
  assumes o: "own base h T brk" and bp: "bp \<in> T" and brk: "brk < 2 ^ 32" and c: "chain h base (p # ys)" and y: "\<forall>y\<in>set ys. bp < y \<and> y \<in> T"
  obtains ys1 T1 where "chain (join_next bp (hptr h p) h) base (bp # ys1)" "own base (join_next bp (hptr h p) h) T1 brk"
    "set ys1 \<subseteq> set ys" "T1 = T - (set ys - set ys1)" "hsize h bp \<le> hsize (join_next bp (hptr h p) h) bp"
proof (cases ys)
  case Nil
  then have n: "hptr h p = base" using c by simp
  have "bp + hsize h bp \<noteq> base" using ownD(1) [OF o bp] by simp
  then have "join_next bp (hptr h p) h = set_ptr bp base h" by (simp add: join_next_def n)
  then show ?thesis using that [of "[]" T] o Nil by (simp add: own_def)
next
  case (Cons n zs)
  then have n: "hptr h p = n" "bp < n" "n \<in> T" "chain h base (n # zs)" using c y by auto
  note le = own_less [OF o bp n(3,2)]
  have zs: "\<And>z. z \<in> set zs \<Longrightarrow> n < z \<and> n + hsize h n < z" using chain_sorted [OF n(4)] by blast
  show ?thesis
  proof (cases "bp + hsize h bp = n")
    case True
    let ?h = "join_next bp (hptr h p) h"
    have "bp + hsize h bp + hsize h n \<le> brk" using ownD(3) [OF o n(3)] True by simp
    then have sz: "hsize ?h x = (if x = bp then hsize h bp + hsize h n else hsize h x)" for x
      using brk True by (simp add: join_next_def n(1))
    have pt: "hptr ?h x = (if x = bp then hptr h n else hptr h x)" for x using True by (simp add: join_next_def n(1))
    have "chain ?h base (bp # zs)"
    proof (cases zs)
      case Nil
      then show ?thesis using n(4) by (simp add: pt)
    next
      case (Cons z ws)
      then have "chain h base (z # ws)" "hptr h n = z" "n + hsize h n < z" using n(4) by auto
      moreover have "chain ?h base (z # ws) = chain h base (z # ws)" using zs n(2) Cons by (intro chain_cong) (force simp: pt sz)
      ultimately show ?thesis using Cons True n(2) by (simp add: pt sz)
    qed
    moreover have "own base ?h (T - {n}) brk" by (rule own_join [OF o bp n(3) True sz])
    moreover have "T - {n} = T - (set ys - set zs)" "set zs \<subseteq> set ys" using Cons zs by auto
    moreover have "hsize h bp \<le> hsize ?h bp" unfolding sz by simp
    ultimately show ?thesis using that by blast
  next
    case False
    then have h: "join_next bp (hptr h p) h = set_ptr bp n h" by (simp add: join_next_def n(1))
    have "chain (set_ptr bp n h) base ys = chain h base ys" using y by (intro chain_cong) auto
    then have "chain (set_ptr bp n h) base (bp # ys)" using n Cons le False by auto
    moreover have "own base (set_ptr bp n h) T brk" using o by (simp add: own_def)
    ultimately show ?thesis using that [of ys T] h by simp
  qed
qed

lemma join_prev_ok:
  assumes o: "own base h T brk" and bp: "bp \<in> T" and brk: "brk < 2 ^ 32" and c: "chain h base (bp # ys)" "chain h z (us @ [p])"
    and p: "p \<in> T \<or> p = base \<and> hsize h base = 0" "p < bp" "\<forall>u\<in>set us. u \<noteq> bp \<and> u \<noteq> p" "\<forall>y\<in>set ys. bp < y"
  obtains zs T2 where "chain (join_prev bp p h) base (us @ p # zs @ ys)" "own base (join_prev bp p h) T2 brk"
    "zs = [] \<and> T2 = T - {bp} \<and> p \<in> T \<and> hsize h bp \<le> hsize (join_prev bp p h) p \<or> zs = [bp] \<and> T2 = T \<and> hsize (join_prev bp p h) p = hsize h p"
    "\<And>x. x \<noteq> p \<Longrightarrow> hsize (join_prev bp p h) x = hsize h x"
proof (cases "p + hsize h p = bp")
  case True
  let ?h = "join_prev bp p h"
  have pT: "p \<in> T" using True p(1,2) by auto
  have "p + (hsize h p + hsize h bp) \<le> brk" using ownD(3) [OF o bp] True by simp
  then have sz: "hsize ?h x = (if x = p then hsize h p + hsize h bp else hsize h x)" for x
    using brk True by (simp add: join_prev_def)
  have pt: "hptr ?h x = (if x = p then hptr h bp else hptr h x)" for x using True by (simp add: join_prev_def)
  have "chain ?h base (p # ys)"
  proof (cases ys)
    case Nil
    then show ?thesis using c(1) by (simp add: pt)
  next
    case (Cons y ws)
    have "chain ?h base (y # ws) = chain h base (y # ws)" using p(2,4) Cons by (intro chain_cong) (force simp: pt sz)
    then show ?thesis using Cons c(1) True p(2) by (auto simp: pt sz)
  qed
  moreover have "chain ?h p us = chain h p us" using p(3) by (intro chain_cong) (simp add: pt sz)
  ultimately have "chain ?h base (us @ p # [] @ ys)" using c(2) p(3) by (auto simp: chain_append sz)
  moreover have "own base ?h (T - {bp}) brk" by (rule own_join [OF o pT bp True sz])
  moreover have "hsize h bp \<le> hsize ?h p" unfolding sz by simp
  moreover have "\<And>x. x \<noteq> p \<Longrightarrow> hsize ?h x = hsize h x" unfolding sz by simp
  ultimately show ?thesis using that pT by blast
next
  case False
  have h: "join_prev bp p h = set_ptr p bp h" using False by (simp add: join_prev_def)
  have "p + hsize h p \<le> bp" using p(1,2) own_less [OF o _ bp, of p] by auto
  then have lt: "p + hsize h p < bp" using False by simp
  have "chain (set_ptr p bp h) base (bp # ys) = chain h base (bp # ys)" using p(2,4) by (intro chain_cong) force
  then have "chain (set_ptr p bp h) base (p # bp # ys)" using c(1) lt p(2) by simp
  moreover have "chain (set_ptr p bp h) p us = chain h p us" using p(3) by (intro chain_cong) simp
  ultimately have "chain (set_ptr p bp h) base (us @ p # [bp] @ ys)" using c(2) p(3) by (auto simp: chain_append)
  moreover have "own base (set_ptr p bp h) T brk" using o by (simp add: own_def)
  ultimately show ?thesis using that [of "[bp]" T] h lt by simp
qed

lemma insert_free_ok:
  assumes ok: "heap_ok base h L A brk" and bp: "bp \<in> A" and s: "base # L = us @ p # ys" "p < bp" "\<forall>y\<in>set ys. bp < y"
  obtains L' where "heap_ok base (insert_free bp p h) L' (A - {bp}) brk" "\<exists>a\<in>set L'. hsize h bp \<le> hsize (insert_free bp p h) a"
    "\<And>a. a \<in> A - {bp} \<Longrightarrow> hsize (insert_free bp p h) a = hsize h a" "freep (insert_free bp p h) = p"
proof -
  let ?T = "set L \<union> A" and ?h1 = "join_next bp (hptr h p) h"
  have hk: "0 < base" "base < brk" "brk < 2 ^ 32" "hsize h base = 0" "chain h base (base # L)" "own base h ?T brk" "set L \<inter> A = {}"
    using ok by (auto simp: heap_ok_def)
  note oD = ownD [OF hk(6)]
  have bpT: "bp \<in> ?T" "base < bp" "bp \<notin> set (base # L)" "base \<notin> ?T" using bp oD(1) hk(7) by auto
  have c: "chain h base (us @ p # ys)" using hk(5) s(1) by simp
  have d: "distinct (us @ p # ys)" using chain_distinct [OF hk(5)] s(1) by simp
  have sets: "set us \<union> {p} \<union> set ys = insert base (set L)" using arg_cong [OF s(1), of set] by auto
  have ysL: "set ys \<subseteq> set L"
  proof
    fix y assume "y \<in> set ys"
    then have "y \<in> insert base (set L)" "bp < y" using sets s(3) by auto
    then show "y \<in> set L" using bpT(2) by auto
  qed
  then have ysT: "\<forall>y\<in>set ys. bp < y \<and> y \<in> ?T" using s(3) by blast
  have cp: "chain h base (p # ys)" "chain h (hptr h p) (us @ [p])" using c by (auto simp: chain_append)
  obtain ys1 T1 where 1: "chain ?h1 base (bp # ys1)" "own base ?h1 T1 brk" "set ys1 \<subseteq> set ys" "T1 = ?T - (set ys - set ys1)" "hsize h bp \<le> hsize ?h1 bp"
    by (rule join_next_ok [OF hk(6) bpT(1) hk(3) cp(1) ysT])
  have h1: "hptr ?h1 x = hptr h x" "hsize ?h1 x = hsize h x" if "x \<noteq> bp" for x using that by (auto simp: join_next_def)
  have usp: "\<forall>u\<in>set us. u \<noteq> bp \<and> u \<noteq> p" using bpT(3) s(1) d by auto
  have "chain ?h1 (hptr h p) (us @ [p]) = chain h (hptr h p) (us @ [p])"
    by (rule chain_cong) (use usp s(2) h1 in auto)
  then have c1: "chain ?h1 (hptr h p) (us @ [p])" using cp(2) by simp
  have p1: "p \<in> T1 \<or> p = base \<and> hsize ?h1 base = 0" using sets d 1(4) h1(2) [of base] bpT(2) hk(4) by auto
  have bp1: "bp \<in> T1" using bpT 1(4) sets by auto
  obtain zs T2 where 2: "chain (join_prev bp p ?h1) base (us @ p # zs @ ys1)" "own base (join_prev bp p ?h1) T2 brk"
    "zs = [] \<and> T2 = T1 - {bp} \<and> p \<in> T1 \<and> hsize ?h1 bp \<le> hsize (join_prev bp p ?h1) p \<or> zs = [bp] \<and> T2 = T1 \<and> hsize (join_prev bp p ?h1) p = hsize ?h1 p"
    "\<And>x. x \<noteq> p \<Longrightarrow> hsize (join_prev bp p ?h1) x = hsize ?h1 x"
    by (rule join_prev_ok [OF 1(2) bp1 hk(3) 1(1) c1 p1 s(2) usp]) (use 1(3) s(3) in auto)
  let ?h2 = "join_prev bp p ?h1"
  obtain L' where L': "us @ p # zs @ ys1 = base # L'" using s(1) by (cases us) auto
  have sL: "insert base (set L') = set us \<union> {p} \<union> set zs \<union> set ys1" using arg_cong [OF L', of set] by auto
  have dL: "base \<notin> set L'" using chain_distinct [of ?h2 base base L'] 2(1) L' by simp
  have mem: "x \<in> set us \<or> x = p \<or> x \<in> set ys1 \<or> x = bp \<and> zs = [bp]" if "x \<in> set L'" for x
    using that sL 2(3) by auto
  have inL: "x \<in> set L" if "x \<in> set L'" "x \<noteq> bp" for x
  proof -
    have "x \<in> insert base (set L)" using mem [OF that(1)] that(2) 1(3) sets by blast
    then show ?thesis using that(1) dL by auto
  qed
  have T1: "x \<in> T1" if "x \<in> set L'" for x
  proof (cases "x = bp")
    case False
    then have "x \<notin> set ys - set ys1" using mem [OF that] d by auto
    then show ?thesis using inL [OF that False] 1(4) by blast
  qed (use bp1 in simp)
  have AT: "A \<subseteq> T1" unfolding 1(4) using ysL hk(7) by blast
  have nb: "bp \<notin> set us" "bp \<noteq> p" "bp \<notin> set ys" using bpT(3) unfolding s(1) by auto
  have "bp \<notin> set L'" if "zs = []" using mem [of bp] that nb 1(3) by blast
  then have sub: "set L' \<union> (A - {bp}) \<subseteq> T2" using 2(3) T1 AT by blast
  have sz: "hsize ?h2 base = 0" using 2(3,4) h1(2) [of base] bpT 1(4) hk(4) by (cases "p = base") auto
  have "p \<in> set (base # L')" using arg_cong [OF L', of set] by auto
  moreover have "set L' \<inter> (A - {bp}) = {}" using inL hk(7) by blast
  ultimately have "heap_ok base (?h2\<lparr>freep := p\<rparr>) L' (A - {bp}) brk"
    using hk(1-3) sz 2(1) L' own_subset [OF 2(2) sub] chain_cong [of "base # L'" "?h2\<lparr>freep := p\<rparr>" ?h2 base]
    by (simp add: heap_ok_def own_def)
  moreover have "\<exists>a\<in>set L'. hsize h bp \<le> hsize ?h2 a"
    using 2(3)
  proof
    assume z: "zs = [] \<and> T2 = T1 - {bp} \<and> p \<in> T1 \<and> hsize ?h1 bp \<le> hsize ?h2 p"
    then have "p \<in> set L'" using sL bpT(4) 1(4) by auto
    then show ?thesis using z 1(5) by fastforce
  next
    assume z: "zs = [bp] \<and> T2 = T1 \<and> hsize ?h2 p = hsize ?h1 p"
    then have "bp \<in> set L'" using sL bpT(2) by auto
    moreover have "hsize h bp \<le> hsize ?h2 bp" using 2(4) [of bp] s(2) 1(5) by simp
    ultimately show ?thesis by blast
  qed
  moreover have "hsize ?h2 a = hsize h a" if "a \<in> A - {bp}" for a
  proof -
    have "p \<in> insert base (set L)" using sets by auto
    then have "a \<noteq> p" using that hk(7) bpT(4) by auto
    then show ?thesis using that 2(4) [of a] h1(2) [of a] by simp
  qed
  ultimately show ?thesis using that by (simp add: insert_free_alt)
qed

lemma ufree_ok:
  assumes ok: "heap_ok base h L A brk" and bp: "bp \<in> A"
  obtains h' L' where "ufree (bp + 1) h = Some h'" "heap_ok base h' L' (A - {bp}) brk" "\<exists>a\<in>set L'. hsize h bp \<le> hsize h' a"
    "\<And>a. a \<in> A - {bp} \<Longrightarrow> hsize h' a = hsize h a"
proof -
  have hk: "chain h base (base # L)" "base < bp" "bp \<notin> set L" "freep h \<in> set (base # L)"
    using ok bp by (auto simp: heap_ok_def own_def)
  obtain us p ys where s: "base # L = us @ p # ys" "p < bp" "\<forall>y\<in>set ys. bp < y" by (rule chain_split [OF hk(1-3)])
  have "find_place h bp (freep h) = Some p" by (rule find_place_found [OF hk(1) s hk(2,4)])
  then have f: "ufree (bp + 1) h = Some (insert_free bp p h)" by (simp add: ufree_def)
  show ?thesis by (rule insert_free_ok [OF ok bp s]) (use that f in blast)
qed

section \<open>Allocating\<close>

text \<open>
  What the code relies on from \<open>sbrk\<close>: for a positive multiple of the header size it fails, or it returns
  the old end of the heap and moves the end (\<open>brk\<close>, in headers) by the amount. It does not fail while
  the end stays within \<open>lim\<close>.
\<close>

definition sbrk_ok :: "(u64 \<Rightarrow> 'e \<Rightarrow> u64 \<times> 'e) \<Rightarrow> ('e \<Rightarrow> nat) \<Rightarrow> nat \<Rightarrow> bool" where
  "sbrk_ok sbrk brk lim \<longleftrightarrow> (\<forall>n e. 0 < n \<and> n < 2 ^ 32 \<longrightarrow>
     (\<exists>e'. sbrk (of_nat (n * 16)) e = (-1, e') \<and> brk e' = brk e \<and> lim < brk e + n \<or>
       sbrk (of_nat (n * 16)) e = (of_nat (brk e * 16), e') \<and> brk e' = brk e + n \<and> brk e' < 2 ^ 32))"

lemma header_address: "b < 2 ^ 32 \<Longrightarrow> unat (of_nat (b * 16) :: u64) div 16 = b \<and> (of_nat (b * 16) :: u64) \<noteq> -1"
proof
  assume "b < 2 ^ 32"
  then have u: "unat (of_nat (b * 16) :: u64) = b * 16" by (simp only: unat_of_nat) (simp add: take_bit_eq_mod)
  then show "unat (of_nat (b * 16) :: u64) div 16 = b" by simp
  show "(of_nat (b * 16) :: u64) \<noteq> -1"
  proof
    assume "(of_nat (b * 16) :: u64) = -1"
    moreover have "unat (-1 :: u64) = 2 ^ 64 - 1" by (simp add: unsigned_minus_1_eq_mask mask_eq_exp_minus_1)
    ultimately have "b * 16 = 2 ^ 64 - 1" using u by metis
    then show False using \<open>b < 2 ^ 32\<close> by simp
  qed
qed

lemma morecore_ok:
  assumes ok: "heap_ok base h L A (brk e)" and sb: "sbrk_ok sbrk brk lim" and n: "nu < 2 ^ 32"
  obtains h' e' L' p where "morecore sbrk nu h e = Some (p, h', e')" "heap_ok base h' L' A (brk e')" "\<forall>a\<in>A. hsize h' a = hsize h a"
    "p = 0 \<or> p = freep h' \<and> (\<exists>a\<in>set L'. nu \<le> hsize h' a)"
    "p = 0 \<longrightarrow> lim < brk e + max 4096 nu" "brk e' \<le> brk e + max 4096 nu"
proof -
  define m where "m = (if nu < 4096 then 4096 else nu)"
  have m: "0 < m" "nu \<le> m" "m < 2 ^ 32" "m = max 4096 nu" using n by (auto simp: m_def)
  obtain e' where e': "sbrk (of_nat (m * 16)) e = (-1, e') \<and> brk e' = brk e \<and> lim < brk e + m \<or>
       sbrk (of_nat (m * 16)) e = (of_nat (brk e * 16), e') \<and> brk e' = brk e + m \<and> brk e' < 2 ^ 32"
    using sb m(1,3) unfolding sbrk_ok_def by blast
  have hk: "0 < base" "base < brk e" "hsize h base = 0" "chain h base (base # L)" "freep h \<in> set (base # L)" "own base h (set L \<union> A) (brk e)" "set L \<inter> A = {}"
    using ok by (auto simp: heap_ok_def)
  have b: "brk e < 2 ^ 32" using ok by (simp add: heap_ok_def)
  show ?thesis
  proof (cases "sbrk (of_nat (m * 16)) e = (-1, e')")
    case True
    then have "brk e' = brk e" "lim < brk e + m" using e' header_address [OF b] by fastforce+
    then show ?thesis using that [of 0 h e' L] True ok m(4) by (simp add: morecore_def m_def [symmetric] Let_def)
  next
    case False
    then have e2: "sbrk (of_nat (m * 16)) e = (of_nat (brk e * 16), e')" "brk e' = brk e + m" "brk e' < 2 ^ 32" using e' by auto
    let ?hp = "brk e" and ?h = "set_size (brk e) m h"
    have lt: "a < ?hp" if "a \<in> insert base (set L \<union> A)" for a using that hk(2) ownD(2,3) [OF hk(6), of a] by auto
    have hs: "hsize ?h x = (if x = ?hp then m else hsize h x)" for x using m(3) by simp
    have ok1: "heap_ok base ?h L (insert ?hp A) (brk e')"
    proof -
      have "own base ?h (set L \<union> insert ?hp A) (brk e')"
      proof (rule ownI_less)
        fix a assume "a \<in> set L \<union> insert ?hp A"
        then show "base < a \<and> 0 < hsize ?h a \<and> a + hsize ?h a \<le> brk e'"
          using ownD(1-3) [OF hk(6), of a] hk(2) m(1) e2(2) lt [of a] unfolding hs by auto
      next
        fix a b assume ab: "a \<in> set L \<union> insert ?hp A" "b \<in> set L \<union> insert ?hp A" "a < b"
        then have "a \<noteq> ?hp" using lt [of b] by auto
        then show "a + hsize ?h a \<le> b"
          using ab own_less [OF hk(6), of a b] ownD(3) [OF hk(6), of a] unfolding hs by auto
      qed
      moreover have "chain ?h base (base # L) = chain h base (base # L)" using lt by (intro chain_cong) (auto simp: hs)
      ultimately show ?thesis using hk e2 lt [of ?hp] lt [of base] by (auto simp: heap_ok_def hs)
    qed
    have A': "insert ?hp A - {?hp} = A" using lt by fastforce
    obtain h' L' where f: "ufree (?hp + 1) ?h = Some h'" "heap_ok base h' L' A (brk e')" "\<exists>a\<in>set L'. hsize ?h ?hp \<le> hsize h' a"
      "\<And>a. a \<in> A \<Longrightarrow> hsize h' a = hsize ?h a" by (rule ufree_ok [OF ok1, of ?hp]) (auto simp: A')
    have "morecore sbrk nu h e = Some (freep h', h', e')"
      using e2(1) f(1) header_address [OF b] by (simp add: morecore_def m_def [symmetric] Let_def)
    moreover have "\<forall>a\<in>A. hsize h' a = hsize h a" using f(4) lt by (fastforce simp: hs)
    moreover have "\<exists>a\<in>set L'. nu \<le> hsize h' a" using f(3) m(2) unfolding hs by (auto intro: le_trans)
    moreover have "freep h' \<noteq> 0" using f(2) ownD(1) [of base h' "set L' \<union> A" "brk e'" "freep h'"] by (auto simp: heap_ok_def)
    ultimately show ?thesis using that f(2) e2(2) m(4) by simp
  qed
qed

lemma take_block_ok:
  assumes ok: "heap_ok base h L A brk" and s: "base # L = us @ prevp # p # vs" and n: "0 < n" "n \<le> hsize h p"
  obtains a h' L' where "take_block n prevp p h = (a + 1, h')" "heap_ok base h' L' (insert a A) brk" "a \<notin> A" "hsize h' a = n"
    "\<forall>b\<in>A. hsize h' b = hsize h b"
proof -
  have hk: "0 < base" "base < brk" "brk < 2 ^ 32" "hsize h base = 0" "chain h base (base # L)" "own base h (set L \<union> A) brk" "set L \<inter> A = {}"
    using ok by (auto simp: heap_ok_def)
  have d: "distinct (base # L)" by (rule chain_distinct [OF hk(5)])
  have pL: "p \<in> set L" using s by (cases us) auto
  have pA: "p \<notin> A" "p \<noteq> base" using pL hk(7) d by auto
  have lt: "hsize h p < 2 ^ 32" using ownD(3) [OF hk(6), of p] pL hk(3) by simp
  have c: "chain h prevp us" "us \<noteq> [] \<longrightarrow> last us + hsize h (last us) < prevp \<and> last us < prevp" "prevp + hsize h prevp < p" "prevp < p" "chain h base (p # vs)"
    using hk(5) unfolding s by (auto simp: chain_append)
  show ?thesis
  proof (cases "hsize h p = n")
    case True
    let ?h = "(set_ptr prevp (hptr h p) h)\<lparr>freep := prevp\<rparr>"
    obtain L' where L': "base # L' = us @ prevp # vs" using s by (cases us) auto
    have d': "distinct (us @ prevp # p # vs)" using d s by simp
    have "insert base (set L) = insert p (insert base (set L'))" using arg_cong [OF L', of set] arg_cong [OF s, of set] by auto
    moreover have pL': "p \<notin> set L'" using d' arg_cong [OF L', of set] by auto
    moreover have "distinct (base # L')" unfolding L' using d' by simp
    ultimately have sL: "set L = insert p (set L')" using d pA(2) by auto
    have "chain ?h prevp us = chain h prevp us" using d' by (intro chain_cong) auto
    moreover have "chain ?h base (prevp # vs)"
    proof (cases vs)
      case (Cons v ws)
      have "chain ?h base (v # ws) = chain h base (v # ws)" using d' Cons by (intro chain_cong) auto
      then show ?thesis using c(3-5) Cons by auto
    qed (use c(5) in simp)
    ultimately have "chain ?h base (base # L')" unfolding L' chain_append using c(1,2) by simp
    moreover have "prevp \<in> set (base # L')" unfolding L' by simp
    moreover have "own base ?h (set L' \<union> insert p A) brk" using hk(6) sL by (simp add: own_def)
    ultimately have "heap_ok base ?h L' (insert p A) brk" using hk sL pL' by (auto simp: heap_ok_def)
    then show ?thesis using that [of p ?h] True pA by (simp add: take_block_def)
  next
    case False
    let ?q = "p + (hsize h p - n)" and ?h1 = "set_size p (hsize h p - n) h"
    let ?h = "(set_size ?q n ?h1)\<lparr>freep := prevp\<rparr>"
    have nl: "n < hsize h p" "n < 2 ^ 32" "hsize h p - n < 2 ^ 32" using n False lt by auto
    have hs: "hsize ?h x = (if x = ?q then n else if x = p then hsize h p - n else hsize h x)" for x using nl n(1) by simp
    have o: "own base ?h (insert ?q (set L \<union> A)) brk" "?q \<notin> set L \<union> A"
      using own_split(1,2) [OF hk(6) _ n(1) nl(1) refl hs] pL by auto
    have qb: "?q \<noteq> base" using ownD(1) [OF hk(6), of p] pL by simp
    have "chain ?h base (base # L)" by (rule chain_shrink [OF _ hk(5)]) (use o(2) qb in \<open>auto simp: hs\<close>)
    moreover have "prevp \<in> set (base # L)" unfolding s by simp
    moreover have "hsize ?h base = 0" using qb pA(2) hk(4) by (simp only: hs) simp
    ultimately have "heap_ok base ?h L (insert ?q A) brk" using hk(1-3,7) o by (simp add: heap_ok_def)
    moreover have "\<forall>b\<in>A. hsize ?h b = hsize h b" unfolding hs using pA(1) o(2) by auto
    moreover have "take_block n prevp p h = (?q + 1, ?h)" using False nl by (simp add: take_block_def Let_def)
    moreover have "hsize ?h ?q = n" unfolding hs by simp
    ultimately show ?thesis using that o(2) by blast
  qed
qed

lemma malloc_walk:
  "chain h z (q # xs) \<Longrightarrow> \<forall>x\<in>set xs. hsize h x < n \<and> x \<noteq> freep h \<Longrightarrow>
   malloc_loop sbrk n q (hptr h q) h e = malloc_loop sbrk n (last (q # xs)) z h e"
proof (induction xs arbitrary: q)
  case (Cons x xs)
  then have "malloc_loop sbrk n q x h e = malloc_loop sbrk n x (hptr h x) h e" by (subst malloc_loop.simps) simp
  then show ?case using Cons by simp
qed simp

text \<open>One way around the list: the first block that fits, or back at \<open>freep\<close>.\<close>

lemma malloc_search:
  assumes ok: "heap_ok base h L A brk" and n: "0 < n"
  obtains us prevp p vs where "base # L = us @ prevp # p # vs" "n \<le> hsize h p"
      "malloc_loop sbrk n (freep h) (hptr h (freep h)) h e = (case take_block n prevp p h of (a, h) \<Rightarrow> Some (a, h, e))"
  | "\<forall>x\<in>set L. hsize h x < n" "malloc_loop sbrk n (freep h) (hptr h (freep h)) h e =
      (case morecore sbrk n h e of None \<Rightarrow> None | Some (p, h, e) \<Rightarrow> if p = 0 then Some (0, h, e) else malloc_loop sbrk n p (hptr h p) h e)"
proof -
  let ?f = "freep h" and ?fit = "\<lambda>x. n \<le> hsize h x"
  let ?m = "case morecore sbrk n h e of None \<Rightarrow> None | Some (p, h, e) \<Rightarrow> if p = 0 then Some (0, h, e) else malloc_loop sbrk n p (hptr h p) h e"
  have hk: "hsize h base = 0" "chain h base (base # L)" "?f \<in> set (base # L)" using ok by (auto simp: heap_ok_def)
  obtain us vs where s: "base # L = us @ ?f # vs" using hk(3) by (meson split_list)
  have d: "distinct (us @ ?f # vs)" using chain_distinct [OF hk(2)] s by simp
  have cf: "chain h ?f us" "chain h base (?f # vs)" using hk(2) unfolding s by (auto simp: chain_append)
  have fit: "malloc_loop sbrk n q p h e = (case take_block n q p h of (a, h) \<Rightarrow> Some (a, h, e))" if "?fit p" for q p
    using that by (subst malloc_loop.simps) simp
  note found = that(1)
  have walk: ?thesis if w: "base # L = ws @ q # xs @ p # ys" "malloc_loop sbrk n ?f (hptr h ?f) h e = malloc_loop sbrk n q (hptr h q) h e"
    "?fit p" "\<forall>x\<in>set xs. \<not> ?fit x \<and> x \<noteq> ?f" for ws q xs p ys
  proof -
    have "chain h p (q # xs)" using hk(2) unfolding w(1) using chain_append [of h base "ws @ q # xs" p ys] by (simp add: chain_append)
    then have m: "malloc_loop sbrk n q (hptr h q) h e = malloc_loop sbrk n (last (q # xs)) p h e" using w(4) by (intro malloc_walk) auto
    have "base # L = (ws @ butlast (q # xs)) @ last (q # xs) # p # ys" using w(1) append_butlast_last_id [of "q # xs"] by simp
    then show ?thesis by (rule found [OF _ w(3)]) (simp only: w(2) m fit [OF w(3)])
  qed
  show ?thesis
  proof (cases "\<exists>x\<in>set vs. ?fit x")
    case True
    then obtain xs p ys where v: "vs = xs @ p # ys" "?fit p" "\<forall>x\<in>set xs. \<not> ?fit x" using split_list_first_prop [of vs ?fit] by blast
    show ?thesis by (rule walk [of us ?f xs p ys]) (use s v d in auto)
  next
    case nv: False
    have m1: "malloc_loop sbrk n ?f (hptr h ?f) h e = malloc_loop sbrk n (last (?f # vs)) base h e"
      by (rule malloc_walk [OF cf(2)]) (use nv d in auto)
    show ?thesis
    proof (cases us)
      case Nil
      then have "?f = base" "vs = L" using s by auto
      moreover have "malloc_loop sbrk n (last (?f # vs)) base h e = ?m" if "?f = base" using that hk(1) n by (subst malloc_loop.simps) simp
      ultimately show ?thesis using that(2) m1 nv by (auto simp: not_le)
    next
      case (Cons b us')
      then have b: "b = base" "base \<noteq> ?f" "L = us' @ ?f # vs" using s d by auto
      have m2: "malloc_loop sbrk n ?f (hptr h ?f) h e = malloc_loop sbrk n base (hptr h base) h e"
        unfolding m1 using b hk(1) n by (subst malloc_loop.simps) simp
      show ?thesis
      proof (cases "\<exists>x\<in>set (us' @ [?f]). ?fit x")
        case True
        then obtain xs p ys where v: "us' @ [?f] = xs @ p # ys" "?fit p" "\<forall>x\<in>set xs. \<not> ?fit x" using split_list_first_prop [of "us' @ [?f]" ?fit] by blast
        have "\<forall>x\<in>set xs. x \<noteq> ?f" using v(1) d Cons by (cases ys rule: rev_cases) auto
        then have x: "\<forall>x\<in>set xs. \<not> ?fit x \<and> x \<noteq> ?f" using v(3) by blast
        have "L = (us' @ [?f]) @ vs" using b(3) by simp
        then have "base # L = [] @ base # xs @ p # (ys @ vs)" unfolding v(1) by simp
        then show ?thesis by (rule walk [OF _ m2 v(2) x])
      next
        case False
        have "malloc_loop sbrk n base (hptr h base) h e = malloc_loop sbrk n (last (base # us')) ?f h e"
          by (rule malloc_walk) (use cf(1) Cons b False d in auto)
        also have "\<dots> = ?m" using False by (subst malloc_loop.simps) simp
        finally show ?thesis using that(2) m2 nv False b(3) by (auto simp: not_le)
      qed
    qed
  qed
qed

lemma malloc_loop_ok:
  assumes ok: "heap_ok base h L A (brk e)" and sb: "sbrk_ok sbrk brk lim" and n: "0 < n" "n < 2 ^ 32"
  obtains a h' e' L' where "malloc_loop sbrk n (freep h) (hptr h (freep h)) h e = Some (a, h', e')"
    "a = 0 \<and> heap_ok base h' L' A (brk e') \<or> 0 < a \<and> a - 1 \<notin> A \<and> heap_ok base h' L' (insert (a - 1) A) (brk e') \<and> hsize h' (a - 1) = n"
    "\<forall>b\<in>A. hsize h' b = hsize h b" "a = 0 \<longrightarrow> lim < brk e + max 4096 n" "brk e' \<le> brk e + max 4096 n"
  using ok
proof (cases rule: malloc_search [OF ok n(1), of sbrk e])
  case (1 us prevp p vs)
  obtain a h' L' where "take_block n prevp p h = (a + 1, h')" "heap_ok base h' L' (insert a A) (brk e)" "a \<notin> A" "hsize h' a = n"
    "\<forall>b\<in>A. hsize h' b = hsize h b" by (rule take_block_ok [OF ok 1(1) n(1) 1(2)])
  then show ?thesis using that [of "a + 1" h' e L'] 1(3) by simp
next
  case 2
  obtain h1 e1 L1 p where m: "morecore sbrk n h e = Some (p, h1, e1)" "heap_ok base h1 L1 A (brk e1)" "\<forall>a\<in>A. hsize h1 a = hsize h a"
    "p = 0 \<or> p = freep h1 \<and> (\<exists>a\<in>set L1. n \<le> hsize h1 a)"
    "p = 0 \<longrightarrow> lim < brk e + max 4096 n" "brk e1 \<le> brk e + max 4096 n" by (rule morecore_ok [OF ok sb n(2)])
  show ?thesis
  proof (cases "p = 0")
    case True
    then show ?thesis using that [of 0 h1 e1 L1] 2(2) m(1-3,5,6) by simp
  next
    case False
    then have p: "p = freep h1" "\<exists>a\<in>set L1. n \<le> hsize h1 a" using m(4) by auto
    have r: "malloc_loop sbrk n (freep h) (hptr h (freep h)) h e = malloc_loop sbrk n (freep h1) (hptr h1 (freep h1)) h1 e1"
      using 2(2) m(1) False p(1) by simp
    show ?thesis
    proof (cases rule: malloc_search [OF m(2) n(1), of sbrk e1])
      case (1 us prevp q vs)
      obtain a h' L' where "take_block n prevp q h1 = (a + 1, h')" "heap_ok base h' L' (insert a A) (brk e1)" "a \<notin> A" "hsize h' a = n"
        "\<forall>b\<in>A. hsize h' b = hsize h1 b" by (rule take_block_ok [OF m(2) 1(1) n(1) 1(2)])
      then show ?thesis using that [of "a + 1" h' e1 L'] r 1(3) m(3,6) by simp
    next
      case 2
      then show ?thesis using p(2) by (auto simp: not_le [symmetric])
    qed
  qed
qed

text \<open>
  A program that allocates and frees: \<open>Free i\<close> gives back its \<open>i\<close>th live block. A live block is its
  address, in headers, and the number of bytes that was asked for.
\<close>

datatype heap_op = Malloc u32 | Free nat

fun heap_run :: "(u64 \<Rightarrow> 'e \<Rightarrow> u64 \<times> 'e) \<Rightarrow> nat \<Rightarrow> heap_op list \<Rightarrow> heap \<Rightarrow> 'e \<Rightarrow> (nat \<times> u32) list \<Rightarrow> (heap \<times> 'e \<times> (nat \<times> u32) list) option" where
  "heap_run sbrk base [] h e l = Some (h, e, l)"
| "heap_run sbrk base (Malloc n # ops) h e l =
     (case umalloc sbrk base n h e of
        None \<Rightarrow> None
      | Some (a, h, e) \<Rightarrow> heap_run sbrk base ops h e (if a = 0 then l else (a, n) # l))"
| "heap_run sbrk base (Free i # ops) h e l =
     (if i < length l
      then case ufree (fst (l ! i)) h of
             None \<Rightarrow> None
           | Some h \<Rightarrow> heap_run sbrk base ops h e (take i l @ drop (Suc i) l)
      else heap_run sbrk base ops h e l)"

text \<open>What the calls may ask of \<open>sbrk\<close>, and how many blocks are live when no call fails.\<close>

definition units :: "u32 \<Rightarrow> nat" where
  "units n = (unat n + 16 - 1) div 16 + 1"

fun demand :: "heap_op list \<Rightarrow> nat" where
  "demand [] = 0"
| "demand (Malloc n # ops) = max 4096 (units n) + demand ops"
| "demand (Free i # ops) = demand ops"

fun live_after :: "heap_op list \<Rightarrow> nat \<Rightarrow> nat" where
  "live_after [] k = k"
| "live_after (Malloc n # ops) k = live_after ops (k + 1)"
| "live_after (Free i # ops) k = live_after ops (if i < k then k - 1 else k)"

text \<open>The headers of the live blocks, and what is kept about them.\<close>

definition owned :: "(nat \<times> u32) list \<Rightarrow> nat set" where
  "owned l = (\<lambda>x. fst x - 1) ` set l"

definition live_ok :: "nat \<Rightarrow> heap \<Rightarrow> nat list \<Rightarrow> nat \<Rightarrow> (nat \<times> u32) list \<Rightarrow> bool" where
  "live_ok base h L b l \<longleftrightarrow> heap_ok base h L (owned l) b \<and> distinct (map (\<lambda>x. fst x - 1) l) \<and>
     (\<forall>x\<in>set l. 0 < fst x \<and> hsize h (fst x - 1) = units (snd x))"

lemma units_bounds: "0 < units n" "units n < 2 ^ 32" "unat n \<le> (units n - 1) * 16"
  using unsigned_less [of n, where ?'a = nat] by (auto simp: units_def)

lemma live_malloc:
  assumes "live_ok base h L (brk e) l" "sbrk_ok sbrk brk lim"
  obtains a h' e' L' where "umalloc sbrk base n h e = Some (a, h', e')" "live_ok base h' L' (brk e') (if a = 0 then l else (a, n) # l)"
    "a = 0 \<longrightarrow> lim < brk e + max 4096 (units n)" "brk e' \<le> brk e + max 4096 (units n)"
proof -
  have ok: "heap_ok base h L (owned l) (brk e)" and l: "distinct (map (\<lambda>x. fst x - 1) l)" "\<forall>x\<in>set l. 0 < fst x \<and> hsize h (fst x - 1) = units (snd x)"
    using assms(1) by (auto simp: live_ok_def)
  obtain a h' e' L' where m: "malloc_loop sbrk (units n) (freep h) (hptr h (freep h)) h e = Some (a, h', e')"
    "a = 0 \<and> heap_ok base h' L' (owned l) (brk e') \<or> 0 < a \<and> a - 1 \<notin> owned l \<and> heap_ok base h' L' (insert (a - 1) (owned l)) (brk e') \<and> hsize h' (a - 1) = units n"
    "\<forall>b\<in>owned l. hsize h' b = hsize h b" "a = 0 \<longrightarrow> lim < brk e + max 4096 (units n)" "brk e' \<le> brk e + max 4096 (units n)"
    by (rule malloc_loop_ok [OF ok assms(2) units_bounds(1,2) [of n]])
  have "0 < freep h" using ok ownD(1) [of base h "set L \<union> owned l" "brk e" "freep h"] by (auto simp: heap_ok_def)
  then have "umalloc sbrk base n h e = Some (a, h', e')" using m(1) by (simp add: umalloc_def units_def Let_def)
  moreover have "\<forall>x\<in>set l. hsize h' (fst x - 1) = units (snd x)" using m(3) l(2) by (auto simp: owned_def)
  then have "live_ok base h' L' (brk e') (if a = 0 then l else (a, n) # l)" using m(2) l by (auto simp: live_ok_def owned_def)
  ultimately show ?thesis using that m(4,5) by blast
qed

lemma live_free:
  assumes "live_ok base h L b l" "i < length l"
  obtains h' L' where "ufree (fst (l ! i)) h = Some h'" "live_ok base h' L' b (take i l @ drop (Suc i) l)"
proof -
  let ?l = "take i l @ drop (Suc i) l" and ?a = "fst (l ! i)"
  have ok: "heap_ok base h L (owned l) b" and l: "distinct (map (\<lambda>x. fst x - 1) l)" "\<forall>x\<in>set l. 0 < fst x \<and> hsize h (fst x - 1) = units (snd x)"
    using assms(1) by (auto simp: live_ok_def)
  have s: "l = take i l @ l ! i # drop (Suc i) l" by (rule id_take_nth_drop [OF assms(2)])
  have "distinct (map (\<lambda>x. fst x - 1) (take i l @ l ! i # drop (Suc i) l))" using l(1) s by simp
  then have d: "distinct (map (\<lambda>x. fst x - 1) ?l)" "?a - 1 \<notin> owned ?l" by (auto simp: owned_def)
  have o: "owned l = insert (?a - 1) (owned ?l)" by (subst s) (auto simp: owned_def)
  have a: "?a - 1 + 1 = ?a" using l(2) assms(2) by (simp add: nth_mem)
  obtain h' L' where f: "ufree (?a - 1 + 1) h = Some h'" "heap_ok base h' L' (owned l - {?a - 1}) b" "\<And>x. x \<in> owned l - {?a - 1} \<Longrightarrow> hsize h' x = hsize h x"
    by (rule ufree_ok [OF ok]) (use o in auto)
  have "owned l - {?a - 1} = owned ?l" using o d(2) by auto
  moreover have "\<forall>x\<in>set ?l. x \<in> set l" by (metis in_set_dropD in_set_takeD Un_iff set_append)
  ultimately have "live_ok base h' L' b ?l" using f(2,3) d l(2) by (auto simp: live_ok_def owned_def)
  then show ?thesis using that f(1) a by simp
qed

lemma live_run:
  "live_ok base h L (brk e) l \<Longrightarrow> sbrk_ok sbrk brk lim \<Longrightarrow>
   \<exists>h' e' l' L'. heap_run sbrk base ops h e l = Some (h', e', l') \<and> live_ok base h' L' (brk e') l' \<and>
     (brk e + demand ops \<le> lim \<longrightarrow> length l' = live_after ops (length l))"
proof (induction ops arbitrary: h e l L)
  case (Cons x ops)
  show ?case
  proof (cases x)
    case (Malloc n)
    obtain a h' e' L' where m: "umalloc sbrk base n h e = Some (a, h', e')" "live_ok base h' L' (brk e') (if a = 0 then l else (a, n) # l)"
      "a = 0 \<longrightarrow> lim < brk e + max 4096 (units n)" "brk e' \<le> brk e + max 4096 (units n)" by (rule live_malloc [OF Cons.prems])
    obtain h2 e2 l2 L2 where "heap_run sbrk base ops h' e' (if a = 0 then l else (a, n) # l) = Some (h2, e2, l2)" "live_ok base h2 L2 (brk e2) l2"
      "brk e' + demand ops \<le> lim \<longrightarrow> length l2 = live_after ops (length (if a = 0 then l else (a, n) # l))"
      using Cons.IH [OF m(2) Cons.prems(2)] by blast
    moreover have "a \<noteq> 0 \<and> brk e' + demand ops \<le> lim" if "brk e + demand (x # ops) \<le> lim"
      using that m(3,4) Malloc by auto
    ultimately show ?thesis using m(1) Malloc by auto
  next
    case (Free i)
    show ?thesis
    proof (cases "i < length l")
      case True
      obtain h' L' where "ufree (fst (l ! i)) h = Some h'" "live_ok base h' L' (brk e) (take i l @ drop (Suc i) l)"
        by (rule live_free [OF Cons.prems(1) True])
      then show ?thesis using Cons.IH [of h' L' e "take i l @ drop (Suc i) l"] Cons.prems(2) Free True by simp
    qed (use Cons Free in auto)
  qed
qed auto

text \<open>The first call makes the empty list.\<close>

lemma umalloc_first:
  assumes "freep h = 0" "0 < base"
  shows "umalloc sbrk base n h e = umalloc sbrk base n (set_size base 0 (set_ptr base base (h\<lparr>freep := base\<rparr>))) e"
  using assms by (simp add: umalloc_def Let_def)

lemma first_ok: "0 < base \<Longrightarrow> base < b \<Longrightarrow> b < 2 ^ 32 \<Longrightarrow> live_ok base (set_size base 0 (set_ptr base base (h\<lparr>freep := base\<rparr>))) [] b []"
  by (simp add: live_ok_def heap_ok_def own_def owned_def)

lemma first_run:
  assumes h: "freep h = 0" "0 < base" "base < brk e" "brk e < 2 ^ 32" and sb: "sbrk_ok sbrk brk lim"
  shows "\<exists>h' e' l. heap_run sbrk base ops h e [] = Some (h', e', l) \<and> (l = [] \<or> (\<exists>L. live_ok base h' L (brk e') l)) \<and>
    (brk e + demand ops \<le> lim \<longrightarrow> length l = live_after ops 0)"
proof (induction ops)
  case (Cons x ops)
  show ?case
  proof (cases x)
    case (Malloc n)
    let ?h = "set_size base 0 (set_ptr base base (h\<lparr>freep := base\<rparr>))"
    have "heap_run sbrk base (x # ops) h e [] = heap_run sbrk base (x # ops) ?h e []"
      using umalloc_first [OF h(1,2), of sbrk n e] Malloc by simp
    then show ?thesis using live_run [OF first_ok [OF h(2-4)] sb, of "x # ops" h] by (metis list.size(3))
  qed (use Cons in simp)
qed simp

lemma live_bytes:
  assumes "live_ok base h L b l" "i < length l"
  shows "base * 16 < fst (l ! i) * 16" "fst (l ! i) * 16 + unat (snd (l ! i)) \<le> b * 16"
    "j < length l \<Longrightarrow> i \<noteq> j \<Longrightarrow> {fst (l ! i) * 16..<fst (l ! i) * 16 + unat (snd (l ! i))} \<inter> {fst (l ! j) * 16..<fst (l ! j) * 16 + unat (snd (l ! j))} = {}"
proof -
  have o: "own base h (set L \<union> owned l) b" and l: "distinct (map (\<lambda>x. fst x - 1) l)" "\<forall>x\<in>set l. 0 < fst x \<and> hsize h (fst x - 1) = units (snd x)"
    using assms(1) by (auto simp: live_ok_def heap_ok_def)
  have k: "fst (l ! k) - 1 \<in> set L \<union> owned l" "0 < fst (l ! k)" "hsize h (fst (l ! k) - 1) = units (snd (l ! k))" if "k < length l" for k
    using l(2) that by (auto simp: owned_def)
  have fits: "fst (l ! k) * 16 + unat (snd (l ! k)) \<le> (fst (l ! k) - 1 + units (snd (l ! k))) * 16" if "k < length l" for k
    using k(2) [OF that] units_bounds(1,3) [of "snd (l ! k)"] by (auto simp: algebra_simps diff_mult_distrib)
  show "base * 16 < fst (l ! i) * 16" using ownD(1) [OF o k(1) [OF assms(2)]] by simp
  have "fst (l ! i) - 1 + units (snd (l ! i)) \<le> b" using ownD(3) [OF o k(1)] k(3) assms(2) by metis
  then show "fst (l ! i) * 16 + unat (snd (l ! i)) \<le> b * 16" using fits [OF assms(2)] by (meson le_trans mult_le_mono1)
  have before: "fst (l ! x) * 16 + unat (snd (l ! x)) \<le> fst (l ! y) * 16" if "x < length l" "y < length l" "fst (l ! x) - 1 < fst (l ! y) - 1" for x y
  proof -
    have "fst (l ! x) - 1 + units (snd (l ! x)) \<le> fst (l ! y) - 1"
      using own_less [OF o k(1) k(1) that(3)] that(1,2) k(3) [OF that(1)] by simp
    then have "(fst (l ! x) - 1 + units (snd (l ! x))) * 16 \<le> fst (l ! y) * 16" by simp
    then show ?thesis using fits [OF that(1)] by linarith
  qed
  assume j: "j < length l" "i \<noteq> j"
  have "fst (l ! i) - 1 \<noteq> fst (l ! j) - 1" using l(1) j assms(2) by (auto simp: distinct_conv_nth)
  then consider "fst (l ! i) - 1 < fst (l ! j) - 1" | "fst (l ! j) - 1 < fst (l ! i) - 1" by linarith
  then show "{fst (l ! i) * 16..<fst (l ! i) * 16 + unat (snd (l ! i))} \<inter> {fst (l ! j) * 16..<fst (l ! j) * 16 + unat (snd (l ! j))} = {}"
    using before [of i j] before [of j i] j(1) assms(2) by cases auto
qed

text \<open>
  C33: a program that allocates and frees in any order, starting with the empty allocator, always gets
  its answer: every \<open>malloc\<close> and every \<open>free\<close> of a live block returns. The blocks that are live at the
  end lie between the static header and the end of the heap, have room for all the bytes that were
  asked for, and never share a byte. No allocation fails as long as all that the calls may ask of
  \<open>sbrk\<close> is within its limit.
\<close>

theorem malloc_no_overlap:
  assumes "sbrk_ok sbrk brk lim" "freep h = 0" "0 < base" "base < brk e" "brk e < 2 ^ 32"
  shows "\<exists>h' e' l. heap_run sbrk base ops h e [] = Some (h', e', l) \<and>
    (\<forall>i < length l. base * 16 < fst (l ! i) * 16 \<and> fst (l ! i) * 16 + unat (snd (l ! i)) \<le> brk e' * 16) \<and>
    (\<forall>i < length l. \<forall>j < length l. i \<noteq> j \<longrightarrow>
       {fst (l ! i) * 16..<fst (l ! i) * 16 + unat (snd (l ! i))} \<inter> {fst (l ! j) * 16..<fst (l ! j) * 16 + unat (snd (l ! j))} = {}) \<and>
    (brk e + demand ops \<le> lim \<longrightarrow> length l = live_after ops 0)"
proof -
  obtain h' e' l where r: "heap_run sbrk base ops h e [] = Some (h', e', l)" "l = [] \<or> (\<exists>L. live_ok base h' L (brk e') l)"
      "brk e + demand ops \<le> lim \<longrightarrow> length l = live_after ops 0"
    using first_run [OF assms(2-5,1)] by blast
  then show ?thesis using live_bytes [of base h' _ "brk e'" l] by (cases "l = []") (simp, metis)
qed

text \<open>A heap of 16 MB.\<close>

definition sbrk_16m :: "u64 \<Rightarrow> nat \<Rightarrow> u64 \<times> nat" where
  "sbrk_16m n b = (if b + unat n div 16 \<le> 2 ^ 20 then (of_nat (b * 16), b + unat n div 16) else (-1, b))"

theorem malloc_no_overlap_witness:
  "\<exists>h' e' l. heap_run sbrk_16m 1 [Malloc 100, Malloc 5000, Free 0, Malloc 40] \<lparr>hptr = \<lambda>_. 0, hsize = \<lambda>_. 0, freep = 0\<rparr> 512 [] = Some (h', e', l) \<and>
    (\<forall>i < length l. 1 * 16 < fst (l ! i) * 16 \<and> fst (l ! i) * 16 + unat (snd (l ! i)) \<le> e' * 16) \<and>
    (\<forall>i < length l. \<forall>j < length l. i \<noteq> j \<longrightarrow>
       {fst (l ! i) * 16..<fst (l ! i) * 16 + unat (snd (l ! i))} \<inter> {fst (l ! j) * 16..<fst (l ! j) * 16 + unat (snd (l ! j))} = {}) \<and>
    (512 + demand [Malloc 100, Malloc 5000, Free 0, Malloc 40] \<le> 2 ^ 20 \<longrightarrow> length l = live_after [Malloc 100, Malloc 5000, Free 0, Malloc 40] 0)"
proof (rule malloc_no_overlap [where brk = "\<lambda>e. e"])
  show "sbrk_ok sbrk_16m (\<lambda>e. e) (2 ^ 20)" unfolding sbrk_ok_def
  proof (intro allI impI)
    fix n e :: nat assume n: "0 < n \<and> n < 2 ^ 32"
    then have "unat (of_nat (n * 16) :: u64) div 16 = n" using header_address by simp
    then show "\<exists>e'. sbrk_16m (of_nat (n * 16)) e = (-1, e') \<and> e' = e \<and> 2 ^ 20 < e + n \<or> sbrk_16m (of_nat (n * 16)) e = (of_nat (e * 16), e') \<and> e' = e + n \<and> e' < 2 ^ 32"
      by (auto simp only: sbrk_16m_def split: if_splits) auto
  qed
qed auto

end
