(* ===== verification/Mp.thy ===== *)
theory Mp
  imports Strings Spinlock
begin

text \<open>
  The multiprocessor tables of \<open>mp.c\<close>: the search for the floating pointer in the memory the
  firmware fills, the check of the configuration table, and the loop of \<open>mpinit\<close> that counts the
  processors. Memory is read by physical address. The message on the console and the write to
  the interrupt mode register are left out.
\<close>

section \<open>Definitions\<close>

definition NCPU :: nat where "NCPU = 8"

fun sum_bytes :: "mem \<Rightarrow> u64 \<Rightarrow> nat \<Rightarrow> u8" where
  "sum_bytes m a 0 = 0"
| "sum_bytes m a (Suc n) = m a + sum_bytes m (a + 1) n"

text \<open>The structures of \<open>mp.h\<close>: sizes and offsets.\<close>

definition mp_size :: nat where "mp_size = 16"
definition mpconf_size :: nat where "mpconf_size = 44"
definition mpproc_size :: nat where "mpproc_size = 20"
definition mpioapic_size :: nat where "mpioapic_size = 8"

definition mp_physaddr :: "mem \<Rightarrow> u64 \<Rightarrow> u32" where "mp_physaddr m a = ld32 m (a + 4)"
definition conf_length :: "mem \<Rightarrow> u64 \<Rightarrow> u16" where "conf_length m a = ld16 m (a + 4)"
definition conf_version :: "mem \<Rightarrow> u64 \<Rightarrow> u8" where "conf_version m a = m (a + 6)"
definition conf_lapicaddr :: "mem \<Rightarrow> u64 \<Rightarrow> u32" where "conf_lapicaddr m a = ld32 m (a + 36)"

definition has_sig :: "mem \<Rightarrow> u64 \<Rightarrow> u8 list \<Rightarrow> bool" where
  "has_sig m a s \<longleftrightarrow> memcmp (\<lambda>i. m (a + of_nat i)) (\<lambda>i. s ! i) 4 = 0"

text \<open>\<open>n\<close> is the number of places left to look at.\<close>

fun mpsearch_loop :: "mem \<Rightarrow> u64 \<Rightarrow> nat \<Rightarrow> u64 option" where
  "mpsearch_loop m p 0 = None"
| "mpsearch_loop m p (Suc n) =
     (if has_sig m p [95, 77, 80, 95] \<and> sum_bytes m p mp_size = 0 then Some p
      else mpsearch_loop m (p + of_nat mp_size) n)"

definition mpsearch1 :: "mem \<Rightarrow> u64 \<Rightarrow> nat \<Rightarrow> u64 option" where
  "mpsearch1 m a len = mpsearch_loop m a ((len + mp_size - 1) div mp_size)"

definition mpsearch :: "mem \<Rightarrow> u64 option" where
  "mpsearch m =
     (let p = push_bit 4 (ucast (ld16 m (0x400 + 0x0E))) :: u32 in
      case (if p \<noteq> 0 then mpsearch1 m (ucast p) 1024
            else let p = ucast (ld16 m (0x400 + 0x13)) * 1024 :: u32 in mpsearch1 m (ucast (p - 1024)) 1024) of
        Some a \<Rightarrow> Some a
      | None \<Rightarrow> mpsearch1 m 0xF0000 0x10000)"

definition mpconfig :: "mem \<Rightarrow> (u64 \<times> u64) option" where
  "mpconfig m =
     (case mpsearch m of
        None \<Rightarrow> None
      | Some mp \<Rightarrow>
          if mp_physaddr m mp = 0 then None
          else let conf = ucast (mp_physaddr m mp) in
            if \<not> has_sig m conf [80, 67, 77, 80] then None
            else if conf_version m conf \<noteq> 1 \<and> conf_version m conf \<noteq> 4 then None
            else if sum_bytes m conf (unat (conf_length m conf)) \<noteq> 0 then None
            else Some (mp, conf))"

record mpstate =
  mcpus :: "u8 list"
  ioapicid :: u8
  lapic :: u64

text \<open>\<open>mcpus\<close> holds the identifiers of \<open>cpus[0..ncpu)\<close>. The position is the offset in the table.\<close>

function mp_loop :: "mem \<Rightarrow> u64 \<Rightarrow> nat \<Rightarrow> nat \<Rightarrow> mpstate \<Rightarrow> mpstate res" where
  "mp_loop m conf p e s =
     (if p < e then
        let t = m (conf + of_nat p) in
        if t = 0 then
          mp_loop m conf (p + mpproc_size) e
            (if length (mcpus s) < NCPU then s\<lparr>mcpus := mcpus s @ [m (conf + of_nat p + 1)]\<rparr> else s)
        else if t = 2 then mp_loop m conf (p + mpioapic_size) e (s\<lparr>ioapicid := m (conf + of_nat p + 1)\<rparr>)
        else if t = 1 \<or> t = 3 \<or> t = 4 then mp_loop m conf (p + 8) e s
        else Inl (Panic ''Major problem parsing mp config.'')
      else Inr s)"
  by pat_completeness auto

termination
  by (relation "measure (\<lambda>(m, conf, p, e, s). e - p)") (auto simp: mpproc_size_def mpioapic_size_def)

declare mp_loop.simps [simp del]

definition mpinit :: "mem \<Rightarrow> mpstate \<Rightarrow> mpstate res" where
  "mpinit m s =
     (case mpconfig m of
        None \<Rightarrow> Inr s
      | Some (mp, conf) \<Rightarrow>
          mp_loop m conf mpconf_size (unat (conf_length m conf)) (s\<lparr>lapic := ucast (conf_lapicaddr m conf)\<rparr>))"

section \<open>What is found\<close>

text \<open>The number of CPUs stays within the array, whatever the table holds.\<close>

lemma mp_loop_ncpu: "length (mcpus s) \<le> NCPU \<Longrightarrow> mp_loop m conf p e s = Inr s' \<Longrightarrow> length (mcpus s') \<le> NCPU"
proof (induction m conf p e s rule: mp_loop.induct)
  case (1 m conf p e s)
  from "1.prems"(2) show ?case
    by (subst (asm) mp_loop.simps) (use 1(1-3) "1.prems"(1) in \<open>auto simp: Let_def split: if_splits\<close>)
qed

lemma mpinit_ncpu: "length (mcpus s) \<le> NCPU \<Longrightarrow> mpinit m s = Inr s' \<Longrightarrow> length (mcpus s') \<le> NCPU"
  by (auto simp: mpinit_def split: option.splits intro: mp_loop_ncpu [rotated])

text \<open>Entries as a list, and a table in memory that holds them.\<close>

datatype mpentry = Processor u8 | Ioapic u8 | Other u8

fun entry_size :: "mpentry \<Rightarrow> nat" where
  "entry_size (Processor i) = 20"
| "entry_size (Ioapic i) = 8"
| "entry_size (Other t) = 8"

fun entry_at :: "mem \<Rightarrow> u64 \<Rightarrow> mpentry \<Rightarrow> bool" where
  "entry_at m a (Processor i) \<longleftrightarrow> m a = 0 \<and> m (a + 1) = i"
| "entry_at m a (Ioapic i) \<longleftrightarrow> m a = 2 \<and> m (a + 1) = i"
| "entry_at m a (Other t) \<longleftrightarrow> m a = t \<and> t \<in> {1, 3, 4}"

fun table_at :: "mem \<Rightarrow> u64 \<Rightarrow> nat \<Rightarrow> mpentry list \<Rightarrow> nat \<Rightarrow> bool" where
  "table_at m conf p [] e \<longleftrightarrow> p = e"
| "table_at m conf p (x # xs) e \<longleftrightarrow> p < e \<and> entry_at m (conf + of_nat p) x \<and> table_at m conf (p + entry_size x) xs e"

fun processors :: "mpentry list \<Rightarrow> u8 list" where
  "processors [] = []"
| "processors (Processor i # xs) = i # processors xs"
| "processors (x # xs) = processors xs"

text \<open>The CPUs found are the first \<open>NCPU\<close> processors of the table, in its order.\<close>

lemma mp_loop_table:
  "table_at m conf p xs e \<Longrightarrow> length (mcpus s) \<le> NCPU \<Longrightarrow>
   \<exists>s'. mp_loop m conf p e s = Inr s' \<and> mcpus s' = take NCPU (mcpus s @ processors xs)"
proof (induction xs arbitrary: p s)
  case Nil
  then show ?case by (subst mp_loop.simps) simp
next
  case (Cons x xs)
  show ?case
  proof (cases x)
    case (Processor i)
    let ?s = "if length (mcpus s) < NCPU then s\<lparr>mcpus := mcpus s @ [i]\<rparr> else s"
    have "mp_loop m conf p e s = mp_loop m conf (p + 20) e ?s"
      using Cons.prems Processor by (subst mp_loop.simps) (simp add: mpproc_size_def)
    then show ?thesis using Cons.IH [of "p + 20" ?s] Cons.prems Processor by (auto simp: take_Cons')
  next
    case (Ioapic i)
    then have "mp_loop m conf p e s = mp_loop m conf (p + 8) e (s\<lparr>ioapicid := i\<rparr>)"
      using Cons.prems by (subst mp_loop.simps) (simp add: mpioapic_size_def)
    then show ?thesis using Cons.IH [of "p + 8" "s\<lparr>ioapicid := i\<rparr>"] Cons.prems Ioapic by auto
  next
    case (Other t)
    then have "mp_loop m conf p e s = mp_loop m conf (p + 8) e s"
      using Cons.prems by (subst mp_loop.simps) auto
    then show ?thesis using Cons.IH [of "p + 8" s] Cons.prems Other by auto
  qed
qed

end
