(* ===== verification/Ide.thy ===== *)
theory Ide
  imports Bio
begin

text \<open>
  The interrupt-driven disk driver \<open>ide.c\<close>, which the standard kernel has in place of \<open>memide.c\<close>.
  The controller is hardware: a parameter with its registers, and what the driver relies on as a
  hypothesis (\<open>controller_ok\<close>). \<open>iderw\<close> is cut where it sleeps: \<open>ide_request\<close> puts the buffer on the
  queue, \<open>ide_served\<close> is the condition it waits for. Requests and interrupts in any order are
  proved to act as \<open>iderw\<close> of \<open>memide.c\<close> on the buffers in the order of their requests.
\<close>

unbundle bit_operations_syntax

section \<open>Definitions\<close>

definition FSSIZE :: nat where "FSSIZE = 2000"
definition SECTOR_SIZE :: nat where "SECTOR_SIZE = 512"
definition IDE_BSY :: u8 where "IDE_BSY = 0x80"
definition IDE_DRDY :: u8 where "IDE_DRDY = 0x40"
definition IDE_DF :: u8 where "IDE_DF = 0x20"
definition IDE_ERR :: u8 where "IDE_ERR = 0x01"
definition IDE_CMD_READ :: u8 where "IDE_CMD_READ = 0x20"
definition IDE_CMD_WRITE :: u8 where "IDE_CMD_WRITE = 0x30"
definition IDE_CMD_RDMUL :: u8 where "IDE_CMD_RDMUL = 0xc4"
definition IDE_CMD_WRMUL :: u8 where "IDE_CMD_WRMUL = 0xc5"

text \<open>
  Writes to ports, and a controller: the values the status register gives until it is ready, the
  effect of port writes, the data a finished read offers, and the step in which it finishes the
  command it was given and raises the interrupt.
\<close>

datatype portop = Outb nat u8 | Outsl nat block

record 'd controller =
  ct_status :: "'d \<Rightarrow> u8 list"
  ct_exec :: "portop list \<Rightarrow> 'd \<Rightarrow> 'd"
  ct_rdata :: "'d \<Rightarrow> block"
  ct_done :: "'d \<Rightarrow> 'd"

text \<open>The loop over the values read from the status register.\<close>

fun idewait :: "bool \<Rightarrow> u8 list \<Rightarrow> int option" where
  "idewait checkerr [] = None"
| "idewait checkerr (r # rs) =
     (if r AND (IDE_BSY OR IDE_DRDY) \<noteq> IDE_DRDY then idewait checkerr rs
      else if checkerr \<and> r AND (IDE_DF OR IDE_ERR) \<noteq> 0 then Some (-1)
      else Some 0)"

text \<open>\<open>havedisk1\<close> from the values the status register has while it is polled.\<close>

definition ide_probe :: "u8 list \<Rightarrow> bool" where
  "ide_probe polls \<longleftrightarrow> list_ex (\<lambda>r. r \<noteq> 0) (take 1000 polls)"

definition ide_regs :: "buf \<Rightarrow> portop list" where
  "ide_regs b =
     (let sector_per_block = BSIZE div SECTOR_SIZE; sector = b_blockno b * of_nat sector_per_block in
      [Outb 0x3f6 0, Outb 0x1f2 (of_nat sector_per_block),
       Outb 0x1f3 (ucast (sector AND 0xff)), Outb 0x1f4 (ucast (drop_bit 8 sector AND 0xff)),
       Outb 0x1f5 (ucast (drop_bit 16 sector AND 0xff)),
       Outb 0x1f6 (0xe0 OR ucast (push_bit 4 (b_dev b AND 1)) OR ucast (drop_bit 24 sector AND 0x0f))])"

definition ide_cmd :: "buf \<Rightarrow> portop list" where
  "ide_cmd b =
     (let sector_per_block = BSIZE div SECTOR_SIZE;
          read_cmd = (if sector_per_block = 1 then IDE_CMD_READ else IDE_CMD_RDMUL);
          write_cmd = (if sector_per_block = 1 then IDE_CMD_WRITE else IDE_CMD_WRMUL)
      in if b_dirty b then [Outb 0x1f7 write_cmd, Outsl 0x1f0 (b_data b)] else [Outb 0x1f7 read_cmd])"

definition idestart :: "'d controller \<Rightarrow> buf \<Rightarrow> 'd \<Rightarrow> 'd res" where
  "idestart ct b d =
     (if unat (b_blockno b) \<ge> FSSIZE then Inl (Panic ''incorrect blockno'')
      else if BSIZE div SECTOR_SIZE > 7 then Inl (Panic ''idestart'')
      else case idewait False (ct_status ct d) of
        None \<Rightarrow> Inl Diverges
      | Some _ \<Rightarrow> Inr (ct_exec ct (ide_regs b @ ide_cmd b) d))"

text \<open>\<open>q\<close> is the queue, its head the active request.\<close>

definition ideintr :: "'d controller \<Rightarrow> nat list \<times> 'z bstate_scheme \<times> 'd \<Rightarrow> (nat list \<times> 'z bstate_scheme \<times> 'd) res" where
  "ideintr ct st =
     (case st of (q, s, d) \<Rightarrow>
      case q of
        [] \<Rightarrow> Inr (q, s, d)
      | i # q \<Rightarrow>
          let b = bufs s ! i in
          rbind (if b_dirty b then Inr b
                 else case idewait True (ct_status ct d) of
                   None \<Rightarrow> Inl Diverges
                 | Some r \<Rightarrow> Inr (if r \<ge> 0 then b\<lparr>b_data := ct_rdata ct d\<rparr> else b)) (\<lambda>b'.
          let s = s\<lparr>bufs := (bufs s)[i := b'\<lparr>b_dirty := False, b_valid := True\<rparr>],
                    dwrites := dwrites s @ (if b_dirty b then [(b_blockno b, b_data b)] else []),
                    wakes := wakes s @ [Ch_buf i]\<rparr> in
          rbind (if q \<noteq> [] then idestart ct (bufs s ! hd q) d else Inr d) (\<lambda>d. Inr (q, s, d))))"

definition ide_request :: "'d controller \<Rightarrow> bool \<Rightarrow> nat \<Rightarrow> nat list \<times> 'z bstate_scheme \<times> 'd \<Rightarrow> (nat list \<times> 'z bstate_scheme \<times> 'd) res" where
  "ide_request ct havedisk1 i st =
     (case st of (q, s, d) \<Rightarrow>
      let b = bufs s ! i in
      if \<not> holdingsleep (b_lock b) then Inl (Panic ''iderw: buf not locked'')
      else if b_valid b \<and> \<not> b_dirty b then Inl (Panic ''iderw: nothing to do'')
      else if b_dev b \<noteq> 0 \<and> \<not> havedisk1 then Inl (Panic ''iderw: ide disk 1 not present'')
      else let q = q @ [i] in
        rbind (if hd q = i then idestart ct b d else Inr d) (\<lambda>d. Inr (q, s, d)))"

definition ide_served :: "nat \<Rightarrow> 'z bstate_scheme \<Rightarrow> bool" where
  "ide_served i s \<longleftrightarrow> b_valid (bufs s ! i) \<and> \<not> b_dirty (bufs s ! i)"

section \<open>The controller\<close>

text \<open>
  The register file behind a sequence of port writes that sets all of it, and the drive and the sector
  it addresses: 28 bits in three registers and the lower half of a fourth, whose upper half selects
  linear addressing and the drive.
\<close>

definition reg :: "portop list \<Rightarrow> nat \<Rightarrow> u8 option" where
  "reg ops p = fold (\<lambda>x r. case x of Outb q v \<Rightarrow> if q = p then Some v else r | Outsl q b \<Rightarrow> r) ops None"

definition selects :: "portop list \<Rightarrow> nat \<Rightarrow> nat \<Rightarrow> bool" where
  "selects ops k n \<longleftrightarrow>
     (case (reg ops 0x1f3, reg ops 0x1f4, reg ops 0x1f5, reg ops 0x1f6) of
        (Some a, Some b, Some c, Some e) \<Rightarrow>
          n = unat a + 2 ^ 8 * unat b + 2 ^ 16 * unat c + 2 ^ 24 * (unat e mod 16) \<and>
          unat e div 32 = 7 \<and> k = unat e div 16 mod 2
      | _ \<Rightarrow> False) \<and> reg ops 0x1f2 = Some 1 \<and> reg ops 0x3f6 = Some 0"

text \<open>
  What the driver relies on: the controller becomes ready and reports no error; a read command offers
  the sector it addresses, and a write command stores it, once the command is finished.
\<close>

definition controller_ok :: "'d controller \<Rightarrow> ('d \<Rightarrow> nat \<Rightarrow> nat \<Rightarrow> block) \<Rightarrow> bool" where
  "controller_ok ct dsk \<longleftrightarrow>
     (\<forall>d. idewait True (ct_status ct d) = Some 0) \<and>
     (\<forall>d ops k n. selects ops k n \<longrightarrow>
       (let r = ct_done ct (ct_exec ct (ops @ [Outb 0x1f7 0x20]) d) in dsk r = dsk d \<and> ct_rdata ct r = dsk d k n) \<and>
       (\<forall>b. dsk (ct_done ct (ct_exec ct (ops @ [Outb 0x1f7 0x30, Outsl 0x1f0 b]) d)) =
            (dsk d)(k := (dsk d k)(n := b))))"

lemma idewait_weaken: "idewait True rs = Some r \<Longrightarrow> idewait False rs = Some 0"
  by (induction rs) (auto split: if_splits)

lemma low_byte: "unat (ucast ((w :: u32) AND 0xff) :: u8) = unat w mod 256"
proof -
  have "w AND 0xff = take_bit 8 w" by (simp add: take_bit_eq_mask mask_eq_exp_minus_1)
  then have "ucast (w AND 0xff) = (ucast w :: u8)" by (auto simp: bit_simps intro: bit_word_eqI)
  then show ?thesis by (simp add: unsigned_ucast_eq take_bit_eq_mod)
qed

lemma idestart_regs:
  assumes "b_dev b = 1" "unat (b_blockno b) < FSSIZE"
  shows "selects (ide_regs b) 1 (unat (b_blockno b))"
proof -
  let ?w = "b_blockno b"
  have w: "unat ?w < 2000" using assms(2) by (simp add: FSSIZE_def)
  have hi: "drop_bit n ?w = 0" if "16 \<le> n" for n
  proof -
    have "unat ?w < 2 ^ n" using w power_increasing [OF that, of "2 :: nat"] by simp
    then show ?thesis by (intro word_unat_eq_iff [THEN iffD2]) (simp add: unat_drop_bit_eq, simp add: drop_bit_eq_div)
  qed
  have regs: "ide_regs b = [Outb 0x3f6 0, Outb 0x1f2 1, Outb 0x1f3 (ucast (?w AND 0xff)), Outb 0x1f4 (ucast (drop_bit 8 ?w AND 0xff)),
       Outb 0x1f5 0, Outb 0x1f6 0xf0]"
    using hi [of 16] hi [of 24] assms(1) by (simp add: ide_regs_def BSIZE_def SECTOR_SIZE_def Let_def)
  have "unat ?w = unat ?w mod 256 + 256 * (unat ?w div 256 mod 256)" using w by simp
  moreover have "unat (drop_bit 8 ?w) = unat ?w div 256" by (simp only: unat_drop_bit_eq) (simp add: drop_bit_eq_div)
  ultimately show ?thesis by (simp add: selects_def reg_def regs low_byte)
qed

section \<open>The driver implements the synchronous one\<close>

text \<open>
  What happens: a process asks for a buffer it has locked, the controller finishes its command and
  interrupts (or interrupts without a command), or a buffer that is not in the queue is changed in any way.
\<close>

datatype ide_ev = Request nat | Intr | Change nat buf

fun ide_step :: "'d controller \<Rightarrow> ide_ev \<Rightarrow> nat list \<times> bstate \<times> 'd \<Rightarrow> (nat list \<times> bstate \<times> 'd) res" where
  "ide_step ct (Request i) st = ide_request ct True i st"
| "ide_step ct Intr (q, s, d) = ideintr ct (q, s, if q = [] then d else ct_done ct d)"
| "ide_step ct (Change i b) (q, s, d) = Inr (q, s\<lparr>bufs := (bufs s)[i := b]\<rparr>, d)"

fun ide_run :: "'d controller \<Rightarrow> ide_ev list \<Rightarrow> nat list \<times> bstate \<times> 'd \<Rightarrow> (nat list \<times> bstate \<times> 'd) res" where
  "ide_run ct [] st = Inr st"
| "ide_run ct (ev # evs) st = rbind (ide_step ct ev st) (ide_run ct evs)"

text \<open>The same with \<open>memide.c\<close>: the request at the head is served at the interrupt.\<close>

fun mem_step :: "ide_ev \<Rightarrow> nat list \<times> bstate \<Rightarrow> (nat list \<times> bstate) res" where
  "mem_step (Request i) (q, s) = Inr (q @ [i], s)"
| "mem_step Intr ([], s) = Inr ([], s)"
| "mem_step Intr (i # q, s) = rbind (iderw i s) (\<lambda>s. Inr (q, s\<lparr>wakes := wakes s @ [Ch_buf i]\<rparr>))"
| "mem_step (Change i b) (q, s) = Inr (q, s\<lparr>bufs := (bufs s)[i := b]\<rparr>)"

fun mem_run :: "ide_ev list \<Rightarrow> nat list \<times> bstate \<Rightarrow> (nat list \<times> bstate) res" where
  "mem_run [] st = Inr st"
| "mem_run (ev # evs) st = rbind (mem_step ev st) (mem_run evs)"

text \<open>A buffer that may be asked for, and the sequences of events that respect the callers' side.\<close>

definition askable :: "buf \<Rightarrow> bool" where
  "askable b \<longleftrightarrow> holdingsleep (b_lock b) \<and> \<not> (b_valid b \<and> \<not> b_dirty b) \<and> b_dev b = 1 \<and> unat (b_blockno b) < FSSIZE"

fun ev_ok :: "ide_ev \<Rightarrow> nat list \<times> bstate \<Rightarrow> bool" where
  "ev_ok (Request i) (q, s) \<longleftrightarrow> i < length (bufs s) \<and> i \<notin> set q \<and> askable (bufs s ! i)"
| "ev_ok Intr (q, s) \<longleftrightarrow> True"
| "ev_ok (Change i b) (q, s) \<longleftrightarrow> i \<notin> set q"

fun run_ok :: "ide_ev list \<Rightarrow> nat list \<times> bstate \<Rightarrow> bool" where
  "run_ok [] st \<longleftrightarrow> True"
| "run_ok (ev # evs) st \<longleftrightarrow> ev_ok ev st \<and> (case mem_step ev st of Inl _ \<Rightarrow> True | Inr st' \<Rightarrow> run_ok evs st')"

text \<open>
  The two sides: the same buffers and histories; the disk is the one of the controller, behind the
  command it is working on when the queue is not empty.
\<close>

definition pend :: "'d controller \<Rightarrow> ('d \<Rightarrow> nat \<Rightarrow> nat \<Rightarrow> block) \<Rightarrow> nat list \<Rightarrow> bstate \<Rightarrow> 'd \<Rightarrow> (u32 \<Rightarrow> block) \<Rightarrow> bool" where
  "pend ct dsk q s d D \<longleftrightarrow>
     unat (disksize s) = FSSIZE \<and> distinct q \<and> (\<forall>i\<in>set q. i < length (bufs s) \<and> askable (bufs s ! i)) \<and>
     (case q of
        [] \<Rightarrow> \<forall>n. D n = dsk d 1 (unat n)
      | i # _ \<Rightarrow> \<exists>d0. d = ct_exec ct (ide_regs (bufs s ! i) @ ide_cmd (bufs s ! i)) d0 \<and> (\<forall>n. D n = dsk d0 1 (unat n)))"

definition sim :: "'d controller \<Rightarrow> ('d \<Rightarrow> nat \<Rightarrow> nat \<Rightarrow> block) \<Rightarrow> nat list \<times> bstate \<times> 'd \<Rightarrow> nat list \<times> bstate \<Rightarrow> bool" where
  "sim ct dsk c a \<longleftrightarrow> (case c of (q, s, d) \<Rightarrow> \<exists>D. a = (q, s\<lparr>disk := D\<rparr>) \<and> pend ct dsk q s d D)"

lemma idestart_ok:
  assumes "controller_ok ct dsk" "askable b"
  shows "idestart ct b d = Inr (ct_exec ct (ide_regs b @ ide_cmd b) d)"
proof -
  have "idewait False (ct_status ct d) = Some 0" using assms(1) idewait_weaken by (auto simp: controller_ok_def)
  then show ?thesis using assms(2) by (simp add: idestart_def askable_def BSIZE_def SECTOR_SIZE_def)
qed

text \<open>What the controller has done when it interrupts.\<close>

lemma command_done:
  assumes "controller_ok ct dsk" "askable b" and d: "d = ct_done ct (ct_exec ct (ide_regs b @ ide_cmd b) d0)"
  shows "b_dirty b \<Longrightarrow> dsk d 1 (unat n) = (if n = b_blockno b then b_data b else dsk d0 1 (unat n))"
    "\<not> b_dirty b \<Longrightarrow> dsk d = dsk d0 \<and> ct_rdata ct d = dsk d0 1 (unat (b_blockno b))"
proof -
  have s: "selects (ide_regs b) 1 (unat (b_blockno b))" using assms(2) by (intro idestart_regs) (auto simp: askable_def)
  have c: "ide_cmd b = (if b_dirty b then [Outb 0x1f7 0x30, Outsl 0x1f0 (b_data b)] else [Outb 0x1f7 0x20])"
    by (simp add: ide_cmd_def BSIZE_def SECTOR_SIZE_def IDE_CMD_READ_def IDE_CMD_WRITE_def)
  note k = assms(1) [unfolded controller_ok_def, THEN conjunct2, rule_format, OF s, of d0, unfolded Let_def]
  show "b_dirty b \<Longrightarrow> dsk d 1 (unat n) = (if n = b_blockno b then b_data b else dsk d0 1 (unat n))"
    using k unfolding d c by (auto simp: word_unat_eq_iff)
  show "\<not> b_dirty b \<Longrightarrow> dsk d = dsk d0 \<and> ct_rdata ct d = dsk d0 1 (unat (b_blockno b))"
    using k unfolding d c by simp
qed

lemma sim_request:
  assumes c: "controller_ok ct dsk" and s: "sim ct dsk (q, s, d) a" and ok: "ev_ok (Request i) a"
  shows "\<exists>c' a'. ide_step ct (Request i) (q, s, d) = Inr c' \<and> mem_step (Request i) a = Inr a' \<and> sim ct dsk c' a'"
proof -
  obtain D where a: "a = (q, s\<lparr>disk := D\<rparr>)" and p: "pend ct dsk q s d D" using s by (auto simp: sim_def)
  have i: "i < length (bufs s)" "i \<notin> set q" "askable (bufs s ! i)" using ok a by auto
  have h: "hd (q @ [i]) = i \<longleftrightarrow> q = []" using i(2) by (cases q) auto
  let ?d = "if q = [] then ct_exec ct (ide_regs (bufs s ! i) @ ide_cmd (bufs s ! i)) d else d"
  have "ide_step ct (Request i) (q, s, d) = Inr (q @ [i], s, ?d)"
    using i(3) idestart_ok [OF c i(3), of d] by (auto simp: ide_request_def Let_def h askable_def)
  moreover have "sim ct dsk (q @ [i], s, ?d) (q @ [i], s\<lparr>disk := D\<rparr>)"
    using i p by (cases q) (auto simp: sim_def pend_def)
  ultimately show ?thesis using a by simp
qed

lemma sim_change:
  assumes s: "sim ct dsk (q, s, d) a" and ok: "ev_ok (Change i b) a"
  shows "\<exists>c' a'. ide_step ct (Change i b) (q, s, d) = Inr c' \<and> mem_step (Change i b) a = Inr a' \<and> sim ct dsk c' a'"
proof -
  obtain D where a: "a = (q, s\<lparr>disk := D\<rparr>)" and p: "pend ct dsk q s d D" using s by (auto simp: sim_def)
  have i: "(bufs s)[i := b] ! j = bufs s ! j" if "j \<in> set q" for j using that ok a by (intro nth_list_update_neq) auto
  have "sim ct dsk (q, s\<lparr>bufs := (bufs s)[i := b]\<rparr>, d) (q, s\<lparr>disk := D, bufs := (bufs s)[i := b]\<rparr>)"
    using i p by (cases q) (auto simp: sim_def pend_def intro!: exI [of _ D])
  then show ?thesis using a by simp
qed

lemma clean_same: "\<not> b_dirty b \<Longrightarrow> b\<lparr>b_data := x, b_dirty := False, b_valid := v\<rparr> = b\<lparr>b_data := x, b_valid := v\<rparr>"
  by (cases b) simp

lemma sim_intr:
  assumes c: "controller_ok ct dsk" and s: "sim ct dsk (q, s, d) a"
  shows "\<exists>c' a'. ide_step ct Intr (q, s, d) = Inr c' \<and> mem_step Intr a = Inr a' \<and> sim ct dsk c' a'"
proof -
  obtain D where a: "a = (q, s\<lparr>disk := D\<rparr>)" and p: "pend ct dsk q s d D" using s by (auto simp: sim_def)
  show ?thesis
  proof (cases q)
    case Nil
    then show ?thesis using s a by (auto simp: ideintr_def)
  next
    case (Cons i r)
    let ?b = "bufs s ! i" and ?d = "ct_done ct d"
    obtain d0 where d0: "d = ct_exec ct (ide_regs ?b @ ide_cmd ?b) d0" "\<forall>n. D n = dsk d0 1 (unat n)" using p Cons by (auto simp: pend_def)
    have b: "i < length (bufs s)" "askable ?b" using p Cons by (auto simp: pend_def)
    note fin = command_done [OF c b(2), of ?d d0]
    let ?b' = "if b_dirty ?b then ?b else ?b\<lparr>b_data := ct_rdata ct ?d\<rparr>"
    let ?B = "(bufs s)[i := ?b'\<lparr>b_dirty := False, b_valid := True\<rparr>]"
    let ?s = "s\<lparr>bufs := ?B, dwrites := dwrites s @ (if b_dirty ?b then [(b_blockno ?b, b_data ?b)] else []), wakes := wakes s @ [Ch_buf i]\<rparr>"
    let ?D = "if b_dirty ?b then D(b_blockno ?b := b_data ?b) else D"
    have D: "?D n = dsk ?d 1 (unat n)" for n using fin d0 by auto
    have B: "?B ! j = bufs s ! j" if "j \<in> set r" for j using that p Cons by (intro nth_list_update_neq) (auto simp: pend_def)
    let ?e = "if r = [] then ?d else ct_exec ct (ide_regs (bufs s ! hd r) @ ide_cmd (bufs s ! hd r)) ?d"
    have hd: "hd r \<in> set q \<and> hd r \<in> set r" if "r \<noteq> []" using that Cons by simp
    have wait: "idewait True (ct_status ct ?d) = Some 0" using c by (simp add: controller_ok_def)
    have "ide_step ct Intr (q, s, d) = Inr (r, ?s, ?e)"
      using Cons wait idestart_ok [OF c, of "bufs s ! hd r" ?d] p hd B by (auto simp: ideintr_def Let_def pend_def)
    moreover have "mem_step Intr a = Inr (r, ?s\<lparr>disk := ?D\<rparr>)"
      using b(2) a p Cons d0 fin
      by (auto simp: pend_def iderw_def Let_def askable_def word_le_nat_alt clean_same intro!: bstate.equality)
    moreover have "sim ct dsk (r, ?s, ?e) (r, ?s\<lparr>disk := ?D\<rparr>)"
    proof -
      have "\<forall>j\<in>set r. j < length ?B \<and> askable (?B ! j)" using p Cons B by (auto simp: pend_def)
      then have "pend ct dsk r ?s ?e ?D" using p Cons D B by (cases r) (auto simp: pend_def)
      then show ?thesis unfolding sim_def by blast
    qed
    ultimately show ?thesis by blast
  qed
qed

lemma sim_step:
  assumes "controller_ok ct dsk" "sim ct dsk c a" "ev_ok ev a"
  shows "\<exists>c' a'. ide_step ct ev c = Inr c' \<and> mem_step ev a = Inr a' \<and> sim ct dsk c' a'"
proof -
  obtain q s d where c: "c = (q, s, d)" by (cases c)
  show ?thesis
  proof (cases ev)
    case (Request i)
    then show ?thesis using sim_request [OF assms(1), of q s d a i] assms(2,3) c by simp
  next
    case Intr
    then show ?thesis using sim_intr [OF assms(1), of q s d a] assms(2) c by simp
  next
    case (Change i b)
    then show ?thesis using sim_change [of ct dsk q s d a i b] assms(2,3) c by simp
  qed
qed

lemma sim_run:
  "controller_ok ct dsk \<Longrightarrow> sim ct dsk c a \<Longrightarrow> run_ok evs a \<Longrightarrow>
   \<exists>c' a'. ide_run ct evs c = Inr c' \<and> mem_run evs a = Inr a' \<and> sim ct dsk c' a'"
proof (induction evs arbitrary: c a)
  case (Cons ev evs)
  then obtain c' a' where "ide_step ct ev c = Inr c'" "mem_step ev a = Inr a'" "sim ct dsk c' a'"
    using sim_step by (metis run_ok.simps(2))
  then show ?case using Cons.IH [of c' a'] Cons.prems by simp
qed simp

text \<open>
  C29: with a controller that does what it is told, the interrupt-driven driver serves requests as the
  synchronous one does, in the order they were made. For every sequence of requests for locked buffers,
  interrupts, and changes of buffers that are not queued, no call panics or hangs; the buffers, the
  blocks written and the processes woken are those of \<open>memide.c\<close> serving the head of the queue at each
  interrupt, and when the queue is empty so is the disk.
\<close>

theorem ide_refines_memide:
  assumes "controller_ok ct dsk" "unat (disksize s) = FSSIZE" "run_ok evs ([], s\<lparr>disk := \<lambda>n. dsk d 1 (unat n)\<rparr>)"
  shows "\<exists>q s' d' D. ide_run ct evs ([], s, d) = Inr (q, s', d') \<and>
    mem_run evs ([], s\<lparr>disk := \<lambda>n. dsk d 1 (unat n)\<rparr>) = Inr (q, s'\<lparr>disk := D\<rparr>) \<and>
    (q = [] \<longrightarrow> (\<forall>n. D n = dsk d' 1 (unat n)))"
proof -
  have "sim ct dsk ([], s, d) ([], s\<lparr>disk := \<lambda>n. dsk d 1 (unat n)\<rparr>)" using assms(2) by (auto simp: sim_def pend_def)
  then obtain c' a' where "ide_run ct evs ([], s, d) = Inr c'" "mem_run evs ([], s\<lparr>disk := \<lambda>n. dsk d 1 (unat n)\<rparr>) = Inr a'" "sim ct dsk c' a'"
    using sim_run [OF assms(1) _ assms(3)] by blast
  then show ?thesis by (cases c') (auto simp: sim_def pend_def)
qed

text \<open>A controller that keeps its command until it is finished.\<close>

type_synonym demo_dev = "(nat \<Rightarrow> nat \<Rightarrow> block) \<times> portop list \<times> block"

definition sector_of :: "portop list \<Rightarrow> nat" where
  "sector_of ops = unat (the (reg ops 0x1f3)) + 2 ^ 8 * unat (the (reg ops 0x1f4)) + 2 ^ 16 * unat (the (reg ops 0x1f5))
     + 2 ^ 24 * (unat (the (reg ops 0x1f6)) mod 16)"

definition drive_of :: "portop list \<Rightarrow> nat" where
  "drive_of ops = unat (the (reg ops 0x1f6)) div 16 mod 2"

fun demo_finish :: "demo_dev \<Rightarrow> demo_dev" where
  "demo_finish (D, ops, r) =
     (case rev ops of
        Outsl p b # x # rs \<Rightarrow>
          let k = drive_of (rev rs); n = sector_of (rev rs) in (D(k := (D k)(n := b)), [], r)
      | x # rs \<Rightarrow> (D, [], D (drive_of (rev rs)) (sector_of (rev rs)))
      | [] \<Rightarrow> (D, [], r))"

definition demo_controller :: "demo_dev controller" where
  "demo_controller = \<lparr>ct_status = \<lambda>d. [0x80, 0x40], ct_exec = \<lambda>ops (D, old, r). (D, ops, r),
     ct_rdata = \<lambda>(D, ops, r). r, ct_done = demo_finish\<rparr>"

lemma demo_controller_ok: "controller_ok demo_controller fst"
proof -
  have "selects ops k n \<Longrightarrow> drive_of ops = k \<and> sector_of ops = n" for ops k n
    by (auto simp: selects_def drive_of_def sector_of_def split: option.splits)
  then show ?thesis
    by (auto simp: controller_ok_def demo_controller_def Let_def IDE_BSY_def IDE_DRDY_def IDE_DF_def IDE_ERR_def)
qed

definition ide_demo :: bstate where
  "ide_demo = \<lparr>bufs = replicate 2 (zero_buf\<lparr>b_lock := \<lparr>sl_locked = True, sl_pid = 1\<rparr>, b_dev := 1\<rparr>), lru = [0, 1],
     disk = \<lambda>_ _. 0, disksize = 2000, dwrites = [], wakes = [], curpid = 1\<rparr>"

definition ide_demo_dev :: demo_dev where
  "ide_demo_dev = (\<lambda>_ _ _. 7, [], \<lambda>_. 0)"

theorem ide_refines_memide_witness:
  "\<exists>q s' d' D. ide_run demo_controller [Request 0, Request 1, Intr, Intr] ([], ide_demo, ide_demo_dev) = Inr (q, s', d') \<and>
    mem_run [Request 0, Request 1, Intr, Intr] ([], ide_demo\<lparr>disk := \<lambda>n. fst ide_demo_dev 1 (unat n)\<rparr>) = Inr (q, s'\<lparr>disk := D\<rparr>) \<and>
    (q = [] \<longrightarrow> (\<forall>n. D n = fst d' 1 (unat n)))"
proof (rule ide_refines_memide [OF demo_controller_ok])
  show "unat (disksize ide_demo) = FSSIZE" by (simp add: ide_demo_def FSSIZE_def)
qed (simp add: ide_demo_def askable_def zero_buf_def FSSIZE_def holdingsleep_def iderw_def)

end
