(* ===== verification/Spec2Isabelle.thy ===== *)
theory Spec2Isabelle
  imports Agent Runcmd Refine Fsio Kbd Ulib Umalloc Mp Ide
begin

text \<open>
  Verification library of the xv6-x64 kernel with the agent-tuned MLFQ/SJF scheduler.

  \<^bold>\<open>The program.\<close> A small multiprocessor Unix kernel. \<open>proc.c\<close> keeps a table of
  64 processes and schedules them by multi-level feedback queues with a shortest-job score, aging and a periodic
  boost, or by round robin. \<open>trap.c\<close> charges timer ticks to the running process and preempts it;
  \<open>sysproc.c\<close> exports telemetry and accepts new parameters from one registered user process, the
  agent \<open>sagent.c\<close>. Below are spin locks, page tables over a page allocator, a logging file system
  on a buffer cache, pipes, the console, \<open>exec\<close>; above are the shell, \<open>grep\<close> and the
  user allocator.

  \<^bold>\<open>Conventions\<close> (theory Prelude). \<open>int\<close> of C is an integer kept in range by
  \<open>s32\<close>, \<open>uint\<close> and \<open>addr_t\<close> are words of 32 and 64 bits. An operation
  that can panic, fault, sleep or run forever returns \<open>failure + 'a\<close>: \<open>Inl (Panic
  msg)\<close> is a call of \<open>panic\<close> with that message or a fault in the kernel
  (\<open>trap\<close>), \<open>Inl Diverges\<close> a loop that never ends, \<open>Inl (Sleeps c)\<close> a
  wait on channel \<open>c\<close> inside a file system call; a division by zero, a null pointer and an index
  out of range are failures too. Structures are records, pointers into a fixed table are indices. A critical
  section of a lock is one function, so the lock is not a field, except in Spinlock, which justifies this.

  \<^bold>\<open>Processes and scheduling.\<close>
  \<^item> Params: \<open>struct sched_params\<close>, its defaults (\<open>pinit\<close>), and the validation
    and commit of an update.
  \<^item> Spinlock: \<open>pushcli\<close>, \<open>popcli\<close>, and
    \<open>acquire\<close>/\<open>release\<close> as a step relation of any number of CPUs; mutual exclusion by
    rule induction.
  \<^item> Proc: \<open>struct proc\<close>, the global state \<open>pstate\<close> and the operations of
    \<open>proc.c\<close> on the table (\<open>sched\<close>, \<open>yield\<close>, \<open>sleep\<close>,
    \<open>wakeup\<close>, \<open>kill\<close>, alarms, the table parts of \<open>fork\<close>,
    \<open>exit\<close>, \<open>wait\<close>).
  \<^item> Scheduler: a turn of \<open>scheduler\<close>. The selection is characterised exactly; round robin
    starves nobody; aging bounds the wait; the boost is due after its interval across the wrap-around of
    \<open>ticks\<close>.
  \<^item> Timer: the timer interrupt of \<open>trap.c\<close>, the accounting of ticks and the fixed-point
    averages.
  \<^item> Sysproc: the handlers of \<open>sysproc.c\<close> and the argument fetchers of
    \<open>syscall.c\<close> on user memory.
  \<^item> Multicpu, Cpus, Reachable: the table shared by all CPUs as a transition system (\<open>pstep\<close>,
    \<open>preach\<close>), where a step is one critical section on some CPU. \<open>slot_inv\<close> is the
    locale of invariants that hold slot by slot, interpreted for the telemetry and for the shape of a slot. In
    every reachable state no switching function panics, every running process is on exactly one CPU, process
    identifiers are unique, and the agent stays alive in queue 0.
  \<^item> Agent: the signals, rules and rounds of \<open>sagent.c\<close>; its updates are always accepted but
    for the field it never sets.

  \<^bold>\<open>Memory.\<close> Strings is \<open>string.c\<close> with loads and stores over bytes. Kalloc is
  \<open>kalloc.c\<close> with the free list inside the free pages, under the locale
  \<open>page_allocator\<close>. Vm is \<open>vm.c\<close> on that memory; Pagetable proves that
  \<open>mappages\<close> maps exactly its range and keeps the tables a tree.

  \<^bold>\<open>Files.\<close> Bio is \<open>bio.c\<close> on the disk of \<open>memide.c\<close>, under the
  locale \<open>block_cache\<close>; Ide is the interrupt-driven driver \<open>ide.c\<close>, which serves
  requests as \<open>memide.c\<close> does. Log is \<open>log.c\<close> and proves that a commit is atomic:
  whatever prefix of its disk writes happened, recovery gives the old or the new blocks. Fs is
  \<open>fs.c\<close> completely. Fsblocks (total correctness inside a transaction and the block allocator),
  Fsdata (files as partial functions from block numbers) and Fsio prove that \<open>readi\<close> returns what
  \<open>writei\<close> wrote and that nothing else changes. Ring has the free-running ring buffers and the
  locale \<open>fifo\<close>, interpreted on pipes; Pipe is \<open>pipe.c\<close>. File, Sysfile and Exec are
  \<open>file.c\<close>, \<open>sysfile.c\<close> and \<open>exec.c\<close> on the kernel state
  \<open>kern\<close>, which composes the process table, the file system, physical memory, the open files and
  the pipes.

  \<^bold>\<open>The composed kernel.\<close> Kernel has \<open>fork\<close>, \<open>exit\<close>,
  \<open>wait\<close>, \<open>growproc\<close>, signal delivery, the dispatch table of \<open>syscall.c\<close>,
  and \<open>kstep\<close>, the steps of the machine: boot, a scheduler turn, a timer interrupt, a fault, a
  system call, a resumed call. Refine proves that every such step acts on the process table as a sequence of the
  steps of Multicpu, so that its invariants hold of the whole kernel.

  \<^bold>\<open>Devices and user programs.\<close> Mp finds the processors in the tables of the firmware
  (\<open>mp.c\<close>). Console is \<open>console.c\<close>, whose input buffer implements a line editor; Kbd
  is \<open>kbd.c\<close>. Sh is the parser of \<open>sh.c\<close>: it returns on every line, its commands are
  well typed, and it inverts a printer. Runcmd is its \<open>runcmd\<close>: every program of a line gets the
  descriptors the line asks for. Ulib is \<open>ulib.c\<close> and \<open>printf.c\<close>. Grep is the matcher
  and the buffering of \<open>grep.c\<close>. Umalloc is \<open>umalloc.c\<close>: over any sequence of calls
  live blocks never overlap.

  \<^bold>\<open>Bounds and loops.\<close> Loops are structural recursion or have a termination proof. The fuel
  of the shell parser is four levels for each byte of the line plus four, which is proved enough.
  \<open>strlen\<close>, \<open>strcpy\<close>, \<open>strcmp\<close> and the two loops of
  \<open>umalloc.c\<close> are partial functions; the allocator is proved to return on every heap it can build.
  \<open>mappages\<close> gets one unit of fuel for each page of its range, and more than 2^52 pages have
  wrapped around; \<open>allocuvm\<close> and \<open>loaduvm\<close> diverge where their counter wraps.
  \<open>balloc\<close> counts blocks in an \<open>int\<close>, modelled by a natural number under a file system
  of fewer than 2^31 blocks. A call that blocks is cut into rounds at its calls of \<open>sleep\<close>. Reading
  back what was written asks for room in the log for the blocks the call may change, as \<open>filewrite\<close>
  arranges.

  \<^bold>\<open>Simplifications.\<close> The two critical sections of \<open>sys_register_agent\<close> are one
  step. \<open>memset\<close> is not limited to 2^31 bytes by the \<open>int\<close> count of
  \<open>stosb\<close>. A block is one sector, so that writing the log header is atomic. \<open>wakes\<close>
  (channels woken) and \<open>dwrites\<close> (disk writes, in order) are history fields. A handler that returns
  \<open>int\<close> leaves it in \<open>rax\<close> with the upper half cleared. A buffer that
  \<open>argptr\<close> accepts and that is not mapped gives the failure \<open>trap\<close>. Uninitialised name
  buffers are zero. Console output is left out of the system calls.

  \<^bold>\<open>Not modelled.\<close> The interrupt controllers, the serial line, \<open>seginit\<close>,
  \<open>syscallinit\<close>, the gate table, \<open>main.c\<close>, the boot loader and the assembly files
  program device registers or the processor, and the kernel does not read their effect back.
  \<open>panic\<close> ends the model. \<open>mkfs.c\<close> runs on the host. \<open>main\<close> of
  \<open>grep\<close> and the small programs are sequences of system calls without data of their own; the
  benchmarks, attack demonstrations and tests only exercise the system calls.
\<close>

end
